(* ===== verification/Sylar_Prelude.thy ===== *)
theory Sylar_Prelude
  imports Main "HOL-Library.Word"
begin

text \<open>
  Shared vocabulary of the development: the machine integer types the C++ sources use, the
  faults an operation can end in, the state and exception monad in which the stateful classes
  are written, the unsigned subtraction of \<open>size_t\<close>, and list lemmas on overwriting and slicing
  that several components need.
\<close>

unbundle bit_operations_syntax

section \<open>Machine types\<close>

type_synonym byte = "8 word"
type_synonym u8 = "8 word"
type_synonym u16 = "16 word"
type_synonym u32 = "32 word"
type_synonym u64 = "64 word"

text \<open>Signed integers are words read with \<^const>\<open>sint\<close> (two's complement).\<close>

type_synonym s8 = "8 word"
type_synonym s16 = "16 word"
type_synonym s32 = "32 word"
type_synonym s64 = "64 word"

section \<open>Faults\<close>

text \<open>
  Every way a call can fail to return normally: a C++ exception (which a caller can catch), a
  failed assertion (which aborts), and the undefined behaviours that the sources can reach: a
  null pointer dereference, an access outside a block of memory, a division by zero, a shift or a
  signed operation outside the range of its type, and a switch to a coroutine context that does
  not hold what a switch away from it has saved.
\<close>

datatype exn = Out_Of_Range string | Logic_Error string | Invalid_Argument string

datatype fault =
    Exn exn
  | Assertion string
  | Null_Deref
  | Out_Of_Bounds
  | Div_By_Zero
  | Bad_Arith
  | Stale_Context

section \<open>State and exceptions\<close>

text \<open>
  A method is a function of the object's state. It returns the state in every case, since a
  thrown exception leaves whatever the method had changed by then.
\<close>

type_synonym ('s, 'a) action = "'s \<Rightarrow> (fault + 'a) \<times> 's"

definition ret :: "'a \<Rightarrow> ('s, 'a) action" where
  "ret a = (\<lambda>s. (Inr a, s))"

definition throw :: "fault \<Rightarrow> ('s, 'a) action" where
  "throw e = (\<lambda>s. (Inl e, s))"

definition seq :: "('s, 'a) action \<Rightarrow> ('a \<Rightarrow> ('s, 'b) action) \<Rightarrow> ('s, 'b) action" where
  "seq m f = (\<lambda>s. case m s of (Inl e, s') \<Rightarrow> (Inl e, s') | (Inr a, s') \<Rightarrow> f a s')"

named_theorems method_simps \<open>evaluation of the combinators\<close>

lemma ret_apply [method_simps]: "ret a s = (Inr a, s)"
  by (simp add: ret_def)

lemma throw_apply [method_simps]: "throw e s = (Inl e, s)"
  by (simp add: throw_def)

lemma seq_Inr [method_simps]: "m s = (Inr a, s') \<Longrightarrow> seq m f s = f a s'"
  by (simp add: seq_def)

lemma seq_Inl [method_simps]: "m s = (Inl e, s') \<Longrightarrow> seq m f s = (Inl e, s')"
  by (simp add: seq_def)

lemma seq_InrE:
  assumes "seq m f s = (Inr b, s'')"
  obtains a s' where "m s = (Inr a, s')" and "f a s' = (Inr b, s'')"
  using assms by (auto simp: seq_def split: prod.splits sum.splits)

lemma seq_assoc: "seq (seq m f) g = seq m (\<lambda>a. seq (f a) g)"
  by (rule ext) (simp add: seq_def split: prod.split sum.split)

section \<open>Unsigned subtraction of \<open>size_t\<close>\<close>

text \<open>
  Sizes and positions are natural numbers. Memory limits keep sums below \<open>2 ^ 64\<close>; a difference
  wraps around when it would be negative, and the wrap is written out.
\<close>

definition size_sub :: "nat \<Rightarrow> nat \<Rightarrow> nat" where
  "size_sub a b = (if b \<le> a then a - b else a + 2 ^ 64 - b)"

lemma size_sub_le [simp]: "b \<le> a \<Longrightarrow> size_sub a b = a - b"
  by (simp add: size_sub_def)

section \<open>Overwriting a slice of a list\<close>

definition splice :: "nat \<Rightarrow> 'a list \<Rightarrow> 'a list \<Rightarrow> 'a list" where
  "splice i ys xs = take i xs @ ys @ drop (i + length ys) xs"

lemma splice_Nil [simp]: "splice i [] xs = xs"
  by (simp add: splice_def)

lemma length_splice [simp]:
  "i + length ys \<le> length xs \<Longrightarrow> length (splice i ys xs) = length xs"
  by (simp add: splice_def)

lemma take_splice_before: "j \<le> i \<Longrightarrow> i \<le> length xs \<Longrightarrow> take j (splice i ys xs) = take j xs"
  by (simp add: splice_def min_def)

lemma take_drop_splice [simp]:
  "i \<le> length xs \<Longrightarrow> take (length ys) (drop i (splice i ys xs)) = ys"
  by (simp add: splice_def)

lemma drop_splice_after [simp]:
  "i \<le> length xs \<Longrightarrow> drop (i + length ys) (splice i ys xs) = drop (i + length ys) xs"
  by (simp add: splice_def)

lemma splice_append_left:
  "i + length ys \<le> length xs \<Longrightarrow> splice i ys (xs @ zs) = splice i ys xs @ zs"
  by (simp add: splice_def)

lemma splice_append_right:
  assumes "length xs \<le> i"
  shows "splice i ys (xs @ zs) = xs @ splice (i - length xs) ys zs"
proof -
  have "i + length ys - length xs = i - length xs + length ys"
    using assms by simp
  then show ?thesis
    using assms by (simp add: splice_def)
qed

lemma splice_append_both:
  assumes "length xs = i + length ys"
  shows "splice i (ys @ ys') (xs @ zs) = splice i ys xs @ splice 0 ys' zs"
  by (simp add: splice_def assms)

lemma splice_whole: "splice 0 ys xs = ys @ drop (length ys) xs"
  by (simp add: splice_def)

text \<open>Two adjacent slices make one, and a write is a write of its two parts.\<close>

lemma slice_append_slice: "take k (drop i xs) @ take m (drop (i + k) xs) = take (k + m) (drop i xs)"
  by (simp add: take_add add.commute)

lemma splice_in_two:
  assumes "i + k \<le> length xs" and "k \<le> length ys"
  shows "splice (i + k) (drop k ys) (splice i (take k ys) xs) = splice i ys xs"
proof -
  have "take k ys @ drop k ys @ zs = ys @ zs" for zs
    by (metis append_assoc append_take_drop_id)
  then show ?thesis
    using assms by (simp add: splice_def min_def add.commute)
qed

lemma slice_append_left: "i + n \<le> length xs \<Longrightarrow> take n (drop i (xs @ ys)) = take n (drop i xs)"
  by simp

end
