(* ===== verification/Endian.thy ===== *)
theory Endian
  imports Sylar_Prelude
begin

text \<open>
  \<open>sylar/endian.h\<close>: byte order. The order of the machine the library is compiled for
  (\<open>SYLAR_BYTE_ORDER\<close>) is the argument \<open>host\<close> of every definition that depends on it, so that
  each theorem covers a little-endian and a big-endian build.
\<close>

section \<open>Byte order and the memory image of an integer\<close>

datatype endian = SYLAR_LITTLE_ENDIAN | SYLAR_BIG_ENDIAN

text \<open>The \<open>n\<close> low bytes of a word, least significant first, and the word they spell.\<close>

primrec le_bytes :: "nat \<Rightarrow> 'a::len word \<Rightarrow> byte list" where
  "le_bytes 0 v = []"
| "le_bytes (Suc n) v = ucast v # le_bytes n (drop_bit 8 v)"

primrec of_le_bytes :: "byte list \<Rightarrow> 'a::len word" where
  "of_le_bytes [] = 0"
| "of_le_bytes (b # bs) = ucast b OR push_bit 8 (of_le_bytes bs)"

text \<open>The bytes of an integer in an array of the given byte order, and back.\<close>

definition bytes_in :: "endian \<Rightarrow> nat \<Rightarrow> 'a::len word \<Rightarrow> byte list" where
  "bytes_in e n v = (case e of SYLAR_LITTLE_ENDIAN \<Rightarrow> le_bytes n v | SYLAR_BIG_ENDIAN \<Rightarrow> rev (le_bytes n v))"

definition of_bytes_in :: "endian \<Rightarrow> byte list \<Rightarrow> 'a::len word" where
  "of_bytes_in e bs = (case e of SYLAR_LITTLE_ENDIAN \<Rightarrow> of_le_bytes bs | SYLAR_BIG_ENDIAN \<Rightarrow> of_le_bytes (rev bs))"

lemma length_le_bytes [simp]: "length (le_bytes n v) = n"
  by (induction n arbitrary: v) simp_all

lemma length_bytes_in [simp]: "length (bytes_in e n v) = n"
  by (simp add: bytes_in_def split: endian.split)

lemma bit_of_le_bytes_step:
  fixes v :: "'a::len word"
  shows "(ucast (ucast v :: byte) OR push_bit 8 (take_bit m (drop_bit 8 v)) :: 'a word) = take_bit (8 + m) v"
  by (rule bit_word_eqI) (auto simp: bit_simps dest: bit_imp_le_length)

lemma of_le_bytes_le_bytes: "of_le_bytes (le_bytes n v) = take_bit (8 * n) (v :: 'a::len word)"
  by (induction n arbitrary: v) (simp_all add: bit_of_le_bytes_step)

lemma of_le_bytes_inverse [simp]:
  "LENGTH('a) \<le> 8 * n \<Longrightarrow> of_le_bytes (le_bytes n v) = (v :: 'a::len word)"
  by (simp add: of_le_bytes_le_bytes take_bit_word_eq_self)

lemma of_bytes_in_inverse [simp]:
  "LENGTH('a) \<le> 8 * n \<Longrightarrow> of_bytes_in e (bytes_in e n v) = (v :: 'a::len word)"
  by (simp add: of_bytes_in_def bytes_in_def split: endian.split)

lemma ucast_low_byte:
  assumes "8 \<le> LENGTH('a)"
  shows "(ucast (ucast b OR push_bit 8 w :: 'a::len word) :: byte) = b"
  using assms by (intro bit_word_eqI) (auto simp: bit_simps)

lemma drop_low_byte:
  assumes "8 * Suc n \<le> LENGTH('a)" and "take_bit (8 * n) w = w"
  shows "drop_bit 8 (ucast (b :: byte) OR push_bit 8 w :: 'a::len word) = w"
proof (rule bit_word_eqI)
  fix i
  assume "i < LENGTH('a)"
  have w: "bit w j \<Longrightarrow> j < 8 * n" for j
    by (metis assms(2) bit_take_bit_iff)
  show "bit (drop_bit 8 (ucast b OR push_bit 8 w :: 'a word)) i = bit w i"
    using assms(1) \<open>i < LENGTH('a)\<close> w [of i]
    by (auto simp: bit_simps dest: bit_imp_le_length)
qed

lemma take_bit_of_le_bytes [simp]:
  "take_bit (8 * length bs) (of_le_bytes bs :: 'a::len word) = of_le_bytes bs"
proof (induction bs)
  case (Cons b bs)
  have w: "bit (of_le_bytes bs :: 'a word) j \<Longrightarrow> j < 8 * length bs" for j
    by (metis Cons.IH bit_take_bit_iff)
  show ?case
  proof (rule bit_word_eqI)
    fix i
    assume "i < LENGTH('a)"
    then show "bit (take_bit (8 * length (b # bs)) (of_le_bytes (b # bs)) :: 'a word) i =
        bit (of_le_bytes (b # bs) :: 'a word) i"
      using w [of "i - 8"] by (auto simp: bit_simps dest: bit_imp_le_length)
  qed
qed simp

lemma le_bytes_of_le_bytes:
  "8 * length bs \<le> LENGTH('a) \<Longrightarrow> le_bytes (length bs) (of_le_bytes bs :: 'a::len word) = bs"
proof (induction bs)
  case (Cons b bs)
  let ?w = "ucast b OR push_bit 8 (of_le_bytes bs) :: 'a word"
  have "drop_bit 8 ?w = of_le_bytes bs"
    using Cons.prems by (intro drop_low_byte [of "length bs"]) simp_all
  moreover have "(ucast ?w :: byte) = b"
    using Cons.prems by (intro ucast_low_byte) simp
  ultimately show ?case
    using Cons by (simp del: drop_bit_or)
qed simp

lemma bytes_in_of_bytes_in:
  "8 * length bs \<le> LENGTH('a) \<Longrightarrow> bytes_in e (length bs) (of_bytes_in e bs :: 'a::len word) = bs"
  using le_bytes_of_le_bytes [of bs, where 'a = 'a] le_bytes_of_le_bytes [of "rev bs", where 'a = 'a]
  by (simp add: of_bytes_in_def bytes_in_def split: endian.split)

section \<open>byteswap\<close>

text \<open>
  \<open>bswap_16\<close>, \<open>bswap_32\<close> and \<open>bswap_64\<close> of \<open>byteswap.h\<close> reverse the bytes of a word. The template
  \<open>byteswap\<close> picks the one whose width is that of its argument; signed arguments are cast to
  unsigned and back, which keeps the bits.
\<close>

definition bswap :: "nat \<Rightarrow> 'a::len word \<Rightarrow> 'a word" where
  "bswap n v = of_le_bytes (rev (le_bytes n v))"

definition byteswap64 :: "u64 \<Rightarrow> u64" where
  "byteswap64 value = bswap 8 value"

definition byteswap32 :: "u32 \<Rightarrow> u32" where
  "byteswap32 value = bswap 4 value"

definition byteswap16 :: "u16 \<Rightarrow> u16" where
  "byteswap16 value = bswap 2 value"

text \<open>
  A swap of an \<open>n\<close>-byte integer, as the classes that convert integers use it: the conversion
  done when the wanted order is not the host's (\<open>if(m_endian != SYLAR_BYTE_ORDER)\<close>) leaves in
  memory exactly the bytes of the wanted order, whatever the host's own order is.
\<close>

locale byte_swapper =
  fixes swap :: "'a::len word \<Rightarrow> 'a word" and n :: nat
  assumes width: "LENGTH('a) = 8 * n"
    and le_bytes_swap: "le_bytes n (swap v) = rev (le_bytes n v)"
begin

lemma inverse [simp]: "of_bytes_in e (bytes_in e n v) = (v :: 'a word)"
  by (simp add: width)

lemma swap_swap [simp]: "swap (swap v) = v"
proof -
  have "le_bytes n (swap (swap v)) = le_bytes n v"
    by (simp add: le_bytes_swap)
  then have "(of_le_bytes (le_bytes n (swap (swap v))) :: 'a word) = of_le_bytes (le_bytes n v)"
    by simp
  then show ?thesis by (simp add: width)
qed

lemma bytes_in_swap: "e \<noteq> e' \<Longrightarrow> bytes_in e' n (swap v) = bytes_in e n v"
  by (cases e; cases e') (simp_all add: bytes_in_def le_bytes_swap)

lemma to_wire: "bytes_in host n (if e \<noteq> host then swap v else v) = bytes_in e n v"
  by (simp add: bytes_in_swap)

lemma from_wire:
  "(if e = host then of_bytes_in host (bytes_in e n v) else swap (of_bytes_in host (bytes_in e n v))) = v"
proof (cases "e = host")
  case False
  then have "bytes_in e n v = bytes_in host n (swap v)"
    by (simp add: bytes_in_swap)
  with False show ?thesis by simp
qed simp

lemma from_wire_bytes:
  assumes "length bs = n"
  shows "(if e = host then of_bytes_in host bs else swap (of_bytes_in host bs)) = (of_bytes_in e bs :: 'a word)"
proof -
  have "bytes_in e n (of_bytes_in e bs :: 'a word) = bs"
    using bytes_in_of_bytes_in [of bs e, where 'a = 'a] by (simp add: assms width)
  then obtain v :: "'a word" where bs: "bs = bytes_in e n v"
    by metis
  show ?thesis
    unfolding bs using from_wire [of e host v] by simp
qed

end

lemma le_bytes_bswap: "8 * n \<le> LENGTH('a) \<Longrightarrow> le_bytes n (bswap n (v :: 'a::len word)) = rev (le_bytes n v)"
  using le_bytes_of_le_bytes [of "rev (le_bytes n v)", where 'a = 'a] by (simp add: bswap_def)

interpretation swap16: byte_swapper byteswap16 2
  by unfold_locales (simp_all add: byteswap16_def le_bytes_bswap)

interpretation swap32: byte_swapper byteswap32 4
  by unfold_locales (simp_all add: byteswap32_def le_bytes_bswap)

interpretation swap64: byte_swapper byteswap64 8
  by unfold_locales (simp_all add: byteswap64_def le_bytes_bswap)

section \<open>byteswapOnLittleEndian and byteswapOnBigEndian\<close>

text \<open>
  Each is the identity on one kind of host and \<open>byteswap\<close> on the other (\<open>swap\<close> is the overload
  of \<open>byteswap\<close> that the argument's width selects).
\<close>

definition byteswapOnLittleEndian :: "endian \<Rightarrow> ('a \<Rightarrow> 'a) \<Rightarrow> 'a \<Rightarrow> 'a" where
  "byteswapOnLittleEndian host swap t = (if host = SYLAR_BIG_ENDIAN then t else swap t)"

definition byteswapOnBigEndian :: "endian \<Rightarrow> ('a \<Rightarrow> 'a) \<Rightarrow> 'a \<Rightarrow> 'a" where
  "byteswapOnBigEndian host swap t = (if host = SYLAR_BIG_ENDIAN then swap t else t)"

context byte_swapper
begin

text \<open>Network order: the memory image of the converted integer is big-endian on every host.\<close>

lemma network_bytes: "bytes_in host n (byteswapOnLittleEndian host swap v) = bytes_in SYLAR_BIG_ENDIAN n v"
  by (cases host) (simp_all add: byteswapOnLittleEndian_def bytes_in_swap)

lemma little_bytes: "bytes_in host n (byteswapOnBigEndian host swap v) = bytes_in SYLAR_LITTLE_ENDIAN n v"
  by (cases host) (simp_all add: byteswapOnBigEndian_def bytes_in_swap)

lemma network_involution [simp]:
  "byteswapOnLittleEndian host swap (byteswapOnLittleEndian host swap v) = v"
  by (simp add: byteswapOnLittleEndian_def)

lemma little_involution [simp]:
  "byteswapOnBigEndian host swap (byteswapOnBigEndian host swap v) = v"
  by (simp add: byteswapOnBigEndian_def)

end

end
