(* ===== verification/File_Store.thy ===== *)
theory File_Store
  imports Endian
begin

text \<open>
  The contract between the storage of a byte array and the typed readers and writers on top of
  it: storage behaves as a random-access file. The locale \<open>byte_store\<close> states what the storage
  promises, \<open>codec\<close> what a pair of a writer and a reader of one type of value promises; the round
  trip of a single value and of a whole sequence of values is proved here once, for every store
  and every codec.
\<close>

section \<open>Random-access files\<close>

text \<open>
  A file is its contents and a position in them. Writing replaces what lies under the written
  bytes and extends the file when they reach past its end.
\<close>

record ra_file =
  contents :: "byte list"
  offset :: nat

definition file_write :: "byte list \<Rightarrow> ra_file \<Rightarrow> ra_file" where
  "file_write bs f = \<lparr>contents = splice (offset f) bs (contents f), offset = offset f + length bs\<rparr>"

definition file_left :: "ra_file \<Rightarrow> byte list" where
  "file_left f = drop (offset f) (contents f)"

definition file_skip :: "nat \<Rightarrow> ra_file \<Rightarrow> ra_file" where
  "file_skip n f = f\<lparr>offset := offset f + n\<rparr>"

named_theorems file_simps \<open>contents and position after a file operation\<close>

lemma file_write_sel [file_simps]:
  "offset (file_write bs f) = offset f + length bs"
  "contents (file_write bs f) = splice (offset f) bs (contents f)"
  by (simp_all add: file_write_def)

lemma file_skip_sel [file_simps]:
  "offset (file_skip n f) = offset f + n"
  "contents (file_skip n f) = contents f"
  by (simp_all add: file_skip_def)

lemma file_write_append:
  assumes "offset f \<le> length (contents f)"
  shows "file_write (as @ bs) f = file_write bs (file_write as f)"
  using assms by (simp add: file_write_def splice_def min_def ac_simps)

lemma file_write_Nil [simp]: "file_write [] f = f"
  by (simp add: file_write_def)

lemma file_skip_add: "file_skip n (file_skip m f) = file_skip (m + n) f"
  by (simp add: file_skip_def add.assoc)

lemma file_skip_0 [simp]: "file_skip 0 f = f"
  by (simp add: file_skip_def)

lemma file_left_skip: "file_left (file_skip n f) = drop n (file_left f)"
  by (simp add: file_left_def file_skip_def add.commute)

lemma file_left_written:
  "offset f \<le> length (contents f) \<Longrightarrow>
    file_left ((file_write bs f)\<lparr>offset := offset f\<rparr>) = bs @ drop (offset f + length bs) (contents f)"
  by (simp add: file_left_def file_write_def splice_def)

lemma length_written:
  "offset f \<le> length (contents f) \<Longrightarrow> offset f + length bs \<le> length (contents (file_write bs f))"
  by (simp add: file_write_def splice_def)

section \<open>The interface of the storage\<close>

locale byte_store =
  fixes wr :: "byte list \<Rightarrow> ('s, unit) action"
    and rd :: "nat \<Rightarrow> ('s, byte list) action"
    and sk :: "nat \<Rightarrow> ('s, unit) action"
    and inv :: "'s \<Rightarrow> bool"
    and file_of :: "'s \<Rightarrow> ra_file"
    and order :: "'s \<Rightarrow> endian"
  assumes offset_le: "inv s \<Longrightarrow> offset (file_of s) \<le> length (contents (file_of s))"
    and wr: "inv s \<Longrightarrow> \<exists>s'. wr bs s = (Inr (), s') \<and> inv s' \<and>
      file_of s' = file_write bs (file_of s) \<and> order s' = order s"
    and rd: "inv s \<Longrightarrow> 0 < n \<Longrightarrow> n \<le> length (file_left (file_of s)) \<Longrightarrow>
      \<exists>s'. rd n s = (Inr (take n (file_left (file_of s))), s') \<and> inv s' \<and>
        file_of s' = file_skip n (file_of s) \<and> order s' = order s"
    and rd_short: "inv s \<Longrightarrow> length (file_left (file_of s)) < n \<Longrightarrow>
      rd n s = (Inl (Exn (Out_Of_Range ''not enough len'')), s)"
    and sk: "inv s \<Longrightarrow> v < length (contents (file_of s)) \<Longrightarrow>
      \<exists>s'. sk v s = (Inr (), s') \<and> inv s' \<and> file_of s' = (file_of s)\<lparr>offset := v\<rparr> \<and> order s' = order s"
begin

text \<open>
  \<open>emits w enc\<close>: in every good state, \<open>w\<close> writes the bytes \<open>enc\<close> gives for the state's byte order.
  \<open>parses r enc v\<close>: where those bytes come next, \<open>r\<close> consumes exactly them and returns \<open>v\<close>.
\<close>

definition emits :: "('s, unit) action \<Rightarrow> (endian \<Rightarrow> byte list) \<Rightarrow> bool" where
  "emits w enc \<longleftrightarrow> (\<forall>s. inv s \<longrightarrow> (\<exists>s'. w s = (Inr (), s') \<and> inv s' \<and>
    file_of s' = file_write (enc (order s)) (file_of s) \<and> order s' = order s))"

definition parses :: "('s, 'v) action \<Rightarrow> (endian \<Rightarrow> byte list) \<Rightarrow> 'v \<Rightarrow> bool" where
  "parses r enc v \<longleftrightarrow> (\<forall>s rest. inv s \<and> file_left (file_of s) = enc (order s) @ rest \<longrightarrow>
    (\<exists>s'. r s = (Inr v, s') \<and> inv s' \<and>
      file_of s' = file_skip (length (enc (order s))) (file_of s) \<and> order s' = order s))"

lemma emitsE:
  assumes "emits w enc" and "inv s"
  obtains s' where "w s = (Inr (), s')" and "inv s'"
    and "file_of s' = file_write (enc (order s)) (file_of s)" and "order s' = order s"
  using assms by (auto simp: emits_def)

lemma parsesE:
  assumes "parses r enc v" and "inv s" and "file_left (file_of s) = enc (order s) @ rest"
  obtains s' where "r s = (Inr v, s')" and "inv s'"
    and "file_of s' = file_skip (length (enc (order s))) (file_of s)" and "order s' = order s"
  using assms by (force simp: parses_def)

lemma emits_wr: "emits (wr bs) (\<lambda>_. bs)"
  using wr by (auto simp: emits_def)

lemma emits_eq: "(\<And>s. w s = wr (enc (order s)) s) \<Longrightarrow> emits w enc"
  using wr by (auto simp: emits_def)

lemma emits_seq:
  assumes "emits a e1" and "emits b e2"
  shows "emits (seq a (\<lambda>_. b)) (\<lambda>e. e1 e @ e2 e)"
  unfolding emits_def
proof (intro allI impI)
  fix s
  assume s: "inv s"
  obtain s1 where 1: "a s = (Inr (), s1)" "inv s1" "file_of s1 = file_write (e1 (order s)) (file_of s)"
    "order s1 = order s"
    using assms(1) s by (rule emitsE)
  obtain s2 where 2: "b s1 = (Inr (), s2)" "inv s2" "file_of s2 = file_write (e2 (order s1)) (file_of s1)"
    "order s2 = order s1"
    using assms(2) 1(2) by (rule emitsE)
  show "\<exists>s'. seq a (\<lambda>_. b) s = (Inr (), s') \<and> inv s' \<and>
      file_of s' = file_write (e1 (order s) @ e2 (order s)) (file_of s) \<and> order s' = order s"
    using 1 2 offset_le [OF s] by (intro exI [of _ s2]) (simp add: seq_Inr file_write_append)
qed

lemma emits_cong: "emits w e1 \<Longrightarrow> (\<And>e. e1 e = e2 e) \<Longrightarrow> emits w e2"
  by (simp add: emits_def)

lemma parses_rd: "(\<And>e. enc e \<noteq> []) \<Longrightarrow> (\<And>e. length (enc e) = n) \<Longrightarrow>
    (\<And>s. r s = map_prod (map_sum id (dec (order s))) id (rd n s)) \<Longrightarrow>
    (\<And>e. dec e (enc e) = v) \<Longrightarrow> parses r enc v"
  unfolding parses_def
proof (intro allI impI, elim conjE)
  fix s rest
  assume enc: "\<And>e. enc e \<noteq> []" and len: "\<And>e. length (enc e) = n"
    and r: "\<And>s. r s = map_prod (map_sum id (dec (order s))) id (rd n s)"
    and dec: "\<And>e. dec e (enc e) = v"
    and s: "inv s" and left: "file_left (file_of s) = enc (order s) @ rest"
  have "0 < n" and "n \<le> length (file_left (file_of s))"
    using enc [of "order s"] len [of "order s"] left by auto
  then obtain s' where s': "rd n s = (Inr (take n (file_left (file_of s))), s')" "inv s'"
      "file_of s' = file_skip n (file_of s)" "order s' = order s"
    using rd [OF s] by blast
  have "take n (file_left (file_of s)) = enc (order s)"
    using left len by simp
  then show "\<exists>s'. r s = (Inr v, s') \<and> inv s' \<and>
      file_of s' = file_skip (length (enc (order s))) (file_of s) \<and> order s' = order s"
    using s' dec len by (intro exI [of _ s']) (simp add: r)
qed

lemma parses_ret: "(\<And>e. enc e = []) \<Longrightarrow> parses (ret v) enc v"
  by (simp add: parses_def ret_apply)

lemma parses_seq:
  assumes "parses m e1 u" and "parses (f u) e2 v"
  shows "parses (seq m f) (\<lambda>e. e1 e @ e2 e) v"
  unfolding parses_def
proof (intro allI impI, elim conjE)
  fix s rest
  assume s: "inv s" and left: "file_left (file_of s) = (e1 (order s) @ e2 (order s)) @ rest"
  obtain s1 where 1: "m s = (Inr u, s1)" "inv s1"
    "file_of s1 = file_skip (length (e1 (order s))) (file_of s)" "order s1 = order s"
    using assms(1) s left by (elim parsesE) auto
  have "file_left (file_of s1) = e2 (order s1) @ rest"
    using 1 left by (simp add: file_left_skip)
  then obtain s2 where 2: "f u s1 = (Inr v, s2)" "inv s2"
    "file_of s2 = file_skip (length (e2 (order s1))) (file_of s1)" "order s2 = order s1"
    using assms(2) 1(2) by (elim parsesE)
  show "\<exists>s'. seq m f s = (Inr v, s') \<and> inv s' \<and>
      file_of s' = file_skip (length (e1 (order s) @ e2 (order s))) (file_of s) \<and> order s' = order s"
    using 1 2 by (intro exI [of _ s2]) (simp add: seq_Inr file_skip_add)
qed

lemma parses_cong: "parses r e1 v \<Longrightarrow> (\<And>e. e1 e = e2 e) \<Longrightarrow> parses r e2 v"
  by (simp add: parses_def)

text \<open>Writing, going back to where the writing started, and reading.\<close>

lemma write_seek_read:
  assumes w: "emits w enc" and r: "parses r enc v" and ne: "\<And>e. enc e \<noteq> []" and s: "inv s"
  shows "\<exists>s1 s2 s3. w s = (Inr (), s1) \<and> sk (offset (file_of s)) s1 = (Inr (), s2) \<and>
    r s2 = (Inr v, s3) \<and> inv s3 \<and> file_of s3 = file_of s1"
proof -
  let ?bs = "enc (order s)"
  obtain s1 where 1: "w s = (Inr (), s1)" "inv s1" "file_of s1 = file_write ?bs (file_of s)" "order s1 = order s"
    using w s by (rule emitsE)
  have "offset (file_of s) < length (contents (file_of s1))"
    using length_written [OF offset_le [OF s], of ?bs] ne [of "order s"] 1(3) by (cases ?bs) auto
  then obtain s2 where 2: "sk (offset (file_of s)) s1 = (Inr (), s2)" "inv s2"
    "file_of s2 = (file_of s1)\<lparr>offset := offset (file_of s)\<rparr>" "order s2 = order s1"
    using sk [OF 1(2)] by blast
  have "file_left (file_of s2) = enc (order s2) @ drop (offset (file_of s) + length ?bs) (contents (file_of s))"
    using 1 2 offset_le [OF s] by (simp add: file_left_written)
  then obtain s3 where 3: "r s2 = (Inr v, s3)" "inv s3"
    "file_of s3 = file_skip (length (enc (order s2))) (file_of s2)"
    using r 2(2) by (elim parsesE)
  have "file_of s3 = file_of s1"
    using 1 2 3 by (simp add: file_skip_def file_write_def)
  with 1 2 3 show ?thesis by blast
qed

end

section \<open>The interface of a codec\<close>

text \<open>The writes of a sequence of values one after another, and as many reads.\<close>

primrec write_all :: "('v \<Rightarrow> ('s, unit) action) \<Rightarrow> 'v list \<Rightarrow> ('s, unit) action" where
  "write_all put [] = ret ()"
| "write_all put (v # vs) = seq (put v) (\<lambda>_. write_all put vs)"

primrec read_all :: "('s, 'v) action \<Rightarrow> nat \<Rightarrow> ('s, 'v list) action" where
  "read_all get 0 = ret []"
| "read_all get (Suc n) = seq get (\<lambda>v. seq (read_all get n) (\<lambda>vs. ret (v # vs)))"

locale codec = byte_store wr rd sk inv file_of order
  for wr :: "byte list \<Rightarrow> ('s, unit) action"
    and rd :: "nat \<Rightarrow> ('s, byte list) action"
    and sk :: "nat \<Rightarrow> ('s, unit) action"
    and inv :: "'s \<Rightarrow> bool"
    and file_of :: "'s \<Rightarrow> ra_file"
    and order :: "'s \<Rightarrow> endian" +
  fixes put :: "'v \<Rightarrow> ('s, unit) action"
    and get :: "('s, 'v) action"
    and enc :: "endian \<Rightarrow> 'v \<Rightarrow> byte list"
    and dom :: "'v \<Rightarrow> bool"
  assumes put: "dom v \<Longrightarrow> emits (put v) (\<lambda>e. enc e v)"
    and get: "dom v \<Longrightarrow> parses get (\<lambda>e. enc e v) v"
    and enc_nonempty: "enc e v \<noteq> []"
begin

lemma roundtrip:
  "dom v \<Longrightarrow> inv s \<Longrightarrow>
    \<exists>s1 s2 s3. put v s = (Inr (), s1) \<and> sk (offset (file_of s)) s1 = (Inr (), s2) \<and>
      get s2 = (Inr v, s3) \<and> inv s3 \<and> file_of s3 = file_of s1"
  by (rule write_seek_read [OF put get enc_nonempty])

lemma emits_all: "list_all dom vs \<Longrightarrow> emits (write_all put vs) (\<lambda>e. concat (map (enc e) vs))"
proof (induction vs)
  case Nil
  then show ?case by (simp add: emits_def ret_apply)
next
  case (Cons v vs)
  then show ?case
    using emits_seq [OF put] by simp
qed

lemma parses_all: "list_all dom vs \<Longrightarrow> parses (read_all get (length vs)) (\<lambda>e. concat (map (enc e) vs)) vs"
proof (induction vs)
  case Nil
  then show ?case by (simp add: parses_ret)
next
  case (Cons v vs)
  have "parses (seq (read_all get (length vs)) (\<lambda>vs. ret (v # vs))) (\<lambda>e. concat (map (enc e) vs) @ []) (v # vs)"
    using Cons by (intro parses_seq [of _ _ vs]) (simp_all add: parses_ret)
  then have "parses (seq get (\<lambda>v. seq (read_all get (length vs)) (\<lambda>vs. ret (v # vs))))
      (\<lambda>e. enc e v @ concat (map (enc e) vs) @ []) (v # vs)"
    using Cons.prems by (intro parses_seq [OF get]) simp_all
  then show ?case by simp
qed

lemma roundtrip_all:
  assumes "list_all dom vs" and "vs \<noteq> []" and "inv s"
  shows "\<exists>s1 s2 s3. write_all put vs s = (Inr (), s1) \<and> sk (offset (file_of s)) s1 = (Inr (), s2) \<and>
    read_all get (length vs) s2 = (Inr vs, s3) \<and> inv s3 \<and> file_of s3 = file_of s1"
  using assms enc_nonempty
  by (intro write_seek_read [OF emits_all parses_all]) (auto simp: neq_Nil_conv)

end

end
