(* ===== verification/Byte_Array.thy ===== *)
theory Byte_Array
  imports File_Store
begin

text \<open>
  The storage layer of \<open>sylar/bytearray.{h,cpp}\<close>: a chain of equally sized blocks, a position, and
  the raw operations on them (\<open>write\<close>, \<open>read\<close>, \<open>setPosition\<close>, \<open>clear\<close>, \<open>addCapacity\<close>, the
  \<open>iovec\<close> views and the file operations), each with its loops as written. The second half proves
  that this storage is a random-access file: \<open>ba_file\<close> maps a byte array to its contents and
  position, and every operation refines the corresponding file operation.
\<close>

section \<open>State\<close>

text \<open>
  The blocks reachable from \<open>m_root\<close> are the list \<open>m_chain\<close>, in order; \<open>m_cur\<close> is the index in it
  of the block the member \<open>m_cur\<close> points to, and \<open>length m_chain\<close> when that pointer is null. A
  block is the list of its bytes, so its \<open>size\<close> field is its length. What \<open>new char[s]\<close> finds in
  the memory it returns is not determined: \<open>heap k i\<close> is byte \<open>i\<close> of the \<open>k\<close>-th block allocated,
  and \<open>news\<close> counts the allocations. Nothing but \<open>Node(size_t)\<close> reads these two.
\<close>

record byte_array =
  m_baseSize :: nat
  m_position :: nat
  m_capacity :: nat
  m_size :: nat
  m_endian :: endian
  m_chain :: "byte list list"
  m_cur :: nat
  heap :: "nat \<Rightarrow> nat \<Rightarrow> byte"
  news :: nat

type_synonym 'a ba_method = "(byte_array, 'a) action"

definition Node :: "(nat \<Rightarrow> byte) \<Rightarrow> nat \<Rightarrow> byte list" where
  "Node garbage s = map garbage [0..<s]"

definition ByteArray :: "(nat \<Rightarrow> nat \<Rightarrow> byte) \<Rightarrow> nat \<Rightarrow> byte_array" where
  "ByteArray hp base_size =
    \<lparr> m_baseSize = base_size, m_position = 0, m_capacity = base_size, m_size = 0,
      m_endian = SYLAR_BIG_ENDIAN, m_chain = [Node (hp 0) base_size], m_cur = 0,
      heap = hp, news = 1 \<rparr>"

definition ByteArray_isLittleEndian :: "byte_array \<Rightarrow> bool" where
  "ByteArray_isLittleEndian ba = (m_endian ba = SYLAR_LITTLE_ENDIAN)"

definition ByteArray_setIsLittleEndian :: "bool \<Rightarrow> byte_array \<Rightarrow> byte_array" where
  "ByteArray_setIsLittleEndian val ba =
    (if val then ba\<lparr>m_endian := SYLAR_LITTLE_ENDIAN\<rparr> else ba\<lparr>m_endian := SYLAR_BIG_ENDIAN\<rparr>)"

definition ByteArray_getReadSize :: "byte_array \<Rightarrow> nat" where
  "ByteArray_getReadSize ba = size_sub (m_size ba) (m_position ba)"

definition ByteArray_getCapacity :: "byte_array \<Rightarrow> nat" where
  "ByteArray_getCapacity ba = size_sub (m_capacity ba) (m_position ba)"

section \<open>Operations\<close>

subsection \<open>clear and addCapacity\<close>

definition ByteArray_clear :: "byte_array \<Rightarrow> byte_array" where
  "ByteArray_clear ba =
    ba\<lparr>m_position := 0, m_size := 0, m_capacity := m_baseSize ba,
       m_chain := take 1 (m_chain ba), m_cur := 0\<rparr>"

text \<open>The loop that appends \<open>count\<close> blocks to the end of the chain.\<close>

primrec append_nodes :: "nat \<Rightarrow> byte_array \<Rightarrow> byte_array" where
  "append_nodes 0 ba = ba"
| "append_nodes (Suc count) ba =
    append_nodes count
      (ba\<lparr>m_chain := m_chain ba @ [Node (heap ba (news ba)) (m_baseSize ba)],
          news := Suc (news ba),
          m_capacity := m_capacity ba + m_baseSize ba\<rparr>)"

definition ByteArray_addCapacity :: "nat \<Rightarrow> unit ba_method" where
  "ByteArray_addCapacity sz ba =
    (if sz = 0 then (Inr (), ba)
     else let old_cap = ByteArray_getCapacity ba in
       if sz \<le> old_cap then (Inr (), ba)
       else if m_baseSize ba = 0 then (Inl Div_By_Zero, ba)
       else
         let sz' = sz - old_cap;
             count = sz' div m_baseSize ba + (if sz' mod m_baseSize ba \<noteq> 0 then 1 else 0);
             first = length (m_chain ba);
             ba' = append_nodes count ba
         in (Inr (), if old_cap = 0 then ba'\<lparr>m_cur := first\<rparr> else ba'))"

subsection \<open>write\<close>

text \<open>\<open>memcpy\<close> into and out of a block; an access past the block's end is a fault.\<close>

definition memcpy_in :: "nat \<Rightarrow> byte list \<Rightarrow> byte list \<Rightarrow> fault + byte list" where
  "memcpy_in npos src block =
    (if npos + length src \<le> length block then Inr (splice npos src block) else Inl Out_Of_Bounds)"

definition memcpy_out :: "nat \<Rightarrow> nat \<Rightarrow> byte list \<Rightarrow> fault + byte list" where
  "memcpy_out npos len block =
    (if npos + len \<le> length block then Inr (take len (drop npos block)) else Inl Out_Of_Bounds)"

text \<open>
  The \<open>while(size > 0)\<close> loop of \<open>write\<close>: \<open>buf\<close> is the part of the caller's buffer not yet copied
  (from \<open>bpos\<close> on), so \<open>size\<close> is its length. Following a null \<open>next\<close> and reading its \<open>size\<close> is
  \<open>Null_Deref\<close>.
\<close>

function write_loop ::
  "byte list list \<Rightarrow> nat \<Rightarrow> nat \<Rightarrow> nat \<Rightarrow> nat \<Rightarrow> byte list \<Rightarrow> fault + byte list list \<times> nat \<times> nat" where
  "write_loop chain cur npos ncap position buf =
    (if buf = [] then Inr (chain, cur, position)
     else if length buf \<le> ncap then
       (case memcpy_in npos buf (chain ! cur) of
          Inl e \<Rightarrow> Inl e
        | Inr block \<Rightarrow>
            Inr (chain[cur := block],
                 if length (chain ! cur) = npos + length buf then Suc cur else cur,
                 position + length buf))
     else
       (case memcpy_in npos (take ncap buf) (chain ! cur) of
          Inl e \<Rightarrow> Inl e
        | Inr block \<Rightarrow>
            if Suc cur < length chain then
              write_loop (chain[cur := block]) (Suc cur) 0 (length (chain ! Suc cur))
                (position + ncap) (drop ncap buf)
            else Inl Null_Deref))"
  by pat_completeness auto
termination
  by (relation "measure (\<lambda>(chain, cur, _). length chain - cur)") auto

declare write_loop.simps [simp del]

definition ByteArray_write :: "byte list \<Rightarrow> unit ba_method" where
  "ByteArray_write buf ba =
    (if buf = [] then (Inr (), ba)
     else seq (ByteArray_addCapacity (length buf)) (\<lambda>_ ba.
       if m_baseSize ba = 0 then (Inl Div_By_Zero, ba)
       else if length (m_chain ba) \<le> m_cur ba then (Inl Null_Deref, ba)
       else
         let npos = m_position ba mod m_baseSize ba;
             ncap = size_sub (length (m_chain ba ! m_cur ba)) npos
         in case write_loop (m_chain ba) (m_cur ba) npos ncap (m_position ba) buf of
              Inl e \<Rightarrow> (Inl e, ba)
            | Inr (chain, cur, position) \<Rightarrow>
                (Inr (), ba\<lparr>m_chain := chain, m_cur := cur, m_position := position,
                            m_size := (if m_size ba < position then position else m_size ba)\<rparr>)) ba)"

subsection \<open>read\<close>

text \<open>The copying loop of both \<open>read\<close>s: the bytes copied, and where it stops.\<close>

function read_loop ::
  "byte list list \<Rightarrow> nat \<Rightarrow> nat \<Rightarrow> nat \<Rightarrow> nat \<Rightarrow> nat \<Rightarrow> fault + byte list \<times> nat \<times> nat" where
  "read_loop chain cur npos ncap position sz =
    (if sz = 0 then Inr ([], cur, position)
     else if sz \<le> ncap then
       (case memcpy_out npos sz (chain ! cur) of
          Inl e \<Rightarrow> Inl e
        | Inr bs \<Rightarrow>
            Inr (bs, if length (chain ! cur) = npos + sz then Suc cur else cur, position + sz))
     else
       (case memcpy_out npos ncap (chain ! cur) of
          Inl e \<Rightarrow> Inl e
        | Inr bs \<Rightarrow>
            if Suc cur < length chain then
              (case read_loop chain (Suc cur) 0 (length (chain ! Suc cur)) (position + ncap) (sz - ncap) of
                 Inl e \<Rightarrow> Inl e
               | Inr (bs', cur', position') \<Rightarrow> Inr (bs @ bs', cur', position'))
            else Inl Null_Deref))"
  by pat_completeness auto
termination
  by (relation "measure (\<lambda>(chain, cur, _). length chain - cur)") auto

declare read_loop.simps [simp del]

definition ByteArray_read :: "nat \<Rightarrow> byte list ba_method" where
  "ByteArray_read sz ba =
    (if ByteArray_getReadSize ba < sz then (Inl (Exn (Out_Of_Range ''not enough len'')), ba)
     else if m_baseSize ba = 0 then (Inl Div_By_Zero, ba)
     else if length (m_chain ba) \<le> m_cur ba then (Inl Null_Deref, ba)
     else
       let npos = m_position ba mod m_baseSize ba;
           ncap = size_sub (length (m_chain ba ! m_cur ba)) npos
       in case read_loop (m_chain ba) (m_cur ba) npos ncap (m_position ba) sz of
            Inl e \<Rightarrow> (Inl e, ba)
          | Inr (bs, cur, position) \<Rightarrow> (Inr bs, ba\<lparr>m_cur := cur, m_position := position\<rparr>))"

text \<open>
  \<open>read(buf, size, position)\<close>, a const method: it walks \<open>position / m_baseSize\<close> blocks from the
  root. The walk dereferences each block it leaves, so leaving a null one is a fault; the size of
  the block it ends on is read before the loop, so ending on null is one as well.
\<close>

primrec walk :: "byte list list \<Rightarrow> nat \<Rightarrow> nat \<Rightarrow> fault + nat" where
  "walk chain 0 cur = Inr cur"
| "walk chain (Suc count) cur =
    (if length chain \<le> cur then Inl Null_Deref else walk chain count (Suc cur))"

definition ByteArray_read_at :: "nat \<Rightarrow> nat \<Rightarrow> byte_array \<Rightarrow> fault + byte list" where
  "ByteArray_read_at sz position ba =
    (if size_sub (m_size ba) position < sz then Inl (Exn (Out_Of_Range ''not enough len''))
     else if m_baseSize ba = 0 then Inl Div_By_Zero
     else
       let npos = position mod m_baseSize ba; count = position div m_baseSize ba
       in case walk (m_chain ba) count 0 of
            Inl e \<Rightarrow> Inl e
          | Inr cur \<Rightarrow>
              if length (m_chain ba) \<le> cur then Inl Null_Deref
              else
                let ncap = size_sub (length (m_chain ba ! cur)) npos
                in map_sum id fst (read_loop (m_chain ba) cur npos ncap position sz))"

subsection \<open>setPosition\<close>

function position_loop :: "byte list list \<Rightarrow> nat \<Rightarrow> nat \<Rightarrow> fault + nat" where
  "position_loop chain cur v =
    (if length chain \<le> cur then Inl Null_Deref
     else if length (chain ! cur) \<le> v then position_loop chain (Suc cur) (v - length (chain ! cur))
     else Inr cur)"
  by pat_completeness auto
termination
  by (relation "measure (\<lambda>(chain, cur, _). length chain - cur)") auto

declare position_loop.simps [simp del]

definition ByteArray_setPosition :: "nat \<Rightarrow> unit ba_method" where
  "ByteArray_setPosition v ba =
    (if m_capacity ba < v then (Inl (Exn (Out_Of_Range ''set_position out of range'')), ba)
     else
       let ba' = ba\<lparr>m_position := v, m_size := (if m_size ba < v then v else m_size ba)\<rparr>
       in case position_loop (m_chain ba') 0 v of
            Inl e \<Rightarrow> (Inl e, ba')
          | Inr cur \<Rightarrow> (Inr (), ba'\<lparr>m_cur := cur\<rparr>))"

subsection \<open>toString\<close>

definition ByteArray_toString :: "byte_array \<Rightarrow> fault + byte list" where
  "ByteArray_toString ba =
    (let n = ByteArray_getReadSize ba
     in if n = 0 then Inr [] else ByteArray_read_at n (m_position ba) ba)"

section \<open>Chains of equal blocks\<close>

definition uniform :: "nat \<Rightarrow> byte list list \<Rightarrow> bool" where
  "uniform base chain = list_all (\<lambda>b. length b = base) chain"

lemma uniform_nth: "uniform base chain \<Longrightarrow> cur < length chain \<Longrightarrow> length (chain ! cur) = base"
  by (simp add: uniform_def list_all_length)

lemma uniform_update:
  "uniform base chain \<Longrightarrow> length block = base \<Longrightarrow> uniform base (chain[cur := block])"
  by (cases "cur < length chain") (auto simp: uniform_def list_all_length nth_list_update)

lemma uniform_take: "uniform base chain \<Longrightarrow> uniform base (take k chain)"
  by (auto simp: uniform_def list_all_iff dest: in_set_takeD)

lemma uniform_append: "uniform base (xs @ ys) \<longleftrightarrow> uniform base xs \<and> uniform base ys"
  by (simp add: uniform_def)

lemma length_concat_uniform:
  "uniform base chain \<Longrightarrow> length (concat chain) = length chain * base"
  by (induction chain) (simp_all add: uniform_def)

lemma concat_around:
  assumes "uniform base chain" and "cur < length chain"
  obtains pre post where "concat chain = pre @ chain ! cur @ post" and "length pre = cur * base"
    and "\<And>block. concat (chain[cur := block]) = pre @ block @ post"
proof
  show "concat chain = concat (take cur chain) @ chain ! cur @ concat (drop (Suc cur) chain)"
    using id_take_nth_drop [OF assms(2)] by (metis concat.simps(2) concat_append)
  show "length (concat (take cur chain)) = cur * base"
    using length_concat_uniform [OF uniform_take [OF assms(1)], of cur] assms(2) by simp
  show "concat (chain[cur := block]) = concat (take cur chain) @ block @ concat (drop (Suc cur) chain)"
    for block
    using upd_conv_take_nth_drop [OF assms(2)] by simp
qed

lemma concat_update:
  assumes "uniform base chain" and "cur < length chain" and "npos + length bs \<le> base"
  shows "concat (chain[cur := splice npos bs (chain ! cur)]) = splice (cur * base + npos) bs (concat chain)"
proof -
  obtain pre post where c: "concat chain = pre @ chain ! cur @ post" and l: "length pre = cur * base"
    and u: "\<And>block. concat (chain[cur := block]) = pre @ block @ post"
    using assms(1,2) by (rule concat_around) blast
  have "length (chain ! cur) = base"
    using assms(1,2) by (rule uniform_nth)
  then show ?thesis
    using assms(3) by (simp add: c u splice_append_right l splice_append_left)
qed

lemma block_slice:
  assumes "uniform base chain" and "cur < length chain" and "npos + len \<le> base"
  shows "take len (drop npos (chain ! cur)) = take len (drop (cur * base + npos) (concat chain))"
proof -
  obtain pre post where c: "concat chain = pre @ chain ! cur @ post" and l: "length pre = cur * base"
    using assms(1,2) by (rule concat_around) blast
  have "length (chain ! cur) = base"
    using assms(1,2) by (rule uniform_nth)
  then show ?thesis
    using assms(3) by (simp add: c l)
qed

lemma block_bound: "cur * base + k \<le> n * base \<Longrightarrow> 0 < k \<Longrightarrow> cur < (n :: nat)"
proof (rule ccontr)
  assume "cur * base + k \<le> n * base" and "0 < k" and "\<not> cur < n"
  then have "n * base \<le> cur * base"
    by simp
  with \<open>cur * base + k \<le> n * base\<close> \<open>0 < k\<close> show False
    by linarith
qed

text \<open>The block and the offset at which a loop that has passed \<open>k\<close> bytes of a block stops.\<close>

lemma next_block:
  assumes "npos < base" and "0 < k" and "npos + k \<le> base"
  shows "(if base = npos + k then Suc cur else cur) = (cur * base + npos + k) div base"
proof (cases "base = npos + k")
  case True
  then have "cur * base + npos + k = Suc cur * base"
    by simp
  also have "\<dots> div base = Suc cur"
    using assms(1) by (metis gr_implies_not0 nonzero_mult_div_cancel_right)
  finally show ?thesis
    using True by simp
next
  case False
  then have "(npos + k) div base = 0"
    using assms(3) by simp
  then show ?thesis
    using False assms(1) by (simp add: add.assoc)
qed

section \<open>The loops over a uniform chain\<close>

lemma read_loop_uniform:
  assumes "uniform base chain" and "npos < base" and "cur < length chain"
    and "cur * base + npos + sz \<le> length chain * base"
  shows "read_loop chain cur npos (base - npos) position sz =
    Inr (take sz (drop (cur * base + npos) (concat chain)), (cur * base + npos + sz) div base, position + sz)"
  using assms
proof (induction chain cur npos "base - npos" position sz rule: read_loop.induct)
  case (1 chain cur npos position sz)
  have len: "length (chain ! cur) = base"
    using "1.prems" by (simp add: uniform_nth)
  show ?case
  proof (cases "sz = 0")
    case True
    then show ?thesis
      using "1.prems" by (simp add: read_loop.simps [of chain cur])
  next
    case nonzero: False
    show ?thesis
    proof (cases "sz \<le> base - npos")
      case True
      then have fits: "npos + sz \<le> base"
        using "1.prems" by simp
      have "(if length (chain ! cur) = npos + sz then Suc cur else cur) = (cur * base + npos + sz) div base"
        unfolding len using next_block [of npos base sz cur] "1.prems" nonzero fits by simp
      then show ?thesis
        using True nonzero fits len block_slice [of base chain cur npos sz] "1.prems"
        by (subst read_loop.simps) (simp add: memcpy_out_def)
    next
      case False
      let ?k = "base - npos"
      have nxt: "cur * base + npos + ?k = Suc cur * base"
        using "1.prems" by simp
      have rest: "Suc cur * base + 0 + (sz - ?k) \<le> length chain * base"
        using False "1.prems" nxt by simp
      have sc: "Suc cur < length chain"
        using block_bound [of "Suc cur" base "sz - ?k" "length chain"] rest False by simp
      have stop: "Suc cur * base + 0 + (sz - ?k) = cur * base + npos + sz" "position + ?k + (sz - ?k) = position + sz"
          "?k + (sz - ?k) = sz"
        using False nxt "1.prems" by simp_all
      have IH: "read_loop chain (Suc cur) 0 (length (chain ! Suc cur)) (position + ?k) (sz - ?k) =
          Inr (take (sz - ?k) (drop (Suc cur * base) (concat chain)),
               (cur * base + npos + sz) div base, position + sz)"
        unfolding stop(1,2) [symmetric]
        using "1.hyps" [of "take ?k (drop npos (chain ! cur))"] nonzero False sc rest "1.prems" len
        by (simp add: memcpy_out_def uniform_nth)
      have bytes: "take ?k (drop npos (chain ! cur)) @ take (sz - ?k) (drop (Suc cur * base) (concat chain)) =
          take sz (drop (cur * base + npos) (concat chain))"
        using block_slice [of base chain cur npos ?k] "1.prems"
          slice_append_slice [of ?k "cur * base + npos" "concat chain" "sz - ?k", unfolded nxt stop]
        by simp
      show ?thesis
        unfolding bytes [symmetric]
        using False nonzero sc len IH "1.prems"
        by (subst read_loop.simps) (simp add: memcpy_out_def del: mult_Suc)
    qed
  qed
qed

lemma write_loop_uniform:
  assumes "uniform base chain" and "npos < base" and "cur < length chain"
    and "cur * base + npos + length buf \<le> length chain * base"
  shows "\<exists>chain'. write_loop chain cur npos (base - npos) position buf =
      Inr (chain', (cur * base + npos + length buf) div base, position + length buf) \<and>
    concat chain' = splice (cur * base + npos) buf (concat chain) \<and>
    uniform base chain' \<and> length chain' = length chain"
  using assms
proof (induction chain cur npos "base - npos" position buf rule: write_loop.induct)
  case (1 chain cur npos position buf)
  have len: "length (chain ! cur) = base"
    using "1.prems" by (simp add: uniform_nth)
  show ?case
  proof (cases "buf = []")
    case True
    then show ?thesis
      using "1.prems" by (simp add: write_loop.simps [of chain cur])
  next
    case nonempty: False
    show ?thesis
    proof (cases "length buf \<le> base - npos")
      case True
      then have fits: "npos + length buf \<le> base"
        using "1.prems" by simp
      let ?chain' = "chain[cur := splice npos buf (chain ! cur)]"
      have "(if length (chain ! cur) = npos + length buf then Suc cur else cur) =
          (cur * base + npos + length buf) div base"
        unfolding len using next_block [of npos base "length buf" cur] "1.prems" nonempty fits by simp
      then have "write_loop chain cur npos (base - npos) position buf =
          Inr (?chain', (cur * base + npos + length buf) div base, position + length buf)"
        using True nonempty fits len
        by (subst write_loop.simps) (simp add: memcpy_in_def)
      moreover have "concat ?chain' = splice (cur * base + npos) buf (concat chain)"
        using "1.prems" fits by (intro concat_update)
      moreover have "uniform base ?chain'"
        using "1.prems" fits len by (intro uniform_update) simp_all
      ultimately show ?thesis
        by (intro exI [of _ ?chain']) simp
    next
      case False
      let ?k = "base - npos"
      let ?mid = "chain[cur := splice npos (take ?k buf) (chain ! cur)]"
      have nxt: "cur * base + npos + ?k = Suc cur * base"
        using "1.prems" by simp
      have rest: "Suc cur * base + 0 + length (drop ?k buf) \<le> length ?mid * base"
        using False "1.prems" nxt by simp
      have sc: "Suc cur < length ?mid"
        using block_bound [of "Suc cur" base "length (drop ?k buf)" "length ?mid"] rest False by simp
      have mid: "uniform base ?mid"
        using "1.prems" len False by (intro uniform_update) simp_all
      have fits: "npos + length (take ?k buf) \<le> length (chain ! cur)"
        using len "1.prems" False by simp
      have mid_concat: "concat ?mid = splice (cur * base + npos) (take ?k buf) (concat chain)"
        using "1.prems" fits len by (intro concat_update) simp_all
      have stop: "Suc cur * base + 0 + length (drop ?k buf) = cur * base + npos + length buf"
          "position + ?k + length (drop ?k buf) = position + length buf"
        using False nxt "1.prems" by simp_all
      have step: "write_loop chain cur npos ?k position buf =
          write_loop ?mid (Suc cur) 0 (length (chain ! Suc cur)) (position + ?k) (drop ?k buf)"
        using nonempty False fits sc by (subst write_loop.simps) (simp add: memcpy_in_def)
      have "length (chain ! Suc cur) = base - 0"
        using "1.prems"(1) sc by (simp add: uniform_nth)
      then obtain chain' where w: "write_loop ?mid (Suc cur) 0 (length (chain ! Suc cur)) (position + ?k) (drop ?k buf) =
          Inr (chain', (Suc cur * base + 0 + length (drop ?k buf)) div base, position + ?k + length (drop ?k buf))"
        and c: "concat chain' = splice (Suc cur * base + 0) (drop ?k buf) (concat ?mid)"
        and u: "uniform base chain'" "length chain' = length ?mid"
        using "1.hyps" [of "splice npos (take ?k buf) (chain ! cur)"] nonempty False fits sc mid rest "1.prems"(2)
        by (auto simp: memcpy_in_def)
      have "concat chain' = splice (cur * base + npos) buf (concat chain)"
        unfolding c mid_concat
        using splice_in_two [of "cur * base + npos" ?k "concat chain" buf] nxt False "1.prems"
        by (simp add: length_concat_uniform)
      with w u step stop show ?thesis
        by (intro exI [of _ chain']) simp
    qed
  qed
qed

lemma position_loop_uniform:
  assumes "uniform base chain" and "0 < base" and "cur \<le> length chain"
  shows "position_loop chain cur v =
    (if v < (length chain - cur) * base then Inr (cur + v div base) else Inl Null_Deref)"
  using assms
proof (induction chain cur v rule: position_loop.induct)
  case (1 chain cur v)
  show ?case
  proof (cases "cur < length chain")
    case False
    then show ?thesis
      by (simp add: position_loop.simps [of chain cur v])
  next
    case True
    then have len: "length (chain ! cur) = base"
      using "1.prems" by (simp add: uniform_nth)
    obtain k where k: "length chain - cur = Suc k"
      using True by (metis Suc_diff_Suc)
    then have k': "length chain - Suc cur = k"
      by simp
    show ?thesis
    proof (cases "base \<le> v")
      case False
      then show ?thesis
        using True len k by (simp add: position_loop.simps [of chain cur v])
    next
      case ge: True
      have "position_loop chain cur v = position_loop chain (Suc cur) (v - base)"
        using True ge len by (simp add: position_loop.simps [of chain cur v])
      also have "\<dots> = (if v - base < k * base then Inr (Suc cur + (v - base) div base) else Inl Null_Deref)"
        using "1.IH" True ge len "1.prems" k' by simp
      also have "Suc cur + (v - base) div base = cur + v div base"
        using ge "1.prems"(2) by (simp add: le_div_geq)
      finally show ?thesis
        using ge k by auto
    qed
  qed
qed

lemma walk_result:
  "cur \<le> length chain \<Longrightarrow>
    walk chain count cur = (if cur + count \<le> length chain then Inr (cur + count) else Inl Null_Deref)"
  by (induction count arbitrary: cur) auto

section \<open>The invariant of a byte array\<close>

text \<open>
  What every operation keeps: the blocks all have the size given to the constructor, which is not
  zero; the capacity is their total size; the position lies within the data and the data within the
  capacity; and \<open>m_cur\<close> is the block that holds the position (null exactly when the position is
  at the end of the last block).
\<close>

definition ba_inv :: "byte_array \<Rightarrow> bool" where
  "ba_inv ba \<longleftrightarrow>
    0 < m_baseSize ba \<and> m_chain ba \<noteq> [] \<and> uniform (m_baseSize ba) (m_chain ba) \<and>
    m_capacity ba = length (m_chain ba) * m_baseSize ba \<and>
    m_position ba \<le> m_size ba \<and> m_size ba \<le> m_capacity ba \<and>
    m_cur ba = m_position ba div m_baseSize ba"

lemma ba_invD:
  assumes "ba_inv ba"
  shows "0 < m_baseSize ba" and "m_chain ba \<noteq> []" and "uniform (m_baseSize ba) (m_chain ba)"
    and "m_capacity ba = length (m_chain ba) * m_baseSize ba"
    and "m_position ba \<le> m_size ba" and "m_size ba \<le> m_capacity ba"
    and "m_cur ba = m_position ba div m_baseSize ba"
    and "length (concat (m_chain ba)) = m_capacity ba"
  using assms length_concat_uniform [of "m_baseSize ba" "m_chain ba"] by (simp_all add: ba_inv_def)

lemma ByteArray_inv: "0 < base_size \<Longrightarrow> ba_inv (ByteArray hp base_size)"
  by (simp add: ba_inv_def ByteArray_def Node_def uniform_def)

lemma setIsLittleEndian_inv [simp]: "ba_inv (ByteArray_setIsLittleEndian val ba) = ba_inv ba"
  by (simp add: ba_inv_def ByteArray_setIsLittleEndian_def)

lemma cur_not_null: "ba_inv ba \<Longrightarrow> m_cur ba < length (m_chain ba) \<longleftrightarrow> m_position ba < m_capacity ba"
  by (simp add: ba_inv_def div_less_iff_less_mult)

lemma cur_block:
  assumes "ba_inv ba" and "m_position ba < m_capacity ba"
  shows "m_cur ba < length (m_chain ba)"
    and "length (m_chain ba ! m_cur ba) = m_baseSize ba"
    and "m_cur ba * m_baseSize ba + m_position ba mod m_baseSize ba = m_position ba"
    and "m_position ba mod m_baseSize ba < m_baseSize ba"
  using assms cur_not_null [of ba] by (auto simp: ba_inv_def uniform_nth)

subsection \<open>Growing\<close>

text \<open>What \<open>addCapacity\<close> leaves: the same array with \<open>extra\<close> blocks at the end of the chain.\<close>

definition grown :: "byte_array \<Rightarrow> byte list list \<Rightarrow> nat \<Rightarrow> byte_array" where
  "grown ba extra n =
    ba\<lparr>m_chain := m_chain ba @ extra, news := n,
       m_capacity := m_capacity ba + length extra * m_baseSize ba\<rparr>"

lemma append_nodes_grown:
  "\<exists>extra n. append_nodes count ba = grown ba extra n \<and> length extra = count \<and> uniform (m_baseSize ba) extra"
proof (induction count arbitrary: ba)
  case 0
  have "append_nodes 0 ba = grown ba [] (news ba)"
    by (simp add: grown_def)
  then show ?case
    by (intro exI [of _ "[]"] exI [of _ "news ba"]) (simp add: uniform_def)
next
  case (Suc count)
  let ?node = "Node (heap ba (news ba)) (m_baseSize ba)"
  let ?ba = "grown ba [?node] (Suc (news ba))"
  obtain extra n where e: "append_nodes count ?ba = grown ?ba extra n" "length extra = count"
    "uniform (m_baseSize ?ba) extra"
    using Suc.IH [of ?ba] by blast
  have "append_nodes (Suc count) ba = grown ba (?node # extra) n"
    using e(1) by (simp add: grown_def)
  moreover have "uniform (m_baseSize ba) (?node # extra)"
    using e(3) by (simp add: grown_def uniform_def Node_def)
  ultimately show ?case
    using e(2) by (metis length_Cons)
qed

lemma grown_inv: "ba_inv ba \<Longrightarrow> uniform (m_baseSize ba) extra \<Longrightarrow> ba_inv (grown ba extra n)"
  by (simp add: ba_inv_def grown_def uniform_append algebra_simps)

lemma ceiling_blocks:
  fixes sz base :: nat
  assumes "0 < base"
  defines "count \<equiv> sz div base + (if sz mod base \<noteq> 0 then 1 else 0)"
  shows "sz \<le> count * base" and "0 < sz \<Longrightarrow> count * base < sz + base"
proof -
  have d: "sz div base * base + sz mod base = sz" and m: "sz mod base < base"
    using assms(1) by simp_all
  have two: "count * base = sz \<or> count * base = sz div base * base + base \<and> sz mod base \<noteq> 0"
    using d by (cases "sz mod base = 0") (simp_all add: count_def del: div_mult_mod_eq)
  show "sz \<le> count * base"
    using two d m by linarith
  show "0 < sz \<Longrightarrow> count * base < sz + base"
    using two d m assms(1) by linarith
qed

lemma addCapacity_grows:
  assumes inv: "ba_inv ba"
  shows "\<exists>extra n. ByteArray_addCapacity sz ba = (Inr (), grown ba extra n) \<and>
    uniform (m_baseSize ba) extra \<and> m_position ba + sz \<le> m_capacity (grown ba extra n) \<and>
    m_capacity (grown ba extra n) < max (m_capacity ba + 1) (m_position ba + sz + m_baseSize ba)"
proof -
  have cap: "ByteArray_getCapacity ba = m_capacity ba - m_position ba"
    using ba_invD [OF inv] by (simp add: ByteArray_getCapacity_def)
  show ?thesis
  proof (cases "sz \<le> m_capacity ba - m_position ba")
    case True
    then have "ByteArray_addCapacity sz ba = (Inr (), ba)"
      by (simp add: ByteArray_addCapacity_def cap)
    moreover have "ba = grown ba [] (news ba)"
      by (simp add: grown_def)
    moreover have "uniform (m_baseSize ba) []"
      by (simp add: uniform_def)
    moreover have "m_position ba + sz \<le> m_capacity ba"
      using True ba_invD(5,6) [OF inv] by linarith
    ultimately show ?thesis
      by (intro exI [of _ "[]"] exI [of _ "news ba"]) (simp add: less_max_iff_disj)
  next
    case False
    let ?base = "m_baseSize ba"
    let ?need = "sz - (m_capacity ba - m_position ba)"
    let ?count = "?need div ?base + (if ?need mod ?base \<noteq> 0 then 1 else 0)"
    obtain extra n where e: "append_nodes ?count ba = grown ba extra n" "length extra = ?count"
      "uniform ?base extra"
      using append_nodes_grown by blast
    have cur: "m_cur (grown ba extra n) = length (m_chain ba)" if "m_capacity ba - m_position ba = 0"
    proof -
      have "m_position ba = length (m_chain ba) * ?base"
        using that ba_invD(4-6) [OF inv] by linarith
      then show ?thesis
        using ba_invD(1,7) [OF inv] by (simp add: grown_def)
    qed
    have "ByteArray_addCapacity sz ba = (Inr (), grown ba extra n)"
      using False e(1) cur ba_invD [OF inv]
      by (simp add: ByteArray_addCapacity_def cap Let_def)
    moreover have "m_position ba + sz \<le> m_capacity ba + ?count * ?base"
      using ceiling_blocks(1) [of ?base ?need] ba_invD [OF inv] by linarith
    moreover have "m_capacity ba + ?count * ?base < m_position ba + sz + ?base"
      using ceiling_blocks(2) [of ?base ?need] ba_invD [OF inv] False by linarith
    ultimately show ?thesis
      using e by (intro exI [of _ extra] exI [of _ n]) (simp add: grown_def)
  qed
qed

section \<open>A byte array is a random-access file\<close>

text \<open>
  The abstraction: the bytes of the chain that belong to the data, and the position.
\<close>

definition ba_file :: "byte_array \<Rightarrow> ra_file" where
  "ba_file ba = \<lparr>contents = take (m_size ba) (concat (m_chain ba)), offset = m_position ba\<rparr>"

lemma ba_file_simps [simp]:
  "contents (ba_file ba) = take (m_size ba) (concat (m_chain ba))"
  "offset (ba_file ba) = m_position ba"
  by (simp_all add: ba_file_def)

lemma length_contents: "ba_inv ba \<Longrightarrow> length (contents (ba_file ba)) = m_size ba"
  using ba_invD [of ba] by simp

lemma length_file_left: "ba_inv ba \<Longrightarrow> length (file_left (ba_file ba)) = m_size ba - m_position ba"
  using ba_invD [of ba] by (simp add: file_left_def)

lemma getReadSize_left: "ba_inv ba \<Longrightarrow> ByteArray_getReadSize ba = length (file_left (ba_file ba))"
  using ba_invD [of ba] by (simp add: ByteArray_getReadSize_def length_file_left)

lemma grown_file [simp]:
  assumes "ba_inv ba"
  shows "ba_file (grown ba extra n) = ba_file ba"
  using ba_invD [OF assms] by (simp add: ba_file_def grown_def)

lemma ByteArray_file: "ba_file (ByteArray hp base_size) = \<lparr>contents = [], offset = 0\<rparr>"
  by (simp add: ba_file_def ByteArray_def)

lemma setIsLittleEndian_file [simp]: "ba_file (ByteArray_setIsLittleEndian val ba) = ba_file ba"
  by (simp add: ba_file_def ByteArray_setIsLittleEndian_def)

lemma take_splice_contents:
  assumes "p \<le> sz" and "sz \<le> length xs" and "p + length bs \<le> length xs"
  shows "take (max sz (p + length bs)) (splice p bs xs) = splice p bs (take sz xs)"
proof (cases "p + length bs \<le> sz")
  case True
  then have "splice p bs xs = splice p bs (take sz xs @ drop sz xs)"
    by simp
  also have "\<dots> = splice p bs (take sz xs) @ drop sz xs"
    using True assms(2) by (intro splice_append_left) simp
  finally show ?thesis
    using True assms(2) by (simp add: max_absorb1)
next
  case False
  then show ?thesis
    using assms by (simp add: splice_def max_def min_def)
qed

section \<open>The operations refine the file operations\<close>

lemma write_correct:
  assumes inv: "ba_inv ba"
  shows "\<exists>ba'. ByteArray_write buf ba = (Inr (), ba') \<and> ba_inv ba' \<and>
    ba_file ba' = file_write buf (ba_file ba) \<and>
    m_baseSize ba' = m_baseSize ba \<and> m_endian ba' = m_endian ba"
proof (cases "buf = []")
  case True
  then show ?thesis
    using inv by (simp add: ByteArray_write_def)
next
  case False
  let ?base = "m_baseSize ba" and ?p = "m_position ba"
  obtain extra n where g: "ByteArray_addCapacity (length buf) ba = (Inr (), grown ba extra n)"
    "uniform ?base extra" "?p + length buf \<le> m_capacity (grown ba extra n)"
    using addCapacity_grows [OF inv] by blast
  define gb where "gb = grown ba extra n"
  have gi: "ba_inv gb"
    using inv g(2) by (simp add: gb_def grown_inv)
  have sel: "m_baseSize gb = ?base" "m_position gb = ?p" "m_size gb = m_size ba" "m_endian gb = m_endian ba"
    by (simp_all add: gb_def grown_def)
  have room: "?p + length buf \<le> m_capacity gb"
    using g(3) by (simp add: gb_def)
  then have "m_position gb < m_capacity gb"
    using False sel by (cases buf) auto
  note cur = cur_block [OF gi this]
  let ?npos = "?p mod ?base"
  have "\<exists>chain'. write_loop (m_chain gb) (m_cur gb) ?npos (?base - ?npos) ?p buf =
      Inr (chain', (m_cur gb * ?base + ?npos + length buf) div ?base, ?p + length buf) \<and>
    concat chain' = splice (m_cur gb * ?base + ?npos) buf (concat (m_chain gb)) \<and>
    uniform ?base chain' \<and> length chain' = length (m_chain gb)"
    using cur sel room ba_invD [OF gi] by (intro write_loop_uniform) simp_all
  then obtain chain' where w: "write_loop (m_chain gb) (m_cur gb) ?npos (?base - ?npos) ?p buf =
      Inr (chain', (?p + length buf) div ?base, ?p + length buf)"
    and c: "concat chain' = splice ?p buf (concat (m_chain gb))"
    and u: "uniform ?base chain'" "length chain' = length (m_chain gb)"
    using cur(3) sel by auto
  define ba' where "ba' = gb\<lparr>m_chain := chain', m_cur := (?p + length buf) div ?base,
    m_position := ?p + length buf, m_size := max (m_size ba) (?p + length buf)\<rparr>"
  have "ByteArray_write buf ba = (Inr (), ba')"
    using False g(1) cur sel w ba_invD(1) [OF gi]
    by (simp add: ByteArray_write_def seq_def gb_def [symmetric] Let_def ba'_def max_def)
  moreover have "ba_inv ba'"
    using ba_invD [OF gi] u room sel by (auto simp: ba_inv_def ba'_def)
  moreover have "ba_file ba' = file_write buf (ba_file gb)"
    using take_splice_contents [of ?p "m_size ba" "concat (m_chain gb)" buf] ba_invD [OF gi] sel room
    by (simp add: ba_file_def file_write_def ba'_def c)
  moreover have "ba_file gb = ba_file ba"
    using inv by (simp add: gb_def)
  ultimately show ?thesis
    using sel by (auto simp: ba'_def)
qed

text \<open>The state in which a successful read or seek to \<open>p\<close> leaves the array.\<close>

definition at_position :: "nat \<Rightarrow> byte_array \<Rightarrow> byte_array" where
  "at_position p ba = ba\<lparr>m_position := p, m_cur := p div m_baseSize ba\<rparr>"

lemma at_position_inv: "ba_inv ba \<Longrightarrow> p \<le> m_size ba \<Longrightarrow> ba_inv (at_position p ba)"
  by (simp add: ba_inv_def at_position_def)

lemma at_position_sel [simp]:
  "m_endian (at_position p ba) = m_endian ba" "m_baseSize (at_position p ba) = m_baseSize ba"
  "m_position (at_position p ba) = p" "m_size (at_position p ba) = m_size ba"
  "m_capacity (at_position p ba) = m_capacity ba" "m_chain (at_position p ba) = m_chain ba"
  "ba_file (at_position p ba) = (ba_file ba)\<lparr>offset := p\<rparr>"
  by (simp_all add: at_position_def ba_file_def)

lemma slice_of_contents:
  "ba_inv ba \<Longrightarrow> p + n \<le> m_size ba \<Longrightarrow>
    take n (drop p (concat (m_chain ba))) = take n (drop p (contents (ba_file ba)))"
  by (simp add: drop_take min_def)

lemma read_loop_from_position:
  assumes "ba_inv ba" and "p < m_capacity ba" and "p + sz \<le> m_size ba"
  defines "npos \<equiv> p mod m_baseSize ba"
  shows "read_loop (m_chain ba) (p div m_baseSize ba) npos
      (size_sub (length (m_chain ba ! (p div m_baseSize ba))) npos) position sz =
    Inr (take sz (drop p (contents (ba_file ba))), (p + sz) div m_baseSize ba, position + sz)"
proof -
  let ?base = "m_baseSize ba" and ?cur = "p div m_baseSize ba"
  note D = ba_invD [OF assms(1)]
  have cur: "?cur < length (m_chain ba)"
    using assms(2) D by (simp add: div_less_iff_less_mult)
  then have len: "length (m_chain ba ! ?cur) = ?base"
    using D(3) by (rule uniform_nth [rotated])
  have n: "npos < ?base" and pos: "?cur * ?base + npos = p"
    using D(1) by (simp_all add: npos_def)
  have "read_loop (m_chain ba) ?cur npos (?base - npos) position sz =
      Inr (take sz (drop (?cur * ?base + npos) (concat (m_chain ba))), (?cur * ?base + npos + sz) div ?base, position + sz)"
    using D(3) n cur assms(3) D(4,6) pos by (intro read_loop_uniform) simp_all
  then show ?thesis
    using slice_of_contents [OF assms(1,3)] n len by (simp only: pos) simp
qed

lemma read_correct:
  assumes inv: "ba_inv ba" and room: "m_position ba < m_capacity ba"
    and sz: "m_position ba + sz \<le> m_size ba"
  shows "ByteArray_read sz ba = (Inr (take sz (file_left (ba_file ba))), at_position (m_position ba + sz) ba)"
proof -
  note D = ba_invD [OF inv]
  note cur = cur_block [OF inv room]
  have "sz \<le> ByteArray_getReadSize ba"
    using sz D(5) by (simp add: ByteArray_getReadSize_def)
  then show ?thesis
    using cur D(1) read_loop_from_position [OF inv room sz, of "m_position ba", folded D(7)]
    by (simp add: ByteArray_read_def Let_def at_position_def file_left_def del: size_sub_le)
qed

lemma read_short:
  assumes "ba_inv ba" and "m_size ba < m_position ba + sz"
  shows "ByteArray_read sz ba = (Inl (Exn (Out_Of_Range ''not enough len'')), ba)"
proof -
  have "ByteArray_getReadSize ba < sz"
    using assms ba_invD [OF assms(1)] by (simp add: ByteArray_getReadSize_def)
  then show ?thesis
    by (simp add: ByteArray_read_def)
qed

lemma read_nothing_at_end:
  assumes "ba_inv ba" and "m_position ba = m_capacity ba"
  shows "ByteArray_read 0 ba = (Inl Null_Deref, ba)"
  using assms cur_not_null [OF assms(1)] ba_invD [OF assms(1)] by (simp add: ByteArray_read_def)

lemma setPosition_correct:
  assumes inv: "ba_inv ba" and v: "v < m_capacity ba"
  shows "ByteArray_setPosition v ba = (Inr (), at_position v (ba\<lparr>m_size := max (m_size ba) v\<rparr>))"
proof -
  note D = ba_invD [OF inv]
  have "position_loop (m_chain ba) 0 v = Inr (v div m_baseSize ba)"
    using position_loop_uniform [OF D(3,1), of 0 v] v D(4) by simp
  then show ?thesis
    using v by (simp add: ByteArray_setPosition_def at_position_def max_def)
qed

lemma setPosition_inv:
  "ba_inv ba \<Longrightarrow> v < m_capacity ba \<Longrightarrow> ba_inv (at_position v (ba\<lparr>m_size := max (m_size ba) v\<rparr>))"
  by (auto simp: ba_inv_def at_position_def)

lemma setPosition_at_capacity:
  assumes inv: "ba_inv ba"
  shows "fst (ByteArray_setPosition (m_capacity ba) ba) = Inl Null_Deref"
proof -
  note D = ba_invD [OF inv]
  have "position_loop (m_chain ba) 0 (m_capacity ba) = Inl Null_Deref"
    using position_loop_uniform [OF D(3,1), of 0 "m_capacity ba"] D(4) by simp
  then show ?thesis
    by (simp add: ByteArray_setPosition_def)
qed

text \<open>The storage satisfies the contract the typed readers and writers rely on.\<close>

interpretation ba: byte_store ByteArray_write ByteArray_read ByteArray_setPosition ba_inv ba_file m_endian
proof unfold_locales
  fix s :: byte_array and bs :: "byte list" and n v :: nat
  assume inv: "ba_inv s"
  note D = ba_invD [OF inv]
  show "offset (ba_file s) \<le> length (contents (ba_file s))"
    using D length_contents [OF inv] by simp
  show "\<exists>s'. ByteArray_write bs s = (Inr (), s') \<and> ba_inv s' \<and>
      ba_file s' = file_write bs (ba_file s) \<and> m_endian s' = m_endian s"
    using write_correct [OF inv, of bs] by blast
  show "ByteArray_read n s = (Inl (Exn (Out_Of_Range ''not enough len'')), s)"
    if "length (file_left (ba_file s)) < n"
    using that read_short [OF inv, of n] by (simp add: length_file_left [OF inv])
  show "\<exists>s'. ByteArray_read n s = (Inr (take n (file_left (ba_file s))), s') \<and> ba_inv s' \<and>
      ba_file s' = file_skip n (ba_file s) \<and> m_endian s' = m_endian s"
    if "0 < n" and "n \<le> length (file_left (ba_file s))"
  proof -
    have "m_position s + n \<le> m_size s" and "m_position s < m_capacity s"
      using that D by (auto simp: length_file_left [OF inv])
    then show ?thesis
      using read_correct [OF inv] at_position_inv [OF inv]
      by (simp add: file_skip_def)
  qed
  show "\<exists>s'. ByteArray_setPosition v s = (Inr (), s') \<and> ba_inv s' \<and>
      ba_file s' = (ba_file s)\<lparr>offset := v\<rparr> \<and> m_endian s' = m_endian s"
    if "v < length (contents (ba_file s))"
  proof -
    have v: "v < m_capacity s" "max (m_size s) v = m_size s"
      using that D length_contents [OF inv] by simp_all
    then show ?thesis
      using setPosition_correct [OF inv v(1)] at_position_inv [OF inv, of v] that length_contents [OF inv]
      by simp
  qed
qed

lemma write_grows:
  assumes inv: "ba_inv ba"
  shows "m_capacity (snd (ByteArray_write buf ba)) < max (m_capacity ba + 1) (m_position ba + length buf + m_baseSize ba)"
proof -
  obtain extra n where g: "ByteArray_addCapacity (length buf) ba = (Inr (), grown ba extra n)"
    "m_capacity (grown ba extra n) < max (m_capacity ba + 1) (m_position ba + length buf + m_baseSize ba)"
    using addCapacity_grows [OF inv] by blast
  then show ?thesis
    by (auto simp: ByteArray_write_def seq_def Let_def split: sum.split prod.split)
qed

lemma clear_inv: "ba_inv ba \<Longrightarrow> ba_inv (ByteArray_clear ba)"
  by (cases "m_chain ba") (auto simp: ba_inv_def ByteArray_clear_def uniform_def)

lemma clear_file: "ba_file (ByteArray_clear ba) = \<lparr>contents = [], offset = 0\<rparr>"
  by (simp add: ba_file_def ByteArray_clear_def)

section \<open>Properties\<close>

text \<open>C1: writing refines the write of a random-access file: it never fails, puts the bytes at the
  position, overwriting or extending the contents and leaving everything else as it was, moves the
  position past them, keeps the invariant of the block chain, and allocates less than one block
  more than it needs.\<close>

theorem ByteArray_write_refines:
  assumes "ba_inv ba"
  shows "\<exists>ba'. ByteArray_write buf ba = (Inr (), ba') \<and> ba_inv ba' \<and>
    ba_file ba' = file_write buf (ba_file ba) \<and> m_endian ba' = m_endian ba \<and>
    m_capacity ba' < max (m_capacity ba + 1) (m_position ba + length buf + m_baseSize ba)"
  using write_correct [OF assms, of buf] write_grows [OF assms, of buf] by auto

lemma ByteArray_write_refines_witness:
  "\<exists>ba'. ByteArray_write [1, 2, 3, 4, 5] (ByteArray (\<lambda>_ _. 7) 3) = (Inr (), ba') \<and>
    contents (ba_file ba') = [1, 2, 3, 4, 5] \<and> m_position ba' = 5 \<and> m_capacity ba' < 8"
proof -
  obtain ba' where "ByteArray_write [1, 2, 3, 4, 5] (ByteArray (\<lambda>_ _. 7) 3) = (Inr (), ba')"
    and f: "ba_file ba' = file_write [1, 2, 3, 4, 5] (ba_file (ByteArray (\<lambda>_ _. 7) 3))"
    and "m_capacity ba' < 8"
    using ByteArray_write_refines [OF ByteArray_inv, of 3 "[1, 2, 3, 4, 5]" "\<lambda>_ _. 7"]
    by (auto simp: ByteArray_def)
  moreover have "contents (ba_file ba') = [1, 2, 3, 4, 5]"
    by (simp only: f) (simp add: ByteArray_file file_write_def splice_def)
  moreover have "m_position ba' = 5"
    by (simp only: f ba_file_simps(2) [symmetric]) (simp add: ByteArray_file file_write_def)
  ultimately show ?thesis
    by blast
qed

text \<open>C2: reading, on every branch: more than is left raises \<open>out_of_range\<close> and changes nothing;
  with the position at the very end of the blocks the null current block is dereferenced (only a
  read of no bytes gets there); otherwise the next bytes of the file are returned, the position
  moves past them and the current block is the one the new position lies in.\<close>

theorem ByteArray_read_refines:
  assumes "ba_inv ba"
  shows "ByteArray_read sz ba =
    (if length (file_left (ba_file ba)) < sz then (Inl (Exn (Out_Of_Range ''not enough len'')), ba)
     else if m_position ba = m_capacity ba then (Inl Null_Deref, ba)
     else (Inr (take sz (file_left (ba_file ba))),
       ba\<lparr>m_position := m_position ba + sz, m_cur := (m_position ba + sz) div m_baseSize ba\<rparr>))"
proof -
  note D = ba_invD [OF assms]
  consider "m_size ba < m_position ba + sz" | "m_position ba + sz \<le> m_size ba" "m_position ba = m_capacity ba"
    | "m_position ba + sz \<le> m_size ba" "m_position ba < m_capacity ba"
    using D by linarith
  then show ?thesis
  proof cases
    case 1
    then show ?thesis
      using read_short [OF assms] D(5) by (simp add: length_file_left [OF assms]) linarith
  next
    case 2
    then have "sz = 0"
      using D by linarith
    with 2 show ?thesis
      using read_nothing_at_end [OF assms] by simp
  next
    case 3
    then show ?thesis
      using read_correct [OF assms 3(2,1)] D(5)
      by (auto simp: length_file_left [OF assms] at_position_def)
  qed
qed

lemma ByteArray_read_refines_witness:
  "fst (ByteArray_read 1 (ByteArray (\<lambda>_ _. 7) 3)) = Inl (Exn (Out_Of_Range ''not enough len'')) \<and>
   fst (ByteArray_read 0 (ByteArray (\<lambda>_ _. 7) 3)) = Inr []"
  using ByteArray_read_refines [OF ByteArray_inv, of 3 1 "\<lambda>_ _. 7"]
    ByteArray_read_refines [OF ByteArray_inv, of 3 0 "\<lambda>_ _. 7"]
  by (simp add: ByteArray_file file_left_def) (simp add: ByteArray_def)

text \<open>\<open>setPosition\<close>, on every branch: beyond the capacity it raises \<open>out_of_range\<close> and changes
  nothing; at exactly the capacity, which its guard lets through, it dereferences the null block
  after the last; below it the position is set, the data seen so far is kept, and a position past
  the end of the data extends the data up to it.\<close>

theorem ByteArray_setPosition_refines:
  assumes "ba_inv ba"
  shows "(m_capacity ba < v \<longrightarrow>
      ByteArray_setPosition v ba = (Inl (Exn (Out_Of_Range ''set_position out of range'')), ba)) \<and>
    (v = m_capacity ba \<longrightarrow> fst (ByteArray_setPosition v ba) = Inl Null_Deref) \<and>
    (v < m_capacity ba \<longrightarrow> (\<exists>ba'. ByteArray_setPosition v ba = (Inr (), ba') \<and> ba_inv ba' \<and>
      m_position ba' = v \<and> m_endian ba' = m_endian ba \<and>
      length (contents (ba_file ba')) = max (length (contents (ba_file ba))) v \<and>
      take (length (contents (ba_file ba))) (contents (ba_file ba')) = contents (ba_file ba)))"
proof -
  let ?ba' = "at_position v (ba\<lparr>m_size := max (m_size ba) v\<rparr>)"
  have "m_capacity ba < v \<Longrightarrow>
      ByteArray_setPosition v ba = (Inl (Exn (Out_Of_Range ''set_position out of range'')), ba)"
    by (simp add: ByteArray_setPosition_def)
  moreover have "v = m_capacity ba \<Longrightarrow> fst (ByteArray_setPosition v ba) = Inl Null_Deref"
    using setPosition_at_capacity [OF assms] by simp
  moreover have "ByteArray_setPosition v ba = (Inr (), ?ba') \<and> ba_inv ?ba' \<and>
      m_position ?ba' = v \<and> m_endian ?ba' = m_endian ba \<and>
      length (contents (ba_file ?ba')) = max (length (contents (ba_file ba))) v \<and>
      take (length (contents (ba_file ba))) (contents (ba_file ?ba')) = contents (ba_file ba)"
    if v: "v < m_capacity ba"
    using setPosition_correct [OF assms v] setPosition_inv [OF assms v] length_contents [OF assms]
      length_contents [OF setPosition_inv [OF assms v]]
    by (simp only: at_position_sel) (simp add: min_def)
  ultimately show ?thesis
    by (intro conjI impI) blast+
qed

lemma ByteArray_setPosition_refines_witness:
  "fst (ByteArray_setPosition 4 (ByteArray (\<lambda>_ _. 7) 3)) = Inl (Exn (Out_Of_Range ''set_position out of range'')) \<and>
   fst (ByteArray_setPosition 3 (ByteArray (\<lambda>_ _. 7) 3)) = Inl Null_Deref \<and>
   fst (ByteArray_setPosition 2 (ByteArray (\<lambda>_ _. 7) 3)) = Inr ()"
  using ByteArray_setPosition_refines [OF ByteArray_inv, of 3 "\<lambda>_ _. 7" 4]
    ByteArray_setPosition_refines [OF ByteArray_inv, of 3 "\<lambda>_ _. 7" 3]
    ByteArray_setPosition_refines [OF ByteArray_inv, of 3 "\<lambda>_ _. 7" 2]
  by (auto simp: ByteArray_def [of _ 3])

end
