(* ===== verification/Byte_Views.thy ===== *)
theory Byte_Views
  imports Byte_Array
begin

text \<open>
  The views of a byte array that leave it in place: the \<open>iovec\<close> arrays of \<open>getReadBuffers\<close> and
  \<open>getWriteBuffers\<close> (\<open>sylar/bytearray.cpp\<close>, for \<open>readv\<close>/\<open>writev\<close>), the file operations
  \<open>writeToFile\<close> and \<open>readFromFile\<close>, and the hexadecimal dump.
\<close>

section \<open>iovec arrays\<close>

text \<open>\<open>iov_base\<close> points into a block: its index in the chain and an offset in it.\<close>

record iovec =
  iov_base :: "nat \<times> nat"
  iov_len :: nat

text \<open>The \<open>while(len > 0)\<close> loop the three functions share; it pushes one \<open>iovec\<close> per block.\<close>

function iov_loop :: "byte list list \<Rightarrow> nat \<Rightarrow> nat \<Rightarrow> nat \<Rightarrow> nat \<Rightarrow> fault + iovec list" where
  "iov_loop chain cur npos ncap len =
    (if len = 0 then Inr []
     else if len \<le> ncap then Inr [\<lparr>iov_base = (cur, npos), iov_len = len\<rparr>]
     else if Suc cur < length chain then
       (case iov_loop chain (Suc cur) 0 (length (chain ! Suc cur)) (len - ncap) of
          Inl e \<Rightarrow> Inl e
        | Inr iovs \<Rightarrow> Inr (\<lparr>iov_base = (cur, npos), iov_len = ncap\<rparr> # iovs))
     else Inl Null_Deref)"
  by pat_completeness auto
termination
  by (relation "measure (\<lambda>(chain, cur, _). length chain - cur)") auto

declare iov_loop.simps [simp del]

definition ByteArray_getReadBuffers :: "iovec list \<Rightarrow> nat \<Rightarrow> byte_array \<Rightarrow> fault + iovec list \<times> nat" where
  "ByteArray_getReadBuffers buffers len0 ba =
    (let len = (if ByteArray_getReadSize ba < len0 then ByteArray_getReadSize ba else len0)
     in if len = 0 then Inr (buffers, 0)
        else if m_baseSize ba = 0 then Inl Div_By_Zero
        else if length (m_chain ba) \<le> m_cur ba then Inl Null_Deref
        else
          let npos = m_position ba mod m_baseSize ba;
              ncap = size_sub (length (m_chain ba ! m_cur ba)) npos
          in case iov_loop (m_chain ba) (m_cur ba) npos ncap len of
               Inl e \<Rightarrow> Inl e
             | Inr iovs \<Rightarrow> Inr (buffers @ iovs, len))"

definition ByteArray_getReadBuffers_at ::
  "iovec list \<Rightarrow> nat \<Rightarrow> nat \<Rightarrow> byte_array \<Rightarrow> fault + iovec list \<times> nat" where
  "ByteArray_getReadBuffers_at buffers len0 position ba =
    (if m_size ba < position then Inl (Exn (Out_Of_Range ''position out of size''))
     else if len0 = 0 then Inr (buffers, 0)
     else
       let left = size_sub (m_size ba) position; len = (if left < len0 then left else len0)
       in if m_baseSize ba = 0 then Inl Div_By_Zero
          else
            let npos = position mod m_baseSize ba; count = position div m_baseSize ba
            in case walk (m_chain ba) count 0 of
                 Inl e \<Rightarrow> Inl e
               | Inr cur \<Rightarrow>
                   if length (m_chain ba) \<le> cur then Inl Null_Deref
                   else
                     let ncap = size_sub (length (m_chain ba ! cur)) npos
                     in case iov_loop (m_chain ba) cur npos ncap len of
                          Inl e \<Rightarrow> Inl e
                        | Inr iovs \<Rightarrow> Inr (buffers @ iovs, len))"

definition ByteArray_getWriteBuffers :: "iovec list \<Rightarrow> nat \<Rightarrow> (iovec list \<times> nat) ba_method" where
  "ByteArray_getWriteBuffers buffers len ba =
    (if len = 0 then (Inr (buffers, 0), ba)
     else seq (ByteArray_addCapacity len) (\<lambda>_ ba.
       if m_baseSize ba = 0 then (Inl Div_By_Zero, ba)
       else if length (m_chain ba) \<le> m_cur ba then (Inl Null_Deref, ba)
       else
         let npos = m_position ba mod m_baseSize ba;
             ncap = size_sub (length (m_chain ba ! m_cur ba)) npos
         in case iov_loop (m_chain ba) (m_cur ba) npos ncap len of
              Inl e \<Rightarrow> (Inl e, ba)
            | Inr iovs \<Rightarrow> (Inr (buffers @ iovs, len), ba)) ba)"

section \<open>Files\<close>

text \<open>
  \<open>writeToFile\<close>: whether the file can be opened is an input; the result is the flag returned and
  the bytes the stream received. Lengths are signed here, as in the code; \<open>ostream::write\<close> with a
  negative count is outside its domain, which the model counts as an access out of bounds.
\<close>

function writeToFile_loop ::
  "byte list list \<Rightarrow> nat \<Rightarrow> nat \<Rightarrow> int \<Rightarrow> int \<Rightarrow> fault + byte list" where
  "writeToFile_loop chain base cur pos read_size =
    (if read_size \<le> 0 then Inr []
     else if length chain \<le> cur then Inl Null_Deref
     else
       let diff = pos mod int base;
           len = (if int base < read_size then int base else read_size) - diff
       in if len < 0 then Inl Out_Of_Bounds
          else
            case memcpy_out (nat diff) (nat len) (chain ! cur) of
              Inl e \<Rightarrow> Inl e
            | Inr bs \<Rightarrow>
                map_sum id (\<lambda>out. bs @ out)
                  (writeToFile_loop chain base (Suc cur) (pos + len) (read_size - len)))"
  by pat_completeness auto
termination
  by (relation "measure (\<lambda>(chain, base, cur, _). length chain - cur)") auto

declare writeToFile_loop.simps [simp del]

definition ByteArray_writeToFile :: "bool \<Rightarrow> byte_array \<Rightarrow> fault + bool \<times> byte list" where
  "ByteArray_writeToFile opened ba =
    (if \<not> opened then Inr (False, [])
     else map_sum id (Pair True)
       (writeToFile_loop (m_chain ba) (m_baseSize ba) (m_cur ba) (int (m_position ba))
          (int (ByteArray_getReadSize ba))))"

text \<open>
  \<open>readFromFile\<close>: the file is its contents, or \<open>None\<close> when it cannot be opened. Each turn of the
  loop reads up to \<open>m_baseSize\<close> bytes; a short read sets \<open>eof\<close>. With blocks of size zero the
  stream never reaches its end, so the loop is a partial function.
\<close>

partial_function (option) readFromFile_loop ::
  "byte list \<Rightarrow> byte_array \<Rightarrow> ((fault + unit) \<times> byte_array) option" where
  "readFromFile_loop input ba =
    (case ByteArray_write (take (m_baseSize ba) input) ba of
       (Inl e, ba') \<Rightarrow> Some (Inl e, ba')
     | (Inr _, ba') \<Rightarrow>
         if length input < m_baseSize ba then Some (Inr (), ba')
         else readFromFile_loop (drop (m_baseSize ba) input) ba')"

definition ByteArray_readFromFile ::
  "byte list option \<Rightarrow> byte_array \<Rightarrow> ((fault + bool) \<times> byte_array) option" where
  "ByteArray_readFromFile file_contents ba =
    (case file_contents of
       None \<Rightarrow> Some (Inr False, ba)
     | Some input \<Rightarrow> map_option (map_prod (map_sum id (\<lambda>_. True)) id) (readFromFile_loop input ba))"

section \<open>The hexadecimal dump\<close>

definition hex_digit :: "nat \<Rightarrow> char" where
  "hex_digit n = ''0123456789abcdef'' ! n"

text \<open>\<open>setw(2) << setfill('0') << hex << (int)(uint8_t)c\<close>\<close>

definition hex_byte :: "byte \<Rightarrow> string" where
  "hex_byte b = [hex_digit (unat b div 16), hex_digit (unat b mod 16)]"

fun hex_loop :: "nat \<Rightarrow> byte list \<Rightarrow> string" where
  "hex_loop i [] = []"
| "hex_loop i (b # bs) =
    (if 0 < i \<and> i mod 32 = 0 then [CHR 0x0A] else []) @ hex_byte b @ '' '' @ hex_loop (Suc i) bs"

definition ByteArray_toHexString :: "byte_array \<Rightarrow> fault + string" where
  "ByteArray_toHexString ba = map_sum id (hex_loop 0) (ByteArray_toString ba)"

section \<open>Lemmas\<close>

subsection \<open>Positioned reads\<close>

lemma read_at_correct:
  assumes inv: "ba_inv ba" and p: "p < m_capacity ba" and sz: "p + n \<le> m_size ba"
  shows "ByteArray_read_at n p ba = Inr (take n (drop p (contents (ba_file ba))))"
proof -
  note D = ba_invD [OF inv]
  have cur: "p div m_baseSize ba < length (m_chain ba)"
    using p D by (simp add: div_less_iff_less_mult)
  have "n \<le> size_sub (m_size ba) p"
    using sz by simp
  then show ?thesis
    using cur D(1) walk_result [of 0 "m_chain ba" "p div m_baseSize ba"]
      read_loop_from_position [OF inv p sz, of p]
    by (simp add: ByteArray_read_at_def Let_def del: size_sub_le)
qed

lemma toString_correct:
  assumes inv: "ba_inv ba"
  shows "ByteArray_toString ba = Inr (file_left (ba_file ba))"
proof (cases "m_position ba = m_size ba")
  case True
  then show ?thesis
    by (simp add: ByteArray_toString_def ByteArray_getReadSize_def file_left_def)
next
  case False
  note D = ba_invD [OF inv]
  let ?n = "m_size ba - m_position ba"
  have "ByteArray_read_at ?n (m_position ba) ba = Inr (take ?n (drop (m_position ba) (contents (ba_file ba))))"
    using False D by (intro read_at_correct [OF inv]) simp_all
  then show ?thesis
    using False D by (simp add: ByteArray_toString_def ByteArray_getReadSize_def file_left_def drop_take)
qed

subsection \<open>iovec arrays\<close>

definition iov_bytes :: "byte list list \<Rightarrow> iovec \<Rightarrow> byte list" where
  "iov_bytes chain iov = take (iov_len iov) (drop (snd (iov_base iov)) (chain ! fst (iov_base iov)))"

definition iov_valid :: "byte list list \<Rightarrow> iovec \<Rightarrow> bool" where
  "iov_valid chain iov \<longleftrightarrow> fst (iov_base iov) < length chain \<and> 0 < iov_len iov \<and>
    snd (iov_base iov) + iov_len iov \<le> length (chain ! fst (iov_base iov))"

text \<open>The buffers are the places the copying loop of \<open>read\<close> copies from, in the same order.\<close>

lemma iov_loop_read_loop:
  assumes "uniform base chain" and "npos < base" and "cur < length chain"
    and "cur * base + npos + len \<le> length chain * base"
  shows "\<exists>iovs. iov_loop chain cur npos (base - npos) len = Inr iovs \<and>
    concat (map (iov_bytes chain) iovs) = take len (drop (cur * base + npos) (concat chain)) \<and>
    list_all (iov_valid chain) iovs"
  using assms
proof (induction chain cur npos "base - npos" len rule: iov_loop.induct)
  case (1 chain cur npos len)
  have block: "length (chain ! cur) = base"
    using "1.prems" by (simp add: uniform_nth)
  show ?case
  proof (cases "len \<le> base - npos")
    case True
    then show ?thesis
      using "1.prems" block block_slice [of base chain cur npos len]
      by (cases "len = 0") (simp_all add: iov_loop.simps [of chain cur] iov_bytes_def iov_valid_def)
  next
    case False
    let ?k = "base - npos"
    have nxt: "cur * base + npos + ?k = Suc cur * base"
      using "1.prems" by simp
    have rest: "Suc cur * base + (len - ?k) \<le> length chain * base"
      using False "1.prems" nxt by simp
    have sc: "Suc cur < length chain"
      using block_bound [of "Suc cur" base "len - ?k" "length chain"] rest False by simp
    have "length (chain ! Suc cur) = base - 0"
      using "1.prems"(1) sc by (simp add: uniform_nth)
    then obtain iovs where i: "iov_loop chain (Suc cur) 0 (length (chain ! Suc cur)) (len - ?k) = Inr iovs"
      "concat (map (iov_bytes chain) iovs) = take (len - ?k) (drop (Suc cur * base) (concat chain))"
      "list_all (iov_valid chain) iovs"
      using "1.hyps" False sc rest "1.prems"(1,2) by auto
    let ?iov = "\<lparr>iov_base = (cur, npos), iov_len = ?k\<rparr>"
    have "iov_bytes chain ?iov @ concat (map (iov_bytes chain) iovs) = take len (drop (cur * base + npos) (concat chain))"
      using block_slice [of base chain cur npos ?k] "1.prems" False
        slice_append_slice [of ?k "cur * base + npos" "concat chain" "len - ?k", unfolded nxt]
      by (simp add: i(2) iov_bytes_def)
    moreover have "iov_valid chain ?iov"
      using "1.prems" block by (simp add: iov_valid_def)
    ultimately show ?thesis
      using False sc i by (simp add: iov_loop.simps [of chain cur])
  qed
qed

lemma iov_loop_from_position:
  assumes inv: "ba_inv ba" and p: "p < m_capacity ba" and len: "p + len \<le> m_capacity ba"
  defines "npos \<equiv> p mod m_baseSize ba" and "cur \<equiv> p div m_baseSize ba"
  obtains iovs where "cur < length (m_chain ba)"
    and "iov_loop (m_chain ba) cur npos (size_sub (length (m_chain ba ! cur)) npos) len = Inr iovs"
    and "concat (map (iov_bytes (m_chain ba)) iovs) = take len (drop p (concat (m_chain ba)))"
    and "list_all (iov_valid (m_chain ba)) iovs"
proof -
  note D = ba_invD [OF inv]
  have cur: "cur < length (m_chain ba)"
    using p D by (simp add: cur_def div_less_iff_less_mult)
  have block: "length (m_chain ba ! cur) = m_baseSize ba"
    using D(3) cur by (rule uniform_nth)
  have npos: "npos < m_baseSize ba" and pos: "cur * m_baseSize ba + npos = p"
    using D(1) by (simp_all add: npos_def cur_def)
  have "size_sub (length (m_chain ba ! cur)) npos = m_baseSize ba - npos"
    using npos block by simp
  moreover obtain iovs where "iov_loop (m_chain ba) cur npos (m_baseSize ba - npos) len = Inr iovs"
    "concat (map (iov_bytes (m_chain ba)) iovs) = take len (drop p (concat (m_chain ba)))"
    "list_all (iov_valid (m_chain ba)) iovs"
    using iov_loop_read_loop [OF D(3) npos cur, of len] len D(4) pos by auto
  ultimately show ?thesis
    using that cur by metis
qed

lemma iov_loop_short: "iov_loop chain cur npos ncap 0 = Inr []"
  by (simp add: iov_loop.simps)

lemma getReadBuffers_correct:
  assumes inv: "ba_inv ba"
  shows "\<exists>iovs. ByteArray_getReadBuffers buffers len ba =
      Inr (buffers @ iovs, min len (length (file_left (ba_file ba)))) \<and>
    concat (map (iov_bytes (m_chain ba)) iovs) = take len (file_left (ba_file ba)) \<and>
    list_all (iov_valid (m_chain ba)) iovs"
proof -
  note D = ba_invD [OF inv]
  let ?p = "m_position ba" and ?left = "m_size ba - m_position ba"
  have rs: "ByteArray_getReadSize ba = ?left"
    using D(5) by (simp add: ByteArray_getReadSize_def)
  show ?thesis
  proof (cases "min len ?left = 0")
    case True
    then show ?thesis
      by (auto simp: ByteArray_getReadBuffers_def rs length_file_left [OF inv] min_def
          file_left_def split: if_splits)
  next
    case False
    then have p: "?p < m_capacity ba" and n: "?p + min len ?left \<le> m_capacity ba"
      using D(5,6) by auto
    from iov_loop_from_position [OF inv p n, folded D(7)] obtain iovs where
      "m_cur ba < length (m_chain ba)"
      and i: "iov_loop (m_chain ba) (m_cur ba) (?p mod m_baseSize ba)
        (size_sub (length (m_chain ba ! m_cur ba)) (?p mod m_baseSize ba)) (min len ?left) = Inr iovs"
      and bytes: "concat (map (iov_bytes (m_chain ba)) iovs) = take (min len ?left) (drop ?p (concat (m_chain ba)))"
      and v: "list_all (iov_valid (m_chain ba)) iovs" .
    have "take (min len ?left) (drop ?p (concat (m_chain ba))) = take len (file_left (ba_file ba))"
      by (simp add: file_left_def drop_take min.commute)
    moreover have capped: "(if ?left < len then ?left else len) = min len ?left"
      by simp
    have "ByteArray_getReadBuffers buffers len ba = Inr (buffers @ iovs, min len ?left)"
      unfolding ByteArray_getReadBuffers_def rs capped
      using i False D(1) \<open>m_cur ba < length (m_chain ba)\<close> by (simp only: Let_def) simp
    ultimately show ?thesis
      using bytes v by (intro exI [of _ iovs]) (simp add: length_file_left [OF inv])
  qed
qed

lemma getReadBuffers_at_correct:
  assumes inv: "ba_inv ba" and p: "p \<le> m_size ba" "p < m_capacity ba"
  shows "\<exists>iovs. ByteArray_getReadBuffers_at buffers len p ba =
      Inr (buffers @ iovs, min len (m_size ba - p)) \<and>
    concat (map (iov_bytes (m_chain ba)) iovs) = take len (drop p (contents (ba_file ba))) \<and>
    list_all (iov_valid (m_chain ba)) iovs"
proof (cases "len = 0")
  case True
  then show ?thesis
    using p by (simp add: ByteArray_getReadBuffers_at_def)
next
  case False
  note D = ba_invD [OF inv]
  let ?n = "min len (m_size ba - p)" and ?cur = "p div m_baseSize ba"
  have n: "p + ?n \<le> m_capacity ba"
    using p D(6) by simp
  from iov_loop_from_position [OF inv p(2) n] obtain iovs where
    cur: "?cur < length (m_chain ba)"
    and i: "iov_loop (m_chain ba) ?cur (p mod m_baseSize ba)
      (size_sub (length (m_chain ba ! ?cur)) (p mod m_baseSize ba)) ?n = Inr iovs"
    and bytes: "concat (map (iov_bytes (m_chain ba)) iovs) = take ?n (drop p (concat (m_chain ba)))"
    and v: "list_all (iov_valid (m_chain ba)) iovs" .
  have "take ?n (drop p (concat (m_chain ba))) = take len (drop p (contents (ba_file ba)))"
    by (simp add: drop_take min.commute)
  moreover have "(if m_size ba - p < len then m_size ba - p else len) = ?n"
    by simp
  ultimately show ?thesis
    using i bytes v False cur p D(1) walk_result [of 0 "m_chain ba" ?cur]
    by (intro exI [of _ iovs]) (simp add: ByteArray_getReadBuffers_at_def Let_def)
qed

lemma getReadBuffers_at_full:
  assumes inv: "ba_inv ba" and "m_size ba = m_capacity ba" and "0 < len"
  shows "ByteArray_getReadBuffers_at buffers len (m_size ba) ba = Inl Null_Deref"
  using assms(2,3) ba_invD [OF inv] walk_result [of 0 "m_chain ba" "length (m_chain ba)"]
  by (simp add: ByteArray_getReadBuffers_at_def Let_def)

text \<open>
  What \<open>readv\<close> does with the buffers: it fills them in order. Filling the buffers of the loop is
  writing at the position the loop started from.
\<close>

primrec iov_fill :: "iovec list \<Rightarrow> byte list \<Rightarrow> byte list list \<Rightarrow> byte list list" where
  "iov_fill [] bs chain = chain"
| "iov_fill (iov # iovs) bs chain =
    iov_fill iovs (drop (iov_len iov) bs)
      (chain[fst (iov_base iov) :=
        splice (snd (iov_base iov)) (take (iov_len iov) bs) (chain ! fst (iov_base iov))])"

lemma iov_fill_loop:
  assumes "uniform base chain" and "npos < base" and "cur < length chain"
    and "cur * base + npos + len \<le> length chain * base"
    and "iov_loop chain cur npos (base - npos) len = Inr iovs"
    and "uniform base chain'" and "length chain' = length chain" and "length bs = len"
  shows "concat (iov_fill iovs bs chain') = splice (cur * base + npos) bs (concat chain') \<and>
    uniform base (iov_fill iovs bs chain') \<and> length (iov_fill iovs bs chain') = length chain'"
  using assms
proof (induction chain cur npos "base - npos" len arbitrary: iovs bs chain' rule: iov_loop.induct)
  case (1 chain cur npos len)
  have block: "length (chain' ! cur) = base"
    using "1.prems" by (simp add: uniform_nth)
  show ?case
  proof (cases "len \<le> base - npos")
    case True
    show ?thesis
    proof (cases "len = 0")
      case True
      then show ?thesis
        using "1.prems" by (simp add: iov_loop.simps [of chain cur])
    next
      case False
      then have "iovs = [\<lparr>iov_base = (cur, npos), iov_len = len\<rparr>]"
        using "1.prems" True by (simp add: iov_loop.simps [of chain cur])
      then show ?thesis
        using "1.prems" block True concat_update [of base chain' cur npos bs]
        by (simp add: uniform_update)
    qed
  next
    case False
    let ?k = "base - npos"
    let ?mid = "chain'[cur := splice npos (take ?k bs) (chain' ! cur)]"
    have nxt: "cur * base + npos + ?k = Suc cur * base"
      using "1.prems" by simp
    have rest: "Suc cur * base + 0 + (len - ?k) \<le> length chain * base"
      using False "1.prems" nxt by simp
    have sc: "Suc cur < length chain"
      using block_bound [of "Suc cur" base "len - ?k" "length chain"] rest False by simp
    have sb: "length (chain ! Suc cur) = base - 0"
      using "1.prems"(1) sc by (simp add: uniform_nth)
    obtain more where more: "iov_loop chain (Suc cur) 0 (length (chain ! Suc cur)) (len - ?k) = Inr more"
      and iovs: "iovs = \<lparr>iov_base = (cur, npos), iov_len = ?k\<rparr> # more"
      using "1.prems"(5) False sc by (auto simp: iov_loop.simps [of chain cur] split: sum.splits)
    have mid: "uniform base ?mid" "length ?mid = length chain"
      using "1.prems" block False by (auto intro!: uniform_update)
    have IH: "concat (iov_fill more (drop ?k bs) ?mid) = splice (Suc cur * base + 0) (drop ?k bs) (concat ?mid) \<and>
        uniform base (iov_fill more (drop ?k bs) ?mid) \<and> length (iov_fill more (drop ?k bs) ?mid) = length ?mid"
      using False "1.prems" rest sc sb more mid by (intro "1.hyps") simp_all
    have "concat ?mid = splice (cur * base + npos) (take ?k bs) (concat chain')"
      using "1.prems" by (intro concat_update) simp_all
    then have "splice (Suc cur * base + 0) (drop ?k bs) (concat ?mid) = splice (cur * base + npos) bs (concat chain')"
      using splice_in_two [of "cur * base + npos" ?k "concat chain'" bs] nxt False "1.prems"
        length_concat_uniform [OF "1.prems"(6)] by simp
    then show ?thesis
      using IH mid(2) "1.prems"(7) by (simp add: iovs)
  qed
qed

lemma getWriteBuffers_correct:
  assumes inv: "ba_inv ba" and len: "0 < len"
  shows "\<exists>ba' iovs. ByteArray_getWriteBuffers buffers len ba = (Inr (buffers @ iovs, len), ba') \<and>
    ba_inv ba' \<and> ba_file ba' = ba_file ba \<and> m_position ba' = m_position ba \<and>
    list_all (iov_valid (m_chain ba')) iovs \<and> m_position ba + len \<le> m_capacity ba' \<and>
    (\<forall>bs. length bs = len \<longrightarrow>
      ba_inv (ba'\<lparr>m_chain := iov_fill iovs bs (m_chain ba')\<rparr>) \<and>
      concat (iov_fill iovs bs (m_chain ba')) = splice (m_position ba) bs (concat (m_chain ba')))"
proof -
  obtain extra n where g: "ByteArray_addCapacity len ba = (Inr (), grown ba extra n)"
    "uniform (m_baseSize ba) extra" "m_position ba + len \<le> m_capacity (grown ba extra n)"
    using addCapacity_grows [OF inv] by blast
  define gb where "gb = grown ba extra n"
  have gi: "ba_inv gb" and gf: "ba_file gb = ba_file ba" and p: "m_position gb = m_position ba"
    using inv g(2) by (simp_all add: gb_def grown_inv) (simp add: grown_def)
  note D = ba_invD [OF gi]
  let ?p = "m_position gb" and ?base = "m_baseSize gb"
  have room: "?p + len \<le> m_capacity gb" and p': "?p < m_capacity gb"
    using g(3) len p by (simp_all add: gb_def)
  note cur = cur_block [OF gi p']
  from iov_loop_from_position [OF gi p' room, folded D(7)] obtain iovs where
    i: "iov_loop (m_chain gb) (m_cur gb) (?p mod ?base)
      (size_sub (length (m_chain gb ! m_cur gb)) (?p mod ?base)) len = Inr iovs"
    and v: "list_all (iov_valid (m_chain gb)) iovs"
    by blast
  have "ByteArray_getWriteBuffers buffers len ba = (Inr (buffers @ iovs, len), gb)"
    using len g(1) cur(1) D(1) i
    by (simp add: ByteArray_getWriteBuffers_def seq_def gb_def [symmetric] Let_def)
  moreover have "ba_inv (gb\<lparr>m_chain := iov_fill iovs bs (m_chain gb)\<rparr>) \<and>
      concat (iov_fill iovs bs (m_chain gb)) = splice (m_position ba) bs (concat (m_chain gb))"
    if "length bs = len" for bs
  proof -
    have "concat (iov_fill iovs bs (m_chain gb)) = splice (m_cur gb * ?base + ?p mod ?base) bs (concat (m_chain gb)) \<and>
        uniform ?base (iov_fill iovs bs (m_chain gb)) \<and>
        length (iov_fill iovs bs (m_chain gb)) = length (m_chain gb)"
      using D(3,4) cur room that i by (intro iov_fill_loop) simp_all
    then show ?thesis
      using cur(3) p gi by (auto simp: ba_inv_def)
  qed
  ultimately show ?thesis
    using gi gf v room p by (intro exI [of _ gb] exI [of _ iovs]) simp
qed

subsection \<open>Files\<close>

lemma writeToFile_loop_aligned:
  assumes "uniform base chain" and "0 < base" and "cur * base + n \<le> length chain * base"
  shows "writeToFile_loop chain base cur (int (cur * base)) (int n) =
    Inr (take n (drop (cur * base) (concat chain)))"
  using assms(3)
proof (induction n arbitrary: cur rule: less_induct)
  case (less n)
  show ?case
  proof (cases "n = 0")
    case True
    then show ?thesis
      by (simp add: writeToFile_loop.simps [of chain])
  next
    case False
    have cur: "cur < length chain"
      using block_bound [of cur base n "length chain"] less.prems False by simp
    then have len: "length (chain ! cur) = base"
      using assms(1) by (simp add: uniform_nth)
    let ?k = "min base n"
    have step: "writeToFile_loop chain base cur (int (cur * base)) (int n) =
        map_sum id (\<lambda>out. take ?k (chain ! cur) @ out)
          (writeToFile_loop chain base (Suc cur) (int (cur * base) + int ?k) (int n - int ?k))"
      using False cur len
      by (subst writeToFile_loop.simps) (auto simp: memcpy_out_def min_def Let_def)
    have block: "take ?k (chain ! cur) = take ?k (drop (cur * base) (concat chain))"
      using block_slice [of base chain cur 0 ?k] assms(1) cur by simp
    show ?thesis
    proof (cases "base < n")
      case True
      have "writeToFile_loop chain base (Suc cur) (int (Suc cur * base)) (int (n - base)) =
          Inr (take (n - base) (drop (Suc cur * base) (concat chain)))"
        using True assms(2) less.prems by (intro less.IH) simp_all
      moreover have "int (cur * base) + int ?k = int (Suc cur * base)" "int n - int ?k = int (n - base)"
        using True by simp_all
      ultimately show ?thesis
        using True block slice_append_slice [of base "cur * base" "concat chain" "n - base"]
        unfolding step by (simp add: add.commute)
    next
      case False
      then have "?k = n"
        by simp
      moreover have "writeToFile_loop chain base (Suc cur) pos 0 = Inr []" for pos
        by (simp add: writeToFile_loop.simps [of chain])
      ultimately show ?thesis
        using block unfolding step by simp
    qed
  qed
qed

lemma writeToFile_loop_first:
  assumes "uniform base chain" and "d < base" and "cur < length chain" and "base \<le> n"
    and "cur * base + d + n \<le> length chain * base"
  shows "writeToFile_loop chain base cur (int (cur * base + d)) (int n) =
    Inr (take n (drop (cur * base + d) (concat chain)))"
proof -
  obtain k where k: "base = d + k" and k0: "0 < k"
    using assms(2) by (metis less_imp_add_positive)
  have len: "length (chain ! cur) = base" and base: "0 < base"
    using assms by (simp_all add: uniform_nth)
  have nxt: "cur * base + d + k = Suc cur * base"
    using k by simp
  have "int (cur * base + d) mod int base = int d"
    using assms(2) by (simp flip: of_nat_add of_nat_mult of_nat_mod)
  moreover have "int base - int d = int k" "k \<le> n" "0 < n"
    using k k0 assms(4) by simp_all
  ultimately have "writeToFile_loop chain base cur (int (cur * base + d)) (int n) =
      map_sum id (\<lambda>out. take k (drop d (chain ! cur)) @ out)
        (writeToFile_loop chain base (Suc cur) (int (cur * base + d) + int k) (int n - int k))"
    using assms(3,4) len k k0
    by (cases "n = d + k"; subst writeToFile_loop.simps) (simp_all add: memcpy_out_def Let_def)
  also have "int (cur * base + d) + int k = int (Suc cur * base)"
    by (simp only: nxt [symmetric] of_nat_add)
  also have "int n - int k = int (n - k)"
    using \<open>k \<le> n\<close> by (simp add: of_nat_diff)
  also have "writeToFile_loop chain base (Suc cur) (int (Suc cur * base)) (int (n - k)) =
      Inr (take (n - k) (drop (Suc cur * base) (concat chain)))"
    using assms nxt by (intro writeToFile_loop_aligned base) simp_all
  also have "map_sum id (\<lambda>out. take k (drop d (chain ! cur)) @ out) \<dots> =
      Inr (take (k + (n - k)) (drop (cur * base + d) (concat chain)))"
    using block_slice [of base chain cur d k] assms k
      slice_append_slice [of k "cur * base + d" "concat chain" "n - k", unfolded nxt] by simp
  finally show ?thesis
    using \<open>k \<le> n\<close> by simp
qed

text \<open>Where the loop goes wrong: less than a block left to write, starting inside a block.\<close>

lemma writeToFile_loop_stuck:
  assumes "uniform base chain" and "0 < n" and "n < base" and "pos mod int base = int n"
  shows "\<exists>e. writeToFile_loop chain base cur pos (int n) = Inl e"
proof (induction "length chain - cur" arbitrary: cur)
  case 0
  then show ?case
    using assms(2) by (subst writeToFile_loop.simps) simp
next
  case (Suc k)
  then have len: "length (chain ! cur) = base"
    using assms(1) by (simp add: uniform_nth)
  have "\<exists>e. writeToFile_loop chain base (Suc cur) pos (int n) = Inl e"
    using Suc by simp
  then show ?case
    using assms len Suc(2) by (subst writeToFile_loop.simps) (auto simp: memcpy_out_def Let_def)
qed

lemma writeToFile_loop_misaligned:
  assumes "uniform base chain" and "0 < d" and "d < base" and "0 < n" and "n < base"
  shows "\<exists>e. writeToFile_loop chain base cur (int (q * base + d)) (int n) = Inl e"
proof (cases "cur < length chain")
  case False
  then show ?thesis
    using assms(4) by (subst writeToFile_loop.simps) simp
next
  case cur: True
  have d: "int (q * base + d) mod int base = int d"
    using assms(3) by (simp flip: of_nat_add of_nat_mult of_nat_mod)
  have len: "length (chain ! cur) = base"
    using assms(1) cur by (simp add: uniform_nth)
  consider "n < d" | "n = d" | "d < n"
    by linarith
  then show ?thesis
  proof cases
    case 1
    then show ?thesis
      using d cur assms by (subst writeToFile_loop.simps) (simp add: Let_def)
  next
    case 2
    then show ?thesis
      using d writeToFile_loop_stuck [of base chain n "int (q * base + d)" cur] assms by simp
  next
    case 3
    let ?pos = "int (q * base + n)"
    have "int (q * base + n) mod int base = int n"
      using assms(5) by (simp flip: of_nat_add of_nat_mult of_nat_mod)
    then have "\<exists>e. writeToFile_loop chain base (Suc cur) ?pos (int d) = Inl e"
      using 3 assms by (subst writeToFile_loop.simps) (simp add: Let_def)
    moreover have "int (q * base + d) + (int n - int d) = ?pos" "int n - (int n - int d) = int d"
      by simp_all
    ultimately show ?thesis
      using d cur assms 3 len
      by (subst writeToFile_loop.simps) (auto simp: memcpy_out_def Let_def)
  qed
qed

lemma writeToFile_correct:
  assumes inv: "ba_inv ba"
    and "m_position ba mod m_baseSize ba = 0 \<or> m_baseSize ba \<le> ByteArray_getReadSize ba \<or>
      ByteArray_getReadSize ba = 0"
  shows "ByteArray_writeToFile True ba = Inr (True, file_left (ba_file ba))"
proof -
  note D = ba_invD [OF inv]
  let ?p = "m_position ba" and ?base = "m_baseSize ba" and ?n = "m_size ba - m_position ba"
  have rs: "ByteArray_getReadSize ba = ?n"
    using D(5) by (simp add: ByteArray_getReadSize_def)
  have p: "?p div ?base * ?base + ?p mod ?base = ?p" and m: "?p mod ?base < ?base"
    using D(1) by simp_all
  have left: "file_left (ba_file ba) = take ?n (drop ?p (concat (m_chain ba)))"
    by (simp add: file_left_def drop_take)
  have "writeToFile_loop (m_chain ba) ?base (?p div ?base) (int ?p) (int ?n) = Inr (take ?n (drop ?p (concat (m_chain ba))))"
  proof -
    consider "?p mod ?base = 0" | "?base \<le> ?n" | "?n = 0"
      using assms(2) rs by auto
    then show ?thesis
    proof cases
      case 1
      then have aligned: "?p div ?base * ?base = ?p"
        using p by linarith
      show ?thesis
        using writeToFile_loop_aligned [OF D(3,1), of "?p div ?base" ?n, unfolded aligned] D(4-6)
        by (simp add: aligned)
    next
      case 2
      then have "?p < m_capacity ba"
        using D(1,6) by linarith
      then have "?p div ?base < length (m_chain ba)"
        using D(1,4) by (simp add: div_less_iff_less_mult)
      then show ?thesis
        using writeToFile_loop_first [OF D(3) m _ 2, of "?p div ?base", unfolded p] D(4-6) by simp
    next
      case 3
      then show ?thesis
        by (simp add: writeToFile_loop.simps [of "m_chain ba"])
    qed
  qed
  then show ?thesis
    by (simp add: ByteArray_writeToFile_def rs D(7) left)
qed

lemma writeToFile_faults:
  assumes inv: "ba_inv ba" and "m_position ba mod m_baseSize ba \<noteq> 0"
    and "0 < ByteArray_getReadSize ba" and "ByteArray_getReadSize ba < m_baseSize ba"
  shows "\<exists>e. ByteArray_writeToFile True ba = Inl e"
proof -
  note D = ba_invD [OF inv]
  let ?p = "m_position ba" and ?base = "m_baseSize ba"
  have "\<exists>e. writeToFile_loop (m_chain ba) ?base (m_cur ba) (int (?p div ?base * ?base + ?p mod ?base))
      (int (ByteArray_getReadSize ba)) = Inl e"
    using assms D by (intro writeToFile_loop_misaligned) simp_all
  then show ?thesis
    by (auto simp: ByteArray_writeToFile_def)
qed

lemma readFromFile_loop_correct:
  assumes "ba_inv ba"
  shows "\<exists>ba'. readFromFile_loop input ba = Some (Inr (), ba') \<and> ba_inv ba' \<and>
    ba_file ba' = file_write input (ba_file ba) \<and> m_baseSize ba' = m_baseSize ba \<and> m_endian ba' = m_endian ba"
  using assms
proof (induction input arbitrary: ba rule: length_induct)
  case (1 input)
  let ?base = "m_baseSize ba"
  obtain b1 where b1: "ByteArray_write (take ?base input) ba = (Inr (), b1)" "ba_inv b1"
    "ba_file b1 = file_write (take ?base input) (ba_file ba)" "m_baseSize b1 = ?base" "m_endian b1 = m_endian ba"
    using write_correct [OF "1.prems"] by blast
  show ?case
  proof (cases "length input < ?base")
    case True
    then show ?thesis
      using b1 by (simp add: readFromFile_loop.simps [of input])
  next
    case False
    then have "length (drop ?base input) < length input"
      using ba_invD(1) [OF "1.prems"] by (cases input) auto
    then obtain b2 where b2: "readFromFile_loop (drop ?base input) b1 = Some (Inr (), b2)" "ba_inv b2"
      "ba_file b2 = file_write (drop ?base input) (ba_file b1)" "m_baseSize b2 = m_baseSize b1" "m_endian b2 = m_endian b1"
      using "1.IH" b1(2) by blast
    have "ba_file b2 = file_write input (ba_file ba)"
      using b2(3) b1(3) file_write_append [of "ba_file ba" "take ?base input" "drop ?base input"]
        ba.offset_le [OF "1.prems"] by simp
    then show ?thesis
      using False b1 b2 by (simp add: readFromFile_loop.simps [of input])
  qed
qed

section \<open>The hexadecimal dump can be read back\<close>

definition hex_val :: "char \<Rightarrow> nat" where
  "hex_val c = (let n = of_char c in if 97 \<le> n then n - 87 else n - 48)"

text \<open>Each byte is two digits and a space, with a line break before every 33rd.\<close>

fun unhex :: "string \<Rightarrow> byte list" where
  "unhex (c # d # e # cs) =
    (if c = CHR 0x0A then unhex (d # e # cs) else of_nat (16 * hex_val c + hex_val d) # unhex cs)"
| "unhex _ = []"

lemma hex_digit_all:
  "list_all (\<lambda>n. hex_val (hex_digit n) = n \<and> hex_digit n \<noteq> CHR 0x0A) [0..<16]"
  by code_simp

lemma hex_digit_val: "n < 16 \<Longrightarrow> hex_val (hex_digit n) = n \<and> hex_digit n \<noteq> CHR 0x0A"
  using hex_digit_all by (simp add: list_all_iff)

lemma unhex_byte: "unhex (hex_byte b @ '' '' @ cs) = b # unhex cs"
proof -
  have "unat b < 16 * 16"
    using unsigned_less [of b, where 'a = nat] by simp
  then have "unat b div 16 < 16" "unat b mod 16 < 16"
    by (simp_all add: less_mult_imp_div_less)
  moreover have "(of_nat (16 * (unat b div 16) + unat b mod 16) :: byte) = b"
    by (simp only: mult_div_mod_eq) simp
  ultimately show ?thesis
    by (simp add: hex_byte_def hex_digit_val del: of_nat_add of_nat_mult)
qed

lemma unhex_hex_loop: "unhex (hex_loop i bs) = bs"
proof (induction bs arbitrary: i)
  case (Cons b bs)
  have "unhex (CHR 0x0A # hex_byte b @ '' '' @ cs) = unhex (hex_byte b @ '' '' @ cs)" for cs
    by (simp add: hex_byte_def)
  then show ?case
    using Cons unhex_byte [of b] by simp
qed simp

text \<open>The line breaks, counted: one before each index that is a positive multiple of 32.\<close>

lemma length_hex_loop:
  "length (hex_loop i bs) = 3 * length bs + length (filter (\<lambda>k. 0 < k \<and> k mod 32 = 0) [i..<i + length bs])"
proof (induction bs arbitrary: i)
  case (Cons b bs)
  have "[i..<i + length (b # bs)] = i # [Suc i..<Suc i + length bs]"
    by (simp add: upt_conv_Cons del: upt_Suc)
  with Cons show ?case
    by (simp add: hex_byte_def del: upt_Suc)
qed simp

section \<open>Properties\<close>

text \<open>The scatter buffers of \<open>getReadBuffers\<close> are inside the blocks of the array, none is
  empty, and laid end to end they are the next \<open>len\<close> bytes to read, or all that are left; the
  buffers already in the vector stay before them and the size returned is theirs.\<close>

theorem ByteArray_getReadBuffers_view:
  assumes "ba_inv ba"
  shows "\<exists>iovs. ByteArray_getReadBuffers buffers len ba =
      Inr (buffers @ iovs, min len (length (file_left (ba_file ba)))) \<and>
    concat (map (iov_bytes (m_chain ba)) iovs) = take len (file_left (ba_file ba)) \<and>
    list_all (iov_valid (m_chain ba)) iovs"
  by (rule getReadBuffers_correct [OF assms])

lemma ByteArray_getReadBuffers_view_witness:
  "\<exists>iovs. ByteArray_getReadBuffers [] 9 (snd (ByteArray_write [1, 2, 3] (ByteArray (\<lambda>_ _. 7) 2))) = Inr (iovs, 0)"
proof -
  obtain ba' where ba': "ByteArray_write [1, 2, 3] (ByteArray (\<lambda>_ _. 7) 2) = (Inr (), ba')" "ba_inv ba'"
    "ba_file ba' = file_write [1, 2, 3] (ba_file (ByteArray (\<lambda>_ _. 7) 2))"
    using write_correct [OF ByteArray_inv, of 2 "[1, 2, 3]"] by auto
  have "length (file_left (ba_file ba')) = 0"
    by (simp only: ba'(3)) (simp add: ByteArray_file file_write_def file_left_def splice_def)
  then show ?thesis
    using ByteArray_getReadBuffers_view [OF ba'(2), of "[]" 9] ba'(1) by auto
qed



text \<open>What \<open>writeToFile\<close> does, exactly: started at a block boundary, or with at least a block
  of data left, the file receives precisely the bytes from the position to the end; started
  inside a block with less than a block left, it never completes (it asks the stream for a
  negative count, reads past a block or follows a null pointer).\<close>

theorem ByteArray_writeToFile_exact:
  assumes "ba_inv ba"
  shows "if m_position ba mod m_baseSize ba \<noteq> 0 \<and> 0 < ByteArray_getReadSize ba \<and>
        ByteArray_getReadSize ba < m_baseSize ba
    then \<exists>e. ByteArray_writeToFile True ba = Inl e
    else ByteArray_writeToFile True ba = Inr (True, file_left (ba_file ba))"
  using writeToFile_faults [OF assms] writeToFile_correct [OF assms] by auto

lemma ByteArray_writeToFile_exact_witness:
  "let ba = snd (ByteArray_write [1, 2, 3] (ByteArray (\<lambda>_ _. 7) 2)) in
    ByteArray_writeToFile True (at_position 0 ba) = Inr (True, [1, 2, 3]) \<and>
    (\<exists>e. ByteArray_writeToFile True (at_position 1 (ba\<lparr>m_size := 2\<rparr>)) = Inl e)"
proof -
  define ba where "ba = snd (ByteArray_write [1, 2, 3] (ByteArray (\<lambda>_ _. 7) 2))"
  have inv: "ba_inv (at_position 0 ba)" "ba_inv (at_position 1 (ba\<lparr>m_size := 2\<rparr>))"
    unfolding ba_def by code_simp+
  have "m_position (at_position 0 ba) mod m_baseSize (at_position 0 ba) = 0"
    "file_left (ba_file (at_position 0 ba)) = [1, 2, 3]"
    "m_position (at_position 1 (ba\<lparr>m_size := 2\<rparr>)) mod m_baseSize (at_position 1 (ba\<lparr>m_size := 2\<rparr>)) = 1"
    "ByteArray_getReadSize (at_position 1 (ba\<lparr>m_size := 2\<rparr>)) = 1"
    "m_baseSize (at_position 1 (ba\<lparr>m_size := 2\<rparr>)) = 2"
    unfolding ba_def by code_simp+
  then show ?thesis
    using inv [THEN ByteArray_writeToFile_exact] by (simp add: Let_def flip: ba_def)
qed

text \<open>C8: a file written by one byte array and read by another carries the data over: reading the
  file ends, returns true, and writes at the reader's position exactly the bytes the writer had
  left, whatever the block sizes of the two.\<close>

theorem ByteArray_file_roundtrip:
  assumes "ba_inv ba" and "ba_inv reader" and "ByteArray_writeToFile True ba = Inr (True, out)"
  shows "\<exists>reader'. ByteArray_readFromFile (Some out) reader = Some (Inr True, reader') \<and> ba_inv reader' \<and>
    ba_file reader' = file_write (file_left (ba_file ba)) (ba_file reader)"
proof -
  have "out = file_left (ba_file ba)"
    using writeToFile_correct [OF assms(1)] writeToFile_faults [OF assms(1)] assms(3) by force
  then show ?thesis
    using readFromFile_loop_correct [OF assms(2), of out] by (auto simp: ByteArray_readFromFile_def)
qed

lemma ByteArray_file_roundtrip_witness:
  "\<exists>reader'. ByteArray_readFromFile (Some []) (ByteArray (\<lambda>_ _. 7) 3) = Some (Inr True, reader') \<and> ba_inv reader'"
proof -
  have "ByteArray_writeToFile True (ByteArray (\<lambda>_ _. 0) 5) = Inr (True, [])"
    by code_simp
  from ByteArray_file_roundtrip [OF ByteArray_inv ByteArray_inv this, of 3 "\<lambda>_ _. 7"] show ?thesis
    by auto
qed

text \<open>The hexadecimal dump determines the data: reading the digits back gives the bytes left to
  read, and its length is three characters a byte plus the line breaks.\<close>

theorem ByteArray_toHexString_roundtrip:
  assumes "ba_inv ba"
  shows "\<exists>str. ByteArray_toHexString ba = Inr str \<and> unhex str = file_left (ba_file ba) \<and>
    length str = 3 * ByteArray_getReadSize ba +
      length (filter (\<lambda>k. 0 < k \<and> k mod 32 = 0) [0..<ByteArray_getReadSize ba])"
  using toString_correct [OF assms] length_hex_loop [of 0 "file_left (ba_file ba)"]
  by (simp add: ByteArray_toHexString_def unhex_hex_loop getReadSize_left [OF assms])

lemma ByteArray_toHexString_roundtrip_witness:
  "\<exists>str. ByteArray_toHexString (ByteArray (\<lambda>_ _. 7) 3) = Inr str \<and> unhex str = []"
  using ByteArray_toHexString_roundtrip [OF ByteArray_inv, of 3 "\<lambda>_ _. 7"]
  by (auto simp: ByteArray_file file_left_def)

end
