(* ===== verification/Byte_Codec.thy ===== *)
theory Byte_Codec
  imports Byte_Views
begin

text \<open>
  The typed writers and readers of \<open>sylar/bytearray.cpp\<close> on top of its storage: integers of fixed
  width in the array's byte order, zigzag and variable-length integers, floating point numbers as
  their bit patterns, and strings with five ways of giving their length. Each writer and reader
  pair is a \<open>codec\<close> over the storage, so that the round trips follow from the locale's lemmas.
  \<open>host\<close> is \<open>SYLAR_BYTE_ORDER\<close>.
\<close>

section \<open>Integers of fixed width\<close>

text \<open>
  The body that the fixed-width writers share, and the macro \<open>XX\<close> of the readers; \<open>swap\<close> is the
  instance of \<open>byteswap\<close> and \<open>n\<close> the \<open>sizeof\<close> of the type.
\<close>

definition write_fixed :: "endian \<Rightarrow> ('a::len word \<Rightarrow> 'a word) \<Rightarrow> nat \<Rightarrow> 'a word \<Rightarrow> unit ba_method" where
  "write_fixed host swap n value ba =
    (let value' = (if m_endian ba \<noteq> host then swap value else value)
     in ByteArray_write (bytes_in host n value') ba)"

definition read_fixed :: "endian \<Rightarrow> ('a::len word \<Rightarrow> 'a word) \<Rightarrow> nat \<Rightarrow> 'a word ba_method" where
  "read_fixed host swap n =
    seq (ByteArray_read n) (\<lambda>bs ba.
      let v = of_bytes_in host bs
      in (Inr (if m_endian ba = host then v else swap v), ba))"

definition ByteArray_writeFint8 :: "s8 \<Rightarrow> unit ba_method" where
  "ByteArray_writeFint8 value = ByteArray_write [value]"

definition ByteArray_writeFuint8 :: "u8 \<Rightarrow> unit ba_method" where
  "ByteArray_writeFuint8 value = ByteArray_write [value]"

definition ByteArray_writeFint16 :: "endian \<Rightarrow> s16 \<Rightarrow> unit ba_method" where
  "ByteArray_writeFint16 host = write_fixed host byteswap16 2"

definition ByteArray_writeFuint16 :: "endian \<Rightarrow> u16 \<Rightarrow> unit ba_method" where
  "ByteArray_writeFuint16 host = write_fixed host byteswap16 2"

definition ByteArray_writeFint32 :: "endian \<Rightarrow> s32 \<Rightarrow> unit ba_method" where
  "ByteArray_writeFint32 host = write_fixed host byteswap32 4"

definition ByteArray_writeFuint32 :: "endian \<Rightarrow> u32 \<Rightarrow> unit ba_method" where
  "ByteArray_writeFuint32 host = write_fixed host byteswap32 4"

definition ByteArray_writeFint64 :: "endian \<Rightarrow> s64 \<Rightarrow> unit ba_method" where
  "ByteArray_writeFint64 host = write_fixed host byteswap64 8"

definition ByteArray_writeFuint64 :: "endian \<Rightarrow> u64 \<Rightarrow> unit ba_method" where
  "ByteArray_writeFuint64 host = write_fixed host byteswap64 8"

definition ByteArray_readFint8 :: "s8 ba_method" where
  "ByteArray_readFint8 = seq (ByteArray_read 1) (\<lambda>bs. ret (hd bs))"

definition ByteArray_readFuint8 :: "u8 ba_method" where
  "ByteArray_readFuint8 = seq (ByteArray_read 1) (\<lambda>bs. ret (hd bs))"

definition ByteArray_readFint16 :: "endian \<Rightarrow> s16 ba_method" where
  "ByteArray_readFint16 host = read_fixed host byteswap16 2"

definition ByteArray_readFuint16 :: "endian \<Rightarrow> u16 ba_method" where
  "ByteArray_readFuint16 host = read_fixed host byteswap16 2"

definition ByteArray_readFint32 :: "endian \<Rightarrow> s32 ba_method" where
  "ByteArray_readFint32 host = read_fixed host byteswap32 4"

definition ByteArray_readFuint32 :: "endian \<Rightarrow> u32 ba_method" where
  "ByteArray_readFuint32 host = read_fixed host byteswap32 4"

definition ByteArray_readFint64 :: "endian \<Rightarrow> s64 ba_method" where
  "ByteArray_readFint64 host = read_fixed host byteswap64 8"

definition ByteArray_readFuint64 :: "endian \<Rightarrow> u64 ba_method" where
  "ByteArray_readFuint64 host = read_fixed host byteswap64 8"

section \<open>Zigzag and variable-length integers\<close>

text \<open>
  A signed value is negated and doubled in its own width; the results wrap, as two's complement
  machines compute them.
\<close>

definition EncodeZigzag32 :: "s32 \<Rightarrow> u32" where
  "EncodeZigzag32 v = (if sint v < 0 then (- v) * 2 - 1 else v * 2)"

definition EncodeZigzag64 :: "s64 \<Rightarrow> u64" where
  "EncodeZigzag64 v = (if sint v < 0 then (- v) * 2 - 1 else v * 2)"

definition DecodeZigzag32 :: "u32 \<Rightarrow> s32" where
  "DecodeZigzag32 v = drop_bit 1 v XOR - (v AND 1)"

definition DecodeZigzag64 :: "u64 \<Rightarrow> s64" where
  "DecodeZigzag64 v = drop_bit 1 v XOR - (v AND 1)"

text \<open>
  The loop of \<open>writeUint32\<close> and \<open>writeUint64\<close> that fills \<open>tmp\<close>; \<open>room\<close> is what is left of that
  array, so a byte stored when it is \<open>0\<close> is an access out of bounds.
\<close>

primrec varint_loop :: "nat \<Rightarrow> 'a::len word \<Rightarrow> fault + byte list" where
  "varint_loop 0 value = Inl Out_Of_Bounds"
| "varint_loop (Suc room) value =
    (if 0x80 \<le> value
     then map_sum id (Cons (ucast (value AND 0x7F) OR 0x80)) (varint_loop room (drop_bit 7 value))
     else Inr [ucast value])"

definition write_varint :: "nat \<Rightarrow> 'a::len word \<Rightarrow> unit ba_method" where
  "write_varint room value =
    (case varint_loop room value of Inl e \<Rightarrow> throw e | Inr tmp \<Rightarrow> ByteArray_write tmp)"

definition ByteArray_writeUint32 :: "u32 \<Rightarrow> unit ba_method" where
  "ByteArray_writeUint32 = write_varint 5"

definition ByteArray_writeInt32 :: "s32 \<Rightarrow> unit ba_method" where
  "ByteArray_writeInt32 value = ByteArray_writeUint32 (EncodeZigzag32 value)"

definition ByteArray_writeUint64 :: "u64 \<Rightarrow> unit ba_method" where
  "ByteArray_writeUint64 = write_varint 10"

definition ByteArray_writeInt64 :: "s64 \<Rightarrow> unit ba_method" where
  "ByteArray_writeInt64 value = ByteArray_writeUint64 (EncodeZigzag64 value)"

text \<open>The reading loop \<open>for(int i = 0; i < width; i += 7)\<close>.\<close>

function read_varint_loop :: "nat \<Rightarrow> nat \<Rightarrow> 'a::len word \<Rightarrow> 'a word ba_method" where
  "read_varint_loop width i result =
    (if i < width
     then seq ByteArray_readFuint8 (\<lambda>b.
       if b < 0x80 then ret (result OR push_bit i (ucast b))
       else read_varint_loop width (i + 7) (result OR push_bit i (ucast (b AND 0x7F))))
     else ret result)"
  by pat_completeness auto
termination
  by (relation "measure (\<lambda>(width, i, _). width - i)") auto

declare read_varint_loop.simps [simp del]

definition ByteArray_readUint32 :: "u32 ba_method" where
  "ByteArray_readUint32 = read_varint_loop 32 0 0"

definition ByteArray_readInt32 :: "s32 ba_method" where
  "ByteArray_readInt32 = seq ByteArray_readUint32 (\<lambda>v. ret (DecodeZigzag32 v))"

definition ByteArray_readUint64 :: "u64 ba_method" where
  "ByteArray_readUint64 = read_varint_loop 64 0 0"

definition ByteArray_readInt64 :: "s64 ba_method" where
  "ByteArray_readInt64 = seq ByteArray_readUint64 (\<lambda>v. ret (DecodeZigzag64 v))"

section \<open>Floating point numbers and strings\<close>

text \<open>A \<open>float\<close> and a \<open>double\<close> are their bit patterns; \<open>memcpy\<close> reinterprets them.\<close>

definition ByteArray_writeFloat :: "endian \<Rightarrow> u32 \<Rightarrow> unit ba_method" where
  "ByteArray_writeFloat host value = ByteArray_writeFuint32 host value"

definition ByteArray_writeDouble :: "endian \<Rightarrow> u64 \<Rightarrow> unit ba_method" where
  "ByteArray_writeDouble host value = ByteArray_writeFuint64 host value"

definition ByteArray_readFloat :: "endian \<Rightarrow> u32 ba_method" where
  "ByteArray_readFloat host = ByteArray_readFuint32 host"

definition ByteArray_readDouble :: "endian \<Rightarrow> u64 ba_method" where
  "ByteArray_readDouble host = ByteArray_readFuint64 host"

text \<open>
  Strings are byte lists; passing \<open>value.size()\<close> as a length of fewer bits truncates it.
\<close>

definition ByteArray_writeStringF16 :: "endian \<Rightarrow> byte list \<Rightarrow> unit ba_method" where
  "ByteArray_writeStringF16 host value =
    seq (ByteArray_writeFuint16 host (of_nat (length value))) (\<lambda>_. ByteArray_write value)"

definition ByteArray_writeStringF32 :: "endian \<Rightarrow> byte list \<Rightarrow> unit ba_method" where
  "ByteArray_writeStringF32 host value =
    seq (ByteArray_writeFuint32 host (of_nat (length value))) (\<lambda>_. ByteArray_write value)"

definition ByteArray_writeStringF64 :: "endian \<Rightarrow> byte list \<Rightarrow> unit ba_method" where
  "ByteArray_writeStringF64 host value =
    seq (ByteArray_writeFuint64 host (of_nat (length value))) (\<lambda>_. ByteArray_write value)"

definition ByteArray_writeStringVint :: "byte list \<Rightarrow> unit ba_method" where
  "ByteArray_writeStringVint value =
    seq (ByteArray_writeUint64 (of_nat (length value))) (\<lambda>_. ByteArray_write value)"

definition ByteArray_writeStringWithoutLength :: "byte list \<Rightarrow> unit ba_method" where
  "ByteArray_writeStringWithoutLength value = ByteArray_write value"

definition ByteArray_readStringF16 :: "endian \<Rightarrow> byte list ba_method" where
  "ByteArray_readStringF16 host = seq (ByteArray_readFuint16 host) (\<lambda>len. ByteArray_read (unat len))"

definition ByteArray_readStringF32 :: "endian \<Rightarrow> byte list ba_method" where
  "ByteArray_readStringF32 host = seq (ByteArray_readFuint32 host) (\<lambda>len. ByteArray_read (unat len))"

definition ByteArray_readStringF64 :: "endian \<Rightarrow> byte list ba_method" where
  "ByteArray_readStringF64 host = seq (ByteArray_readFuint64 host) (\<lambda>len. ByteArray_read (unat len))"

definition ByteArray_readStringVint :: "byte list ba_method" where
  "ByteArray_readStringVint = seq ByteArray_readUint64 (\<lambda>len. ByteArray_read (unat len))"

section \<open>The fixed-width codecs\<close>

text \<open>What each writer puts on the wire does not depend on the host.\<close>

lemma write_fixed_eq:
  "byte_swapper swap n \<Longrightarrow> write_fixed host swap n v ba = ByteArray_write (bytes_in (m_endian ba) n v) ba"
  by (simp add: write_fixed_def byte_swapper.bytes_in_swap)

lemma fixed_codec:
  assumes swap: "byte_swapper (swap :: 'a::len word \<Rightarrow> 'a word) n"
  shows "codec ByteArray_write ByteArray_read ByteArray_setPosition ba_inv ba_file m_endian
    (write_fixed host swap n) (read_fixed host swap n) (\<lambda>e. bytes_in e n) (\<lambda>_. True)"
proof unfold_locales
  have n: "0 < n"
    using byte_swapper.width [OF swap] len_gt_0 [where 'a = 'a] by (cases n) simp_all
  fix v :: "'a word" and e
  show "ba.emits (write_fixed host swap n v) (\<lambda>e. bytes_in e n v)"
    by (rule ba.emits_eq) (rule write_fixed_eq [OF swap])
  show "bytes_in e n v \<noteq> []"
    using n length_bytes_in [of e n v] by fastforce
  show "ba.parses (read_fixed host swap n) (\<lambda>e. bytes_in e n v) v"
    unfolding ba.parses_def
  proof (intro allI impI, elim conjE)
    fix s rest
    assume s: "ba_inv s" and left: "file_left (ba_file s) = bytes_in (m_endian s) n v @ rest"
    then obtain s' where "ByteArray_read n s = (Inr (bytes_in (m_endian s) n v), s')" "ba_inv s'"
        "ba_file s' = file_skip n (ba_file s)" "m_endian s' = m_endian s"
      using ba.rd [of s n] n by auto
    then show "\<exists>s'. read_fixed host swap n s = (Inr v, s') \<and> ba_inv s' \<and>
        ba_file s' = file_skip (length (bytes_in (m_endian s) n v)) (ba_file s) \<and> m_endian s' = m_endian s"
      using byte_swapper.from_wire [OF swap, of "m_endian s" host v]
      by (intro exI [of _ s']) (simp add: read_fixed_def seq_Inr Let_def)
  qed
qed

interpretation f16: codec ByteArray_write ByteArray_read ByteArray_setPosition ba_inv ba_file m_endian
  "ByteArray_writeFuint16 host" "ByteArray_readFuint16 host" "\<lambda>e. bytes_in e 2" "\<lambda>_. True" for host
  unfolding ByteArray_writeFuint16_def ByteArray_readFuint16_def
  by (rule fixed_codec) (rule swap16.byte_swapper_axioms)

interpretation f32: codec ByteArray_write ByteArray_read ByteArray_setPosition ba_inv ba_file m_endian
  "ByteArray_writeFuint32 host" "ByteArray_readFuint32 host" "\<lambda>e. bytes_in e 4" "\<lambda>_. True" for host
  unfolding ByteArray_writeFuint32_def ByteArray_readFuint32_def
  by (rule fixed_codec) (rule swap32.byte_swapper_axioms)

interpretation f64: codec ByteArray_write ByteArray_read ByteArray_setPosition ba_inv ba_file m_endian
  "ByteArray_writeFuint64 host" "ByteArray_readFuint64 host" "\<lambda>e. bytes_in e 8" "\<lambda>_. True" for host
  unfolding ByteArray_writeFuint64_def ByteArray_readFuint64_def
  by (rule fixed_codec) (rule swap64.byte_swapper_axioms)

interpretation f8: codec ByteArray_write ByteArray_read ByteArray_setPosition ba_inv ba_file m_endian
  ByteArray_writeFuint8 ByteArray_readFuint8 "\<lambda>_ v. [v]" "\<lambda>_. True"
proof unfold_locales
  fix v :: u8 and e :: endian
  show "ba.emits (ByteArray_writeFuint8 v) (\<lambda>e. [v])"
    by (simp add: ByteArray_writeFuint8_def ba.emits_wr)
  show "ba.parses ByteArray_readFuint8 (\<lambda>e. [v]) v"
    by (rule ba.parses_rd [where dec = "\<lambda>_. hd" and n = 1])
      (simp_all add: ByteArray_readFuint8_def seq_def ret_def map_prod_def split: prod.split sum.split)
  show "[v] \<noteq> []"
    by simp
qed

section \<open>Zigzag\<close>

text \<open>The mathematical zigzag map: 0, -1, 1, -2, 2, \<open>\<dots>\<close> become 0, 1, 2, 3, 4, \<open>\<dots>\<close>\<close>

definition zigzag :: "int \<Rightarrow> int" where
  "zigzag z = (if z < 0 then 2 * (- z) - 1 else 2 * z)"

lemma zigzag_bounds: "- (2 ^ n) \<le> z \<Longrightarrow> z < 2 ^ n \<Longrightarrow> 0 \<le> zigzag z \<and> zigzag z < 2 * 2 ^ n"
  by (simp add: zigzag_def)

lemma zigzag_word: "(word_of_int (zigzag (sint v)) :: 'a::len word) = (if sint v < 0 then - v * 2 - 1 else v * 2)"
  by (simp add: zigzag_def mult.commute)

lemma uint_EncodeZigzag32: "uint (EncodeZigzag32 v) = zigzag (sint v)"
proof -
  have "- (2 ^ 31) \<le> sint v" "sint v < 2 ^ 31"
    using sint_greater_eq [of v] sint_less [of v] by simp_all
  then have "0 \<le> zigzag (sint v)" "zigzag (sint v) < 2 ^ 32"
    using zigzag_bounds [of 31 "sint v"] by simp_all
  then show ?thesis
    by (simp add: EncodeZigzag32_def flip: zigzag_word) (simp add: uint_word_of_int)
qed

lemma uint_EncodeZigzag64: "uint (EncodeZigzag64 v) = zigzag (sint v)"
proof -
  have "- (2 ^ 63) \<le> sint v" "sint v < 2 ^ 63"
    using sint_greater_eq [of v] sint_less [of v] by simp_all
  then have "0 \<le> zigzag (sint v)" "zigzag (sint v) < 2 ^ 64"
    using zigzag_bounds [of 63 "sint v"] by simp_all
  then show ?thesis
    by (simp add: EncodeZigzag64_def flip: zigzag_word) (simp add: uint_word_of_int)
qed

text \<open>Both decoders undo their encoders: a negative value is the complement of its double.\<close>

lemma sint_neg_iff: "sint v < 0 \<longleftrightarrow> bit v (LENGTH('a) - 1)" for v :: "'a::len word"
  by (simp add: bit_last_iff)

lemma unzigzag_double:
  fixes v :: "'a::len word"
  assumes "\<not> bit v (LENGTH('a) - 1)"
  shows "drop_bit 1 (push_bit 1 v) XOR - (push_bit 1 v AND 1) = v"
proof -
  have "push_bit 1 v AND 1 = 0"
    by (rule bit_word_eqI) (auto simp: bit_simps bit_double_iff mult.commute [of v])
  moreover have "drop_bit 1 (push_bit 1 v) = v"
  proof (rule bit_word_eqI)
    fix i
    assume "i < LENGTH('a)"
    then show "bit (drop_bit 1 (push_bit 1 v)) i = bit v i"
      using assms
      by (cases "i = LENGTH('a) - 1") (auto simp: bit_simps bit_double_iff mult.commute [of v])
  qed
  ultimately show ?thesis by simp
qed

lemma unzigzag_not:
  fixes v :: "'a::len word"
  assumes "bit v (LENGTH('a) - 1)"
  shows "drop_bit 1 (NOT (push_bit 1 v)) XOR - (NOT (push_bit 1 v) AND 1) = v"
proof -
  have "NOT (push_bit 1 v) AND 1 = 1"
    by (rule bit_word_eqI) (auto simp: bit_simps bit_double_iff mult.commute [of v])
  moreover have "drop_bit 1 (NOT (push_bit 1 v)) = NOT v"
  proof (rule bit_word_eqI)
    fix i
    assume "i < LENGTH('a)"
    then show "bit (drop_bit 1 (NOT (push_bit 1 v))) i = bit (NOT v) i"
      using assms
      by (cases "i = LENGTH('a) - 1") (auto simp: bit_simps bit_double_iff mult.commute [of v])
  qed
  ultimately show ?thesis by (simp add: bit.xor_compl_right)
qed

lemma Decode_EncodeZigzag32 [simp]: "DecodeZigzag32 (EncodeZigzag32 v) = v"
  using unzigzag_double [of v] unzigzag_not [of v]
  by (simp add: DecodeZigzag32_def EncodeZigzag32_def sint_neg_iff not_eq_complement)

lemma Decode_EncodeZigzag64 [simp]: "DecodeZigzag64 (EncodeZigzag64 v) = v"
  using unzigzag_double [of v] unzigzag_not [of v]
  by (simp add: DecodeZigzag64_def EncodeZigzag64_def sint_neg_iff not_eq_complement)

section \<open>The variable-length format\<close>

text \<open>Groups of seven bits, least significant first, each but the last with its top bit set.\<close>

fun leb128 :: "nat \<Rightarrow> byte list" where
  "leb128 n = (if n < 128 then [of_nat n] else of_nat (n mod 128 + 128) # leb128 (n div 128))"

declare leb128.simps [simp del]

lemma leb128_not_Nil [simp]: "leb128 n \<noteq> []"
  by (subst leb128.simps) simp

lemma length_leb128: "n < 128 ^ Suc k \<Longrightarrow> length (leb128 n) \<le> Suc k"
proof (induction k arbitrary: n)
  case 0
  then show ?case
    by (simp add: leb128.simps [of n])
next
  case (Suc k)
  then have "n div 128 < 128 ^ Suc k"
    by (simp add: less_mult_imp_div_less)
  with Suc show ?case
    by (simp add: leb128.simps [of n])
qed

lemma low_group:
  "8 < LENGTH('a) \<Longrightarrow> (ucast (v AND 0x7F :: 'a::len word) OR 0x80 :: byte) = of_nat (unat v mod 128 + 128)"
proof -
  assume len: "8 < LENGTH('a)"
  let ?b = "ucast (v AND 0x7F :: 'a word) :: byte"
  have low: "v AND 0x7F = take_bit 7 v"
    by (simp add: take_bit_eq_mask mask_numeral)
  then have "unat (v AND 0x7F) = unat v mod 128"
    by (simp only: unsigned_take_bit_eq) (simp add: take_bit_eq_mod)
  then have b: "unat ?b = unat v mod 128"
    using len mod_less_divisor [of 128 "unat v"] by (simp add: unsigned_ucast_eq take_bit_eq_mod)
  have "(0x80 :: byte) = push_bit 7 1"
    by simp
  then have "?b AND 0x80 = 0"
    unfolding low by (intro bit_word_eqI) (simp only: bit_simps, auto)
  then have "?b OR 0x80 = ?b + 0x80"
    using word_plus_and_or [of ?b "0x80"] by simp
  also have "\<dots> = of_nat (unat ?b + 128)"
    by simp
  finally show ?thesis
    unfolding b .
qed

lemma ge_0x80: "8 < LENGTH('a) \<Longrightarrow> 0x80 \<le> (v :: 'a::len word) \<longleftrightarrow> 128 \<le> unat v"
  using power_strict_increasing [of 8 "LENGTH('a)" "2 :: nat"]
  by (simp add: word_le_nat_alt take_bit_nat_eq_self)

lemma varint_loop_leb128:
  assumes len: "8 < LENGTH('a)" and "unat (v :: 'a::len word) < 128 ^ Suc room"
  shows "varint_loop (Suc room) v = Inr (leb128 (unat v))"
  using assms(2)
proof (induction room arbitrary: v)
  case 0
  then show ?case
    by (simp add: ge_0x80 [OF len] leb128.simps [of "unat v"])
next
  case (Suc room)
  have v: "unat (drop_bit 7 v) = unat v div 128"
    by (simp only: unat_drop_bit_eq) (simp add: drop_bit_eq_div)
  have "unat v div 128 < 128 ^ Suc room"
    using Suc.prems by (simp add: less_mult_imp_div_less)
  then have "varint_loop (Suc room) (drop_bit 7 v) = Inr (leb128 (unat v div 128))"
    using Suc.IH [of "drop_bit 7 v"] v by simp
  then show ?case
    by (subst varint_loop.simps(2))
      (simp add: ge_0x80 [OF len] low_group [OF len] leb128.simps [of "unat v"] del: varint_loop.simps)
qed

text \<open>Reading: the groups are put back at bit \<open>i\<close>, \<open>i + 7\<close>, \<open>\<dots>\<close> of the result.\<close>

lemma ucast_of_nat_byte: "n < 256 \<Longrightarrow> ucast (of_nat n :: byte) = (of_nat n :: 'a::len word)"
  by (simp add: unsigned_of_nat take_bit_nat_eq_self)

lemma group_low: "ucast ((of_nat (n mod 128 + 128) :: byte) AND 0x7F) = (of_nat (n mod 128) :: 'a::len word)"
proof -
  let ?b = "of_nat (n mod 128 + 128) :: byte"
  have "?b AND 0x7F = take_bit 7 ?b"
    by (simp add: take_bit_eq_mask mask_numeral)
  also have "\<dots> = of_nat (n mod 128)"
    by (simp only: take_bit_of_nat) (simp add: take_bit_eq_mod)
  finally show ?thesis
    using mod_less_divisor [of 128 n] by (simp add: ucast_of_nat_byte)
qed

lemma group_guard: "n < 128 \<Longrightarrow> (of_nat n :: byte) < 0x80" "\<not> (of_nat (n mod 128 + 128) :: byte) < 0x80"
  using mod_less_divisor [of 128 n]
  by (simp_all add: word_less_nat_alt unat_of_nat del: of_nat_add)

lemma join_groups:
  "push_bit i (of_nat (n mod 128)) OR push_bit (i + 7) (of_nat (n div 128)) = push_bit i (of_nat n :: 'a::len word)"
proof -
  have groups: "n mod 128 = take_bit 7 n" "n div 128 = drop_bit 7 n"
    by (simp_all add: take_bit_eq_mod drop_bit_eq_div)
  show ?thesis
  proof (rule bit_word_eqI)
    fix k
    assume "k < LENGTH('a)"
    moreover have "i + 7 \<le> k \<Longrightarrow> 7 + (k - (i + 7)) = k - i"
      by simp
    ultimately show "bit (push_bit i (of_nat (n mod 128)) OR push_bit (i + 7) (of_nat (n div 128)) :: 'a word) k =
        bit (push_bit i (of_nat n :: 'a word)) k"
      unfolding groups by (cases "i + 7 \<le> k") (auto simp: bit_simps simp del: take_bit_of_nat)
  qed
qed

lemma read_varint_parses:
  "i + 7 * (length (leb128 n) - 1) < w \<Longrightarrow>
    ba.parses (read_varint_loop w i r) (\<lambda>_. leb128 n) (r OR push_bit i (of_nat n :: 'a::len word))"
proof (induction n arbitrary: i r rule: leb128.induct)
  case (1 n)
  show ?case
  proof (cases "n < 128")
    case True
    then have u: "ucast (of_nat n :: byte) = (of_nat n :: 'a word)"
      by (simp add: ucast_of_nat_byte)
    have "ba.parses (read_varint_loop w i r) (\<lambda>_. [of_nat n] @ []) (r OR push_bit i (of_nat n :: 'a word))"
      using 1(2) True by (subst read_varint_loop.simps, subst if_P, linarith)
        (intro ba.parses_seq [OF f8.get],
          simp_all add: True group_guard u ba.parses_ret)
    then show ?thesis
      using True by (simp add: leb128.simps [of n])
  next
    case False
    let ?b = "of_nat (n mod 128 + 128) :: byte"
    have leb: "leb128 n = [?b] @ leb128 (n div 128)"
      using False by (simp add: leb128.simps [of n])
    have w: "i < w" "i + 7 + 7 * (length (leb128 (n div 128)) - 1) < w"
      using 1(2) leb128_not_Nil [of "n div 128"] unfolding leb by (cases "leb128 (n div 128)"; simp)+
    have "ba.parses (read_varint_loop w (i + 7) (r OR push_bit i (of_nat (n mod 128)))) (\<lambda>_. leb128 (n div 128))
        (r OR push_bit i (of_nat n :: 'a word))"
      using 1(1) [OF False w(2), of "r OR push_bit i (of_nat (n mod 128))"] by (simp only: or.assoc join_groups)
    then have "ba.parses (read_varint_loop w i r) (\<lambda>_. [?b] @ leb128 (n div 128)) (r OR push_bit i (of_nat n :: 'a word))"
      using w(1) by (subst read_varint_loop.simps)
        (simp only: if_True, intro ba.parses_seq [OF f8.get], simp_all only: group_guard group_low if_False TrueI)
    then show ?thesis
      unfolding leb .
  qed
qed

lemma readUint32_parses: "ba.parses ByteArray_readUint32 (\<lambda>_. leb128 (unat v)) v"
proof -
  have "unat v < 128 ^ Suc 4"
    by (rule less_le_trans [OF unsigned_less]) simp
  then have "0 + 7 * (length (leb128 (unat v)) - 1) < 32"
    using length_leb128 [of "unat v" 4] by simp
  from read_varint_parses [OF this, of "0 :: u32"] show ?thesis
    by (simp add: ByteArray_readUint32_def)
qed

lemma readUint64_parses: "ba.parses ByteArray_readUint64 (\<lambda>_. leb128 (unat v)) v"
proof -
  have "unat v < 128 ^ Suc 9"
    by (rule less_le_trans [OF unsigned_less]) simp
  then have "0 + 7 * (length (leb128 (unat v)) - 1) < 64"
    using length_leb128 [of "unat v" 9] by simp
  from read_varint_parses [OF this, of "0 :: u64"] show ?thesis
    by (simp add: ByteArray_readUint64_def)
qed

lemma writeUint32_eq: "ByteArray_writeUint32 v = ByteArray_write (leb128 (unat v))"
  using varint_loop_leb128 [of v 4, OF _ less_le_trans [OF unsigned_less]]
  by (simp add: ByteArray_writeUint32_def write_varint_def del: varint_loop.simps)

lemma writeUint64_eq: "ByteArray_writeUint64 v = ByteArray_write (leb128 (unat v))"
  using varint_loop_leb128 [of v 9, OF _ less_le_trans [OF unsigned_less]]
  by (simp add: ByteArray_writeUint64_def write_varint_def del: varint_loop.simps)

interpretation v32: codec ByteArray_write ByteArray_read ByteArray_setPosition ba_inv ba_file m_endian
  ByteArray_writeUint32 ByteArray_readUint32 "\<lambda>_ v. leb128 (unat v)" "\<lambda>_. True"
  by unfold_locales (simp_all add: readUint32_parses writeUint32_eq ba.emits_wr)

interpretation v64: codec ByteArray_write ByteArray_read ByteArray_setPosition ba_inv ba_file m_endian
  ByteArray_writeUint64 ByteArray_readUint64 "\<lambda>_ v. leb128 (unat v)" "\<lambda>_. True"
  by unfold_locales (simp_all add: readUint64_parses writeUint64_eq ba.emits_wr)

lemma mapped_parses:
  assumes "ba.parses get enc (f v)" and "g (f v) = v"
  shows "ba.parses (seq get (\<lambda>w. ret (g w))) enc v"
  using ba.parses_seq [OF assms(1), of "\<lambda>w. ret (g w)" "\<lambda>_. []" v] assms(2) by (simp add: ba.parses_ret)

lemma unat_zigzag: "unat (EncodeZigzag32 v) = nat (zigzag (sint v))" "unat (EncodeZigzag64 w) = nat (zigzag (sint w))"
  by (simp_all flip: uint_EncodeZigzag32 uint_EncodeZigzag64 unat_eq_nat_uint)

interpretation z32: codec ByteArray_write ByteArray_read ByteArray_setPosition ba_inv ba_file m_endian
  ByteArray_writeInt32 ByteArray_readInt32 "\<lambda>_ v. leb128 (nat (zigzag (sint v)))" "\<lambda>_. True"
  by unfold_locales
    (simp_all add: ByteArray_writeInt32_def ByteArray_readInt32_def v32.put mapped_parses [OF v32.get] flip: unat_zigzag)

interpretation z64: codec ByteArray_write ByteArray_read ByteArray_setPosition ba_inv ba_file m_endian
  ByteArray_writeInt64 ByteArray_readInt64 "\<lambda>_ v. leb128 (nat (zigzag (sint v)))" "\<lambda>_. True"
  by unfold_locales
    (simp_all add: ByteArray_writeInt64_def ByteArray_readInt64_def v64.put mapped_parses [OF v64.get] flip: unat_zigzag)

section \<open>Strings\<close>

text \<open>
  A length codec makes a string codec, for the strings whose length it can represent. The empty
  string is left out: reading no bytes at the very end of the blocks is not defined behaviour.
\<close>

lemma read_parses: "value \<noteq> [] \<Longrightarrow> length value = n \<Longrightarrow> ba.parses (ByteArray_read n) (\<lambda>_. value) value"
  by (rule ba.parses_rd [where dec = "\<lambda>_. id" and n = n]) (simp_all add: prod.map_id0 sum.map_id0)

lemma string_codec:
  fixes put :: "'a::len word \<Rightarrow> unit ba_method"
  assumes "codec ByteArray_write ByteArray_read ByteArray_setPosition ba_inv ba_file m_endian put get enc (\<lambda>_. True)"
  shows "codec ByteArray_write ByteArray_read ByteArray_setPosition ba_inv ba_file m_endian
    (\<lambda>value. seq (put (of_nat (length value))) (\<lambda>_. ByteArray_write value))
    (seq get (\<lambda>len. ByteArray_read (unat len)))
    (\<lambda>e value. enc e (of_nat (length value)) @ value)
    (\<lambda>value. value \<noteq> [] \<and> length value < 2 ^ LENGTH('a))"
proof (unfold_locales, goal_cases)
  case (1 str)
  show ?case
    using ba.emits_seq [OF codec.put [OF assms TrueI] ba.emits_wr] .
next
  case (2 str)
  then have "unat (of_nat (length str) :: 'a word) = length str"
    by (simp add: unat_of_nat)
  with 2 show ?case
    by (intro ba.parses_seq [OF codec.get [OF assms TrueI]] read_parses) simp_all
next
  case (3 e str)
  show ?case
    by (simp add: codec.enc_nonempty [OF assms])
qed

interpretation s16: codec ByteArray_write ByteArray_read ByteArray_setPosition ba_inv ba_file m_endian
  "ByteArray_writeStringF16 host" "ByteArray_readStringF16 host"
  "\<lambda>e value. bytes_in e 2 (of_nat (length value) :: u16) @ value"
  "\<lambda>value. value \<noteq> [] \<and> length value < 2 ^ LENGTH(16)" for host
  unfolding ByteArray_writeStringF16_def [abs_def] ByteArray_readStringF16_def
  by (rule string_codec [OF f16.codec_axioms])

interpretation s32: codec ByteArray_write ByteArray_read ByteArray_setPosition ba_inv ba_file m_endian
  "ByteArray_writeStringF32 host" "ByteArray_readStringF32 host"
  "\<lambda>e value. bytes_in e 4 (of_nat (length value) :: u32) @ value"
  "\<lambda>value. value \<noteq> [] \<and> length value < 2 ^ LENGTH(32)" for host
  unfolding ByteArray_writeStringF32_def [abs_def] ByteArray_readStringF32_def
  by (rule string_codec [OF f32.codec_axioms])

interpretation s64: codec ByteArray_write ByteArray_read ByteArray_setPosition ba_inv ba_file m_endian
  "ByteArray_writeStringF64 host" "ByteArray_readStringF64 host"
  "\<lambda>e value. bytes_in e 8 (of_nat (length value) :: u64) @ value"
  "\<lambda>value. value \<noteq> [] \<and> length value < 2 ^ LENGTH(64)" for host
  unfolding ByteArray_writeStringF64_def [abs_def] ByteArray_readStringF64_def
  by (rule string_codec [OF f64.codec_axioms])

interpretation svint: codec ByteArray_write ByteArray_read ByteArray_setPosition ba_inv ba_file m_endian
  ByteArray_writeStringVint ByteArray_readStringVint
  "\<lambda>_ value. leb128 (unat (of_nat (length value) :: u64)) @ value"
  "\<lambda>value. value \<noteq> [] \<and> length value < 2 ^ LENGTH(64)"
  unfolding ByteArray_writeStringVint_def [abs_def] ByteArray_readStringVint_def
  by (rule string_codec [OF v64.codec_axioms])

section \<open>Lengths that do not fit, and empty strings\<close>

lemma readStringF16_parses_prefix:
  assumes "length value mod 2 ^ 16 \<noteq> 0"
  shows "ba.parses (ByteArray_readStringF16 host)
    (\<lambda>e. bytes_in e 2 (of_nat (length value) :: u16) @ take (length value mod 2 ^ 16) value)
    (take (length value mod 2 ^ 16) value)"
proof -
  let ?k = "length value mod 2 ^ 16"
  have "?k \<le> length value"
    by simp
  then have "length (take ?k value) = ?k"
    by (simp only: length_take min_absorb2)
  moreover have "(of_nat ?k :: u16) = of_nat (length value)"
    by (simp add: word_of_nat_eq_iff take_bit_eq_mod)
  ultimately show ?thesis
    using s16.get [of "take ?k value" host] assms by (cases "value = []") (auto simp del: length_take)
qed

section \<open>Properties\<close>





text \<open>The 32-bit variable-length integers: the five-byte buffer suffices, and any sequence of
  values reads back as written.\<close>

theorem ByteArray_Uint32_roundtrip:
  assumes "ba_inv ba" and "vs \<noteq> []"
  shows "\<exists>b1 b2 b3. write_all ByteArray_writeUint32 vs ba = (Inr (), b1) \<and>
    ba_file b1 = file_write (concat (map (\<lambda>v. leb128 (unat v)) vs)) (ba_file ba) \<and>
    ByteArray_setPosition (m_position ba) b1 = (Inr (), b2) \<and>
    read_all ByteArray_readUint32 (length vs) b2 = (Inr vs, b3) \<and> ba_inv b3 \<and> ba_file b3 = ba_file b1"
proof -
  have all: "list_all (\<lambda>_. True) vs"
    by (simp add: list_all_iff)
  obtain b1 where b1: "write_all ByteArray_writeUint32 vs ba = (Inr (), b1)"
    "ba_file b1 = file_write (concat (map (\<lambda>v. leb128 (unat v)) vs)) (ba_file ba)"
    using v32.emits_all [OF all] assms(1) by (rule ba.emitsE)
  then show ?thesis
    using v32.roundtrip_all [OF all assms(2,1)] by auto
qed

lemma ByteArray_Uint32_roundtrip_witness:
  "\<exists>b1 b2 b3. write_all ByteArray_writeUint32 [300] (ByteArray (\<lambda>_ _. 7) 1) = (Inr (), b1) \<and>
    ByteArray_setPosition 0 b1 = (Inr (), b2) \<and> read_all ByteArray_readUint32 1 b2 = (Inr [300], b3)"
  using ByteArray_Uint32_roundtrip [OF ByteArray_inv, of 1 "[300]" "\<lambda>_ _. 7"] by (auto simp: ByteArray_def)

text \<open>\<open>writeStringF16\<close> and \<open>readStringF16\<close>: a string whose length is not a multiple of 65536
  reads back as its first \<open>length mod 65536\<close> bytes; so one shorter than 65536 comes back whole, and
  a longer one is silently cut.\<close>

theorem ByteArray_StringF16_truncates:
  assumes "ba_inv ba" and "length value mod 65536 \<noteq> 0"
  shows "\<exists>b1 b2 b3. ByteArray_writeStringF16 host value ba = (Inr (), b1) \<and>
    ByteArray_setPosition (m_position ba) b1 = (Inr (), b2) \<and>
    ByteArray_readStringF16 host b2 = (Inr (take (length value mod 65536) value), b3) \<and> ba_inv b3 \<and>
    m_position b3 = m_position ba + 2 + length value mod 65536"
proof -
  let ?k = "length value mod 65536" and ?hdr = "\<lambda>e. bytes_in e 2 (of_nat (length value) :: u16)"
  have "ba.emits (ByteArray_writeStringF16 host value) (\<lambda>e. ?hdr e @ value)"
    unfolding ByteArray_writeStringF16_def by (rule ba.emits_seq [OF f16.put [OF TrueI] ba.emits_wr])
  then obtain b1 where b1: "ByteArray_writeStringF16 host value ba = (Inr (), b1)" "ba_inv b1"
    "ba_file b1 = file_write (?hdr (m_endian ba) @ value) (ba_file ba)" "m_endian b1 = m_endian ba"
    using assms(1) by (rule ba.emitsE)
  have "offset (ba_file ba) < length (contents (ba_file b1))"
    using length_written [OF ba.offset_le [OF assms(1)], of "?hdr (m_endian ba) @ value"]
    unfolding b1(3) by simp
  then obtain b2 where b2: "ByteArray_setPosition (m_position ba) b1 = (Inr (), b2)" "ba_inv b2"
    "ba_file b2 = (ba_file b1)\<lparr>offset := m_position ba\<rparr>" "m_endian b2 = m_endian b1"
    using ba.sk [OF b1(2)] by auto
  have "file_left (ba_file b2) = (?hdr (m_endian b2) @ take ?k value) @ drop ?k value @
      drop (m_position ba + length (?hdr (m_endian ba) @ value)) (contents (ba_file ba))"
    using file_left_written [OF ba.offset_le [OF assms(1)], of "?hdr (m_endian ba) @ value"] b1(4) b2(4)
    unfolding b2(3) b1(3) by simp
  moreover have "ba.parses (ByteArray_readStringF16 host) (\<lambda>e. ?hdr e @ take ?k value) (take ?k value)"
    using readStringF16_parses_prefix [of "value" host] assms(2) by simp
  ultimately obtain b3 where b3: "ByteArray_readStringF16 host b2 = (Inr (take ?k value), b3)" "ba_inv b3"
    "ba_file b3 = file_skip (length (?hdr (m_endian b2) @ take ?k value)) (ba_file b2)"
    using b2(2) by (auto elim: ba.parsesE)
  have "?k \<le> length value"
    by simp
  then have "offset (ba_file b3) = m_position ba + 2 + ?k"
    unfolding b3(3) file_simps b2(3) by (simp add: min_absorb2)
  then have "m_position b3 = m_position ba + 2 + ?k"
    by (simp only: ba_file_simps(2))
  then show ?thesis
    using b1(1) b2(1) b3(1,2) by blast
qed

lemma ByteArray_StringF16_truncates_witness:
  "\<exists>b1 b2 b3. ByteArray_writeStringF16 SYLAR_LITTLE_ENDIAN [104, 105] (ByteArray (\<lambda>_ _. 7) 3) = (Inr (), b1) \<and>
    ByteArray_setPosition 0 b1 = (Inr (), b2) \<and>
    ByteArray_readStringF16 SYLAR_LITTLE_ENDIAN b2 = (Inr [104, 105], b3)"
  using ByteArray_StringF16_truncates [OF ByteArray_inv, of 3 "[104, 105]" SYLAR_LITTLE_ENDIAN "\<lambda>_ _. 7"]
  by (auto simp: ByteArray_def)

text \<open>A string codec fails on the empty string when its length ends exactly at the capacity:
  the length is read, the position advances, and the read of no bytes dereferences the null
  current block.\<close>

theorem ByteArray_readStringVint_empty_at_end:
  assumes "ba_inv ba" and "m_capacity ba = m_position ba + 1" and "file_left (ba_file ba) = [0]"
  shows "fst (ByteArray_readStringVint ba) = Inl Null_Deref \<and>
    m_position (snd (ByteArray_readStringVint ba)) = m_capacity ba"
proof -
  note D = ba_invD [OF assms(1)]
  have sz: "m_size ba = m_position ba + 1"
    using assms(3) length_file_left [OF assms(1)] by simp
  let ?b = "at_position (m_position ba + 1) ba"
  have "ByteArray_read 1 ba = (Inr [0], ?b)"
    using read_correct [OF assms(1), of 1] sz assms(2,3) by simp
  then have "ByteArray_readUint64 ba = (Inr 0, ?b)"
    by (simp add: ByteArray_readUint64_def read_varint_loop.simps [of 64 0] ByteArray_readFuint8_def method_simps)
  moreover have "ByteArray_read 0 ?b = (Inl Null_Deref, ?b)"
    using sz assms(2) by (intro read_nothing_at_end at_position_inv assms(1)) simp_all
  ultimately show ?thesis
    using assms(2) by (simp add: ByteArray_readStringVint_def method_simps)
qed

lemma ByteArray_readStringVint_empty_at_end_witness:
  "fst (ByteArray_readStringVint (at_position 0 (snd (ByteArray_writeStringVint [] (ByteArray (\<lambda>_ _. 7) 1))))) = Inl Null_Deref"
proof -
  let ?ba = "at_position 0 (snd (ByteArray_writeStringVint [] (ByteArray (\<lambda>_ _. 7) 1)))"
  have "ba_inv ?ba" "m_capacity ?ba = m_position ?ba + 1" "file_left (ba_file ?ba) = [0]"
    by code_simp+
  from ByteArray_readStringVint_empty_at_end [OF this] show ?thesis
    by simp
qed

end
