(* ===== verification/Fd_Manager.thy ===== *)
theory Fd_Manager
  imports Sylar_Prelude
begin

text \<open>
  \<open>sylar/fd_manager.{h,cpp}\<close>: what the hooked system calls remember about each descriptor. The
  kernel is not part of the program: its state has a type of its own, and the system calls are
  functions on it, collected in the record \<open>syscalls\<close> that every definition takes as an argument.
\<close>

section \<open>System calls\<close>

text \<open>The variable argument of \<open>fcntl\<close>: nothing, an \<open>int\<close>, or a pointer.\<close>

datatype va_arg = Va_None | Va_Int s32 | Va_Ptr nat

text \<open>
  \<open>sys_fstat\<close> answers \<open>None\<close> when \<open>fstat\<close> fails and otherwise whether the descriptor is a socket;
  \<open>sys_fcntl\<close> and the others answer the call's result.
\<close>

record 'k syscalls =
  sys_fstat :: "int \<Rightarrow> 'k \<Rightarrow> bool option"
  sys_fcntl :: "int \<Rightarrow> int \<Rightarrow> va_arg \<Rightarrow> 'k \<Rightarrow> s32 \<times> 'k"
  sys_socket :: "int \<Rightarrow> int \<Rightarrow> int \<Rightarrow> 'k \<Rightarrow> int \<times> 'k"
  sys_close :: "int \<Rightarrow> 'k \<Rightarrow> int \<times> 'k"
  sys_ioctl :: "int \<Rightarrow> u64 \<Rightarrow> s32 \<Rightarrow> 'k \<Rightarrow> int \<times> 'k"

definition F_GETFL :: int where "F_GETFL = 3"
definition F_SETFL :: int where "F_SETFL = 4"
definition O_NONBLOCK :: s32 where "O_NONBLOCK = 0x800"
definition SO_RCVTIMEO :: int where "SO_RCVTIMEO = 20"
definition SO_SNDTIMEO :: int where "SO_SNDTIMEO = 21"

section \<open>FdCtx\<close>

record fd_ctx =
  m_isInit :: bool
  m_isSocket :: bool
  m_sysNonblock :: bool
  m_userNonblock :: bool
  m_isClosed :: bool
  m_fd :: int
  m_recvTimeout :: u64
  m_sendTimeout :: u64

definition FdCtx_init :: "'k syscalls \<Rightarrow> fd_ctx \<Rightarrow> 'k \<Rightarrow> (bool \<times> fd_ctx) \<times> 'k" where
  "FdCtx_init sys c k =
    (if m_isInit c then ((True, c), k)
     else
       let c1 = c\<lparr>m_recvTimeout := - 1, m_sendTimeout := - 1\<rparr>;
           c2 = (case sys_fstat sys (m_fd c1) k of
                   None \<Rightarrow> c1\<lparr>m_isInit := False, m_isSocket := False\<rparr>
                 | Some is_socket \<Rightarrow> c1\<lparr>m_isInit := True, m_isSocket := is_socket\<rparr>);
           c3 = c2\<lparr>m_sysNonblock := False\<rparr>;
           (c4, k1) =
             (if m_isSocket c3 then
                let (flags, k1) = sys_fcntl sys (m_fd c3) F_GETFL (Va_Int 0) k;
                    k2 = (if flags AND O_NONBLOCK = 0
                          then snd (sys_fcntl sys (m_fd c3) F_SETFL (Va_Int (flags OR O_NONBLOCK)) k1) else k1)
                in (c3\<lparr>m_sysNonblock := True\<rparr>, k2)
              else (c3, k));
           c5 = c4\<lparr>m_userNonblock := False, m_isClosed := False\<rparr>
       in ((m_isInit c5, c5), k1))"

definition FdCtx :: "'k syscalls \<Rightarrow> int \<Rightarrow> 'k \<Rightarrow> fd_ctx \<times> 'k" where
  "FdCtx sys fd k =
    (let ((_, c), k1) = FdCtx_init sys
       \<lparr>m_isInit = False, m_isSocket = False, m_sysNonblock = False, m_userNonblock = False, m_isClosed = False,
        m_fd = fd, m_recvTimeout = - 1, m_sendTimeout = - 1\<rparr> k
     in (c, k1))"

definition FdCtx_setTimeout :: "int \<Rightarrow> u64 \<Rightarrow> fd_ctx \<Rightarrow> fd_ctx" where
  "FdCtx_setTimeout type v c = (if type = SO_RCVTIMEO then c\<lparr>m_recvTimeout := v\<rparr> else c\<lparr>m_sendTimeout := v\<rparr>)"

definition FdCtx_getTimeout :: "int \<Rightarrow> fd_ctx \<Rightarrow> u64" where
  "FdCtx_getTimeout type c = (if type = SO_RCVTIMEO then m_recvTimeout c else m_sendTimeout c)"

section \<open>FdManager\<close>

text \<open>
  The table of contexts, with the kernel beside it. Indexing the vector with a negative descriptor
  is undefined.
\<close>

record 'k fd_manager =
  m_datas :: "fd_ctx option list"
  kernel :: 'k

definition FdManager :: "'k \<Rightarrow> 'k fd_manager" where
  "FdManager k = \<lparr>m_datas = replicate 64 None, kernel = k\<rparr>"

definition resize_datas :: "nat \<Rightarrow> fd_ctx option list \<Rightarrow> fd_ctx option list" where
  "resize_datas n xs = take n xs @ replicate (n - length xs) None"

text \<open>\<open>create\<close> is the part of \<open>get\<close> under the write lock.\<close>

definition FdManager_create :: "'k syscalls \<Rightarrow> int \<Rightarrow> ('k fd_manager, fd_ctx option) action" where
  "FdManager_create sys fd m =
    (let (ctx, k1) = FdCtx sys fd (kernel m)
     in if 0 \<le> fd \<and> fd < int (length (m_datas m))
        then (Inr (Some ctx), m\<lparr>m_datas := (m_datas m)[nat fd := Some ctx], kernel := k1\<rparr>)
        else (Inl Out_Of_Bounds, m\<lparr>kernel := k1\<rparr>))"

definition FdManager_get :: "'k syscalls \<Rightarrow> int \<Rightarrow> bool \<Rightarrow> ('k fd_manager, fd_ctx option) action" where
  "FdManager_get sys fd auto_create m =
    (if int (length (m_datas m)) \<le> fd then
       if auto_create = False then (Inr None, m)
       else FdManager_create sys fd (m\<lparr>m_datas := resize_datas (nat fd * 3 div 2) (m_datas m)\<rparr>)
     else if fd < 0 then (Inl Out_Of_Bounds, m)
     else if m_datas m ! nat fd \<noteq> None \<or> \<not> auto_create then (Inr (m_datas m ! nat fd), m)
     else FdManager_create sys fd m)"

definition FdManager_del :: "int \<Rightarrow> ('k fd_manager, unit) action" where
  "FdManager_del fd m =
    (if int (length (m_datas m)) \<le> fd then (Inr (), m)
     else if fd < 0 then (Inl Out_Of_Bounds, m)
     else (Inr (), m\<lparr>m_datas := (m_datas m)[nat fd := None]\<rparr>))"

section \<open>The table as a partial map\<close>

definition fd_map :: "'k fd_manager \<Rightarrow> nat \<Rightarrow> fd_ctx option" where
  "fd_map m fd = (if fd < length (m_datas m) then m_datas m ! fd else None)"

definition fd_inv :: "'k fd_manager \<Rightarrow> bool" where
  "fd_inv m \<longleftrightarrow> 64 \<le> length (m_datas m)"

lemma FdManager_init: "fd_inv (FdManager k)" "fd_map (FdManager k) = (\<lambda>_. None)"
  by (auto simp: FdManager_def fd_inv_def fd_map_def)

lemma fd_map_resize:
  "length (m_datas m) \<le> n \<Longrightarrow> fd_map (m\<lparr>m_datas := resize_datas n (m_datas m)\<rparr>) = fd_map m"
  by (auto simp: fd_map_def resize_datas_def nth_append)

lemma fd_map_update:
  "fd < length (m_datas m) \<Longrightarrow> fd_map (m\<lparr>m_datas := (m_datas m)[fd := c], kernel := k\<rparr>) = (fd_map m)(fd := c)"
  by (auto simp: fd_map_def)

lemma FdManager_create_ok:
  assumes "fd < length (m_datas m)"
  shows "\<exists>m'. FdManager_create sys (int fd) m = (Inr (Some (fst (FdCtx sys (int fd) (kernel m)))), m') \<and>
    fd_map m' = (fd_map m)(fd \<mapsto> fst (FdCtx sys (int fd) (kernel m))) \<and>
    kernel m' = snd (FdCtx sys (int fd) (kernel m)) \<and> length (m_datas m') = length (m_datas m)"
  using assms by (auto simp: FdManager_create_def case_prod_beta fd_map_update)

lemma FdManager_get_absent:
  assumes "fd_inv m" and none: "fd_map m fd = None"
  shows "\<exists>m'. FdManager_get sys (int fd) True m = (Inr (Some (fst (FdCtx sys (int fd) (kernel m)))), m') \<and>
    fd_map m' = (fd_map m)(fd \<mapsto> fst (FdCtx sys (int fd) (kernel m))) \<and>
    kernel m' = snd (FdCtx sys (int fd) (kernel m)) \<and> fd_inv m'"
proof (cases "length (m_datas m) \<le> fd")
  case True
  let ?m1 = "m\<lparr>m_datas := resize_datas (fd * 3 div 2) (m_datas m)\<rparr>"
  have big: "length (m_datas m) \<le> fd * 3 div 2" "fd < fd * 3 div 2" "64 \<le> fd * 3 div 2"
    using True assms(1) by (auto simp: fd_inv_def)
  then have "length (m_datas ?m1) = fd * 3 div 2"
    by (simp add: resize_datas_def)
  then show ?thesis
    using FdManager_create_ok [of fd ?m1 sys] big True
    by (auto simp: FdManager_get_def fd_map_resize fd_inv_def)
next
  case False
  then show ?thesis
    using FdManager_create_ok [of fd m sys] none assms(1) by (auto simp: FdManager_get_def fd_map_def fd_inv_def)
qed

lemma FdManager_get_present:
  "fd_map m fd = Some c \<Longrightarrow> FdManager_get sys (int fd) auto_create m = (Inr (Some c), m)"
  by (auto simp: FdManager_get_def fd_map_def split: if_splits)

lemma FdManager_get_lookup: "FdManager_get sys (int fd) False m = (Inr (fd_map m fd), m)"
  by (simp add: FdManager_get_def fd_map_def)

lemma FdManager_del_ok:
  assumes "fd_inv m"
  shows "\<exists>m'. FdManager_del (int fd) m = (Inr (), m') \<and> fd_map m' = (fd_map m)(fd := None) \<and>
    kernel m' = kernel m \<and> fd_inv m'"
  using assms by (auto simp: FdManager_del_def fd_inv_def fd_map_def)

section \<open>New contexts\<close>

text \<open>
  What is relied on of the kernel: \<open>F_SETFL\<close> sets the non-blocking flag as asked and \<open>F_GETFL\<close>
  reports it, on that descriptor and no other, and reading the flags changes nothing.
\<close>

definition nonblocking :: "'k syscalls \<Rightarrow> int \<Rightarrow> 'k \<Rightarrow> bool" where
  "nonblocking sys fd k \<longleftrightarrow> fst (sys_fcntl sys fd F_GETFL Va_None k) AND O_NONBLOCK \<noteq> 0"

definition flags_laws :: "'k syscalls \<Rightarrow> bool" where
  "flags_laws sys \<longleftrightarrow>
    (\<forall>fd a k. snd (sys_fcntl sys fd F_GETFL a k) = k \<and>
      fst (sys_fcntl sys fd F_GETFL a k) = fst (sys_fcntl sys fd F_GETFL Va_None k)) \<and>
    (\<forall>fd arg k fd'. nonblocking sys fd' (snd (sys_fcntl sys fd F_SETFL (Va_Int arg) k)) \<longleftrightarrow>
      (if fd' = fd then arg AND O_NONBLOCK \<noteq> 0 else nonblocking sys fd' k))"

lemma flags_lawsD:
  assumes "flags_laws sys"
  shows "sys_fcntl sys fd F_GETFL a k = (fst (sys_fcntl sys fd F_GETFL Va_None k), k)"
    and "nonblocking sys fd' (snd (sys_fcntl sys fd F_SETFL (Va_Int arg) k)) \<longleftrightarrow>
      (if fd' = fd then arg AND O_NONBLOCK \<noteq> 0 else nonblocking sys fd' k)"
  using assms by (auto simp: flags_laws_def prod_eq_iff)

lemma O_NONBLOCK_set [simp]: "(x OR O_NONBLOCK) AND O_NONBLOCK = O_NONBLOCK" "O_NONBLOCK \<noteq> 0"
  "(x AND NOT O_NONBLOCK) AND O_NONBLOCK = 0"
  by (simp_all add: bit.conj_disj_distrib2 and.assoc) (simp_all add: O_NONBLOCK_def)

lemma FdCtx_ok:
  assumes "flags_laws sys"
  shows "let (c, k') = FdCtx sys fd k in
    c = \<lparr>m_isInit = sys_fstat sys fd k \<noteq> None, m_isSocket = sys_fstat sys fd k = Some True,
      m_sysNonblock = sys_fstat sys fd k = Some True, m_userNonblock = False, m_isClosed = False,
      m_fd = fd, m_recvTimeout = - 1, m_sendTimeout = - 1\<rparr> \<and>
    (m_isSocket c \<longrightarrow> nonblocking sys fd k') \<and>
    (\<not> m_isSocket c \<longrightarrow> k' = k) \<and>
    (\<forall>fd'. fd' \<noteq> fd \<longrightarrow> nonblocking sys fd' k' = nonblocking sys fd' k)"
proof -
  note L = flags_lawsD [OF assms]
  show ?thesis
    unfolding FdCtx_def FdCtx_init_def Let_def case_prod_beta
    by (auto simp: L(1) [of fd "Va_Int 0"] L(2) nonblocking_def [of sys fd k] split: option.split)
qed

section \<open>A concrete kernel\<close>

text \<open>Descriptors are sockets and the kernel's state is their flags.\<close>

definition example_sys :: "(int \<Rightarrow> s32) syscalls" where
  "example_sys = \<lparr>sys_fstat = (\<lambda>_ _. Some True),
    sys_fcntl = (\<lambda>fd cmd a k. if cmd = F_GETFL then (k fd, k)
      else case a of Va_Int arg \<Rightarrow> if cmd = F_SETFL then (0, k(fd := arg)) else (- 1, k) | _ \<Rightarrow> (- 1, k)),
    sys_socket = (\<lambda>_ _ _ k. (5, k(5 := 2))),
    sys_close = (\<lambda>_ k. (0, k)),
    sys_ioctl = (\<lambda>fd _ v k. (0, k(fd := if v \<noteq> 0 then k fd OR O_NONBLOCK else k fd AND NOT O_NONBLOCK)))\<rparr>"

lemma example_flags_laws: "flags_laws example_sys"
  by (simp add: flags_laws_def example_sys_def nonblocking_def F_GETFL_def F_SETFL_def)

section \<open>Properties\<close>



end
