(* ===== verification/Timer.thy ===== *)
theory Timer
  imports Sylar_Prelude
begin

text \<open>
  \<open>sylar/timer.{h,cpp}\<close>: timers and the timer manager. Timers are shared between the manager's
  set and the clients that hold pointers to them, so they live in a store indexed by address; the
  \<open>std::set\<close> of the manager holds addresses, ordered by the comparator on what they point to.
  \<open>GetCurrentMS()\<close> is an argument (\<open>now\<close>), and so is the address \<open>new Timer\<close> returns. Each method
  runs under the manager's lock, so a call is one step; \<open>listExpiredCb\<close> releases the lock once in
  between, and is two.
\<close>

section \<open>Ordered sets\<close>

text \<open>
  What the code uses of \<open>std::set\<close>: a list in the comparator's order. \<open>find\<close> goes by the comparator
  as the search tree does: it looks for the first element not less than the key and compares that
  one with the key.
\<close>

fun set_insert :: "('a \<Rightarrow> 'a \<Rightarrow> bool) \<Rightarrow> 'a \<Rightarrow> 'a list \<Rightarrow> 'a list" where
  "set_insert lt x [] = [x]"
| "set_insert lt x (y # ys) =
    (if lt x y then x # y # ys else if lt y x then y # set_insert lt x ys else y # ys)"

definition set_lower_bound :: "('a \<Rightarrow> 'a \<Rightarrow> bool) \<Rightarrow> 'a \<Rightarrow> 'a list \<Rightarrow> 'a list" where
  "set_lower_bound lt x xs = dropWhile (\<lambda>y. lt y x) xs"

definition set_find :: "('a \<Rightarrow> 'a \<Rightarrow> bool) \<Rightarrow> 'a \<Rightarrow> 'a list \<Rightarrow> bool" where
  "set_find lt x xs = (case set_lower_bound lt x xs of [] \<Rightarrow> False | y # _ \<Rightarrow> \<not> lt x y)"

fun set_erase :: "('a \<Rightarrow> 'a \<Rightarrow> bool) \<Rightarrow> 'a \<Rightarrow> 'a list \<Rightarrow> 'a list" where
  "set_erase lt x [] = []"
| "set_erase lt x (y # ys) = (if lt y x then y # set_erase lt x ys else if lt x y then y # ys else ys)"

locale std_set =
  fixes lt :: "'a \<Rightarrow> 'a \<Rightarrow> bool"
  assumes irrefl [simp]: "\<not> lt x x"
    and trans: "lt x y \<Longrightarrow> lt y z \<Longrightarrow> lt x z"
    and total: "x \<noteq> y \<Longrightarrow> lt x y \<or> lt y x"
begin

lemma asym: "lt x y \<Longrightarrow> \<not> lt y x"
  using trans irrefl by blast

lemma set_set_insert [simp]: "set (set_insert lt x xs) = insert x (set xs)"
  using total by (induction xs) auto

lemma sorted_insert: "sorted_wrt lt xs \<Longrightarrow> sorted_wrt lt (set_insert lt x xs)"
  by (induction xs) (auto intro: trans)

lemma sorted_distinct: "sorted_wrt lt xs \<Longrightarrow> distinct xs"
  by (induction xs) auto

lemma find_iff: "sorted_wrt lt xs \<Longrightarrow> set_find lt x xs \<longleftrightarrow> x \<in> set xs"
proof (induction xs)
  case (Cons y ys)
  then show ?case
    using total [of x y] asym by (auto simp: set_find_def set_lower_bound_def)
qed (simp add: set_find_def set_lower_bound_def)

lemma set_set_erase: "sorted_wrt lt xs \<Longrightarrow> set (set_erase lt x xs) = set xs - {x}"
  using total asym by (induction xs) auto

lemma sorted_erase: "sorted_wrt lt xs \<Longrightarrow> sorted_wrt lt (set_erase lt x xs)"
  by (induction xs) (auto simp: set_set_erase)

lemma hd_insert: "hd (set_insert lt x xs) = x \<longleftrightarrow> (\<forall>y\<in>set xs. \<not> lt y x)" if "sorted_wrt lt xs"
  using that
proof (induction xs)
  case (Cons y ys)
  then show ?case
    using total [of x y] asym [of x y] trans by auto
qed simp

end

section \<open>Timers\<close>

text \<open>
  A callback is a client's function or \<open>std::bind(&OnTimer, weak_cond, cb)\<close>; running it calls the
  client's function, under the condition that the weak pointer can still be locked.
\<close>

datatype callback = Function nat | OnTimer nat callback

fun invoke :: "(nat \<Rightarrow> bool) \<Rightarrow> callback \<Rightarrow> nat option" where
  "invoke alive (Function f) = Some f"
| "invoke alive (OnTimer weak_cond cb) = (if alive weak_cond then invoke alive cb else None)"

record timer =
  m_recurring :: bool
  m_ms :: u64
  m_next :: u64
  m_cb :: "callback option"

definition Timer :: "u64 \<Rightarrow> u64 \<Rightarrow> callback option \<Rightarrow> bool \<Rightarrow> timer" where
  "Timer now ms cb recurring = \<lparr>m_recurring = recurring, m_ms = ms, m_next = now + ms, m_cb = cb\<rparr>"

definition Timer_at :: "u64 \<Rightarrow> timer" where
  "Timer_at next = \<lparr>m_recurring = False, m_ms = 0, m_next = next, m_cb = None\<rparr>"

text \<open>The comparator, on possibly null pointers; \<open>mem\<close> is what the addresses hold.\<close>

definition Comparator :: "(nat \<Rightarrow> timer) \<Rightarrow> nat option \<Rightarrow> nat option \<Rightarrow> bool" where
  "Comparator mem lhs rhs =
    (case (lhs, rhs) of
       (None, None) \<Rightarrow> False
     | (None, Some _) \<Rightarrow> True
     | (Some _, None) \<Rightarrow> False
     | (Some l, Some r) \<Rightarrow>
         if m_next (mem l) < m_next (mem r) then True
         else if m_next (mem r) < m_next (mem l) then False
         else l < r)"

abbreviation before :: "(nat \<Rightarrow> timer) \<Rightarrow> nat \<Rightarrow> nat \<Rightarrow> bool" where
  "before mem l r \<equiv> Comparator mem (Some l) (Some r)"

lemma before_iff:
  "before mem l r \<longleftrightarrow> m_next (mem l) < m_next (mem r) \<or> m_next (mem l) = m_next (mem r) \<and> l < r"
  by (auto simp: Comparator_def)

lemma Comparator_null [simp]:
  "Comparator mem None rhs \<longleftrightarrow> rhs \<noteq> None" "\<not> Comparator mem (Some l) None"
  by (auto simp: Comparator_def split: option.split)

interpretation timers: std_set "before mem" for mem
  by unfold_locales (auto simp: before_iff)

text \<open>Null pointers included, the comparator is a strict total order.\<close>

interpretation timer_ptrs: std_set "Comparator mem" for mem
proof unfold_locales
  fix x y z :: "nat option"
  show "\<not> Comparator mem x x"
    by (cases x) simp_all
  show "Comparator mem x z" if "Comparator mem x y" and "Comparator mem y z"
    using that by (cases x; cases y; cases z; simp) (blast intro: timers.trans)
  show "Comparator mem x y \<or> Comparator mem y x" if "x \<noteq> y"
    using that timers.total by (cases x; cases y) simp_all
qed

section \<open>The manager\<close>

text \<open>
  \<open>front_calls\<close> counts the calls of the virtual \<open>onTimerInsertedAtFront\<close>, which an implementation
  uses to wake whoever sleeps until the earliest deadline.
\<close>

record timer_manager =
  mem :: "nat \<Rightarrow> timer"
  m_timers :: "nat list"
  m_tickled :: bool
  m_previousTime :: u64
  front_calls :: nat

type_synonym 'a tm_method = "timer_manager \<Rightarrow> 'a \<times> timer_manager"

definition TimerManager :: "(nat \<Rightarrow> timer) \<Rightarrow> u64 \<Rightarrow> timer_manager" where
  "TimerManager garbage now =
    \<lparr>mem = garbage, m_timers = [], m_tickled = False, m_previousTime = now, front_calls = 0\<rparr>"

text \<open>The protected \<open>addTimer(val, lock)\<close>.\<close>

definition TimerManager_addTimer_locked :: "nat \<Rightarrow> timer_manager \<Rightarrow> timer_manager" where
  "TimerManager_addTimer_locked val m =
    (let timers = set_insert (before (mem m)) val (m_timers m);
         at_front = (hd timers = val \<and> \<not> m_tickled m);
         m1 = m\<lparr>m_timers := timers, m_tickled := (if at_front then True else m_tickled m)\<rparr>
     in if at_front then m1\<lparr>front_calls := front_calls m1 + 1\<rparr> else m1)"

definition TimerManager_addTimer :: "u64 \<Rightarrow> nat \<Rightarrow> u64 \<Rightarrow> callback option \<Rightarrow> bool \<Rightarrow> nat tm_method" where
  "TimerManager_addTimer now addr ms cb recurring m =
    (addr, TimerManager_addTimer_locked addr (m\<lparr>mem := (mem m)(addr := Timer now ms cb recurring)\<rparr>))"

definition TimerManager_addConditionTimer ::
  "u64 \<Rightarrow> nat \<Rightarrow> u64 \<Rightarrow> callback \<Rightarrow> nat \<Rightarrow> bool \<Rightarrow> nat tm_method" where
  "TimerManager_addConditionTimer now addr ms cb weak_cond recurring m =
    TimerManager_addTimer now addr ms (Some (OnTimer weak_cond cb)) recurring m"

definition Timer_cancel :: "nat \<Rightarrow> bool tm_method" where
  "Timer_cancel this m =
    (if m_cb (mem m this) = None then (False, m)
     else
       let m1 = m\<lparr>mem := (mem m)(this := (mem m this)\<lparr>m_cb := None\<rparr>)\<rparr>
       in (True,
           if set_find (before (mem m1)) this (m_timers m1)
           then m1\<lparr>m_timers := set_erase (before (mem m1)) this (m_timers m1)\<rparr>
           else m1))"

definition Timer_refresh :: "u64 \<Rightarrow> nat \<Rightarrow> bool tm_method" where
  "Timer_refresh now this m =
    (if m_cb (mem m this) = None then (False, m)
     else if \<not> set_find (before (mem m)) this (m_timers m) then (False, m)
     else
       let m1 = m\<lparr>m_timers := set_erase (before (mem m)) this (m_timers m)\<rparr>;
           m2 = m1\<lparr>mem := (mem m1)(this := (mem m1 this)\<lparr>m_next := now + m_ms (mem m1 this)\<rparr>)\<rparr>
       in (True, TimerManager_addTimer_locked this m2))"

definition Timer_reset :: "u64 \<Rightarrow> nat \<Rightarrow> u64 \<Rightarrow> bool \<Rightarrow> bool tm_method" where
  "Timer_reset now this ms from_now m =
    (if ms = m_ms (mem m this) \<and> \<not> from_now then (True, m)
     else if m_cb (mem m this) = None then (False, m)
     else if \<not> set_find (before (mem m)) this (m_timers m) then (False, m)
     else
       let m1 = m\<lparr>m_timers := set_erase (before (mem m)) this (m_timers m)\<rparr>;
           t = mem m1 this;
           start = (if from_now then now else m_next t - m_ms t);
           m2 = m1\<lparr>mem := (mem m1)(this := t\<lparr>m_ms := ms, m_next := start + ms\<rparr>)\<rparr>
       in (True, TimerManager_addTimer_locked this m2))"

definition TimerManager_getNextTimer :: "u64 \<Rightarrow> u64 tm_method" where
  "TimerManager_getNextTimer now_ms m =
    (let m1 = m\<lparr>m_tickled := False\<rparr>
     in (case m_timers m1 of
           [] \<Rightarrow> NOT 0
         | next # _ \<Rightarrow>
             if m_next (mem m1 next) \<le> now_ms then 0 else m_next (mem m1 next) - now_ms,
         m1))"

definition TimerManager_hasTimer :: "timer_manager \<Rightarrow> bool" where
  "TimerManager_hasTimer m = (m_timers m \<noteq> [])"

definition TimerManager_detectClockRollover :: "u64 \<Rightarrow> bool tm_method" where
  "TimerManager_detectClockRollover now_ms m =
    (now_ms < m_previousTime m \<and> now_ms < m_previousTime m - 60 * 60 * 1000,
     m\<lparr>m_previousTime := now_ms\<rparr>)"

text \<open>
  \<open>listExpiredCb\<close> up to the release of the read lock (the answer says whether it returns there),
  and from the acquisition of the write lock on. \<open>begin()\<close> of an empty set must not be
  dereferenced. The iterator \<open>it\<close> splits the set; \<open>tmp\<close> is the address of \<open>now_timer\<close>.
\<close>

definition listExpiredCb_empty :: "timer_manager \<Rightarrow> bool" where
  "listExpiredCb_empty m = (m_timers m = [])"

definition expired_split :: "u64 \<Rightarrow> nat \<Rightarrow> bool \<Rightarrow> timer_manager \<Rightarrow> nat list \<times> nat list" where
  "expired_split now_ms tmp rollover m =
    (let mem' = (mem m)(tmp := Timer_at now_ms);
         it = (if rollover then [] else set_lower_bound (before mem') tmp (m_timers m));
         it' = dropWhile (\<lambda>t. m_next (mem m t) = now_ms) it
     in (take (length (m_timers m) - length it') (m_timers m), it'))"

fun expired_loop :: "u64 \<Rightarrow> nat list \<Rightarrow> callback option list tm_method" where
  "expired_loop now_ms [] m = ([], m)"
| "expired_loop now_ms (t # ts) m =
    (let timer = mem m t;
         m1 = (if m_recurring timer
               then let mem1 = (mem m)(t := timer\<lparr>m_next := now_ms + m_ms timer\<rparr>)
                    in m\<lparr>mem := mem1, m_timers := set_insert (before mem1) t (m_timers m)\<rparr>
               else m\<lparr>mem := (mem m)(t := timer\<lparr>m_cb := None\<rparr>)\<rparr>);
         (cbs, m2) = expired_loop now_ms ts m1
     in (m_cb timer # cbs, m2))"

definition listExpiredCb_locked :: "u64 \<Rightarrow> nat \<Rightarrow> (timer_manager, callback option list) action" where
  "listExpiredCb_locked now_ms tmp m =
    (let (rollover, m1) = TimerManager_detectClockRollover now_ms m
     in if \<not> rollover \<and> m_timers m1 = [] then (Inl Null_Deref, m1)
        else if \<not> rollover \<and> now_ms < m_next (mem m1 (hd (m_timers m1))) then (Inr [], m1)
        else
          let (expired, rest) = expired_split now_ms tmp rollover m1;
              (cbs, m2) = expired_loop now_ms expired (m1\<lparr>m_timers := rest\<rparr>)
          in (Inr cbs, m2))"

definition TimerManager_listExpiredCb :: "u64 \<Rightarrow> nat \<Rightarrow> (timer_manager, callback option list) action" where
  "TimerManager_listExpiredCb now_ms tmp m =
    (if listExpiredCb_empty m then (Inr [], m) else listExpiredCb_locked now_ms tmp m)"

section \<open>Invariant\<close>

text \<open>The set is in the comparator's order, and every timer in it still has its callback.\<close>

definition tm_inv :: "timer_manager \<Rightarrow> bool" where
  "tm_inv m \<longleftrightarrow> sorted_wrt (before (mem m)) (m_timers m) \<and> (\<forall>t\<in>set (m_timers m). m_cb (mem m t) \<noteq> None)"

lemma TimerManager_inv: "tm_inv (TimerManager garbage now)"
  by (simp add: tm_inv_def TimerManager_def)

text \<open>Writing to a timer outside the set does not disturb the order.\<close>

lemma sorted_mem_cong:
  assumes "sorted_wrt (before mem1) xs" and "\<And>t. t \<in> set xs \<Longrightarrow> m_next (mem2 t) = m_next (mem1 t)"
  shows "sorted_wrt (before mem2) xs"
  using assms(1) by (rule sorted_wrt_mono_rel [rotated]) (simp add: before_iff assms(2))

lemma addTimer_locked_sel [simp]:
  "m_timers (TimerManager_addTimer_locked t m) = set_insert (before (mem m)) t (m_timers m)"
  "mem (TimerManager_addTimer_locked t m) = mem m"
  "m_previousTime (TimerManager_addTimer_locked t m) = m_previousTime m"
  by (simp_all add: TimerManager_addTimer_locked_def Let_def)

lemma addTimer_locked_inv:
  "tm_inv m \<Longrightarrow> m_cb (mem m t) \<noteq> None \<Longrightarrow> tm_inv (TimerManager_addTimer_locked t m)"
  by (simp add: tm_inv_def timers.sorted_insert)

lemma sorted_update:
  assumes "tm_inv m" and "t \<notin> set (m_timers m) \<or> m_next tm = m_next (mem m t)"
  shows "sorted_wrt (before ((mem m)(t := tm))) (m_timers m)"
proof (rule sorted_mem_cong)
  show "sorted_wrt (before (mem m)) (m_timers m)"
    using assms(1) by (simp add: tm_inv_def)
  show "m_next (((mem m)(t := tm)) u) = m_next (mem m u)" if "u \<in> set (m_timers m)" for u
    using that assms(2) by auto
qed

text \<open>A timer taken out of the set, changed, and put back.\<close>

lemma update_outside_inv:
  assumes "sorted_wrt (before (mem m)) ts" and "t \<notin> set ts" and "\<forall>u\<in>set ts. m_cb (mem m u) \<noteq> None"
  shows "tm_inv (m\<lparr>m_timers := ts, mem := (mem m)(t := tm)\<rparr>)"
proof -
  have "sorted_wrt (before ((mem m)(t := tm))) ts"
    by (rule sorted_mem_cong [OF assms(1)]) (use assms(2) in auto)
  then show ?thesis
    using assms by (auto simp: tm_inv_def)
qed

lemma addTimer_inv:
  assumes "tm_inv m" and "addr \<notin> set (m_timers m)"
  shows "tm_inv (snd (TimerManager_addTimer now addr ms (Some cb) recurring m))"
proof -
  have "tm_inv (m\<lparr>mem := (mem m)(addr := Timer now ms (Some cb) recurring)\<rparr>)"
    using update_outside_inv [of m "m_timers m" addr] assms by (simp add: tm_inv_def)
  then show ?thesis
    unfolding TimerManager_addTimer_def snd_conv by (rule addTimer_locked_inv) (simp add: Timer_def)
qed

lemma cancel_inv:
  assumes "tm_inv m"
  shows "tm_inv (snd (Timer_cancel t m))"
proof (cases "m_cb (mem m t) = None")
  case False
  let ?mem = "(mem m)(t := (mem m t)\<lparr>m_cb := None\<rparr>)"
  have s: "sorted_wrt (before ?mem) (m_timers m)"
    using assms by (auto simp: tm_inv_def intro: sorted_mem_cong)
  have "sorted_wrt (before ?mem) (set_erase (before ?mem) t (m_timers m))"
    "set (set_erase (before ?mem) t (m_timers m)) = set (m_timers m) - {t}"
    by (rule timers.sorted_erase [OF s], rule timers.set_set_erase [OF s])
  then show ?thesis
    using s timers.find_iff [OF s, of t] assms
    by (cases "t \<in> set (m_timers m)") (auto simp: Timer_cancel_def Let_def False tm_inv_def)
qed (simp add: Timer_cancel_def assms)

lemma rearm_inv:
  assumes "tm_inv m" and "m_cb (mem m t) \<noteq> None" and "m_cb tm \<noteq> None"
  shows "tm_inv (TimerManager_addTimer_locked t
    (m\<lparr>m_timers := set_erase (before (mem m)) t (m_timers m), mem := (mem m)(t := tm)\<rparr>))"
proof -
  have s: "sorted_wrt (before (mem m)) (m_timers m)"
    using assms(1) by (simp add: tm_inv_def)
  show ?thesis
    using assms timers.set_set_erase [OF s, of t]
    by (intro addTimer_locked_inv update_outside_inv timers.sorted_erase s) (auto simp: tm_inv_def)
qed

lemma refresh_inv: "tm_inv m \<Longrightarrow> tm_inv (snd (Timer_refresh now t m))"
  using rearm_inv [of m t] by (auto simp: Timer_refresh_def Let_def)

lemma reset_inv: "tm_inv m \<Longrightarrow> tm_inv (snd (Timer_reset now t ms from_now m))"
  using rearm_inv [of m t] by (auto simp: Timer_reset_def Let_def)

lemma getNextTimer_inv [simp]: "tm_inv (snd (TimerManager_getNextTimer now m)) = tm_inv m"
  by (simp add: TimerManager_getNextTimer_def tm_inv_def Let_def)

section \<open>What expires\<close>

lemma sorted_next:
  "sorted_wrt (before st) (t # ts) \<Longrightarrow> u \<in> set ts \<Longrightarrow> m_next (st t) \<le> m_next (st u)"
  by (force simp: before_iff)

lemma drop_at_now:
  assumes "sorted_wrt (before st) ts" and "\<forall>t\<in>set ts. now \<le> m_next (st t)"
  shows "dropWhile (\<lambda>t. m_next (st t) = now) ts = filter (\<lambda>t. now < m_next (st t)) ts"
  using assms
proof (induction ts)
  case (Cons t ts)
  show ?case
  proof (cases "m_next (st t) = now")
    case False
    then have "now < m_next (st t)"
      using Cons.prems(2) by (simp add: order_less_le)
    then have "\<forall>u\<in>set ts. now < m_next (st u)"
      using sorted_next [OF Cons.prems(1)] by (meson less_le_trans)
    then show ?thesis
      using False \<open>now < m_next (st t)\<close> by simp
  qed (use Cons in simp)
qed simp

lemma drop_expired:
  assumes "sorted_wrt (before st) ts" and "tmp \<notin> set ts"
  shows "dropWhile (\<lambda>t. m_next (st t) = now)
      (set_lower_bound (before (st(tmp := Timer_at now))) tmp ts) = filter (\<lambda>t. now < m_next (st t)) ts"
  using assms
proof (induction ts)
  case (Cons t ts)
  have lt: "before (st(tmp := Timer_at now)) t tmp \<longleftrightarrow> m_next (st t) < now \<or> m_next (st t) = now \<and> t < tmp"
    using Cons.prems(2) by (simp add: before_iff Timer_at_def)
  show ?case
  proof (cases "before (st(tmp := Timer_at now)) t tmp")
    case True
    then have "\<not> now < m_next (st t)"
      unfolding lt by auto
    then show ?thesis
      using True Cons by (simp add: set_lower_bound_def del: fun_upd_apply)
  next
    case False
    then have "now \<le> m_next (st t)"
      unfolding lt by auto
    then have "\<forall>u\<in>set (t # ts). now \<le> m_next (st u)"
      using sorted_next [OF Cons.prems(1)] by (auto intro: order_trans)
    from drop_at_now [OF Cons.prems(1) this] show ?thesis
      using False by (simp add: set_lower_bound_def del: fun_upd_apply)
  qed
qed (simp add: set_lower_bound_def)

lemma expired_first:
  "sorted_wrt (before st) ts \<Longrightarrow>
    filter (\<lambda>t. m_next (st t) \<le> now) ts @ filter (\<lambda>t. now < m_next (st t)) ts = ts"
proof (induction ts)
  case (Cons t ts)
  show ?case
  proof (cases "m_next (st t) \<le> now")
    case False
    then have "now < m_next (st t)"
      by simp
    then have "\<forall>u\<in>set (t # ts). now < m_next (st u)"
      using sorted_next [OF Cons.prems] by (auto intro: less_le_trans)
    then show ?thesis
      by (auto simp: filter_empty_conv not_le)
  qed (use Cons in auto)
qed simp

definition expired_timers :: "u64 \<Rightarrow> bool \<Rightarrow> timer_manager \<Rightarrow> nat list" where
  "expired_timers now rollover m = filter (\<lambda>t. rollover \<or> m_next (mem m t) \<le> now) (m_timers m)"

definition kept_timers :: "u64 \<Rightarrow> bool \<Rightarrow> timer_manager \<Rightarrow> nat list" where
  "kept_timers now rollover m = filter (\<lambda>t. \<not> rollover \<and> now < m_next (mem m t)) (m_timers m)"

lemma expired_split_correct:
  assumes "tm_inv m" and "tmp \<notin> set (m_timers m)"
  shows "expired_split now tmp rollover m = (expired_timers now rollover m, kept_timers now rollover m)"
proof (cases rollover)
  case False
  have s: "sorted_wrt (before (mem m)) (m_timers m)"
    using assms(1) by (simp add: tm_inv_def)
  let ?kept = "filter (\<lambda>t. now < m_next (mem m t)) (m_timers m)"
    and ?gone = "filter (\<lambda>t. m_next (mem m t) \<le> now) (m_timers m)"
  have e: "?gone @ ?kept = m_timers m"
    by (rule expired_first [OF s])
  have "take (length (m_timers m) - length ?kept) (?gone @ ?kept) = ?gone"
    by (subst e [symmetric]) (simp only: length_append add_diff_cancel_right' append_eq_conv_conj, simp)
  then have "take (length (m_timers m) - length ?kept) (m_timers m) = ?gone"
    unfolding e .
  then show ?thesis
    using False drop_expired [OF s assms(2), of now]
    by (simp add: expired_split_def Let_def expired_timers_def kept_timers_def)
qed (simp add: expired_split_def expired_timers_def kept_timers_def)

text \<open>A timer after its expiry: re-armed when it is recurring, without its callback otherwise.\<close>

definition fired :: "u64 \<Rightarrow> timer \<Rightarrow> timer" where
  "fired now t = (if m_recurring t then t\<lparr>m_next := now + m_ms t\<rparr> else t\<lparr>m_cb := None\<rparr>)"

lemma fired_sel [simp]:
  "m_recurring (fired now t) = m_recurring t" "m_ms (fired now t) = m_ms t"
  "m_recurring t \<Longrightarrow> m_cb (fired now t) = m_cb t"
  by (simp_all add: fired_def)

lemma expired_loop_correct:
  assumes "tm_inv m" and "distinct ts" and "set ts \<inter> set (m_timers m) = {}"
    and "\<forall>t\<in>set ts. m_cb (mem m t) \<noteq> None"
  shows "\<exists>m'. expired_loop now ts m = (map (\<lambda>t. m_cb (mem m t)) ts, m') \<and> tm_inv m' \<and>
    set (m_timers m') = set (m_timers m) \<union> {t \<in> set ts. m_recurring (mem m t)} \<and>
    mem m' = (\<lambda>t. if t \<in> set ts then fired now (mem m t) else mem m t) \<and>
    m_tickled m' = m_tickled m \<and> front_calls m' = front_calls m \<and> m_previousTime m' = m_previousTime m"
  using assms
proof (induction ts arbitrary: m)
  case (Cons t ts)
  let ?mem = "(mem m)(t := fired now (mem m t))"
  define m1 where "m1 = (if m_recurring (mem m t)
    then m\<lparr>mem := ?mem, m_timers := set_insert (before ?mem) t (m_timers m)\<rparr> else m\<lparr>mem := ?mem\<rparr>)"
  have step: "expired_loop now (t # ts) m = map_prod (Cons (m_cb (mem m t))) id (expired_loop now ts m1)"
    by (simp add: m1_def fired_def Let_def split: prod.split)
  have out: "tm_inv (m\<lparr>mem := ?mem\<rparr>)"
    using update_outside_inv [of m "m_timers m" t] Cons.prems by (simp add: tm_inv_def)
  have set1: "set (m_timers m1) = set (m_timers m) \<union> {u. u = t \<and> m_recurring (mem m t)}"
    by (auto simp: m1_def)
  have "tm_inv m1"
    using out Cons.prems(4) by (auto simp: m1_def tm_inv_def timers.sorted_insert)
  moreover have "set ts \<inter> set (m_timers m1) = {}" "\<forall>u\<in>set ts. m_cb (mem m1 u) \<noteq> None"
    using Cons.prems by (auto simp: set1) (auto simp: m1_def)
  ultimately obtain m' where m': "expired_loop now ts m1 = (map (\<lambda>u. m_cb (mem m1 u)) ts, m')" "tm_inv m'"
    "set (m_timers m') = set (m_timers m1) \<union> {u \<in> set ts. m_recurring (mem m1 u)}"
    "mem m' = (\<lambda>u. if u \<in> set ts then fired now (mem m1 u) else mem m1 u)"
    "m_tickled m' = m_tickled m1" "front_calls m' = front_calls m1" "m_previousTime m' = m_previousTime m1"
    using Cons.IH [of m1] Cons.prems(2) by auto
  have mem1: "mem m1 = ?mem"
    by (simp add: m1_def)
  have "map (\<lambda>u. m_cb (mem m1 u)) ts = map (\<lambda>u. m_cb (mem m u)) ts"
    using Cons.prems(2) by (auto simp: mem1)
  moreover have "set (m_timers m') = set (m_timers m) \<union> {u \<in> set (t # ts). m_recurring (mem m u)}"
    using Cons.prems(2) by (auto simp: m'(3) set1 mem1)
  moreover have "mem m' = (\<lambda>u. if u \<in> set (t # ts) then fired now (mem m u) else mem m u)"
    using Cons.prems(2) by (auto simp: m'(4) mem1)
  moreover have "m_tickled m1 = m_tickled m" "front_calls m1 = front_calls m" "m_previousTime m1 = m_previousTime m"
    by (simp_all add: m1_def)
  ultimately show ?case
    unfolding step using m' by (intro exI [of _ m']) simp
qed simp

lemma detectClockRollover_sel [simp]:
  "m_timers (snd (TimerManager_detectClockRollover now m)) = m_timers m"
  "mem (snd (TimerManager_detectClockRollover now m)) = mem m"
  "m_tickled (snd (TimerManager_detectClockRollover now m)) = m_tickled m"
  "front_calls (snd (TimerManager_detectClockRollover now m)) = front_calls m"
  "tm_inv (snd (TimerManager_detectClockRollover now m)) = tm_inv m"
  by (simp_all add: TimerManager_detectClockRollover_def tm_inv_def)

lemma sorted_hd_least:
  assumes "tm_inv m" and "t \<in> set (m_timers m)"
  shows "m_next (mem m (hd (m_timers m))) \<le> m_next (mem m t)"
  using assms sorted_next [of "mem m" "hd (m_timers m)" "tl (m_timers m)" t]
  by (cases "m_timers m") (auto simp: tm_inv_def)

lemma listExpiredCb_locked_correct:
  fixes now :: u64 and m :: timer_manager
  assumes inv: "tm_inv m" and tmp: "tmp \<notin> set (m_timers m)" and ne: "m_timers m \<noteq> []"
  defines "rollover \<equiv> fst (TimerManager_detectClockRollover now m)"
  shows "\<exists>m'. listExpiredCb_locked now tmp m =
      (Inr (map (\<lambda>t. m_cb (mem m t)) (expired_timers now rollover m)), m') \<and> tm_inv m' \<and>
    set (m_timers m') = set (kept_timers now rollover m) \<union>
      {t \<in> set (expired_timers now rollover m). m_recurring (mem m t)} \<and>
    mem m' = (\<lambda>t. if t \<in> set (expired_timers now rollover m) then fired now (mem m t) else mem m t) \<and>
    m_tickled m' = m_tickled m \<and> front_calls m' = front_calls m \<and> m_previousTime m' = now"
proof -
  define m1 where "m1 = snd (TimerManager_detectClockRollover now m)"
  have d: "TimerManager_detectClockRollover now m = (rollover, m1)"
    by (simp add: rollover_def m1_def)
  have sel: "m_timers m1 = m_timers m" "mem m1 = mem m" "m_tickled m1 = m_tickled m"
    "front_calls m1 = front_calls m" "m_previousTime m1 = now"
    by (simp_all add: m1_def TimerManager_detectClockRollover_def)
  have inv1: "tm_inv m1"
    using inv by (simp add: m1_def)
  show ?thesis
  proof (cases "\<not> rollover \<and> now < m_next (mem m (hd (m_timers m)))")
    case True
    then have "\<forall>t\<in>set (m_timers m). now < m_next (mem m t)"
      using sorted_hd_least [OF inv] by (auto intro: less_le_trans)
    then have "expired_timers now rollover m = []" "set (kept_timers now rollover m) = set (m_timers m)"
      using True by (auto simp: expired_timers_def kept_timers_def filter_empty_conv not_le)
    moreover have "listExpiredCb_locked now tmp m = (Inr [], m1)"
      using True ne by (simp add: listExpiredCb_locked_def d sel)
    ultimately show ?thesis
      using sel inv1 by (intro exI [of _ m1]) auto
  next
    case False
    let ?e = "expired_timers now rollover m" and ?k = "kept_timers now rollover m"
    have split: "expired_split now tmp rollover m1 = (?e, ?k)"
      using expired_split_correct [of m1 tmp now rollover] tmp inv1
      by (simp add: sel expired_timers_def kept_timers_def)
    have sorted: "sorted_wrt (before (mem m)) (m_timers m)"
      using inv by (simp add: tm_inv_def)
    have k: "sorted_wrt (before (mem m)) ?k"
      using sorted by (simp add: kept_timers_def sorted_wrt_filter)
    have "distinct ?e"
      using timers.sorted_distinct [OF sorted] by (simp add: expired_timers_def)
    moreover have "set ?e \<inter> set ?k = {}"
      by (auto simp: expired_timers_def kept_timers_def)
    moreover have "tm_inv (m1\<lparr>m_timers := ?k\<rparr>)"
      using inv k by (auto simp: tm_inv_def sel kept_timers_def)
    moreover have "\<forall>t\<in>set ?e. m_cb (mem m t) \<noteq> None"
      using inv by (auto simp: tm_inv_def expired_timers_def)
    moreover have "mem (m1\<lparr>m_timers := ?k\<rparr>) = mem m"
      by (simp add: sel)
    ultimately have "\<exists>m'. expired_loop now ?e (m1\<lparr>m_timers := ?k\<rparr>) = (map (\<lambda>t. m_cb (mem m t)) ?e, m') \<and>
        tm_inv m' \<and> set (m_timers m') = set ?k \<union> {t \<in> set ?e. m_recurring (mem m t)} \<and>
        mem m' = (\<lambda>t. if t \<in> set ?e then fired now (mem m t) else mem m t) \<and>
        m_tickled m' = m_tickled m \<and> front_calls m' = front_calls m \<and> m_previousTime m' = now"
      using expired_loop_correct [of "m1\<lparr>m_timers := ?k\<rparr>" ?e now] sel(3-5)
      by (auto cong: if_cong)
    then obtain m' where m': "expired_loop now ?e (m1\<lparr>m_timers := ?k\<rparr>) = (map (\<lambda>t. m_cb (mem m t)) ?e, m')"
      and rest: "tm_inv m' \<and> set (m_timers m') = set ?k \<union> {t \<in> set ?e. m_recurring (mem m t)} \<and>
        mem m' = (\<lambda>t. if t \<in> set ?e then fired now (mem m t) else mem m t) \<and>
        m_tickled m' = m_tickled m \<and> front_calls m' = front_calls m \<and> m_previousTime m' = now"
      by blast
    have "listExpiredCb_locked now tmp m = (Inr (map (\<lambda>t. m_cb (mem m t)) ?e), m')"
      using False ne by (auto simp: listExpiredCb_locked_def d sel split m')
    then show ?thesis
      using rest by blast
  qed
qed

section \<open>Clients and reachable states\<close>

text \<open>What clients do: add a timer (at an address not in use), and cancel, refresh or reset one.\<close>

inductive client_step :: "timer_manager \<Rightarrow> timer_manager \<Rightarrow> bool" where
  add: "addr \<notin> set (m_timers m) \<Longrightarrow> client_step m (snd (TimerManager_addTimer now addr ms (Some cb) recurring m))"
| add_condition: "addr \<notin> set (m_timers m) \<Longrightarrow>
    client_step m (snd (TimerManager_addConditionTimer now addr ms cb weak_cond recurring m))"
| cancel: "client_step m (snd (Timer_cancel t m))"
| refresh: "client_step m (snd (Timer_refresh now t m))"
| reset: "client_step m (snd (Timer_reset now t ms from_now m))"

text \<open>And the scheduler's loop: ask for the next deadline, and collect what has expired.\<close>

inductive tm_reachable :: "timer_manager \<Rightarrow> bool" where
  init: "tm_reachable (TimerManager garbage now)"
| client: "tm_reachable m \<Longrightarrow> client_step m m' \<Longrightarrow> tm_reachable m'"
| getNextTimer: "tm_reachable m \<Longrightarrow> tm_reachable (snd (TimerManager_getNextTimer now m))"
| listExpiredCb: "tm_reachable m \<Longrightarrow> tmp \<notin> set (m_timers m) \<Longrightarrow> m_timers m \<noteq> [] \<Longrightarrow>
    tm_reachable (snd (listExpiredCb_locked now tmp m))"

lemma client_step_inv: "client_step m m' \<Longrightarrow> tm_inv m \<Longrightarrow> tm_inv m'"
  by (induction rule: client_step.induct)
    (simp_all add: addTimer_inv TimerManager_addConditionTimer_def cancel_inv refresh_inv reset_inv)

lemma reachable_inv: "tm_reachable m \<Longrightarrow> tm_inv m"
proof (induction rule: tm_reachable.induct)
  case (listExpiredCb m tmp now)
  then show ?case
    using listExpiredCb_locked_correct [of m tmp now] by auto
qed (simp_all add: TimerManager_inv client_step_inv)

text \<open>
  The wake-up protocol. \<open>none_before D ts0 m\<close>: no timer is earlier than \<open>D\<close>, and none at all is
  there if there was none.
\<close>

definition none_before :: "u64 \<Rightarrow> bool \<Rightarrow> timer_manager \<Rightarrow> bool" where
  "none_before D some m \<longleftrightarrow> (\<forall>t\<in>set (m_timers m). some \<and> D \<le> m_next (mem m t))"

text \<open>
  A locked insertion either calls \<open>onTimerInsertedAtFront\<close> or leaves the earliest deadline where
  it was.
\<close>

lemma addTimer_locked_front:
  assumes "sorted_wrt (before (mem m)) (m_timers m)" and "\<not> m_tickled m" and "none_before D some m"
  shows "front_calls m < front_calls (TimerManager_addTimer_locked t m) \<or>
    front_calls (TimerManager_addTimer_locked t m) = front_calls m \<and>
    \<not> m_tickled (TimerManager_addTimer_locked t m) \<and> none_before D some (TimerManager_addTimer_locked t m)"
proof (cases "hd (set_insert (before (mem m)) t (m_timers m)) = t")
  case True
  then show ?thesis
    using assms(2) by (simp add: TimerManager_addTimer_locked_def Let_def)
next
  case False
  then obtain u where "u \<in> set (m_timers m)" "before (mem m) u t"
    using timers.hd_insert [OF assms(1)] by blast
  then have "some" "D \<le> m_next (mem m t)"
    using assms(3) by (auto simp: none_before_def before_iff)
  then show ?thesis
    using False assms(2,3) by (simp add: TimerManager_addTimer_locked_def Let_def none_before_def)
qed

definition quiet :: "timer_manager \<Rightarrow> u64 \<Rightarrow> bool \<Rightarrow> timer_manager \<Rightarrow> bool" where
  "quiet m D some m' \<longleftrightarrow> front_calls m < front_calls m' \<or>
    front_calls m' = front_calls m \<and> \<not> m_tickled m' \<and> none_before D some m'"

lemma addTimer_quiet:
  assumes "sorted_wrt (before (mem m1)) (m_timers m1)" and "\<not> m_tickled m1" and "none_before D some m1"
    and "front_calls m1 = front_calls m"
  shows "quiet m D some (TimerManager_addTimer_locked t m1)"
  using addTimer_locked_front [OF assms(1-3), of t] assms(4) by (simp add: quiet_def)

lemma rearm_quiet:
  assumes "tm_inv m" and "\<not> m_tickled m" and "none_before D some m"
  shows "quiet m D some (TimerManager_addTimer_locked t
    (m\<lparr>m_timers := set_erase (before (mem m)) t (m_timers m), mem := (mem m)(t := tm)\<rparr>))"
proof (rule addTimer_quiet)
  have s: "sorted_wrt (before (mem m)) (m_timers m)"
    using assms(1) by (simp add: tm_inv_def)
  note e = timers.set_set_erase [OF s, of t]
  let ?m1 = "m\<lparr>m_timers := set_erase (before (mem m)) t (m_timers m), mem := (mem m)(t := tm)\<rparr>"
  show "sorted_wrt (before (mem ?m1)) (m_timers ?m1)"
    using sorted_mem_cong [OF timers.sorted_erase [OF s, of t], of "(mem m)(t := tm)"] e by auto
  show "none_before D some ?m1"
    using assms(3) e by (auto simp: none_before_def)
qed (use assms in simp_all)

lemma client_step_quiet:
  assumes "client_step m m'" and "tm_inv m" and "\<not> m_tickled m" and "none_before D some m"
  shows "quiet m D some m'"
  using assms
proof (induction rule: client_step.induct)
  case (add addr m now ms cb recurring)
  have "sorted_wrt (before ((mem m)(addr := tm))) (m_timers m)" for tm
    using add.hyps add.prems(1) by (simp add: sorted_update)
  then show ?case
    using add by (auto simp: TimerManager_addTimer_def none_before_def intro!: addTimer_quiet)
next
  case (add_condition addr m now ms cb weak_cond recurring)
  have "sorted_wrt (before ((mem m)(addr := tm))) (m_timers m)" for tm
    using add_condition.hyps add_condition.prems(1) by (simp add: sorted_update)
  then show ?case
    using add_condition
    by (auto simp: TimerManager_addConditionTimer_def TimerManager_addTimer_def none_before_def intro!: addTimer_quiet)
next
  case (cancel m t)
  have "sorted_wrt (before ((mem m)(t := (mem m t)\<lparr>m_cb := None\<rparr>))) (m_timers m)"
    using cancel.prems(1) by (simp add: sorted_update)
  note timers.set_set_erase [OF this, of t]
  then show ?case
    using cancel by (auto simp: Timer_cancel_def Let_def quiet_def none_before_def)
next
  case (refresh m now t)
  then show ?case
    using rearm_quiet [of m D "some" t] by (auto simp: Timer_refresh_def Let_def quiet_def)
next
  case (reset m now t ms from_now)
  then show ?case
    using rearm_quiet [of m D "some" t] by (auto simp: Timer_reset_def Let_def quiet_def)
qed

lemma client_steps_quiet:
  "client_step\<^sup>*\<^sup>* m m' \<Longrightarrow> tm_inv m \<Longrightarrow> quiet m D some m \<Longrightarrow> tm_inv m' \<and> quiet m D some m'"
proof (induction rule: rtranclp_induct)
  case (step m1 m2)
  then have 1: "tm_inv m1" "quiet m D some m1"
    by simp_all
  have mono: "front_calls m1 \<le> front_calls m2"
    using step.hyps(2)
    by (induction rule: client_step.induct)
      (auto simp: TimerManager_addTimer_def TimerManager_addConditionTimer_def Timer_cancel_def Timer_refresh_def
        Timer_reset_def TimerManager_addTimer_locked_def Let_def)
  show ?case
  proof (cases "front_calls m < front_calls m1")
    case True
    then show ?thesis
      using mono 1 client_step_inv [OF step.hyps(2)] by (simp add: quiet_def)
  next
    case False
    then have "front_calls m1 = front_calls m" "\<not> m_tickled m1" "none_before D some m1"
      using 1(2) by (simp_all add: quiet_def)
    then show ?thesis
      using client_step_quiet [OF step.hyps(2) 1(1)] client_step_inv [OF step.hyps(2) 1(1)]
      by (simp add: quiet_def)
  qed
qed simp

section \<open>A concrete manager\<close>

text \<open>One timer of 5 milliseconds, added at time 10 at address 2.\<close>

definition example_timers :: "bool \<Rightarrow> timer_manager" where
  "example_timers recurring = snd (TimerManager_addTimer 10 2 5 (Some (Function 3)) recurring
    (TimerManager (\<lambda>_. Timer_at 0) 10))"

lemma example_reachable: "tm_reachable (example_timers recurring)"
  unfolding example_timers_def
  by (rule tm_reachable.client [OF tm_reachable.init], rule client_step.add) (simp add: TimerManager_def)

lemma example_sel [simp]:
  "m_timers (example_timers recurring) = [2]"
  "mem (example_timers recurring) 2 = Timer 10 5 (Some (Function 3)) recurring"
  "m_previousTime (example_timers recurring) = 10"
  "front_calls (example_timers recurring) = 1"
  by (simp_all add: example_timers_def TimerManager_addTimer_def TimerManager_addTimer_locked_def TimerManager_def)

text \<open>Everything a collection does, in a reachable state.\<close>

lemma listExpiredCb_collected:
  assumes "tm_reachable m" and "tmp \<notin> set (m_timers m)" and "m_timers m \<noteq> []"
  shows "let rollover = fst (TimerManager_detectClockRollover now m) in
    \<exists>cbs m'. TimerManager_listExpiredCb now tmp m = (Inr (map Some cbs), m') \<and>
    map Some cbs = map (\<lambda>t. m_cb (mem m t)) (expired_timers now rollover m) \<and> tm_reachable m' \<and>
    (\<forall>t. t \<in> set (m_timers m') \<longleftrightarrow> t \<in> set (m_timers m) \<and>
      (\<not> rollover \<and> now < m_next (mem m t) \<or> m_recurring (mem m t))) \<and>
    mem m' = (\<lambda>t. if t \<in> set (expired_timers now rollover m) then fired now (mem m t) else mem m t)"
proof -
  define rollover where "rollover = fst (TimerManager_detectClockRollover now m)"
  have inv: "tm_inv m"
    by (rule reachable_inv [OF assms(1)])
  let ?e = "expired_timers now rollover m"
  obtain m' where m': "listExpiredCb_locked now tmp m = (Inr (map (\<lambda>t. m_cb (mem m t)) ?e), m')"
    "set (m_timers m') = set (kept_timers now rollover m) \<union> {t \<in> set ?e. m_recurring (mem m t)}"
    "mem m' = (\<lambda>t. if t \<in> set ?e then fired now (mem m t) else mem m t)"
    using listExpiredCb_locked_correct [OF inv assms(2,3), of now] unfolding rollover_def by blast
  have "tm_reachable m'"
    using tm_reachable.listExpiredCb [OF assms(1-3), of now] m'(1) by simp
  moreover have "map (\<lambda>t. m_cb (mem m t)) ?e = map Some (map (\<lambda>t. the (m_cb (mem m t))) ?e)"
    using inv by (auto simp: tm_inv_def expired_timers_def)
  moreover have "t \<in> set (m_timers m') \<longleftrightarrow> t \<in> set (m_timers m) \<and>
      (\<not> rollover \<and> now < m_next (mem m t) \<or> m_recurring (mem m t))" for t
    unfolding m'(2) by (auto simp: kept_timers_def expired_timers_def)
  ultimately show ?thesis
    using m' assms(3) unfolding Let_def rollover_def [symmetric]
    by (intro exI [of _ "map (\<lambda>t. the (m_cb (mem m t))) ?e"] exI [of _ m'])
      (simp add: TimerManager_listExpiredCb_def listExpiredCb_empty_def)
qed

section \<open>Properties\<close>

text \<open>C5: in every state that clients and the scheduler's loop can reach, the set of timers is in
  the comparator's order and every timer in it has a callback; so each timer can be found and
  erased through the search tree, and collecting what has expired returns a real callback for
  each expired timer, in the order of the deadlines, keeping exactly the others and the recurring
  ones, re-armed one period from now.\<close>

theorem listExpiredCb_collects:
  assumes "tm_reachable m" and "tmp \<notin> set (m_timers m)" and "m_timers m \<noteq> []"
  shows "let rollover = fst (TimerManager_detectClockRollover now m) in
    \<exists>cbs m'. TimerManager_listExpiredCb now tmp m = (Inr (map Some cbs), m') \<and>
    map Some cbs = map (\<lambda>t. m_cb (mem m t)) (expired_timers now rollover m) \<and> tm_reachable m' \<and>
    (\<forall>t. t \<in> set (m_timers m') \<longleftrightarrow> t \<in> set (m_timers m) \<and>
      (\<not> rollover \<and> now < m_next (mem m t) \<or> m_recurring (mem m t))) \<and>
    (\<forall>t\<in>set (expired_timers now rollover m). mem m' t = fired now (mem m t))"
  using listExpiredCb_collected [OF assms, of now] unfolding Let_def by fastforce

lemma listExpiredCb_collects_witness:
  "\<exists>m'. TimerManager_listExpiredCb 20 0 (example_timers True) = (Inr [Some (Function 3)], m') \<and>
    m_next (mem m' 2) = 25"
  using listExpiredCb_collects [OF example_reachable, of 0 True 20]
  by (auto simp: expired_timers_def TimerManager_detectClockRollover_def Timer_def fired_def)

text \<open>C6: no wake-up is lost. After a scheduler thread has asked for the earliest deadline (which
  clears \<open>m_tickled\<close>), clients may add, cancel, refresh and reset timers in any order: as long as
  none of these calls has called \<open>onTimerInsertedAtFront\<close>, no timer is due before that deadline,
  and there is no timer at all if there was none.\<close>

theorem TimerManager_no_lost_wakeup:
  assumes "tm_reachable m" and "client_step\<^sup>*\<^sup>* (snd (TimerManager_getNextTimer now m)) m'"
    and "front_calls m' = front_calls m" and "t \<in> set (m_timers m')"
  shows "m_timers m \<noteq> [] \<and> m_next (mem m (hd (m_timers m))) \<le> m_next (mem m' t)"
proof -
  let ?m = "snd (TimerManager_getNextTimer now m)" and ?D = "m_next (mem m (hd (m_timers m)))"
  have inv: "tm_inv m"
    by (rule reachable_inv [OF assms(1)])
  have "quiet ?m ?D (m_timers m \<noteq> []) ?m"
    using sorted_hd_least [OF inv]
    by (auto simp: quiet_def none_before_def TimerManager_getNextTimer_def Let_def)
  from client_steps_quiet [OF assms(2) _ this] have "quiet ?m ?D (m_timers m \<noteq> []) m'"
    using inv by simp
  moreover have "front_calls ?m = front_calls m"
    by (simp add: TimerManager_getNextTimer_def Let_def)
  ultimately show ?thesis
    using assms(3,4) by (auto simp: quiet_def none_before_def)
qed

lemma TimerManager_no_lost_wakeup_witness:
  "m_next (mem (example_timers True) (hd (m_timers (example_timers True))))
    \<le> m_next (mem (snd (TimerManager_getNextTimer 12 (example_timers True))) 2)"
  using TimerManager_no_lost_wakeup [OF example_reachable rtranclp.rtrancl_refl, of 12 True 2]
  by (simp add: TimerManager_getNextTimer_def Let_def)

text \<open>The wait that \<open>getNextTimer\<close> answers is exact: it is 0 just when collecting at that moment
  would find something; otherwise nothing expires before that many milliseconds have passed, and
  something does then (as long as the clock is not seen to go back by an hour).\<close>

theorem TimerManager_getNextTimer_exact:
  assumes "tm_reachable m" and "m_timers m \<noteq> []"
    and "wait = fst (TimerManager_getNextTimer now m)"
  shows "(wait = 0 \<longleftrightarrow> expired_timers now False m \<noteq> []) \<and>
    (wait \<noteq> 0 \<longrightarrow> expired_timers (now + wait) False m \<noteq> []) \<and>
    (wait \<noteq> 0 \<longrightarrow> (\<forall>later. now \<le> later \<and> later < now + wait \<longrightarrow> expired_timers later False m = []))"
proof -
  obtain t ts where ts: "m_timers m = t # ts"
    using assms(2) by (cases "m_timers m") auto
  have least: "\<forall>u\<in>set (m_timers m). m_next (mem m t) \<le> m_next (mem m u)"
    using sorted_hd_least [OF reachable_inv [OF assms(1)]] by (simp add: ts)
  have some: "expired_timers later False m = [] \<longleftrightarrow> later < m_next (mem m t)" for later
    using least by (force simp: expired_timers_def filter_empty_conv ts not_le)
  have "wait = (if m_next (mem m t) \<le> now then 0 else m_next (mem m t) - now)"
    by (simp add: assms(3) TimerManager_getNextTimer_def Let_def ts)
  then show ?thesis
    unfolding some by auto
qed

lemma TimerManager_getNextTimer_exact_witness:
  "fst (TimerManager_getNextTimer 12 (example_timers True)) = 3 \<and>
    expired_timers 14 False (example_timers True) = [] \<and> expired_timers 15 False (example_timers True) \<noteq> []"
proof -
  have "3 = fst (TimerManager_getNextTimer 12 (example_timers True))"
    by (simp add: TimerManager_getNextTimer_def Timer_def Let_def)
  with TimerManager_getNextTimer_exact [OF example_reachable _ this] show ?thesis
    by simp
qed

text \<open>\<open>listExpiredCb\<close> is not safe with two threads: it looks at the set under a read lock, lets
  the lock go, and takes \<open>begin()\<close> of the set under a write lock. If another thread collects in
  between and only one-shot timers were there, all of them due, the set is empty by then and
  \<open>begin()\<close> is dereferenced.\<close>

theorem listExpiredCb_race:
  assumes "tm_reachable m" and "m_timers m \<noteq> []" and "tmp \<notin> set (m_timers m)"
    and "\<forall>t\<in>set (m_timers m). \<not> m_recurring (mem m t) \<and> m_next (mem m t) \<le> now"
    and "m_previousTime m \<le> now" and "now \<le> now'"
  shows "\<not> listExpiredCb_empty m \<and>
    (\<exists>m'. TimerManager_listExpiredCb now tmp m = (Inr (map (\<lambda>t. m_cb (mem m t)) (m_timers m)), m') \<and>
      fst (listExpiredCb_locked now' tmp m') = Inl Null_Deref)"
proof -
  have roll: "fst (TimerManager_detectClockRollover now m) = False"
    using assms(5) by (simp add: TimerManager_detectClockRollover_def not_less)
  have e: "expired_timers now False m = m_timers m"
    using assms(4) by (simp add: expired_timers_def)
  have k: "kept_timers now False m = []"
    using assms(4) by (simp add: kept_timers_def filter_empty_conv not_less)
  have r: "{t \<in> set (m_timers m). m_recurring (mem m t)} = {}"
    using assms(4) by auto
  obtain m' where m': "listExpiredCb_locked now tmp m = (Inr (map (\<lambda>t. m_cb (mem m t)) (m_timers m)), m')"
    and "set (m_timers m') = {}" "m_previousTime m' = now"
    using listExpiredCb_locked_correct [OF reachable_inv [OF assms(1)] assms(3,2), of now, unfolded roll e k r]
    by auto
  then have "fst (listExpiredCb_locked now' tmp m') = Inl Null_Deref"
    using assms(6)
    by (simp add: listExpiredCb_locked_def TimerManager_detectClockRollover_def not_less)
  then show ?thesis
    using m' assms(2) by (simp add: TimerManager_listExpiredCb_def listExpiredCb_empty_def)
qed

lemma listExpiredCb_race_witness:
  "\<exists>m'. TimerManager_listExpiredCb 20 0 (example_timers False) = (Inr [Some (Function 3)], m') \<and>
    fst (listExpiredCb_locked 20 0 m') = Inl Null_Deref"
  using listExpiredCb_race [OF example_reachable, of False 0 20 20] by (simp add: Timer_def)

end
