(* ===== verification/Fiber.thy ===== *)
theory Fiber
  imports Sylar_Prelude
begin

text \<open>
  \<open>sylar/fiber.{h,cpp}\<close>: coroutines over \<open>ucontext\<close>. Fibers live in a store indexed by address,
  because threads share them; the thread-local variables are functions of the thread. What a
  context holds is kept as far as it matters: whether switching to it resumes the fiber where it
  left off. Whose code a thread executes (\<open>running\<close>) changes only at \<open>swapcontext\<close>, while
  \<open>t_fiber\<close> is a variable that the code sets just before.
\<close>

section \<open>State\<close>

datatype fiber_state = INIT | HOLD | EXEC | TERM' | READY | EXCEPT

text \<open>
  \<open>Entry use_caller\<close> is what \<open>makecontext\<close> leaves (the start of \<open>CallerMainFunc\<close> or \<open>MainFunc\<close>),
  \<open>Saved\<close> what \<open>swapcontext\<close> leaves in the context it saves to; a context that is being executed
  is \<open>Live\<close>, and a switch to it would resume at a stale point.
\<close>

datatype ucontext = Entry bool | Saved | Live

text \<open>A callback is named by a number; \<open>fiber_cb\<close> is the member \<open>m_cb\<close>.\<close>

record fiber =
  m_id :: nat
  m_stacksize :: nat
  m_state :: fiber_state
  m_ctx :: ucontext
  m_stack :: bool
  fiber_cb :: "nat option"
  m_use_caller :: bool

record fiber_system =
  fibers :: "nat \<Rightarrow> fiber option"
  t_fiber :: "nat \<Rightarrow> nat option"
  t_threadFiber :: "nat \<Rightarrow> nat option"
  t_scheduler_fiber :: "nat \<Rightarrow> nat option"
  running :: "nat \<Rightarrow> nat option"
  s_fiber_id :: nat
  s_fiber_count :: nat

type_synonym 'a fiber_method = "(fiber_system, 'a) action"

abbreviation set_fiber :: "nat \<Rightarrow> fiber \<Rightarrow> fiber_system \<Rightarrow> fiber_system" where
  "set_fiber f fb fs \<equiv> fs\<lparr>fibers := (fibers fs)(f \<mapsto> fb)\<rparr>"

definition SYLAR_ASSERT :: "bool \<Rightarrow> string \<Rightarrow> ('s, unit) action" where
  "SYLAR_ASSERT b what s = (if b then (Inr (), s) else (Inl (Assertion what), s))"

text \<open>Reading a fiber through a pointer.\<close>

definition the_fiber :: "nat option \<Rightarrow> (nat \<times> fiber) fiber_method" where
  "the_fiber p fs =
    (case p of
       None \<Rightarrow> (Inl Null_Deref, fs)
     | Some f \<Rightarrow> (case fibers fs f of None \<Rightarrow> (Inl Null_Deref, fs) | Some fb \<Rightarrow> (Inr (f, fb), fs)))"

section \<open>Switching\<close>

definition Fiber_SetThis :: "nat \<Rightarrow> nat option \<Rightarrow> fiber_system \<Rightarrow> fiber_system" where
  "Fiber_SetThis t f fs = fs\<lparr>t_fiber := (t_fiber fs)(t := f)\<rparr>"

text \<open>
  \<open>swapcontext(&from->m_ctx, &to->m_ctx)\<close> on thread \<open>t\<close>. It has to be called by the code of \<open>from\<close>
  (otherwise another fiber's registers end up in \<open>from\<close>), and \<open>to\<close> must be resumable.
\<close>

definition swapcontext :: "nat \<Rightarrow> nat option \<Rightarrow> nat option \<Rightarrow> unit fiber_method" where
  "swapcontext t from to =
    seq (the_fiber from) (\<lambda>(f, fb). seq (the_fiber to) (\<lambda>(g, gb) fs.
      if running fs t \<noteq> Some f \<or> f = g \<or> m_ctx gb = Live then (Inl Stale_Context, fs)
      else (Inr (), fs\<lparr>fibers := (fibers fs)(f \<mapsto> fb\<lparr>m_ctx := Saved\<rparr>, g \<mapsto> gb\<lparr>m_ctx := Live\<rparr>),
                       running := (running fs)(t \<mapsto> g)\<rparr>)))"

definition set_state :: "nat \<Rightarrow> fiber_state \<Rightarrow> fiber_system \<Rightarrow> fiber_system" where
  "set_state f st fs =
    (case fibers fs f of None \<Rightarrow> fs | Some fb \<Rightarrow> set_fiber f (fb\<lparr>m_state := st\<rparr>) fs)"

definition Fiber_call :: "nat \<Rightarrow> nat \<Rightarrow> unit fiber_method" where
  "Fiber_call t this fs =
    (let fs1 = set_state this EXEC (Fiber_SetThis t (Some this) fs)
     in swapcontext t (t_threadFiber fs1 t) (Some this) fs1)"

definition Fiber_back :: "nat \<Rightarrow> nat \<Rightarrow> unit fiber_method" where
  "Fiber_back t this fs =
    (let fs1 = Fiber_SetThis t (t_threadFiber fs t) fs
     in swapcontext t (Some this) (t_threadFiber fs1 t) fs1)"

definition Fiber_swapIn :: "nat \<Rightarrow> nat \<Rightarrow> unit fiber_method" where
  "Fiber_swapIn t this fs =
    seq (the_fiber (Some this)) (\<lambda>(_, fb).
    seq (SYLAR_ASSERT (m_state fb \<noteq> EXEC) ''m_state != EXEC'') (\<lambda>_ fs.
      let fs1 = set_state this EXEC fs
      in swapcontext t (t_scheduler_fiber fs1 t) (Some this) fs1))
    (Fiber_SetThis t (Some this) fs)"

definition Fiber_swapOut :: "nat \<Rightarrow> nat \<Rightarrow> unit fiber_method" where
  "Fiber_swapOut t this fs =
    (let fs1 = Fiber_SetThis t (t_scheduler_fiber fs t) fs
     in swapcontext t (Some this) (t_scheduler_fiber fs1 t) fs1)"

section \<open>Creation, reuse and destruction\<close>

definition Fiber_main :: "nat \<Rightarrow> nat \<Rightarrow> fiber_system \<Rightarrow> fiber_system" where
  "Fiber_main t addr fs =
    (let fb = \<lparr>m_id = 0, m_stacksize = 0, m_state = EXEC, m_ctx = Live, m_stack = False,
               fiber_cb = None, m_use_caller = False\<rparr>
     in Fiber_SetThis t (Some addr) (set_fiber addr fb fs)
          \<lparr>s_fiber_count := s_fiber_count fs + 1, running := (running fs)(t \<mapsto> addr)\<rparr>)"

text \<open>\<open>default_stack\<close> is the value of the configuration variable \<open>fiber.stack_size\<close>.\<close>

definition Fiber_new :: "nat \<Rightarrow> nat \<Rightarrow> nat option \<Rightarrow> nat \<Rightarrow> bool \<Rightarrow> fiber_system \<Rightarrow> fiber_system" where
  "Fiber_new default_stack addr cb stacksize use_caller fs =
    (let fb = \<lparr>m_id = s_fiber_id fs + 1,
               m_stacksize = (if stacksize \<noteq> 0 then stacksize else default_stack),
               m_state = INIT, m_ctx = Entry use_caller, m_stack = True,
               fiber_cb = cb, m_use_caller = use_caller\<rparr>
     in (set_fiber addr fb fs)
          \<lparr>s_fiber_id := s_fiber_id fs + 1, s_fiber_count := s_fiber_count fs + 1\<rparr>)"

definition Fiber_destroy :: "nat \<Rightarrow> nat \<Rightarrow> unit fiber_method" where
  "Fiber_destroy t this fs =
    seq (the_fiber (Some this)) (\<lambda>(_, fb).
      if m_stack fb
      then seq (SYLAR_ASSERT (m_state fb = TERM' \<or> m_state fb = EXCEPT \<or> m_state fb = INIT) ''state'')
             (\<lambda>_ fs. (Inr (), fs\<lparr>fibers := (fibers fs)(this := None)\<rparr>))
      else seq (SYLAR_ASSERT (fiber_cb fb = None) ''!m_cb'') (\<lambda>_.
           seq (SYLAR_ASSERT (m_state fb = EXEC) ''m_state == EXEC'') (\<lambda>_ fs.
             let fs1 = (if t_fiber fs t = Some this then Fiber_SetThis t None fs else fs)
             in (Inr (), fs1\<lparr>fibers := (fibers fs1)(this := None)\<rparr>))))
    (fs\<lparr>s_fiber_count := s_fiber_count fs - 1\<rparr>)"

definition Fiber_reset :: "nat \<Rightarrow> nat option \<Rightarrow> bool \<Rightarrow> unit fiber_method" where
  "Fiber_reset this cb use_caller =
    seq (the_fiber (Some this)) (\<lambda>(_, fb).
    seq (SYLAR_ASSERT (m_stack fb) ''m_stack'') (\<lambda>_.
    seq (SYLAR_ASSERT (m_state fb = TERM' \<or> m_state fb = EXCEPT \<or> m_state fb = INIT) ''state'') (\<lambda>_ fs.
      (Inr (), set_fiber this
        (fb\<lparr>fiber_cb := cb, m_use_caller := use_caller, m_ctx := Entry use_caller, m_state := INIT\<rparr>) fs))))"

definition Fiber_GetThis :: "nat \<Rightarrow> nat \<Rightarrow> nat fiber_method" where
  "Fiber_GetThis t addr fs =
    (case t_fiber fs t of
       Some f \<Rightarrow> (Inr f, fs)
     | None \<Rightarrow>
         let fs1 = Fiber_main t addr fs
         in (Inr addr, fs1\<lparr>t_threadFiber := (t_threadFiber fs1)(t \<mapsto> addr)\<rparr>))"

definition Fiber_GetFiberId :: "nat \<Rightarrow> fiber_system \<Rightarrow> nat" where
  "Fiber_GetFiberId t fs =
    (case t_fiber fs t of
       None \<Rightarrow> 0
     | Some f \<Rightarrow> (case fibers fs f of None \<Rightarrow> 0 | Some fb \<Rightarrow> m_id fb))"

section \<open>Yielding and finishing\<close>

text \<open>
  Both yields change the state first and switch afterwards; other threads can act in between, so
  the two halves are definitions of their own.
\<close>

definition yield_mark :: "fiber_state \<Rightarrow> nat \<Rightarrow> nat \<Rightarrow> nat fiber_method" where
  "yield_mark st t addr =
    seq (Fiber_GetThis t addr) (\<lambda>cur.
    seq (the_fiber (Some cur)) (\<lambda>(_, fb).
    seq (SYLAR_ASSERT (m_state fb = EXEC) ''cur->m_state == EXEC'') (\<lambda>_ fs.
      (Inr cur, set_state cur st fs))))"

definition yield_switch :: "nat \<Rightarrow> nat \<Rightarrow> unit fiber_method" where
  "yield_switch t cur =
    seq (the_fiber (Some cur)) (\<lambda>(_, fb).
      if \<not> m_use_caller fb then Fiber_swapOut t cur else Fiber_back t cur)"

definition Fiber_YieldToReady :: "nat \<Rightarrow> nat \<Rightarrow> unit fiber_method" where
  "Fiber_YieldToReady t addr = seq (yield_mark READY t addr) (yield_switch t)"

definition Fiber_YieldToHold :: "nat \<Rightarrow> nat \<Rightarrow> unit fiber_method" where
  "Fiber_YieldToHold t addr = seq (yield_mark HOLD t addr) (yield_switch t)"

text \<open>
  The rest of \<open>MainFunc\<close> once the callback has returned or thrown; \<open>CallerMainFunc\<close> differs in
  the last switch.
\<close>

definition MainFunc_outcome :: "bool \<Rightarrow> fiber \<Rightarrow> fiber" where
  "MainFunc_outcome threw fb =
    (if threw then fb\<lparr>m_state := EXCEPT\<rparr> else fb\<lparr>fiber_cb := None, m_state := TERM'\<rparr>)"

definition Fiber_MainFunc :: "bool \<Rightarrow> nat \<Rightarrow> nat \<Rightarrow> unit fiber_method" where
  "Fiber_MainFunc threw t addr =
    seq (Fiber_GetThis t addr) (\<lambda>cur.
    seq (the_fiber (Some cur)) (\<lambda>(_, fb).
    seq (\<lambda>fs. (Inr (), set_fiber cur (MainFunc_outcome threw fb) fs)) (\<lambda>_. Fiber_swapOut t cur)))"

definition Fiber_CallerMainFunc :: "bool \<Rightarrow> nat \<Rightarrow> nat \<Rightarrow> unit fiber_method" where
  "Fiber_CallerMainFunc threw t addr =
    seq (Fiber_GetThis t addr) (\<lambda>cur.
    seq (the_fiber (Some cur)) (\<lambda>(_, fb).
    seq (\<lambda>fs. (Inr (), set_fiber cur (MainFunc_outcome threw fb) fs)) (\<lambda>_. Fiber_back t cur)))"

section \<open>What a worker thread relies on\<close>

text \<open>
  Every executed context belongs to the fiber that its thread has in \<open>t_fiber\<close>, which is in state
  \<open>EXEC\<close>, and no two threads execute the same fiber.
\<close>

definition fs_inv :: "fiber_system \<Rightarrow> bool" where
  "fs_inv fs \<longleftrightarrow> t_fiber fs = running fs \<and>
    (\<forall>t f. running fs t = Some f \<longrightarrow> (\<exists>fb. fibers fs f = Some fb \<and> m_ctx fb = Live \<and> m_state fb = EXEC)) \<and>
    (\<forall>t t' f. running fs t = Some f \<and> running fs t' = Some f \<longrightarrow> t = t') \<and>
    (\<forall>f fb. fibers fs f = Some fb \<and> m_ctx fb = Live \<longrightarrow> (\<exists>t. running fs t = Some f))"

lemma the_fiber_Some [method_simps]: "fibers fs f = Some fb \<Longrightarrow> the_fiber (Some f) fs = (Inr (f, fb), fs)"
  by (simp add: the_fiber_def)

lemma SYLAR_ASSERT_True [method_simps]: "b \<Longrightarrow> SYLAR_ASSERT b what s = (Inr (), s)"
  by (simp add: SYLAR_ASSERT_def)

lemma SYLAR_ASSERT_False [method_simps]: "\<not> b \<Longrightarrow> SYLAR_ASSERT b what s = (Inl (Assertion what), s)"
  by (simp add: SYLAR_ASSERT_def)

lemma swapcontext_ok:
  assumes "running fs t = Some f" and "fibers fs f = Some fb" and "fibers fs g = Some gb"
    and "f \<noteq> g" and "m_ctx gb \<noteq> Live"
  shows "swapcontext t (Some f) (Some g) fs =
    (Inr (), fs\<lparr>fibers := (fibers fs)(f \<mapsto> fb\<lparr>m_ctx := Saved\<rparr>, g \<mapsto> gb\<lparr>m_ctx := Live\<rparr>),
                running := (running fs)(t \<mapsto> g)\<rparr>)"
  using assms by (simp add: swapcontext_def method_simps)

text \<open>The worker \<open>t\<close> is in its scheduling fiber \<open>m\<close>, about to run the fiber \<open>f\<close>.\<close>

definition switched_in :: "nat \<Rightarrow> nat \<Rightarrow> fiber \<Rightarrow> nat \<Rightarrow> fiber \<Rightarrow> fiber_system \<Rightarrow> fiber_system" where
  "switched_in t m mb f fb fs =
    fs\<lparr>t_fiber := (t_fiber fs)(t \<mapsto> f), running := (running fs)(t \<mapsto> f),
       fibers := (fibers fs)(m \<mapsto> mb\<lparr>m_ctx := Saved\<rparr>, f \<mapsto> fb\<lparr>m_state := EXEC, m_ctx := Live\<rparr>)\<rparr>"

lemma swapIn_ok:
  assumes "t_scheduler_fiber fs t = Some m" and "running fs t = Some m"
    and "fibers fs m = Some mb" and "fibers fs f = Some fb"
    and "f \<noteq> m" and "m_state fb \<noteq> EXEC" and "m_ctx fb \<noteq> Live"
  shows "Fiber_swapIn t f fs = (Inr (), switched_in t m mb f fb fs)"
proof -
  let ?fs1 = "Fiber_SetThis t (Some f) fs" and ?fs2 = "set_state f EXEC (Fiber_SetThis t (Some f) fs)"
  have "swapcontext t (Some m) (Some f) ?fs2 = (Inr (), switched_in t m mb f fb fs)"
    using assms
    by (subst swapcontext_ok [of _ _ m mb f "fb\<lparr>m_state := EXEC\<rparr>"])
      (auto simp: set_state_def Fiber_SetThis_def switched_in_def fun_upd_twist)
  moreover have "t_scheduler_fiber ?fs2 t = Some m" "fibers ?fs1 f = Some fb"
    using assms by (simp_all add: set_state_def Fiber_SetThis_def)
  ultimately show ?thesis
    using assms by (simp add: Fiber_swapIn_def method_simps Let_def)
qed

text \<open>And back: the fiber \<open>f\<close> leaves the thread to its scheduling fiber.\<close>

definition switched_out :: "nat \<Rightarrow> nat \<Rightarrow> fiber \<Rightarrow> nat \<Rightarrow> fiber \<Rightarrow> fiber_system \<Rightarrow> fiber_system" where
  "switched_out t m mb f fb fs =
    fs\<lparr>t_fiber := (t_fiber fs)(t \<mapsto> m), running := (running fs)(t \<mapsto> m),
       fibers := (fibers fs)(f \<mapsto> fb\<lparr>m_ctx := Saved\<rparr>, m \<mapsto> mb\<lparr>m_ctx := Live\<rparr>)\<rparr>"

lemma swapOut_ok:
  assumes "t_scheduler_fiber fs t = Some m" and "running fs t = Some f"
    and "fibers fs m = Some mb" and "fibers fs f = Some fb" and "f \<noteq> m" and "m_ctx mb \<noteq> Live"
  shows "Fiber_swapOut t f fs = (Inr (), switched_out t m mb f fb fs)"
proof -
  let ?fs1 = "Fiber_SetThis t (Some m) fs"
  have "swapcontext t (Some f) (Some m) ?fs1 = (Inr (), switched_out t m mb f fb fs)"
    using assms
    by (subst swapcontext_ok [of _ _ f fb m mb]) (auto simp: Fiber_SetThis_def switched_out_def)
  moreover have "t_scheduler_fiber ?fs1 t = Some m"
    using assms by (simp add: Fiber_SetThis_def)
  ultimately show ?thesis
    using assms by (simp add: Fiber_swapOut_def Let_def)
qed

text \<open>The four ways in which a fiber gives its thread back, and the fiber each leaves behind.\<close>

datatype leaving = To_Ready | To_Hold | Returned | Threw

fun leave :: "leaving \<Rightarrow> nat \<Rightarrow> nat \<Rightarrow> unit fiber_method" where
  "leave To_Ready t addr = Fiber_YieldToReady t addr"
| "leave To_Hold t addr = Fiber_YieldToHold t addr"
| "leave Returned t addr = Fiber_MainFunc False t addr"
| "leave Threw t addr = Fiber_MainFunc True t addr"

fun left_behind :: "leaving \<Rightarrow> fiber \<Rightarrow> fiber" where
  "left_behind To_Ready fb = fb\<lparr>m_state := READY, m_ctx := Saved\<rparr>"
| "left_behind To_Hold fb = fb\<lparr>m_state := HOLD, m_ctx := Saved\<rparr>"
| "left_behind Returned fb = fb\<lparr>fiber_cb := None, m_state := TERM', m_ctx := Saved\<rparr>"
| "left_behind Threw fb = fb\<lparr>m_state := EXCEPT, m_ctx := Saved\<rparr>"

lemma leave_ok:
  assumes "t_fiber fs t = Some f" and "t_scheduler_fiber fs t = Some m" and "running fs t = Some f"
    and "fibers fs m = Some mb" and "fibers fs f = Some fb" and "f \<noteq> m" and "m_ctx mb \<noteq> Live"
    and "m_state fb = EXEC" and "\<not> m_use_caller fb"
  shows "leave l t addr fs = (Inr (), fs\<lparr>t_fiber := (t_fiber fs)(t \<mapsto> m), running := (running fs)(t \<mapsto> m),
    fibers := (fibers fs)(f \<mapsto> left_behind l fb, m \<mapsto> mb\<lparr>m_ctx := Live\<rparr>)\<rparr>)"
proof -
  have out: "Fiber_swapOut t f (set_fiber f fb' fs) = (Inr (), fs\<lparr>t_fiber := (t_fiber fs)(t \<mapsto> m),
      running := (running fs)(t \<mapsto> m), fibers := (fibers fs)(f \<mapsto> fb'\<lparr>m_ctx := Saved\<rparr>, m \<mapsto> mb\<lparr>m_ctx := Live\<rparr>)\<rparr>)" for fb'
    using assms by (subst swapOut_ok [of _ _ m f mb fb']) (auto simp: switched_out_def)
  have mark: "yield_mark st t addr fs = (Inr f, set_fiber f (fb\<lparr>m_state := st\<rparr>) fs)" for st
    using assms by (simp add: yield_mark_def Fiber_GetThis_def method_simps set_state_def)
  have switch: "yield_switch t f (set_fiber f fb' fs) = Fiber_swapOut t f (set_fiber f fb' fs)"
    if "\<not> m_use_caller fb'" for fb'
    using that by (simp add: yield_switch_def method_simps)
  show ?thesis
    using assms
    by (cases l) (simp_all add: Fiber_YieldToReady_def Fiber_YieldToHold_def Fiber_MainFunc_def mark switch out
        Fiber_GetThis_def method_simps MainFunc_outcome_def)
qed

lemma fs_invD:
  assumes "fs_inv fs"
  shows "t_fiber fs = running fs"
    and "running fs t = Some f \<Longrightarrow> \<exists>fb. fibers fs f = Some fb \<and> m_ctx fb = Live \<and> m_state fb = EXEC"
    and "running fs t = Some f \<Longrightarrow> running fs t' = Some f \<Longrightarrow> t = t'"
    and "fibers fs f = Some fb \<Longrightarrow> m_ctx fb = Live \<Longrightarrow> \<exists>t. running fs t = Some f"
  using assms unfolding fs_inv_def by blast+

lemma live_is_running: "fs_inv fs \<Longrightarrow> fibers fs f = Some fb \<Longrightarrow> m_ctx fb = Live \<Longrightarrow> m_state fb = EXEC"
  using fs_invD(2,4) by fastforce

lemma not_exec_not_running: "fs_inv fs \<Longrightarrow> fibers fs f = Some fb \<Longrightarrow> m_state fb \<noteq> EXEC \<Longrightarrow> running fs t \<noteq> Some f"
  using fs_invD(2) by fastforce

lemma not_live_not_running: "fs_inv fs \<Longrightarrow> fibers fs f = Some fb \<Longrightarrow> m_ctx fb \<noteq> Live \<Longrightarrow> running fs t \<noteq> Some f"
  using fs_invD(2) by fastforce

text \<open>Both kinds of switch hand the thread \<open>t\<close> from the fiber \<open>a\<close> to a fiber \<open>g\<close> nobody executes.\<close>

lemma switch_inv:
  assumes inv: "fs_inv fs" and a: "running fs t = Some a" and g: "\<And>t'. running fs t' \<noteq> Some g"
    and "m_ctx xa \<noteq> Live" and "m_ctx xg = Live" and "m_state xg = EXEC"
  shows "fs_inv (fs\<lparr>t_fiber := (t_fiber fs)(t \<mapsto> g), running := (running fs)(t \<mapsto> g),
    fibers := (fibers fs)(a \<mapsto> xa, g \<mapsto> xg)\<rparr>)"
proof -
  have other: "running fs t' = Some a \<Longrightarrow> t' = t" for t'
    using fs_invD(3) [OF inv a] by blast
  show ?thesis
    unfolding fs_inv_def
  proof (intro conjI allI impI, goal_cases)
    case 1
    then show ?case
      by (simp add: fs_invD(1) [OF inv])
  next
    case (2 t' f)
    then show ?case
      using fs_invD(2) [OF inv, of t' f] other [of t'] assms(5,6) by (auto split: if_splits)
  next
    case (3 t1 t2 f)
    then show ?case
      using fs_invD(3) [OF inv, of t1 f t2] g by (auto split: if_splits)
  next
    case (4 f fb)
    show ?case
    proof (cases "f = g")
      case False
      then have "f \<noteq> a" and f: "fibers fs f = Some fb" "m_ctx fb = Live"
        using 4 assms(4) by (auto split: if_splits)
      obtain t' where "running fs t' = Some f"
        using fs_invD(4) [OF inv f] by blast
      then show ?thesis
        using a \<open>f \<noteq> a\<close> by (intro exI [of _ t']) auto
    qed auto
  qed
qed

lemma switched_in_inv:
  assumes "fs_inv fs" and "running fs t = Some m" and "fibers fs f = Some fb" and "m_state fb \<noteq> EXEC"
  shows "fs_inv (switched_in t m mb f fb fs)"
  unfolding switched_in_def using not_exec_not_running [OF assms(1,3,4)] assms(1,2)
  by (intro switch_inv) simp_all

lemma left_inv:
  assumes "fs_inv fs" and "running fs t = Some f" and "fibers fs m = Some mb" and "m_ctx mb \<noteq> Live"
    and "m_state mb = EXEC"
  shows "fs_inv (fs\<lparr>t_fiber := (t_fiber fs)(t \<mapsto> m), running := (running fs)(t \<mapsto> m),
    fibers := (fibers fs)(f \<mapsto> left_behind l fb, m \<mapsto> mb\<lparr>m_ctx := Live\<rparr>)\<rparr>)"
proof (rule switch_inv [OF assms(1,2) not_live_not_running [OF assms(1,3,4)]])
  show "m_ctx (left_behind l fb) \<noteq> Live"
    by (cases l) simp_all
qed (simp_all add: assms(5))

text \<open>One round of a worker: switch to a fiber, let it run, and be switched back to.\<close>

lemma swapIn_leave:
  assumes inv: "fs_inv fs" and m: "t_scheduler_fiber fs t = Some m" "running fs t = Some m"
    and f: "fibers fs f = Some fb" "m_state fb \<noteq> EXEC" "\<not> m_use_caller fb"
  shows "\<exists>fs1. Fiber_swapIn t f fs = (Inr (), fs1) \<and> fs_inv fs1 \<and> running fs1 t = Some f \<and>
    leave l t addr fs1 = (Inr (), fs\<lparr>fibers := (fibers fs)(f \<mapsto> left_behind l fb)\<rparr>) \<and>
    fs_inv (fs\<lparr>fibers := (fibers fs)(f \<mapsto> left_behind l fb)\<rparr>)"
proof -
  obtain mb where mb: "fibers fs m = Some mb" "m_ctx mb = Live" "m_state mb = EXEC"
    using fs_invD(2) [OF inv m(2)] by blast
  have fm: "f \<noteq> m"
    using f(1,2) mb by auto
  have live: "m_ctx fb \<noteq> Live"
    using live_is_running [OF inv f(1)] f(2) by blast
  let ?fs1 = "switched_in t m mb f fb fs"
  note inv1 = switched_in_inv [OF inv m(2) f(1,2), of mb]
  have lv: "leave l t addr ?fs1 = (Inr (), ?fs1\<lparr>t_fiber := (t_fiber ?fs1)(t \<mapsto> m), running := (running ?fs1)(t \<mapsto> m),
      fibers := (fibers ?fs1)(f \<mapsto> left_behind l (fb\<lparr>m_state := EXEC, m_ctx := Live\<rparr>), m \<mapsto> mb\<lparr>m_ctx := Saved, m_ctx := Live\<rparr>)\<rparr>)"
    using fm m f by (subst leave_ok [of _ _ f m "mb\<lparr>m_ctx := Saved\<rparr>" "fb\<lparr>m_state := EXEC, m_ctx := Live\<rparr>"])
      (simp_all add: switched_in_def)
  have left: "left_behind l (fb\<lparr>m_state := EXEC, m_ctx := Live\<rparr>) = left_behind l fb"
    by (cases l) simp_all
  have mb': "mb\<lparr>m_ctx := Live\<rparr> = mb"
    using mb(2) by (metis fiber.surjective fiber.update_convs(4))
  have "?fs1\<lparr>t_fiber := (t_fiber ?fs1)(t \<mapsto> m), running := (running ?fs1)(t \<mapsto> m),
      fibers := (fibers ?fs1)(f \<mapsto> left_behind l (fb\<lparr>m_state := EXEC, m_ctx := Live\<rparr>), m \<mapsto> mb\<lparr>m_ctx := Saved, m_ctx := Live\<rparr>)\<rparr> =
    fs\<lparr>fibers := (fibers fs)(f \<mapsto> left_behind l fb)\<rparr>"
    using fm mb(1) m(2) fs_invD(1) [OF inv]
    by (cases fs) (auto simp: switched_in_def left mb' fun_eq_iff)
  moreover have "fs_inv (?fs1\<lparr>t_fiber := (t_fiber ?fs1)(t \<mapsto> m), running := (running ?fs1)(t \<mapsto> m),
      fibers := (fibers ?fs1)(f \<mapsto> left_behind l (fb\<lparr>m_state := EXEC, m_ctx := Live\<rparr>), m \<mapsto> mb\<lparr>m_ctx := Saved, m_ctx := Live\<rparr>)\<rparr>)"
    using fm mb left_inv [OF inv1, of t f m "mb\<lparr>m_ctx := Saved\<rparr>" l "fb\<lparr>m_state := EXEC, m_ctx := Live\<rparr>"]
    by (simp add: switched_in_def)
  ultimately show ?thesis
    using swapIn_ok [OF m mb(1) f(1) fm f(2) live] inv1 lv
    by (intro exI [of _ ?fs1]) (simp add: switched_in_def)
qed

section \<open>The yield is not atomic\<close>

text \<open>
  What happens when a second worker \<open>t'\<close> picks the fiber up between the two halves of
  \<open>YieldToHold\<close> on \<open>t\<close>: its state no longer says \<open>EXEC\<close>, but its context is still being executed.
\<close>

lemma yield_mark_ok:
  assumes "t_fiber fs t = Some f" and "fibers fs f = Some fb" and "m_state fb = EXEC"
  shows "yield_mark st t addr fs = (Inr f, set_fiber f (fb\<lparr>m_state := st\<rparr>) fs)"
  using assms by (simp add: yield_mark_def Fiber_GetThis_def method_simps set_state_def)

lemma swapIn_live:
  assumes "t_scheduler_fiber fs t' = Some m" and "fibers fs m = Some mb" and "fibers fs f = Some fb"
    and "m_state fb \<noteq> EXEC" and "m_ctx fb = Live"
  shows "fst (Fiber_swapIn t' f fs) = Inl Stale_Context"
proof -
  let ?fs2 = "set_state f EXEC (Fiber_SetThis t' (Some f) fs)"
  have "fst (swapcontext t' (Some m) (Some f) ?fs2) = Inl Stale_Context"
  proof (cases "m = f")
    case True
    then show ?thesis
      using assms by (simp add: swapcontext_def set_state_def Fiber_SetThis_def method_simps)
  next
    case False
    then show ?thesis
      using assms by (simp add: swapcontext_def set_state_def Fiber_SetThis_def method_simps)
  qed
  moreover have "t_scheduler_fiber ?fs2 t' = Some m"
    using assms by (simp add: set_state_def Fiber_SetThis_def)
  ultimately show ?thesis
    using assms by (simp add: Fiber_swapIn_def method_simps Let_def Fiber_SetThis_def [of _ _ fs])
qed

section \<open>A concrete system\<close>

text \<open>
  Two worker threads, 0 and 1, with main fibers 100 and 101; thread 0 executes the fiber 200, and
  the fiber 201 has not started.
\<close>

definition main_fiber :: "ucontext \<Rightarrow> fiber" where
  "main_fiber c = \<lparr>m_id = 0, m_stacksize = 0, m_state = EXEC, m_ctx = c, m_stack = False,
    fiber_cb = None, m_use_caller = False\<rparr>"

definition example_fibers :: fiber_system where
  "example_fibers =
    \<lparr>fibers = [100 \<mapsto> main_fiber Saved, 101 \<mapsto> main_fiber Live,
       200 \<mapsto> \<lparr>m_id = 1, m_stacksize = 4096, m_state = EXEC, m_ctx = Live, m_stack = True,
                 fiber_cb = Some 1, m_use_caller = False\<rparr>,
       201 \<mapsto> \<lparr>m_id = 2, m_stacksize = 4096, m_state = INIT, m_ctx = Entry False, m_stack = True,
                 fiber_cb = Some 2, m_use_caller = False\<rparr>],
     t_fiber = [0 \<mapsto> 200, 1 \<mapsto> 101], t_threadFiber = [0 \<mapsto> 100, 1 \<mapsto> 101],
     t_scheduler_fiber = [0 \<mapsto> 100, 1 \<mapsto> 101], running = [0 \<mapsto> 200, 1 \<mapsto> 101],
     s_fiber_id = 2, s_fiber_count = 4\<rparr>"

lemma example_fs_inv: "fs_inv example_fibers"
  by (auto simp: fs_inv_def example_fibers_def main_fiber_def split: if_splits)

section \<open>Properties\<close>

text \<open>C9: a round trip through a fiber: a worker whose scheduling fiber is executing can switch to
  any fiber that is not in state \<open>EXEC\<close>; however that fiber gives the thread back (yielding
  ready or held, returning, or throwing), the worker continues where it was, and the fiber is
  left suspended in the corresponding state with everything else unchanged.\<close>

theorem Fiber_swapIn_returns:
  assumes "fs_inv fs" and "t_scheduler_fiber fs t = Some m" and "running fs t = Some m"
    and "fibers fs f = Some fb" and "m_state fb \<noteq> EXEC" and "\<not> m_use_caller fb"
  shows "\<exists>fs1. Fiber_swapIn t f fs = (Inr (), fs1) \<and> fs_inv fs1 \<and> running fs1 t = Some f \<and>
    leave l t addr fs1 = (Inr (), fs\<lparr>fibers := (fibers fs)(f \<mapsto> left_behind l fb)\<rparr>) \<and>
    fs_inv (fs\<lparr>fibers := (fibers fs)(f \<mapsto> left_behind l fb)\<rparr>)"
  by (rule swapIn_leave [OF assms])

lemma Fiber_swapIn_returns_witness:
  "\<exists>fs1. Fiber_swapIn 1 201 example_fibers = (Inr (), fs1) \<and>
    (\<exists>fs2 fb. leave To_Hold 1 0 fs1 = (Inr (), fs2) \<and> fibers fs2 201 = Some fb \<and> m_state fb = HOLD)"
  using Fiber_swapIn_returns [OF example_fs_inv, of 1 101 201 _ To_Hold 0]
  by (force simp: example_fibers_def)

end
