(* ===== verification/Scheduler.thy ===== *)
theory Scheduler
  imports Fiber "HOL-Library.Multiset"
begin

text \<open>
  \<open>sylar/scheduler.{h,cpp}\<close>: the N-to-M scheduler. The state holds the task queue, the counters
  and flags, the fibers, and one program counter per worker thread for its place in the loop of
  \<open>run\<close>. Each section under the mutex is one step, and so is each access to an atomic counter
  together with the private code around it; steps of different workers, and of the code running
  in fibers, interleave freely.
\<close>

section \<open>State\<close>

text \<open>\<open>FiberAndThread\<close>; a null pointer or empty function is \<open>None\<close>.\<close>

record task =
  task_fiber :: "nat option"
  task_cb :: "nat option"
  task_thread :: int

definition no_task :: task where
  "no_task = \<lparr>task_fiber = None, task_cb = None, task_thread = - 1\<rparr>"

text \<open>
  Where a worker is: before the locked section, after it (with \<open>ft\<close>, \<open>is_active\<close> and
  \<open>tickle_me\<close>), inside the \<open>swapIn\<close> of a task's fiber, of \<open>cb_fiber\<close> or of \<open>idle_fiber\<close>, behind one of the
  first two with the counter taken down and the fiber yet to be dealt with, or out of the loop.
\<close>

datatype worker_pc = At_Loop | Got task bool bool | In_Fiber nat | Left_Fiber nat | In_Cb nat | Left_Cb nat | In_Idle | Finished

record worker =
  pc :: worker_pc
  idle_fiber :: nat
  cb_fiber :: "nat option"

record scheduler =
  m_fibers :: "task list"
  m_threadCount :: nat
  m_activeThreadCount :: nat
  m_idleThreadCount :: nat
  m_stopping :: bool
  m_autoStop :: bool
  m_rootThread :: int
  m_rootFiber :: "nat option"
  workers :: "worker list"
  fs :: fiber_system
  tickles :: nat

type_synonym 'a sched_method = "(scheduler, 'a) action"

section \<open>Scheduling\<close>

definition Scheduler_tickle :: "scheduler \<Rightarrow> scheduler" where
  "Scheduler_tickle s = s\<lparr>tickles := tickles s + 1\<rparr>"

definition scheduleNoLock :: "nat option \<Rightarrow> nat option \<Rightarrow> int \<Rightarrow> scheduler \<Rightarrow> bool \<times> scheduler" where
  "scheduleNoLock f cb thread s =
    (let need_tickle = (m_fibers s = []);
         ft = \<lparr>task_fiber = f, task_cb = cb, task_thread = thread\<rparr>
     in (need_tickle, if f \<noteq> None \<or> cb \<noteq> None then s\<lparr>m_fibers := m_fibers s @ [ft]\<rparr> else s))"

definition Scheduler_schedule :: "nat option \<Rightarrow> nat option \<Rightarrow> int \<Rightarrow> scheduler \<Rightarrow> scheduler" where
  "Scheduler_schedule f cb thread s =
    (let (need_tickle, s1) = scheduleNoLock f cb thread s
     in if need_tickle then Scheduler_tickle s1 else s1)"

text \<open>The batch variant, for a range of fibers or callbacks.\<close>

fun schedule_loop :: "(nat option \<times> nat option) list \<Rightarrow> bool \<Rightarrow> scheduler \<Rightarrow> bool \<times> scheduler" where
  "schedule_loop [] need_tickle s = (need_tickle, s)"
| "schedule_loop ((f, cb) # rest) need_tickle s =
    (let (n, s1) = scheduleNoLock f cb (- 1) s in schedule_loop rest (n \<or> need_tickle) s1)"

definition Scheduler_schedule_range :: "(nat option \<times> nat option) list \<Rightarrow> scheduler \<Rightarrow> scheduler" where
  "Scheduler_schedule_range items s =
    (let (need_tickle, s1) = schedule_loop items False s
     in if need_tickle then Scheduler_tickle s1 else s1)"

definition Scheduler_stopping :: "scheduler \<Rightarrow> bool" where
  "Scheduler_stopping s \<longleftrightarrow> m_autoStop s \<and> m_stopping s \<and> m_fibers s = [] \<and> m_activeThreadCount s = 0"

section \<open>The loop of run\<close>

text \<open>
  The search for a task: \<open>st\<close> gives the state of a fiber, \<open>tid\<close> is the id of the worker's thread.
  The result is the task taken, the queue without it, and \<open>tickle_me\<close>.
\<close>

fun pick :: "(nat \<Rightarrow> fiber_state) \<Rightarrow> int \<Rightarrow> task list \<Rightarrow> fault + task option \<times> task list \<times> bool" where
  "pick st tid [] = Inr (None, [], False)"
| "pick st tid (it # rest) =
    (if task_thread it \<noteq> - 1 \<and> task_thread it \<noteq> tid then
       map_sum id (\<lambda>(ft, rest', _). (ft, it # rest', True)) (pick st tid rest)
     else if task_fiber it = None \<and> task_cb it = None then Inl (Assertion ''it->fiber || it->cb'')
     else if (case task_fiber it of None \<Rightarrow> False | Some f \<Rightarrow> st f = EXEC) then
       map_sum id (\<lambda>(ft, rest', tickle_me). (ft, it # rest', tickle_me)) (pick st tid rest)
     else Inr (Some it, rest, rest \<noteq> []))"

definition state_of :: "scheduler \<Rightarrow> nat \<Rightarrow> fiber_state" where
  "state_of s f = (case fibers (fs s) f of None \<Rightarrow> TERM' | Some fb \<Rightarrow> m_state fb)"

definition goto :: "nat \<Rightarrow> worker_pc \<Rightarrow> scheduler \<Rightarrow> scheduler" where
  "goto w p s = s\<lparr>workers := (workers s)[w := (workers s ! w)\<lparr>pc := p\<rparr>]\<rparr>"

definition run_pick :: "nat \<Rightarrow> unit sched_method" where
  "run_pick w s =
    (case pick (state_of s) (int w) (m_fibers s) of
       Inl e \<Rightarrow> (Inl e, s)
     | Inr (None, rest, tickle_me) \<Rightarrow>
         (Inr (), goto w (Got no_task False tickle_me) (s\<lparr>m_fibers := rest\<rparr>))
     | Inr (Some ft, rest, tickle_me) \<Rightarrow>
         (Inr (), goto w (Got ft True tickle_me)
           (s\<lparr>m_fibers := rest, m_activeThreadCount := m_activeThreadCount s + 1\<rparr>)))"

text \<open>A fiber operation inside the scheduler's state.\<close>

definition fiber_op :: "'a fiber_method \<Rightarrow> 'a sched_method" where
  "fiber_op op s = (let (r, fs') = op (fs s) in (r, s\<lparr>fs := fs'\<rparr>))"

text \<open>\<open>addr\<close> is the address \<open>new Fiber(ft.cb)\<close> returns, when a \<open>cb_fiber\<close> has to be made.\<close>

definition load_cb :: "nat \<Rightarrow> nat \<Rightarrow> nat \<Rightarrow> nat option \<Rightarrow> nat sched_method" where
  "load_cb default_stack addr w cb s =
    (case cb_fiber (workers s ! w) of
       Some f \<Rightarrow> seq (fiber_op (Fiber_reset f cb False)) (\<lambda>_. ret f) s
     | None \<Rightarrow>
         (Inr addr, s\<lparr>fs := Fiber_new default_stack addr cb 0 False (fs s),
           workers := (workers s)[w := (workers s ! w)\<lparr>cb_fiber := Some addr\<rparr>]\<rparr>))"

definition run_dispatch :: "nat \<Rightarrow> nat \<Rightarrow> nat \<Rightarrow> task \<Rightarrow> bool \<Rightarrow> bool \<Rightarrow> unit sched_method" where
  "run_dispatch default_stack addr w ft is_active tickle_me s =
    (let s1 = (if tickle_me then Scheduler_tickle s else s)
     in if (case task_fiber ft of None \<Rightarrow> False
            | Some f \<Rightarrow> state_of s1 f \<noteq> TERM' \<and> state_of s1 f \<noteq> EXCEPT)
        then seq (fiber_op (Fiber_swapIn w (the (task_fiber ft))))
               (\<lambda>_ s. (Inr (), goto w (In_Fiber (the (task_fiber ft))) s)) s1
        else if task_cb ft \<noteq> None
        then seq (load_cb default_stack addr w (task_cb ft)) (\<lambda>f.
             seq (fiber_op (Fiber_swapIn w f)) (\<lambda>_ s. (Inr (), goto w (In_Cb f) s))) s1
        else if is_active
        then (Inr (), goto w At_Loop (s1\<lparr>m_activeThreadCount := size_sub (m_activeThreadCount s1) 1\<rparr>))
        else if state_of s1 (idle_fiber (workers s1 ! w)) = TERM'
        then (Inr (), goto w Finished s1)
        else seq (fiber_op (Fiber_swapIn w (idle_fiber (workers s1 ! w))))
               (\<lambda>_ s. (Inr (), goto w In_Idle s))
               (s1\<lparr>m_idleThreadCount := m_idleThreadCount s1 + 1\<rparr>))"

text \<open>
  What follows each \<open>swapIn\<close>, once the fiber has switched back. The counter goes down before a fiber
  that yielded is put into the queue again, under the lock; the two are steps of their own.
\<close>

definition task_left :: "nat \<Rightarrow> worker_pc \<Rightarrow> scheduler \<Rightarrow> scheduler" where
  "task_left w p s = goto w p (s\<lparr>m_activeThreadCount := size_sub (m_activeThreadCount s) 1\<rparr>)"

definition after_fiber :: "nat \<Rightarrow> nat \<Rightarrow> scheduler \<Rightarrow> scheduler" where
  "after_fiber w f s =
    goto w At_Loop
      (if state_of s f = READY then Scheduler_schedule (Some f) None (- 1) s
       else if state_of s f \<noteq> TERM' \<and> state_of s f \<noteq> EXCEPT then s\<lparr>fs := set_state f HOLD (fs s)\<rparr>
       else s)"

definition drop_cb_fiber :: "nat \<Rightarrow> scheduler \<Rightarrow> scheduler" where
  "drop_cb_fiber w s = s\<lparr>workers := (workers s)[w := (workers s ! w)\<lparr>cb_fiber := None\<rparr>]\<rparr>"

definition after_cb :: "nat \<Rightarrow> nat \<Rightarrow> unit sched_method" where
  "after_cb w f s =
    (if state_of s f = READY
     then (Inr (), goto w At_Loop (drop_cb_fiber w (Scheduler_schedule (Some f) None (- 1) s)))
     else if state_of s f = EXCEPT \<or> state_of s f = TERM'
     then seq (fiber_op (Fiber_reset f None False)) (\<lambda>_ s. (Inr (), goto w At_Loop s)) s
     else (Inr (), goto w At_Loop (drop_cb_fiber w (s\<lparr>fs := set_state f HOLD (fs s)\<rparr>))))"

definition after_idle :: "nat \<Rightarrow> scheduler \<Rightarrow> scheduler" where
  "after_idle w s =
    (let s1 = s\<lparr>m_idleThreadCount := size_sub (m_idleThreadCount s) 1\<rparr>;
         f = idle_fiber (workers s1 ! w)
     in goto w At_Loop
          (if state_of s1 f \<noteq> TERM' \<and> state_of s1 f \<noteq> EXCEPT
           then s1\<lparr>fs := set_state f HOLD (fs s1)\<rparr> else s1))"

text \<open>
  \<open>switchTo\<close>, up to the yield it ends with: whether the caller already is where it wants to be,
  and the scheduling of the running fiber otherwise (\<open>same\<close> is \<open>Scheduler::GetThis() == this\<close>).
\<close>

definition switchTo_schedule :: "bool \<Rightarrow> nat \<Rightarrow> int \<Rightarrow> nat \<Rightarrow> bool sched_method" where
  "switchTo_schedule same t thread addr s =
    (if same \<and> (thread = - 1 \<or> thread = int t) then (Inr False, s)
     else seq (fiber_op (Fiber_GetThis t addr))
            (\<lambda>f s. (Inr True, Scheduler_schedule (Some f) None thread s)) s)"

section \<open>Starting and stopping\<close>

text \<open>
  The constructor: \<open>here\<close> is \<open>GetThreadId()\<close>, \<open>other\<close> whether the thread already has a scheduler,
  and \<open>root\<close> the address of the fiber that runs the loop on the calling thread.
\<close>

definition Scheduler :: "nat \<Rightarrow> bool \<Rightarrow> int \<Rightarrow> bool \<Rightarrow> nat \<Rightarrow> fiber_system \<Rightarrow> fault + scheduler" where
  "Scheduler threads use_caller here other root fsys =
    (if threads = 0 then Inl (Assertion ''threads > 0'')
     else if use_caller \<and> other then Inl (Assertion ''GetThis() == nullptr'')
     else Inr \<lparr>m_fibers = [], m_threadCount = (if use_caller then threads - 1 else threads),
       m_activeThreadCount = 0, m_idleThreadCount = 0, m_stopping = True, m_autoStop = False,
       m_rootThread = (if use_caller then here else - 1),
       m_rootFiber = (if use_caller then Some root else None), workers = [], fs = fsys, tickles = 0\<rparr>)"

text \<open>\<open>start\<close>: the threads it makes begin \<open>run\<close>, with idle fibers at \<open>addrs\<close>.\<close>

definition new_worker :: "nat \<Rightarrow> worker" where
  "new_worker idle = \<lparr>pc = At_Loop, idle_fiber = idle, cb_fiber = None\<rparr>"

definition Scheduler_start :: "(nat \<Rightarrow> nat) \<Rightarrow> unit sched_method" where
  "Scheduler_start addrs s =
    (if \<not> m_stopping s then (Inr (), s)
     else if workers s \<noteq> [] then (Inl (Assertion ''m_threads.empty()''), s\<lparr>m_stopping := False\<rparr>)
     else (Inr (), s\<lparr>m_stopping := False, workers := map (\<lambda>i. new_worker (addrs i)) [0..<m_threadCount s]\<rparr>))"

text \<open>
  \<open>stop\<close>, up to the joining of the threads: whether it returns at once, and whether it runs the
  root fiber before joining (\<open>here\<close>: \<open>GetThis() == this\<close>).
\<close>

datatype stop_action = Stop_Return | Stop_Join bool

primrec tickle_times :: "nat \<Rightarrow> scheduler \<Rightarrow> scheduler" where
  "tickle_times 0 s = s"
| "tickle_times (Suc n) s = tickle_times n (Scheduler_tickle s)"

definition Scheduler_stop :: "bool \<Rightarrow> stop_action sched_method" where
  "Scheduler_stop here s =
    (let s1 = s\<lparr>m_autoStop := True\<rparr>;
         idle_root = (case m_rootFiber s1 of None \<Rightarrow> False
           | Some f \<Rightarrow> m_threadCount s1 = 0 \<and> (state_of s1 f = TERM' \<or> state_of s1 f = INIT));
         s2 = (if idle_root then s1\<lparr>m_stopping := True\<rparr> else s1)
     in if idle_root \<and> Scheduler_stopping s2 then (Inr Stop_Return, s2)
        else if m_rootThread s2 \<noteq> - 1 \<and> \<not> here then (Inl (Assertion ''GetThis() == this''), s2)
        else if m_rootThread s2 = - 1 \<and> here then (Inl (Assertion ''GetThis() != this''), s2)
        else
          let s3 = tickle_times (m_threadCount s2) (s2\<lparr>m_stopping := True\<rparr>);
              s4 = (if m_rootFiber s3 \<noteq> None then Scheduler_tickle s3 else s3)
          in (Inr (Stop_Join (m_rootFiber s4 \<noteq> None \<and> \<not> Scheduler_stopping s4)), s4))"

section \<open>Reachable states\<close>

text \<open>
  Any interleaving of: scheduling by anyone, \<open>stop\<close>, the workers' steps, and the code that runs in
  fibers, which may change the fibers in any way (\<open>fiber_code\<close>).
\<close>

inductive sched_step :: "scheduler \<Rightarrow> scheduler \<Rightarrow> bool" where
  schedule: "sched_step s (Scheduler_schedule f cb thread s)"
| schedule_range: "sched_step s (Scheduler_schedule_range items s)"
| stop: "sched_step s (snd (Scheduler_stop here s))"
| fiber_code: "sched_step s (s\<lparr>fs := fsys\<rparr>)"
| pick: "w < length (workers s) \<Longrightarrow> pc (workers s ! w) = At_Loop \<Longrightarrow> run_pick w s = (Inr (), s') \<Longrightarrow> sched_step s s'"
| dispatch: "w < length (workers s) \<Longrightarrow> pc (workers s ! w) = Got ft is_active tickle_me \<Longrightarrow>
    run_dispatch default_stack addr w ft is_active tickle_me s = (Inr (), s') \<Longrightarrow> sched_step s s'"
| back_from_fiber: "w < length (workers s) \<Longrightarrow> pc (workers s ! w) = In_Fiber f \<Longrightarrow> sched_step s (task_left w (Left_Fiber f) s)"
| back_from_cb: "w < length (workers s) \<Longrightarrow> pc (workers s ! w) = In_Cb f \<Longrightarrow> sched_step s (task_left w (Left_Cb f) s)"
| fiber_left: "w < length (workers s) \<Longrightarrow> pc (workers s ! w) = Left_Fiber f \<Longrightarrow> sched_step s (after_fiber w f s)"
| cb_left: "w < length (workers s) \<Longrightarrow> pc (workers s ! w) = Left_Cb f \<Longrightarrow> after_cb w f s = (Inr (), s') \<Longrightarrow>
    sched_step s s'"
| back_from_idle: "w < length (workers s) \<Longrightarrow> pc (workers s ! w) = In_Idle \<Longrightarrow> sched_step s (after_idle w s)"

inductive sched_reachable :: "scheduler \<Rightarrow> bool" where
  started: "Scheduler threads use_caller here other root fsys = Inr s0 \<Longrightarrow> Scheduler_start addrs s0 = (Inr (), s) \<Longrightarrow>
    sched_reachable s"
| step: "sched_reachable s \<Longrightarrow> sched_step s s' \<Longrightarrow> sched_reachable s'"

section \<open>The counters count\<close>

fun has_work :: "worker_pc \<Rightarrow> bool" where
  "has_work (Got ft is_active tickle_me) = is_active"
| "has_work (In_Fiber f) = True"
| "has_work (In_Cb f) = True"
| "has_work p = False"

definition count_pc :: "(worker_pc \<Rightarrow> bool) \<Rightarrow> worker list \<Rightarrow> nat" where
  "count_pc P ws = length (filter (\<lambda>w. P (pc w)) ws)"

lemma count_pc_update:
  "w < length ws \<Longrightarrow>
    count_pc P (ws[w := x]) + (if P (pc (ws ! w)) then 1 else 0) = count_pc P ws + (if P (pc x) then 1 else 0)"
proof (induction ws arbitrary: w)
  case (Cons y ys)
  then show ?case
    by (cases w) (auto simp: count_pc_def)
qed simp

text \<open>A worker that holds a task holds a real one, meant for any thread or for its own.\<close>

definition task_ok :: "nat \<Rightarrow> worker_pc \<Rightarrow> bool" where
  "task_ok w p = (case p of
     Got ft is_active _ \<Rightarrow> is_active = (task_fiber ft \<noteq> None \<or> task_cb ft \<noteq> None) \<and>
       (is_active \<longrightarrow> task_thread ft = - 1 \<or> task_thread ft = int w)
   | _ \<Rightarrow> True)"

definition sched_inv :: "scheduler \<Rightarrow> bool" where
  "sched_inv s \<longleftrightarrow> m_activeThreadCount s = count_pc has_work (workers s) \<and>
    m_idleThreadCount s = count_pc (\<lambda>p. p = In_Idle) (workers s) \<and>
    (\<forall>w < length (workers s). task_ok w (pc (workers s ! w)))"

text \<open>Only the workers' own steps touch what the invariant speaks of.\<close>

lemma sched_inv_cong:
  "workers s' = workers s \<Longrightarrow> m_activeThreadCount s' = m_activeThreadCount s \<Longrightarrow>
    m_idleThreadCount s' = m_idleThreadCount s \<Longrightarrow> sched_inv s' = sched_inv s"
  by (simp add: sched_inv_def)

lemma Scheduler_tickle_sel [simp]:
  "workers (Scheduler_tickle s) = workers s" "m_activeThreadCount (Scheduler_tickle s) = m_activeThreadCount s"
  "m_idleThreadCount (Scheduler_tickle s) = m_idleThreadCount s" "fs (Scheduler_tickle s) = fs s"
  "m_fibers (Scheduler_tickle s) = m_fibers s"
  by (simp_all add: Scheduler_tickle_def)

lemma scheduleNoLock_sel [simp]:
  "workers (snd (scheduleNoLock f cb thread s)) = workers s"
  "m_activeThreadCount (snd (scheduleNoLock f cb thread s)) = m_activeThreadCount s"
  "m_idleThreadCount (snd (scheduleNoLock f cb thread s)) = m_idleThreadCount s"
  "fs (snd (scheduleNoLock f cb thread s)) = fs s"
  by (simp_all add: scheduleNoLock_def Let_def)

lemma schedule_sel [simp]:
  "workers (Scheduler_schedule f cb thread s) = workers s"
  "m_activeThreadCount (Scheduler_schedule f cb thread s) = m_activeThreadCount s"
  "m_idleThreadCount (Scheduler_schedule f cb thread s) = m_idleThreadCount s"
  "fs (Scheduler_schedule f cb thread s) = fs s"
  by (simp_all add: Scheduler_schedule_def Let_def case_prod_beta)

lemma schedule_loop_sel:
  "workers (snd (schedule_loop items n s)) = workers s \<and>
   m_activeThreadCount (snd (schedule_loop items n s)) = m_activeThreadCount s \<and>
   m_idleThreadCount (snd (schedule_loop items n s)) = m_idleThreadCount s"
proof (induction items arbitrary: n s)
  case (Cons item items)
  obtain f cb where "item = (f, cb)"
    by (cases item)
  then show ?case
    using Cons by (simp add: Let_def case_prod_beta)
qed simp

lemma tickle_times_sel [simp]:
  "workers (tickle_times n s) = workers s" "m_activeThreadCount (tickle_times n s) = m_activeThreadCount s"
  "m_idleThreadCount (tickle_times n s) = m_idleThreadCount s"
  by (induction n arbitrary: s) simp_all

lemma fiber_op_sel [simp]:
  "workers (snd (fiber_op op s)) = workers s"
  "m_activeThreadCount (snd (fiber_op op s)) = m_activeThreadCount s"
  "m_idleThreadCount (snd (fiber_op op s)) = m_idleThreadCount s"
  by (simp_all add: fiber_op_def split: prod.split)

text \<open>
  A step of worker \<open>w\<close> to \<open>p\<close> keeps the invariant when the counters follow the change of its
  program counter.
\<close>

lemma goto_inv:
  assumes "sched_inv s" and "w < length (workers s)" and "task_ok w p"
    and "length (workers s1) = length (workers s)"
    and "\<And>v. v < length (workers s1) \<Longrightarrow> pc (workers s1 ! v) = pc (workers s ! v)"
    and "m_activeThreadCount s1 + (if has_work (pc (workers s ! w)) then 1 else 0) =
      m_activeThreadCount s + (if has_work p then 1 else 0)"
    and "m_idleThreadCount s1 + (if pc (workers s ! w) = In_Idle then 1 else 0) =
      m_idleThreadCount s + (if p = In_Idle then 1 else 0)"
  shows "sched_inv (goto w p s1)"
proof -
  have map_pc: "map pc (workers s1) = map pc (workers s)"
    using assms(4,5) by (simp add: list_eq_iff_nth_eq)
  have count: "count_pc P (workers s1) = count_pc P (workers s)" for P
    using arg_cong [OF map_pc, of "\<lambda>ps. length (filter P ps)"]
    by (simp add: count_pc_def filter_map comp_def)
  have "task_ok v (pc ((workers (goto w p s1)) ! v))" if "v < length (workers (goto w p s1))" for v
    using that assms(1-5) by (cases "v = w") (auto simp: goto_def sched_inv_def)
  moreover have "count_pc P (workers (goto w p s1)) + (if P (pc (workers s ! w)) then 1 else 0) =
      count_pc P (workers s) + (if P p then 1 else 0)" for P
    using count_pc_update [of w "workers s1" P "(workers s1 ! w)\<lparr>pc := p\<rparr>"] assms(2,4,5) count [of P] by (simp add: goto_def)
  from this [of has_work] this [of "\<lambda>q. q = In_Idle"]
  have "m_activeThreadCount s1 = count_pc has_work (workers (goto w p s1))"
    "m_idleThreadCount s1 = count_pc (\<lambda>q. q = In_Idle) (workers (goto w p s1))"
    using assms(1,6,7) by (auto simp: sched_inv_def split: if_splits)
  ultimately show ?thesis
    by (simp add: sched_inv_def) (simp add: goto_def)
qed

section \<open>What the search finds\<close>

definition foreign :: "int \<Rightarrow> task \<Rightarrow> bool" where
  "foreign tid it \<longleftrightarrow> task_thread it \<noteq> - 1 \<and> task_thread it \<noteq> tid"

definition executing :: "(nat \<Rightarrow> fiber_state) \<Rightarrow> task \<Rightarrow> bool" where
  "executing st it \<longleftrightarrow> (case task_fiber it of None \<Rightarrow> False | Some f \<Rightarrow> st f = EXEC)"

lemma pick_Cons:
  "pick st tid (it # rest) =
    (if foreign tid it then map_sum id (\<lambda>(ft, rest', _). (ft, it # rest', True)) (pick st tid rest)
     else if task_fiber it = None \<and> task_cb it = None then Inl (Assertion ''it->fiber || it->cb'')
     else if executing st it then map_sum id (\<lambda>(ft, rest', tickle_me). (ft, it # rest', tickle_me)) (pick st tid rest)
     else Inr (Some it, rest, rest \<noteq> []))"
  by (simp add: foreign_def executing_def)

declare pick.simps(2) [simp del]

lemma pick_Some:
  "pick st tid q = Inr (Some ft, rest, tickle_me) \<Longrightarrow>
    \<exists>xs ys. q = xs @ ft # ys \<and> rest = xs @ ys \<and> \<not> foreign tid ft \<and> \<not> executing st ft \<and>
      (task_fiber ft \<noteq> None \<or> task_cb ft \<noteq> None) \<and> (\<forall>x\<in>set xs. foreign tid x \<or> executing st x) \<and>
      (tickle_me \<longleftrightarrow> ys \<noteq> [] \<or> (\<exists>x\<in>set xs. foreign tid x))"
proof (induction q arbitrary: rest tickle_me)
  case (Cons it q)
  consider (foreign) "foreign tid it" | (executing) "\<not> foreign tid it" "executing st it"
    "\<not> (task_fiber it = None \<and> task_cb it = None)"
    | (taken) "\<not> foreign tid it" "\<not> executing st it" "\<not> (task_fiber it = None \<and> task_cb it = None)"
    using Cons.prems by (auto simp: pick_Cons split: if_splits)
  then show ?case
  proof cases
    case foreign
    then obtain rest' tm' where *: "pick st tid q = Inr (Some ft, rest', tm')" "rest = it # rest'" "tickle_me"
      using Cons.prems by (cases "pick st tid q") (auto simp: pick_Cons)
    from Cons.IH [OF *(1)] obtain xs ys where "q = xs @ ft # ys" "rest' = xs @ ys" "\<not> foreign tid ft"
      "\<not> executing st ft" "task_fiber ft \<noteq> None \<or> task_cb ft \<noteq> None" "\<forall>x\<in>set xs. foreign tid x \<or> executing st x"
      by blast
    then show ?thesis
      using foreign * by (intro exI [of _ "it # xs"] exI [of _ ys]) auto
  next
    case executing
    then obtain rest' where *: "pick st tid q = Inr (Some ft, rest', tickle_me)" "rest = it # rest'"
      using Cons.prems by (cases "pick st tid q") (auto simp: pick_Cons)
    from Cons.IH [OF *(1)] obtain xs ys where "q = xs @ ft # ys" "rest' = xs @ ys" "\<not> foreign tid ft"
      "\<not> executing st ft" "task_fiber ft \<noteq> None \<or> task_cb ft \<noteq> None" "\<forall>x\<in>set xs. foreign tid x \<or> executing st x"
      "tickle_me \<longleftrightarrow> ys \<noteq> [] \<or> (\<exists>x\<in>set xs. foreign tid x)"
      by blast
    then show ?thesis
      using executing * by (intro exI [of _ "it # xs"] exI [of _ ys]) auto
  next
    case taken
    then show ?thesis
      using Cons.prems by (intro exI [of _ "[]"] exI [of _ q]) (auto simp: pick_Cons)
  qed
qed simp

lemma pick_None:
  "pick st tid q = Inr (None, rest, tickle_me) \<Longrightarrow>
    rest = q \<and> (\<forall>x\<in>set q. foreign tid x \<or> executing st x) \<and> (tickle_me \<longleftrightarrow> (\<exists>x\<in>set q. foreign tid x))"
proof (induction q arbitrary: rest tickle_me)
  case (Cons it q)
  then show ?case
    by (cases "pick st tid q") (auto simp: pick_Cons split: if_splits)
qed simp

section \<open>Every step keeps the invariant\<close>

lemma run_pick_inv:
  assumes "sched_inv s" and w: "w < length (workers s)" and "pc (workers s ! w) = At_Loop"
    and "run_pick w s = (Inr (), s')"
  shows "sched_inv s'"
proof -
  obtain r rest tm where p: "pick (state_of s) (int w) (m_fibers s) = Inr (r, rest, tm)"
    using assms(4) by (cases "pick (state_of s) (int w) (m_fibers s)") (auto simp: run_pick_def)
  show ?thesis
  proof (cases r)
    case None
    then have "s' = goto w (Got no_task False tm) (s\<lparr>m_fibers := rest\<rparr>)"
      using assms(4) p by (simp add: run_pick_def)
    then show ?thesis
      using assms(1,3) w by (auto intro!: goto_inv [OF assms(1) w] simp: task_ok_def no_task_def)
  next
    case (Some ft)
    then have s': "s' = goto w (Got ft True tm) (s\<lparr>m_fibers := rest, m_activeThreadCount := m_activeThreadCount s + 1\<rparr>)"
      using assms(4) p by (simp add: run_pick_def)
    have "task_ok w (Got ft True tm)"
      using pick_Some [OF p [unfolded Some]] by (auto simp: task_ok_def foreign_def)
    then show ?thesis
      unfolding s' using assms(3) by (intro goto_inv [OF assms(1) w]) simp_all
  qed
qed

lemma fiber_op_InrD:
  assumes "fiber_op op s = (Inr a, s')"
  shows "workers s' = workers s" and "m_activeThreadCount s' = m_activeThreadCount s"
    and "m_idleThreadCount s' = m_idleThreadCount s"
  using fiber_op_sel [of op s] assms by simp_all

lemma load_cb_InrD:
  assumes "load_cb default_stack addr w cb s = (Inr f, s')"
  shows "length (workers s') = length (workers s) \<and> (\<forall>v. pc (workers s' ! v) = pc (workers s ! v)) \<and>
    m_activeThreadCount s' = m_activeThreadCount s \<and> m_idleThreadCount s' = m_idleThreadCount s"
proof (cases "cb_fiber (workers s ! w)")
  case None
  have pc: "pc ((workers s)[w := (workers s ! w)\<lparr>cb_fiber := Some addr\<rparr>] ! v) = pc (workers s ! v)" for v
    by (cases "v = w"; cases "w < length (workers s)") (simp_all add: not_less list_update_beyond)
  have s': "s' = s\<lparr>fs := Fiber_new default_stack addr cb 0 False (fs s),
      workers := (workers s)[w := (workers s ! w)\<lparr>cb_fiber := Some addr\<rparr>]\<rparr>"
    using assms None by (auto simp: load_cb_def)
  show ?thesis
    by (simp add: s' pc)
next
  case (Some g)
  then obtain u where "fiber_op (Fiber_reset g cb False) s = (Inr u, s')"
    using assms by (auto simp: load_cb_def ret_apply elim: seq_InrE)
  from fiber_op_InrD [OF this] show ?thesis
    by simp
qed

lemma run_dispatch_inv:
  assumes inv: "sched_inv s" and w: "w < length (workers s)" and pc: "pc (workers s ! w) = Got ft is_active tickle_me"
    and run: "run_dispatch default_stack addr w ft is_active tickle_me s = (Inr (), s')"
  shows "sched_inv s'"
proof -
  have ok: "is_active = (task_fiber ft \<noteq> None \<or> task_cb ft \<noteq> None)"
    using inv w pc by (force simp: sched_inv_def task_ok_def)
  have active: "is_active \<Longrightarrow> size_sub (m_activeThreadCount s) 1 + 1 = m_activeThreadCount s"
    using inv pc count_pc_update [OF w, of has_work "(workers s ! w)\<lparr>pc := At_Loop\<rparr>"] by (simp add: sched_inv_def)
  define s1 where "s1 = (if tickle_me then Scheduler_tickle s else s)"
  have s1: "workers s1 = workers s" "m_activeThreadCount s1 = m_activeThreadCount s"
    "m_idleThreadCount s1 = m_idleThreadCount s" "fs s1 = fs s"
    by (simp_all add: s1_def)
  consider (fiber) f s2 where "task_fiber ft = Some f" "fiber_op (Fiber_swapIn w f) s1 = (Inr (), s2)"
      "s' = goto w (In_Fiber f) s2"
    | (cb) f s2 s3 where "task_cb ft \<noteq> None" "load_cb default_stack addr w (task_cb ft) s1 = (Inr f, s2)"
      "fiber_op (Fiber_swapIn w f) s2 = (Inr (), s3)" "s' = goto w (In_Cb f) s3"
    | (bad) "is_active" "s' = goto w At_Loop (s1\<lparr>m_activeThreadCount := size_sub (m_activeThreadCount s1) 1\<rparr>)"
    | (finished) "\<not> is_active" "s' = goto w Finished s1"
    | (idle) s2 where "\<not> is_active" "s' = goto w In_Idle s2"
      "fiber_op (Fiber_swapIn w (idle_fiber (workers s1 ! w))) (s1\<lparr>m_idleThreadCount := m_idleThreadCount s1 + 1\<rparr>) = (Inr (), s2)"
    using run unfolding run_dispatch_def Let_def s1_def [symmetric]
    by (auto split: if_splits option.splits elim!: seq_InrE)
  then show ?thesis
  proof cases
    case (fiber f s2)
    then show ?thesis
      using ok pc fiber_op_InrD [OF fiber(2)] s1 by (auto intro!: goto_inv [OF inv w] simp: task_ok_def)
  next
    case (cb f s2 s3)
    then show ?thesis
      using ok pc fiber_op_InrD [OF cb(3)] load_cb_InrD [OF cb(2)] s1
      by (auto intro!: goto_inv [OF inv w] simp: task_ok_def)
  next
    case bad
    then show ?thesis
      using pc active s1 by (auto intro!: goto_inv [OF inv w] simp: task_ok_def)
  next
    case finished
    then show ?thesis
      using pc s1 by (auto intro!: goto_inv [OF inv w] simp: task_ok_def)
  next
    case (idle s2)
    then show ?thesis
      using pc s1 fiber_op_InrD [OF idle(3)] by (auto intro!: goto_inv [OF inv w] simp: task_ok_def)
  qed
qed

lemma drop_cb_fiber_sel [simp]:
  "length (workers (drop_cb_fiber w s)) = length (workers s)"
  "pc (workers (drop_cb_fiber w s) ! v) = pc (workers s ! v)"
  "m_activeThreadCount (drop_cb_fiber w s) = m_activeThreadCount s"
  "m_idleThreadCount (drop_cb_fiber w s) = m_idleThreadCount s"
proof -
  show "pc (workers (drop_cb_fiber w s) ! v) = pc (workers s ! v)"
    by (cases "v = w"; cases "w < length (workers s)") (simp_all add: drop_cb_fiber_def not_less list_update_beyond)
qed (simp_all add: drop_cb_fiber_def)

lemma active_positive:
  assumes "sched_inv s" and "w < length (workers s)" and "has_work (pc (workers s ! w))"
  shows "0 < m_activeThreadCount s"
  using assms count_pc_update [OF assms(2), of has_work "(workers s ! w)\<lparr>pc := At_Loop\<rparr>"]
  by (simp add: sched_inv_def)

lemma idle_positive:
  assumes "sched_inv s" and "w < length (workers s)" and "pc (workers s ! w) = In_Idle"
  shows "0 < m_idleThreadCount s"
  using assms count_pc_update [OF assms(2), of "\<lambda>p. p = In_Idle" "(workers s ! w)\<lparr>pc := At_Loop\<rparr>"]
  by (simp add: sched_inv_def)

lemma task_left_inv:
  assumes inv: "sched_inv s" and w: "w < length (workers s)" and pc: "pc (workers s ! w) \<in> {In_Fiber f, In_Cb f}"
    and p: "p \<in> {Left_Fiber f, Left_Cb f}"
  shows "sched_inv (task_left w p s)"
  using pc p active_positive [OF inv w] by (auto simp: task_left_def task_ok_def intro!: goto_inv [OF inv w])

lemma after_fiber_inv:
  assumes inv: "sched_inv s" and w: "w < length (workers s)" and pc: "pc (workers s ! w) = Left_Fiber f"
  shows "sched_inv (after_fiber w f s)"
  using pc by (auto simp: after_fiber_def task_ok_def intro!: goto_inv [OF inv w])

lemma after_cb_inv:
  assumes inv: "sched_inv s" and w: "w < length (workers s)" and pc: "pc (workers s ! w) = Left_Cb f"
    and after: "after_cb w f s = (Inr (), s')"
  shows "sched_inv s'"
proof -
  consider "s' = goto w At_Loop (drop_cb_fiber w (Scheduler_schedule (Some f) None (- 1) s))"
    | s2 where "fiber_op (Fiber_reset f None False) s = (Inr (), s2)" "s' = goto w At_Loop s2"
    | "s' = goto w At_Loop (drop_cb_fiber w (s\<lparr>fs := set_state f HOLD (fs s)\<rparr>))"
    using after unfolding after_cb_def by (auto split: if_splits elim!: seq_InrE)
  then show ?thesis
  proof cases
    case (2 s2)
    then show ?thesis
      using pc fiber_op_InrD [OF 2(1)] by (auto simp: task_ok_def intro!: goto_inv [OF inv w])
  qed (use pc in \<open>auto simp: task_ok_def intro!: goto_inv [OF inv w]\<close>)
qed

lemma after_idle_inv:
  assumes inv: "sched_inv s" and w: "w < length (workers s)" and pc: "pc (workers s ! w) = In_Idle"
  shows "sched_inv (after_idle w s)"
  using pc idle_positive [OF inv w pc]
  by (auto simp: after_idle_def Let_def task_ok_def intro!: goto_inv [OF inv w])

lemma stop_sel:
  "workers (snd (Scheduler_stop here s)) = workers s \<and>
   m_activeThreadCount (snd (Scheduler_stop here s)) = m_activeThreadCount s \<and>
   m_idleThreadCount (snd (Scheduler_stop here s)) = m_idleThreadCount s"
  by (simp add: Scheduler_stop_def Let_def)

lemma sched_step_inv: "sched_step s s' \<Longrightarrow> sched_inv s \<Longrightarrow> sched_inv s'"
proof (induction rule: sched_step.induct)
  case (schedule s f cb thread)
  then show ?case
    by (simp add: sched_inv_cong [of "Scheduler_schedule f cb thread s" s])
next
  case (schedule_range s items)
  have "sched_inv (Scheduler_schedule_range items s) = sched_inv s"
    using schedule_loop_sel [of items False s]
    by (intro sched_inv_cong) (simp_all add: Scheduler_schedule_range_def Let_def case_prod_beta)
  with schedule_range show ?case by simp
next
  case (stop s here)
  have "sched_inv (snd (Scheduler_stop here s)) = sched_inv s"
    using stop_sel [of here s] by (intro sched_inv_cong) simp_all
  with stop show ?case by simp
next
  case (fiber_code s fsys)
  then show ?case
    by (simp add: sched_inv_cong [of "s\<lparr>fs := fsys\<rparr>" s])
qed (auto intro: run_pick_inv run_dispatch_inv task_left_inv after_fiber_inv after_cb_inv after_idle_inv)

lemma started_inv:
  assumes "Scheduler threads use_caller here other root fsys = Inr s0" and "Scheduler_start addrs s0 = (Inr (), s)"
  shows "sched_inv s"
proof -
  have z: "m_activeThreadCount s0 = 0" "m_idleThreadCount s0 = 0" "workers s0 = []" "m_stopping s0"
    using assms(1) by (auto simp: Scheduler_def split: if_splits)
  then have s: "s = s0\<lparr>m_stopping := False, workers := map (\<lambda>i. new_worker (addrs i)) [0..<m_threadCount s0]\<rparr>"
    using assms(2) by (simp add: Scheduler_start_def)
  show ?thesis
    using z by (auto simp: s sched_inv_def count_pc_def filter_empty_conv new_worker_def task_ok_def)
qed

lemma sched_reachable_inv: "sched_reachable s \<Longrightarrow> sched_inv s"
  by (induction rule: sched_reachable.induct) (auto intro: started_inv sched_step_inv)

section \<open>Batches\<close>

text \<open>The tasks a batch adds: one per non-null item, in order.\<close>

definition batch_tasks :: "(nat option \<times> nat option) list \<Rightarrow> task list" where
  "batch_tasks items =
    map (\<lambda>(f, cb). \<lparr>task_fiber = f, task_cb = cb, task_thread = - 1\<rparr>) (filter (\<lambda>(f, cb). f \<noteq> None \<or> cb \<noteq> None) items)"

lemma schedule_loop_tasks:
  "schedule_loop items n s =
    (n \<or> m_fibers s = [] \<and> items \<noteq> [], s\<lparr>m_fibers := m_fibers s @ batch_tasks items\<rparr>)"
proof (induction items arbitrary: n s)
  case (Cons item items)
  obtain f cb where "item = (f, cb)"
    by (cases item)
  then show ?case
    using Cons by (auto simp: scheduleNoLock_def Let_def batch_tasks_def)
qed (simp add: batch_tasks_def)

section \<open>A concrete scheduler\<close>

text \<open>One started worker with an empty queue.\<close>

definition example_scheduler :: scheduler where
  "example_scheduler = \<lparr>m_fibers = [], m_threadCount = 1, m_activeThreadCount = 0, m_idleThreadCount = 0,
    m_stopping = False, m_autoStop = False, m_rootThread = - 1, m_rootFiber = None,
    workers = [\<lparr>pc = At_Loop, idle_fiber = 300, cb_fiber = None\<rparr>], fs = example_fibers, tickles = 0\<rparr>"

lemma example_sched_reachable: "sched_reachable example_scheduler"
proof (rule sched_reachable.started)
  show "Scheduler 1 False 9 False 0 example_fibers =
      Inr (example_scheduler\<lparr>m_stopping := True, workers := []\<rparr>)"
    by (simp add: Scheduler_def example_scheduler_def)
  show "Scheduler_start (\<lambda>_. 300) (example_scheduler\<lparr>m_stopping := True, workers := []\<rparr>) = (Inr (), example_scheduler)"
    by (simp add: Scheduler_start_def example_scheduler_def new_worker_def)
qed

section \<open>Properties\<close>



text \<open>A worker only ever holds tasks meant for it: one picked with a thread id is picked by the
  thread of that id, in every reachable state.\<close>

theorem run_pick_affinity:
  assumes "sched_reachable s" and "w < length (workers s)"
    and "pc (workers s ! w) = Got ft True tickle_me" and "task_thread ft \<noteq> - 1"
  shows "task_thread ft = int w"
  using sched_reachable_inv [OF assms(1)] assms(2-4) by (force simp: sched_inv_def task_ok_def)

lemma run_pick_affinity_witness:
  "\<exists>s ft. sched_reachable s \<and> pc (workers s ! 0) = Got ft True False \<and> task_thread ft = 0"
proof -
  let ?s = "Scheduler_schedule None (Some 7) 0 example_scheduler"
  let ?ft = "\<lparr>task_fiber = None, task_cb = Some 7, task_thread = 0\<rparr>"
  obtain s' where s': "run_pick 0 ?s = (Inr (), s')" "pc (workers s' ! 0) = Got ?ft True False" "0 < length (workers s')"
    by (simp add: run_pick_def pick_Cons foreign_def executing_def example_scheduler_def
        Scheduler_schedule_def scheduleNoLock_def Scheduler_tickle_def goto_def)
  have "sched_reachable ?s"
    by (rule sched_reachable.step [OF example_sched_reachable sched_step.schedule])
  then have "sched_reachable s'"
    by (rule sched_reachable.step [OF _ sched_step.pick [OF _ _ s'(1)]])
      (simp_all add: example_scheduler_def Scheduler_schedule_def scheduleNoLock_def Scheduler_tickle_def)
  from run_pick_affinity [OF this s'(3,2)] this s'(2) show ?thesis
    by auto
qed

text \<open>What the locked section of \<open>run\<close> takes from the queue: the first task that is not for
  another thread and whose fiber is not executing; the other tasks stay, in order. It asks for
  a wake-up just when tasks remain behind the one taken or a task for another thread was passed
  over. When nothing can be taken the queue is untouched.\<close>

theorem run_pick_takes_first:
  assumes "pick st tid q = Inr (r, rest, tickle_me)"
  shows "case r of
    None \<Rightarrow> rest = q \<and> (\<forall>x\<in>set q. foreign tid x \<or> executing st x) \<and> (tickle_me \<longleftrightarrow> (\<exists>x\<in>set q. foreign tid x))
  | Some ft \<Rightarrow> \<exists>xs ys. q = xs @ ft # ys \<and> rest = xs @ ys \<and> \<not> foreign tid ft \<and> \<not> executing st ft \<and>
      (\<forall>x\<in>set xs. foreign tid x \<or> executing st x) \<and> (tickle_me \<longleftrightarrow> ys \<noteq> [] \<or> (\<exists>x\<in>set xs. foreign tid x))"
proof (cases r)
  case None
  then show ?thesis
    using pick_None [of st tid q] assms by simp
next
  case (Some ft)
  then show ?thesis
    using pick_Some [of st tid q ft] assms by auto
qed

lemma run_pick_takes_first_witness:
  "\<exists>xs ys. [\<lparr>task_fiber = None, task_cb = Some 1, task_thread = 5\<rparr>, \<lparr>task_fiber = Some 8, task_cb = None, task_thread = - 1\<rparr>]
    = xs @ \<lparr>task_fiber = Some 8, task_cb = None, task_thread = - 1\<rparr> # ys \<and> xs \<noteq> [] \<and> ys = []"
proof -
  let ?q = "[\<lparr>task_fiber = None, task_cb = Some 1, task_thread = 5\<rparr>, \<lparr>task_fiber = Some 8, task_cb = None, task_thread = - 1\<rparr>]"
  have "pick (\<lambda>_. READY) 3 ?q = Inr (Some \<lparr>task_fiber = Some 8, task_cb = None, task_thread = - 1\<rparr>,
      [\<lparr>task_fiber = None, task_cb = Some 1, task_thread = 5\<rparr>], True)"
    by (simp add: pick_Cons foreign_def executing_def)
  from run_pick_takes_first [OF this] show ?thesis
    by (auto simp: Cons_eq_append_conv)
qed

text \<open>Scheduling a batch appends its non-null items in order, for any thread, and wakes a worker
  just when the queue was empty and there was an item.\<close>

theorem Scheduler_schedule_batch:
  "m_fibers (Scheduler_schedule_range items s) = m_fibers s @ batch_tasks items \<and>
   tickles (Scheduler_schedule_range items s) = tickles s + (if m_fibers s = [] \<and> items \<noteq> [] then 1 else 0)"
  by (simp add: Scheduler_schedule_range_def schedule_loop_tasks Scheduler_tickle_def)

text \<open>\<open>YieldToHold\<close> is unsafe while its fiber is in the task queue, as \<open>switchTo\<close> puts it
  there: it leaves state \<open>EXEC\<close> before its context is saved, and a second worker that picks the
  task in between resumes a context that another thread is still executing.\<close>

theorem YieldToHold_race:
  assumes "fs_inv (fs s)" and "running (fs s) w1 = Some f" and "running (fs s) w2 = Some m"
    and "t_scheduler_fiber (fs s) w2 = Some m" and "w1 \<noteq> w2" and "w2 < length (workers s)"
    and "m_fibers s = \<lparr>task_fiber = Some f, task_cb = None, task_thread = - 1\<rparr> # rest"
  shows "\<exists>fs1 s2. yield_mark HOLD w1 addr (fs s) = (Inr f, fs1) \<and>
    run_pick w2 (s\<lparr>fs := fs1\<rparr>) = (Inr (), s2) \<and>
    pc (workers s2 ! w2) = Got \<lparr>task_fiber = Some f, task_cb = None, task_thread = - 1\<rparr> True (rest \<noteq> []) \<and>
    fst (run_dispatch default_stack addr' w2 \<lparr>task_fiber = Some f, task_cb = None, task_thread = - 1\<rparr>
      True (rest \<noteq> []) s2) = Inl Stale_Context"
proof -
  let ?ft = "\<lparr>task_fiber = Some f, task_cb = None, task_thread = - 1\<rparr>"
  obtain fb where fb: "fibers (fs s) f = Some fb" "m_ctx fb = Live" "m_state fb = EXEC"
    using fs_invD(2) [OF assms(1,2)] by blast
  obtain mb where mb: "fibers (fs s) m = Some mb"
    using fs_invD(2) [OF assms(1,3)] by blast
  have mf: "m \<noteq> f"
    using fs_invD(3) [OF assms(1,2)] assms(3,5) by blast
  let ?fs1 = "set_fiber f (fb\<lparr>m_state := HOLD\<rparr>) (fs s)"
  have mark: "yield_mark HOLD w1 addr (fs s) = (Inr f, ?fs1)"
    using yield_mark_ok [of "fs s" w1 f fb] fs_invD(1) [OF assms(1)] assms(2) fb by simp
  define s2 where "s2 = goto w2 (Got ?ft True (rest \<noteq> []))
    (s\<lparr>fs := ?fs1, m_fibers := rest, m_activeThreadCount := m_activeThreadCount s + 1\<rparr>)"
  have picked: "run_pick w2 (s\<lparr>fs := ?fs1\<rparr>) = (Inr (), s2)"
    using assms(7) by (simp add: run_pick_def pick_Cons foreign_def executing_def state_of_def s2_def)
  have fs2: "fs s2 = ?fs1"
    by (simp add: s2_def goto_def)
  have "fst (Fiber_swapIn w2 f ?fs1) = Inl Stale_Context"
    by (rule swapIn_live [where m = m and mb = mb and fb = "fb\<lparr>m_state := HOLD\<rparr>"])
      (use mb mf fb assms(4) in auto)
  then have "fst (fiber_op (Fiber_swapIn w2 f) s') = Inl Stale_Context" if "fs s' = ?fs1" for s'
    using that by (simp add: fiber_op_def case_prod_beta)
  then have stale: "fst (seq (fiber_op (Fiber_swapIn w2 f)) (\<lambda>_ s. (Inr (), goto w2 (In_Fiber f) s)) s') = Inl Stale_Context"
    if "fs s' = ?fs1" for s'
    unfolding seq_def case_prod_beta using that by simp
  have "fst (run_dispatch default_stack addr' w2 ?ft True (rest \<noteq> []) s2) = Inl Stale_Context"
    using stale [of s2] stale [of "Scheduler_tickle s2"] fs2
    by (simp add: run_dispatch_def Let_def state_of_def)
  moreover have "pc (workers s2 ! w2) = Got ?ft True (rest \<noteq> [])"
    using assms(6) by (simp add: s2_def goto_def)
  ultimately show ?thesis
    using mark picked by blast
qed

lemma YieldToHold_race_witness:
  "\<exists>fs1 s2. yield_mark HOLD 0 0 example_fibers = (Inr 200, fs1) \<and>
    fst (run_dispatch 0 0 1 \<lparr>task_fiber = Some 200, task_cb = None, task_thread = - 1\<rparr> True False s2) = Inl Stale_Context"
proof -
  let ?s = "example_scheduler\<lparr>workers := [new_worker 300, new_worker 301],
    m_fibers := [\<lparr>task_fiber = Some 200, task_cb = None, task_thread = - 1\<rparr>]\<rparr>"
  have fs: "fs ?s = example_fibers"
    by (simp add: example_scheduler_def)
  have "fs_inv (fs ?s)" "running (fs ?s) 0 = Some 200" "running (fs ?s) 1 = Some 101"
    "t_scheduler_fiber (fs ?s) 1 = Some 101"
    unfolding fs using example_fs_inv by (simp_all add: example_fibers_def)
  from YieldToHold_race [OF this, of "[]" 0 0 0] show ?thesis
    unfolding fs by auto
qed

end
