(* ===== verification/IO_Manager.thy ===== *)
theory IO_Manager
  imports Timer Scheduler
begin

text \<open>
  \<open>sylar/iomanager.{h,cpp}\<close>: waiting for events on file descriptors. One \<open>FdContext\<close> per
  descriptor says which events are awaited and by whom; \<open>epoll\<close> is told the same. The contexts are
  heap objects, since both the vector and the epoll instance hold pointers to them. What
  \<open>epoll_ctl\<close> returns is an argument (\<open>rt\<close>), and \<open>interest\<close> is the interest list as its manual
  describes it: changed by a successful call and by nothing else. Waiters that are handed to a
  scheduler are appended to \<open>handed\<close> in order.
\<close>

section \<open>State\<close>

type_synonym event = u32

definition EPOLLIN :: event where "EPOLLIN = 0x1"
definition EPOLLOUT :: event where "EPOLLOUT = 0x4"
definition EPOLLERR :: event where "EPOLLERR = 0x8"
definition EPOLLHUP :: event where "EPOLLHUP = 0x10"
definition EPOLLET :: event where "EPOLLET = 0x80000000"

abbreviation NONE :: event where "NONE \<equiv> 0"
definition READ :: event where "READ = EPOLLIN"
definition WRITE :: event where "WRITE = EPOLLOUT"

lemmas event_bits = READ_def WRITE_def EPOLLIN_def EPOLLOUT_def EPOLLERR_def EPOLLHUP_def EPOLLET_def

record event_context =
  ec_scheduler :: "nat option"
  ec_fiber :: "nat option"
  ec_cb :: "nat option"

record fd_context =
  read_ctx :: event_context
  write_ctx :: event_context
  ctx_fd :: nat
  events :: event

definition no_waiter :: event_context where
  "no_waiter = \<lparr>ec_scheduler = None, ec_fiber = None, ec_cb = None\<rparr>"

definition new_fd_context :: "nat \<Rightarrow> fd_context" where
  "new_fd_context fd = \<lparr>read_ctx = no_waiter, write_ctx = no_waiter, ctx_fd = fd, events = NONE\<rparr>"

record io_manager =
  contexts :: "fd_context list"
  m_fdContexts :: "nat list"
  m_pendingEventCount :: nat
  interest :: "nat \<Rightarrow> (event \<times> nat) option"
  handed :: "event_context list"

type_synonym 'a io_method = "(io_manager, 'a) action"

definition context_of :: "nat \<Rightarrow> io_manager \<Rightarrow> fd_context" where
  "context_of a io = contexts io ! a"

definition set_context :: "nat \<Rightarrow> fd_context \<Rightarrow> io_manager \<Rightarrow> io_manager" where
  "set_context a c io = io\<lparr>contexts := (contexts io)[a := c]\<rparr>"

section \<open>FdContext\<close>

definition getContext :: "event \<Rightarrow> fd_context \<Rightarrow> fault + event_context" where
  "getContext event c =
    (if event = READ then Inr (read_ctx c)
     else if event = WRITE then Inr (write_ctx c)
     else Inl (Assertion ''getContext''))"

definition putContext :: "event \<Rightarrow> event_context \<Rightarrow> fd_context \<Rightarrow> fd_context" where
  "putContext event ec c = (if event = READ then c\<lparr>read_ctx := ec\<rparr> else c\<lparr>write_ctx := ec\<rparr>)"

definition resetContext :: "event \<Rightarrow> fd_context \<Rightarrow> fd_context" where
  "resetContext event c = putContext event no_waiter c"

text \<open>
  \<open>triggerEvent\<close>: a callback is preferred to a fiber; scheduling through a null scheduler is a null
  dereference.
\<close>

definition triggerEvent :: "nat \<Rightarrow> event \<Rightarrow> unit io_method" where
  "triggerEvent a event io =
    (let c = context_of a io
     in if events c AND event = 0 then (Inl (Assertion ''events & event''), io)
        else
          let c1 = c\<lparr>events := events c AND NOT event\<rparr>; io1 = set_context a c1 io
          in case getContext event c1 of
               Inl e \<Rightarrow> (Inl e, io1)
             | Inr ec \<Rightarrow>
                 if ec_scheduler ec = None then (Inl Null_Deref, io1)
                 else
                   let item = (if ec_cb ec \<noteq> None then ec\<lparr>ec_fiber := None\<rparr> else ec)
                   in (Inr (), (set_context a (resetContext event c1) io1)\<lparr>handed := handed io1 @ [item]\<rparr>))"

section \<open>The descriptor table\<close>

text \<open>\<open>resize\<close> cuts the vector or extends it with null pointers, which the loop fills.\<close>

definition contextResize :: "nat \<Rightarrow> io_manager \<Rightarrow> io_manager" where
  "contextResize sz io =
    (let old = take sz (m_fdContexts io);
         fresh = map new_fd_context [length old..<sz]
     in io\<lparr>contexts := contexts io @ fresh,
           m_fdContexts := old @ [length (contexts io)..<length (contexts io) + length fresh]\<rparr>)"

definition IOManager :: io_manager where
  "IOManager = contextResize 32
    \<lparr>contexts = [], m_fdContexts = [], m_pendingEventCount = 0, interest = (\<lambda>_. None), handed = []\<rparr>"

text \<open>Indexing the vector outside its bounds, as a negative descriptor does, is undefined.\<close>

definition find_context :: "int \<Rightarrow> io_manager \<Rightarrow> fault + nat" where
  "find_context fd io =
    (if 0 \<le> fd \<and> fd < int (length (m_fdContexts io)) then Inr (m_fdContexts io ! nat fd) else Inl Out_Of_Bounds)"

text \<open>\<open>epoll_ctl\<close>: \<open>EPOLL_CTL_DEL\<close> when \<open>ev\<close> is \<open>None\<close>, \<open>EPOLL_CTL_ADD\<close> or \<open>EPOLL_CTL_MOD\<close> otherwise.\<close>

definition epoll_ctl :: "int \<Rightarrow> nat \<Rightarrow> (event \<times> nat) option \<Rightarrow> io_manager \<Rightarrow> io_manager" where
  "epoll_ctl rt fd ev io = (if rt = 0 then io\<lparr>interest := (interest io)(fd := ev)\<rparr> else io)"

section \<open>addEvent\<close>

text \<open>
  \<open>addEvent\<close> looks the context up under the read lock; when the table is too small it drops that
  lock, takes the write lock, resizes and looks again.
\<close>

definition addEvent_fits :: "int \<Rightarrow> io_manager \<Rightarrow> bool" where
  "addEvent_fits fd io \<longleftrightarrow> fd < int (length (m_fdContexts io))"

definition addEvent_grow :: "int \<Rightarrow> io_manager \<Rightarrow> io_manager" where
  "addEvent_grow fd io = contextResize (nat fd * 3 div 2) io"

text \<open>
  The part under the context's lock. \<open>sched\<close> is \<open>Scheduler::GetThis()\<close>, \<open>cur\<close> the running fiber and
  its state.
\<close>

definition addEvent_locked ::
  "int \<Rightarrow> nat option \<Rightarrow> nat \<times> fiber_state \<Rightarrow> int \<Rightarrow> nat \<Rightarrow> event \<Rightarrow> nat option \<Rightarrow> int io_method" where
  "addEvent_locked rt sched cur fd a event cb io =
    (let c = context_of a io
     in if events c AND event \<noteq> 0 then (Inl (Assertion ''!(fd_ctx->events & event)''), io)
        else
          let io1 = epoll_ctl rt (nat fd) (Some (EPOLLET OR events c OR event, a)) io
          in if rt = - 1 then (Inr (- 1), io1)
             else
               let c1 = c\<lparr>events := events c OR event\<rparr>;
                   io2 = set_context a c1 (io1\<lparr>m_pendingEventCount := m_pendingEventCount io1 + 1\<rparr>)
               in case getContext event c1 of
                    Inl e \<Rightarrow> (Inl e, io2)
                  | Inr ec \<Rightarrow>
                      if ec \<noteq> no_waiter then (Inl (Assertion ''!event_ctx''), io2)
                      else if cb \<noteq> None
                      then (Inr 0, set_context a (putContext event (ec\<lparr>ec_scheduler := sched, ec_cb := cb\<rparr>) c1) io2)
                      else
                        let io3 = set_context a
                          (putContext event (ec\<lparr>ec_scheduler := sched, ec_fiber := Some (fst cur)\<rparr>) c1) io2
                        in if snd cur = EXEC then (Inr 0, io3)
                           else (Inl (Assertion ''getState() == Fiber::EXEC''), io3))"

definition addEvent ::
  "int \<Rightarrow> nat option \<Rightarrow> nat \<times> fiber_state \<Rightarrow> int \<Rightarrow> event \<Rightarrow> nat option \<Rightarrow> int io_method" where
  "addEvent rt sched cur fd event cb io =
    (let io1 = (if addEvent_fits fd io then io else addEvent_grow fd io)
     in case find_context fd io1 of
          Inl e \<Rightarrow> (Inl e, io1)
        | Inr a \<Rightarrow> addEvent_locked rt sched cur fd a event cb io1)"

section \<open>delEvent, cancelEvent and cancelAll\<close>

definition delEvent_locked :: "int \<Rightarrow> int \<Rightarrow> nat \<Rightarrow> event \<Rightarrow> bool io_method" where
  "delEvent_locked rt fd a event io =
    (let c = context_of a io
     in if events c AND event = 0 then (Inr False, io)
        else
          let new_events = events c AND NOT event;
              io1 = epoll_ctl rt (nat fd) (if new_events \<noteq> 0 then Some (EPOLLET OR new_events, a) else None) io
          in if rt \<noteq> 0 then (Inr False, io1)
             else
               let c1 = c\<lparr>events := new_events\<rparr>;
                   io2 = set_context a c1 (io1\<lparr>m_pendingEventCount := size_sub (m_pendingEventCount io1) 1\<rparr>)
               in case getContext event c1 of
                    Inl e \<Rightarrow> (Inl e, io2)
                  | Inr _ \<Rightarrow> (Inr True, set_context a (resetContext event c1) io2))"

definition delEvent :: "int \<Rightarrow> int \<Rightarrow> event \<Rightarrow> bool io_method" where
  "delEvent rt fd event io =
    (if int (length (m_fdContexts io)) \<le> fd then (Inr False, io)
     else case find_context fd io of Inl e \<Rightarrow> (Inl e, io) | Inr a \<Rightarrow> delEvent_locked rt fd a event io)"

text \<open>A trigger followed by \<open>--m_pendingEventCount\<close>.\<close>

definition trigger_pending :: "nat \<Rightarrow> event \<Rightarrow> unit io_method" where
  "trigger_pending a event =
    seq (triggerEvent a event) (\<lambda>_ io. (Inr (), io\<lparr>m_pendingEventCount := size_sub (m_pendingEventCount io) 1\<rparr>))"

definition cancelEvent_locked :: "int \<Rightarrow> int \<Rightarrow> nat \<Rightarrow> event \<Rightarrow> bool io_method" where
  "cancelEvent_locked rt fd a event io =
    (let c = context_of a io
     in if events c AND event = 0 then (Inr False, io)
        else
          let new_events = events c AND NOT event;
              io1 = epoll_ctl rt (nat fd) (if new_events \<noteq> 0 then Some (EPOLLET OR new_events, a) else None) io
          in if rt \<noteq> 0 then (Inr False, io1)
             else seq (trigger_pending a event) (\<lambda>_. ret True) io1)"

definition cancelEvent :: "int \<Rightarrow> int \<Rightarrow> event \<Rightarrow> bool io_method" where
  "cancelEvent rt fd event io =
    (if int (length (m_fdContexts io)) \<le> fd then (Inr False, io)
     else case find_context fd io of Inl e \<Rightarrow> (Inl e, io) | Inr a \<Rightarrow> cancelEvent_locked rt fd a event io)"

definition cancelAll_locked :: "int \<Rightarrow> int \<Rightarrow> nat \<Rightarrow> bool io_method" where
  "cancelAll_locked rt fd a io =
    (if events (context_of a io) = 0 then (Inr False, io)
     else
       let io1 = epoll_ctl rt (nat fd) None io
       in if rt \<noteq> 0 then (Inr False, io1)
          else
            seq (\<lambda>io. if events (context_of a io) AND READ \<noteq> 0 then trigger_pending a READ io else (Inr (), io)) (\<lambda>_.
            seq (\<lambda>io. if events (context_of a io) AND WRITE \<noteq> 0 then trigger_pending a WRITE io else (Inr (), io)) (\<lambda>_ io.
              if events (context_of a io) = 0 then (Inr True, io)
              else (Inl (Assertion ''fd_ctx->events == 0''), io))) io1)"

definition cancelAll :: "int \<Rightarrow> int \<Rightarrow> bool io_method" where
  "cancelAll rt fd io =
    (if int (length (m_fdContexts io)) \<le> fd then (Inr False, io)
     else case find_context fd io of Inl e \<Rightarrow> (Inl e, io) | Inr a \<Rightarrow> cancelAll_locked rt fd a io)"

section \<open>The idle loop\<close>

text \<open>The timeout passed to \<open>epoll_wait\<close>: casts to \<open>int\<close> keep the low 32 bits.\<close>

definition epoll_timeout :: "u64 \<Rightarrow> s32" where
  "epoll_timeout next_timeout =
    (if next_timeout \<noteq> NOT 0
     then if 3000 < sint (ucast next_timeout :: s32) then 3000 else ucast next_timeout
     else 3000)"

text \<open>One event of the batch, with \<open>event.events\<close> and \<open>event.data.ptr\<close>.\<close>

definition idle_event :: "int \<Rightarrow> event \<Rightarrow> nat \<Rightarrow> unit io_method" where
  "idle_event rt2 ev a io =
    (let c = context_of a io;
         ev' = (if ev AND (EPOLLERR OR EPOLLHUP) \<noteq> 0 then ev OR EPOLLIN OR EPOLLOUT else ev);
         real_events = (if ev' AND EPOLLIN \<noteq> 0 then READ else NONE) OR (if ev' AND EPOLLOUT \<noteq> 0 then WRITE else NONE)
     in if events c AND real_events = NONE then (Inr (), io)
        else
          let left_events = events c AND NOT real_events;
              io1 = epoll_ctl rt2 (ctx_fd c) (if left_events \<noteq> 0 then Some (EPOLLET OR left_events, a) else None) io
          in if rt2 \<noteq> 0 then (Inr (), io1)
             else
               seq (\<lambda>io. if real_events AND READ \<noteq> 0 then trigger_pending a READ io else (Inr (), io)) (\<lambda>_ io.
                 if real_events AND WRITE \<noteq> 0 then trigger_pending a WRITE io else (Inr (), io)) io1)"

fun idle_events :: "(int \<times> event \<times> nat) list \<Rightarrow> unit io_method" where
  "idle_events [] = ret ()"
| "idle_events ((rt2, ev, a) # evs) = seq (idle_event rt2 ev a) (\<lambda>_. idle_events evs)"

text \<open>\<open>stopping(timeout)\<close>: the timeout, the answer, and the manager's timers after the question.\<close>

definition IOManager_stopping :: "u64 \<Rightarrow> timer_manager \<Rightarrow> scheduler \<Rightarrow> io_manager \<Rightarrow> (u64 \<times> bool) \<times> timer_manager" where
  "IOManager_stopping now tm s io =
    (let (timeout, tm1) = TimerManager_getNextTimer now tm
     in ((timeout, timeout = NOT 0 \<and> m_pendingEventCount io = 0 \<and> Scheduler_stopping s), tm1))"

definition IOManager_tickle :: "scheduler \<Rightarrow> bool" where
  "IOManager_tickle s \<longleftrightarrow> 0 < m_idleThreadCount s"

section \<open>Invariant\<close>

text \<open>
  A registered event has one waiter, a fiber or a callback, with a scheduler to hand it to; an
  event that is not registered has none. The pending count counts the registered events, the
  table maps each descriptor to its own context, and the epoll instance watches exactly what the
  contexts await.
\<close>

definition slot_ok :: "bool \<Rightarrow> event_context \<Rightarrow> bool" where
  "slot_ok registered ec \<longleftrightarrow>
    (if registered then ec_scheduler ec \<noteq> None \<and> (ec_fiber ec = None) \<noteq> (ec_cb ec = None) else ec = no_waiter)"

definition registered :: "event \<Rightarrow> fd_context \<Rightarrow> bool" where
  "registered event c \<longleftrightarrow> events c AND event \<noteq> 0"

definition ctx_ok :: "fd_context \<Rightarrow> bool" where
  "ctx_ok c \<longleftrightarrow> events c \<in> {NONE, READ, WRITE, READ OR WRITE} \<and>
    slot_ok (registered READ c) (read_ctx c) \<and> slot_ok (registered WRITE c) (write_ctx c)"

definition pending :: "fd_context \<Rightarrow> nat" where
  "pending c = (if registered READ c then 1 else 0) + (if registered WRITE c then 1 else 0)"

definition watched :: "nat \<Rightarrow> fd_context \<Rightarrow> (event \<times> nat) option" where
  "watched a c = (if events c = NONE then None else Some (EPOLLET OR events c, a))"

definition io_inv :: "io_manager \<Rightarrow> bool" where
  "io_inv io \<longleftrightarrow> (\<forall>c\<in>set (contexts io). ctx_ok c) \<and>
    m_pendingEventCount io = sum_list (map pending (contexts io)) \<and>
    (\<forall>i < length (m_fdContexts io). m_fdContexts io ! i < length (contexts io) \<and>
      ctx_fd (contexts io ! (m_fdContexts io ! i)) = i \<and>
      interest io i = watched (m_fdContexts io ! i) (contexts io ! (m_fdContexts io ! i))) \<and>
    (\<forall>i \<ge> length (m_fdContexts io). interest io i = None)"

lemma io_invD:
  assumes "io_inv io" and "i < length (m_fdContexts io)"
  shows "m_fdContexts io ! i < length (contexts io)" and "ctx_fd (contexts io ! (m_fdContexts io ! i)) = i"
    and "interest io i = watched (m_fdContexts io ! i) (contexts io ! (m_fdContexts io ! i))"
    and "ctx_ok (contexts io ! (m_fdContexts io ! i))"
  using assms by (auto simp: io_inv_def)

lemma sum_pending_update:
  "a < length cs \<Longrightarrow> sum_list (map f (cs[a := c])) + f (cs ! a) = sum_list (map f cs) + (f c :: nat)"
proof (induction cs arbitrary: a)
  case (Cons x xs)
  then show ?case
    by (cases a) (auto simp: add.commute add.left_commute)
qed simp

text \<open>Every operation replaces one context and what epoll watches for it.\<close>

lemma replace_context_inv:
  assumes inv: "io_inv io" and i: "i < length (m_fdContexts io)" and a: "a = m_fdContexts io ! i"
    and "ctx_ok c'" and "ctx_fd c' = i"
    and n: "n + pending (contexts io ! a) = m_pendingEventCount io + pending c'"
  shows "io_inv (io\<lparr>contexts := (contexts io)[a := c'], m_pendingEventCount := n,
    interest := (interest io)(i := watched a c'), handed := h\<rparr>)"
proof -
  let ?cs = "(contexts io)[a := c']"
  have al: "a < length (contexts io)"
    using io_invD(1) [OF inv i] by (simp add: a)
  have inj: "m_fdContexts io ! j \<noteq> a" if "j < length (m_fdContexts io)" "j \<noteq> i" for j
    using io_invD(2) [OF inv i] io_invD(2) [OF inv that(1)] that(2) by (auto simp: a)
  have "\<forall>c\<in>set ?cs. ctx_ok c"
    using inv assms(4) set_update_subset_insert [of "contexts io" a c'] by (auto simp: io_inv_def)
  moreover have "n = sum_list (map pending ?cs)"
    using sum_pending_update [OF al, of pending c'] n inv by (simp add: io_inv_def)
  moreover have "m_fdContexts io ! j < length ?cs \<and> ctx_fd (?cs ! (m_fdContexts io ! j)) = j \<and>
      ((interest io)(i := watched a c')) j = watched (m_fdContexts io ! j) (?cs ! (m_fdContexts io ! j))"
    if j: "j < length (m_fdContexts io)" for j
  proof (cases "j = i")
    case True
    then show ?thesis
      using al assms(5) by (simp add: a)
  next
    case False
    then show ?thesis
      using io_invD [OF inv j] inj [OF j False] by simp
  qed
  moreover have "((interest io)(i := watched a c')) j = None" if "length (m_fdContexts io) \<le> j" for j
    using inv i that by (simp add: io_inv_def)
  ultimately show ?thesis
    by (simp add: io_inv_def)
qed

text \<open>Registering and unregistering one of the two events.\<close>

definition slot :: "event \<Rightarrow> fd_context \<Rightarrow> event_context" where
  "slot event c = (if event = READ then read_ctx c else write_ctx c)"

definition with_event :: "event \<Rightarrow> event_context \<Rightarrow> fd_context \<Rightarrow> fd_context" where
  "with_event event ec c = putContext event ec (c\<lparr>events := events c OR event\<rparr>)"

definition without_event :: "event \<Rightarrow> fd_context \<Rightarrow> fd_context" where
  "without_event event c = resetContext event (c\<lparr>events := events c AND NOT event\<rparr>)"

lemmas ctx_simps = ctx_ok_def registered_def pending_def slot_ok_def slot_def with_event_def without_event_def
  putContext_def resetContext_def event_bits

lemma ctx_fd_kept [simp]: "ctx_fd (with_event event ec c) = ctx_fd c" "ctx_fd (without_event event c) = ctx_fd c"
  by (simp_all add: with_event_def without_event_def putContext_def resetContext_def)

lemma getContext_slot: "event \<in> {READ, WRITE} \<Longrightarrow> getContext event c = Inr (slot event c)"
  by (auto simp: getContext_def slot_def event_bits)

lemma with_event_ok:
  assumes "ctx_ok c" and "event \<in> {READ, WRITE}" and "\<not> registered event c" and "slot_ok True ec"
  shows "ctx_ok (with_event event ec c)" and "pending (with_event event ec c) = pending c + 1"
    and "slot event c = no_waiter"
  using assms by (auto simp: ctx_simps)

lemma without_event_ok:
  assumes "ctx_ok c" and "event \<in> {READ, WRITE}" and "registered event c"
  shows "ctx_ok (without_event event c)" and "pending (without_event event c) + 1 = pending c"
    and "slot_ok True (slot event c)"
  using assms by (auto simp: ctx_simps)

section \<open>What each operation does\<close>

lemma slot_events [simp]: "slot event (c\<lparr>events := e\<rparr>) = slot event c"
  by (simp add: slot_def)

lemma waiter_item: "slot_ok True ec \<Longrightarrow> (if ec_cb ec \<noteq> None then ec\<lparr>ec_fiber := None\<rparr> else ec) = ec"
  by (cases ec) (auto simp: slot_ok_def)

lemma pending_count:
  assumes "io_inv io" and "i < length (m_fdContexts io)"
  shows "pending (contexts io ! (m_fdContexts io ! i)) \<le> m_pendingEventCount io"
  using assms io_invD(1) [OF assms] member_le_sum_list [of "pending (contexts io ! (m_fdContexts io ! i))" "map pending (contexts io)"]
  by (simp add: io_inv_def)

text \<open>Triggering a registered event hands its waiter over and leaves the event unregistered.\<close>

lemma trigger_pending_ok:
  assumes "a < length (contexts io)" and "ctx_ok (contexts io ! a)" and ev: "event \<in> {READ, WRITE}"
    and reg: "registered event (contexts io ! a)" and "0 < m_pendingEventCount io"
  shows "trigger_pending a event io =
    (Inr (), io\<lparr>contexts := (contexts io)[a := without_event event (contexts io ! a)],
       m_pendingEventCount := m_pendingEventCount io - 1,
       handed := handed io @ [slot event (contexts io ! a)]\<rparr>)"
proof -
  let ?c = "contexts io ! a"
  have ok: "slot_ok True (slot event ?c)"
    by (rule without_event_ok(3) [OF assms(2) ev reg])
  have "triggerEvent a event io =
    (Inr (), io\<lparr>contexts := (contexts io)[a := without_event event ?c], handed := handed io @ [slot event ?c]\<rparr>)"
    using reg ok waiter_item [OF ok] getContext_slot [OF ev]
    by (cases "ec_cb (slot event ?c) = None") (simp_all add: triggerEvent_def context_of_def set_context_def registered_def without_event_def slot_ok_def Let_def)
  then show ?thesis
    using assms(5) by (simp add: trigger_pending_def method_simps)
qed

lemma addEvent_locked_ok:
  assumes "a < length (contexts io)" and "ctx_ok (contexts io ! a)" and ev: "event \<in> {READ, WRITE}"
    and "\<not> registered event (contexts io ! a)" and "cb \<noteq> None \<or> snd cur = EXEC"
  shows "addEvent_locked 0 (Some sched) cur fd a event cb io =
    (let ec = \<lparr>ec_scheduler = Some sched, ec_fiber = (if cb = None then Some (fst cur) else None), ec_cb = cb\<rparr>;
         c' = with_event event ec (contexts io ! a)
     in (Inr 0, io\<lparr>contexts := (contexts io)[a := c'], m_pendingEventCount := m_pendingEventCount io + 1,
           interest := (interest io)(nat fd := watched a c')\<rparr>))"
proof -
  let ?c = "contexts io ! a"
  have slot: "slot event ?c = no_waiter"
    using with_event_ok(3) [OF assms(2) ev assms(4), of "\<lparr>ec_scheduler = Some sched, ec_fiber = None, ec_cb = Some 0\<rparr>"]
    by (simp add: slot_ok_def)
  have "event \<noteq> 0"
    using ev by (auto simp: event_bits)
  then have "events ?c OR event \<noteq> 0"
    by (simp add: or_eq_0_iff)
  then have w: "watched a (putContext event ec (?c\<lparr>events := events ?c OR event\<rparr>)) = Some (EPOLLET OR events ?c OR event, a)" for ec
    by (auto simp: watched_def putContext_def or.assoc)
  show ?thesis
    using assms(1,4,5) slot getContext_slot [OF ev]
    by (auto simp: addEvent_locked_def context_of_def set_context_def registered_def epoll_ctl_def Let_def w
        with_event_def no_waiter_def slot_ok_def)
qed

lemma delEvent_locked_ok:
  assumes "a < length (contexts io)" and "event \<in> {READ, WRITE}" and "registered event (contexts io ! a)"
    and "0 < m_pendingEventCount io"
  shows "delEvent_locked 0 fd a event io =
    (let c' = without_event event (contexts io ! a)
     in (Inr True, io\<lparr>contexts := (contexts io)[a := c'], m_pendingEventCount := m_pendingEventCount io - 1,
           interest := (interest io)(nat fd := watched a c')\<rparr>))"
  using assms getContext_slot [OF assms(2)]
  by (auto simp: delEvent_locked_def context_of_def set_context_def registered_def epoll_ctl_def Let_def
      watched_def without_event_def resetContext_def putContext_def)

lemma cancelEvent_locked_ok:
  assumes "a < length (contexts io)" and "ctx_ok (contexts io ! a)" and "event \<in> {READ, WRITE}"
    and "registered event (contexts io ! a)" and "0 < m_pendingEventCount io"
  shows "cancelEvent_locked 0 fd a event io =
    (let c' = without_event event (contexts io ! a)
     in (Inr True, io\<lparr>contexts := (contexts io)[a := c'], m_pendingEventCount := m_pendingEventCount io - 1,
           interest := (interest io)(nat fd := watched a c'),
           handed := handed io @ [slot event (contexts io ! a)]\<rparr>))"
proof -
  let ?c = "contexts io ! a"
  have w: "watched a (without_event event ?c) =
      (if events ?c AND NOT event \<noteq> 0 then Some (EPOLLET OR (events ?c AND NOT event), a) else None)"
    by (simp add: watched_def without_event_def resetContext_def putContext_def)
  let ?io1 = "epoll_ctl 0 (nat fd) (watched a (without_event event ?c)) io"
  have "trigger_pending a event ?io1 =
    (Inr (), ?io1\<lparr>contexts := (contexts io)[a := without_event event ?c],
       m_pendingEventCount := m_pendingEventCount io - 1, handed := handed io @ [slot event ?c]\<rparr>)"
    using assms by (subst trigger_pending_ok) (simp_all add: epoll_ctl_def)
  then show ?thesis
    using assms(4) w
    by (simp add: cancelEvent_locked_def context_of_def registered_def method_simps Let_def) (simp add: epoll_ctl_def)
qed

section \<open>The invariant is kept\<close>

lemma registered_pending: "registered event c \<Longrightarrow> event \<in> {READ, WRITE} \<Longrightarrow> 0 < pending c"
  by (auto simp: pending_def)

lemma unregister_inv:
  assumes inv: "io_inv io" and i: "i < length (m_fdContexts io)" and a: "a = m_fdContexts io ! i"
    and ev: "event \<in> {READ, WRITE}" and reg: "registered event (contexts io ! a)"
  shows "io_inv (io\<lparr>contexts := (contexts io)[a := without_event event (contexts io ! a)],
      m_pendingEventCount := m_pendingEventCount io - 1,
      interest := (interest io)(i := watched a (without_event event (contexts io ! a))), handed := h\<rparr>)"
    and "0 < m_pendingEventCount io"
proof -
  note D = io_invD [OF inv i, folded a]
  note W = without_event_ok [OF D(4) ev reg]
  show pos: "0 < m_pendingEventCount io"
    using registered_pending [OF reg ev] pending_count [OF inv i] by (simp add: a)
  have "m_pendingEventCount io - 1 + pending (contexts io ! a) =
      m_pendingEventCount io + pending (without_event event (contexts io ! a))"
    using W(2) pos by linarith
  then show "io_inv (io\<lparr>contexts := (contexts io)[a := without_event event (contexts io ! a)],
      m_pendingEventCount := m_pendingEventCount io - 1,
      interest := (interest io)(i := watched a (without_event event (contexts io ! a))), handed := h\<rparr>)"
    using W(1) D(2) by (intro replace_context_inv [OF inv i a]) simp_all
qed

lemma cancelEvent_inv:
  assumes inv: "io_inv io" and i: "i < length (m_fdContexts io)" and ev: "event \<in> {READ, WRITE}"
    and reg: "registered event (contexts io ! (m_fdContexts io ! i))"
  shows "\<exists>io'. cancelEvent 0 (int i) event io = (Inr True, io') \<and> io_inv io' \<and>
    handed io' = handed io @ [slot event (contexts io ! (m_fdContexts io ! i))] \<and>
    contexts io' = (contexts io)[m_fdContexts io ! i := without_event event (contexts io ! (m_fdContexts io ! i))]"
proof -
  note D = io_invD [OF inv i]
  note U = unregister_inv [OF inv i refl ev reg]
  show ?thesis
    using i cancelEvent_locked_ok [OF D(1,4) ev reg U(2), of "int i"] U(1)
    by (simp add: cancelEvent_def find_context_def Let_def)
qed

lemma delEvent_inv:
  assumes inv: "io_inv io" and i: "i < length (m_fdContexts io)" and ev: "event \<in> {READ, WRITE}"
    and reg: "registered event (contexts io ! (m_fdContexts io ! i))"
  shows "\<exists>io'. delEvent 0 (int i) event io = (Inr True, io') \<and> io_inv io' \<and> handed io' = handed io \<and>
    contexts io' = (contexts io)[m_fdContexts io ! i := without_event event (contexts io ! (m_fdContexts io ! i))]"
proof -
  note D = io_invD [OF inv i]
  note U = unregister_inv(1) [OF inv i refl ev reg, of "handed io"] unregister_inv(2) [OF inv i refl ev reg]
  have "io\<lparr>contexts := cs, m_pendingEventCount := n, interest := f, handed := handed io\<rparr> =
    io\<lparr>contexts := cs, m_pendingEventCount := n, interest := f\<rparr>" for cs n f
    by simp
  then show ?thesis
    using i delEvent_locked_ok [OF D(1) ev reg U(2), of "int i"] U(1)
    by (simp add: delEvent_def find_context_def Let_def)
qed

text \<open>A context that neither fails nor is new is grown into the table without changing the rest.\<close>

lemma contextResize_grow_inv:
  assumes "io_inv io" and "length (m_fdContexts io) \<le> sz"
  shows "io_inv (contextResize sz io)"
proof -
  let ?n = "length (m_fdContexts io)" and ?m = "length (contexts io)"
  have take: "take sz (m_fdContexts io) = m_fdContexts io"
    using assms(2) by simp
  have r: "contextResize sz io = io\<lparr>contexts := contexts io @ map new_fd_context [?n..<sz],
      m_fdContexts := m_fdContexts io @ [?m..<?m + (sz - ?n)]\<rparr>"
    by (simp add: contextResize_def take Let_def)
  have fresh: "ctx_ok (new_fd_context i)" "pending (new_fd_context i) = 0" "watched a (new_fd_context i) = None" for i a
    by (simp_all add: ctx_simps new_fd_context_def watched_def)
  have "sum_list (map pending (map new_fd_context [?n..<sz])) = 0"
    by (simp add: fresh comp_def sum_list_0)
  then have "m_pendingEventCount io = sum_list (map pending (contexts io @ map new_fd_context [?n..<sz]))"
    using assms(1) by (simp add: io_inv_def)
  moreover have "\<forall>c\<in>set (contexts io @ map new_fd_context [?n..<sz]). ctx_ok c"
    using assms(1) by (auto simp: io_inv_def fresh)
  moreover have "(m_fdContexts io @ [?m..<?m + (sz - ?n)]) ! i < length (contexts io @ map new_fd_context [?n..<sz]) \<and>
      ctx_fd ((contexts io @ map new_fd_context [?n..<sz]) ! ((m_fdContexts io @ [?m..<?m + (sz - ?n)]) ! i)) = i \<and>
      interest io i = watched ((m_fdContexts io @ [?m..<?m + (sz - ?n)]) ! i)
        ((contexts io @ map new_fd_context [?n..<sz]) ! ((m_fdContexts io @ [?m..<?m + (sz - ?n)]) ! i))"
    if i: "i < sz" for i
  proof (cases "i < ?n")
    case True
    then show ?thesis
      using io_invD [OF assms(1) True] by (simp add: nth_append)
  next
    case False
    then have "(m_fdContexts io @ [?m..<?m + (sz - ?n)]) ! i = ?m + (i - ?n)"
      using i by (simp add: nth_append)
    moreover have "(contexts io @ map new_fd_context [?n..<sz]) ! (?m + (i - ?n)) = new_fd_context i"
      using False i by (simp add: nth_append)
    moreover have "ctx_fd (new_fd_context i) = i"
      by (simp add: new_fd_context_def)
    ultimately show ?thesis
      using False i assms(1) by (simp add: fresh io_inv_def)
  qed
  moreover have "\<forall>i \<ge> sz. interest io i = None"
    using assms by (simp add: io_inv_def)
  ultimately show ?thesis
    using assms(2) unfolding r by (simp add: io_inv_def)
qed

lemma IOManager_inv: "io_inv IOManager"
  unfolding IOManager_def by (rule contextResize_grow_inv) (simp_all add: io_inv_def)

subsection \<open>Triggers in sequence\<close>

definition fire :: "event \<Rightarrow> fd_context \<Rightarrow> fd_context" where
  "fire event c = (if registered event c then without_event event c else c)"

definition waiters :: "event \<Rightarrow> fd_context \<Rightarrow> event_context list" where
  "waiters event c = (if registered event c then [slot event c] else [])"

lemma fire_simps [simp]:
  "ctx_fd (fire event c) = ctx_fd c"
  "\<not> registered event (fire event c)"
  by (auto simp: fire_def registered_def without_event_def resetContext_def putContext_def bit_eq_iff bit_simps)

lemma fire_other:
  assumes "ctx_ok c"
  shows "registered WRITE (fire READ c) = registered WRITE c" and "slot WRITE (fire READ c) = slot WRITE c"
    and "registered READ (fire WRITE c) = registered READ c"
  using assms by (auto simp: fire_def ctx_simps)

lemma fire_ok:
  assumes "ctx_ok c" and "event \<in> {READ, WRITE}"
  shows "ctx_ok (fire event c)" and "pending (fire event c) + length (waiters event c) = pending c"
  using without_event_ok [OF assms] assms(1) by (auto simp: fire_def waiters_def)

lemma trigger_if_ok:
  assumes "a < length (contexts io)" and "ctx_ok (contexts io ! a)" and ev: "event \<in> {READ, WRITE}"
    and "pending (contexts io ! a) \<le> m_pendingEventCount io"
    and "b = registered event (contexts io ! a)"
  shows "(if b then trigger_pending a event io else (Inr (), io)) =
    (Inr (), io\<lparr>contexts := (contexts io)[a := fire event (contexts io ! a)],
       m_pendingEventCount := m_pendingEventCount io - length (waiters event (contexts io ! a)),
       handed := handed io @ waiters event (contexts io ! a)\<rparr>)"
proof (cases b)
  case True
  then have "0 < m_pendingEventCount io"
    using assms(4,5) registered_pending [OF _ ev, of "contexts io ! a"] by simp
  then show ?thesis
    using True assms trigger_pending_ok [OF assms(1,2) ev] by (simp add: fire_def waiters_def)
next
  case False
  then show ?thesis
    using assms(5) by (simp add: fire_def waiters_def)
qed

definition fire_both :: "fd_context \<Rightarrow> fd_context" where
  "fire_both c = fire WRITE (fire READ c)"

lemma fire_both_ok:
  assumes "ctx_ok c"
  shows "ctx_ok (fire_both c)" and "pending (fire_both c) = 0" and "events (fire_both c) = 0"
    and "pending c = length (waiters READ c @ waiters WRITE c)"
  using assms by (auto simp: fire_both_def fire_def waiters_def ctx_simps)

text \<open>Both events of a context in a row, each if it is registered.\<close>

lemma trigger_both_ok:
  assumes "a < length (contexts io)" and "ctx_ok (contexts io ! a)"
    and "pending (contexts io ! a) \<le> m_pendingEventCount io"
  shows "seq (\<lambda>io. if events (context_of a io) AND READ \<noteq> 0 then trigger_pending a READ io else (Inr (), io)) (\<lambda>_ io.
      if events (context_of a io) AND WRITE \<noteq> 0 then trigger_pending a WRITE io else (Inr (), io)) io =
    (Inr (), io\<lparr>contexts := (contexts io)[a := fire_both (contexts io ! a)],
       m_pendingEventCount := m_pendingEventCount io - pending (contexts io ! a),
       handed := handed io @ waiters READ (contexts io ! a) @ waiters WRITE (contexts io ! a)\<rparr>)"
proof -
  let ?c = "contexts io ! a"
  let ?io1 = "io\<lparr>contexts := (contexts io)[a := fire READ ?c],
    m_pendingEventCount := m_pendingEventCount io - length (waiters READ ?c), handed := handed io @ waiters READ ?c\<rparr>"
  have one: "(if events (context_of a io) AND READ \<noteq> 0 then trigger_pending a READ io else (Inr (), io)) = (Inr (), ?io1)"
    using assms by (intro trigger_if_ok) (simp_all add: context_of_def registered_def)
  have c1: "contexts ?io1 ! a = fire READ ?c" and ok1: "ctx_ok (fire READ ?c)"
    and n1: "pending (fire READ ?c) \<le> m_pendingEventCount ?io1"
    using assms(1,3) fire_ok [OF assms(2), of READ] by simp_all
  have two: "(if events (context_of a ?io1) AND WRITE \<noteq> 0 then trigger_pending a WRITE ?io1 else (Inr (), ?io1)) =
    (Inr (), ?io1\<lparr>contexts := (contexts ?io1)[a := fire WRITE (fire READ ?c)],
       m_pendingEventCount := m_pendingEventCount ?io1 - length (waiters WRITE (fire READ ?c)),
       handed := handed ?io1 @ waiters WRITE (fire READ ?c)\<rparr>)"
    using assms(1) ok1 n1 c1 by (subst trigger_if_ok) (simp_all add: context_of_def registered_def)
  have "waiters WRITE (fire READ ?c) = waiters WRITE ?c"
    using fire_other [OF assms(2)] by (simp add: waiters_def)
  then show ?thesis
    using one two fire_both_ok(4) [OF assms(2)]
    by (simp add: method_simps fire_both_def del: if_split)
qed

subsection \<open>cancelAll\<close>

lemma fire_both_inv:
  assumes inv: "io_inv io" and i: "i < length (m_fdContexts io)" and a: "a = m_fdContexts io ! i"
  shows "io_inv (io\<lparr>contexts := (contexts io)[a := fire_both (contexts io ! a)],
    m_pendingEventCount := m_pendingEventCount io - pending (contexts io ! a),
    interest := (interest io)(i := None), handed := h\<rparr>)"
proof -
  note D = io_invD [OF inv i, folded a]
  note F = fire_both_ok [OF D(4)]
  have "watched a (fire_both (contexts io ! a)) = None"
    using F(3) by (simp add: watched_def)
  moreover have "ctx_fd (fire_both (contexts io ! a)) = i"
    using D(2) by (simp add: fire_both_def)
  ultimately show ?thesis
    using replace_context_inv [OF inv i a F(1), of "m_pendingEventCount io - pending (contexts io ! a)" h]
      F(2) pending_count [OF inv i] by (simp add: a)
qed

lemma cancelAll_ok:
  assumes inv: "io_inv io" and i: "i < length (m_fdContexts io)" and a: "a = m_fdContexts io ! i"
    and some: "events (contexts io ! a) \<noteq> 0"
  shows "cancelAll 0 (int i) io =
    (Inr True, io\<lparr>contexts := (contexts io)[a := fire_both (contexts io ! a)],
       m_pendingEventCount := m_pendingEventCount io - pending (contexts io ! a),
       interest := (interest io)(i := None),
       handed := handed io @ waiters READ (contexts io ! a) @ waiters WRITE (contexts io ! a)\<rparr>)"
proof -
  note D = io_invD [OF inv i, folded a]
  let ?io1 = "epoll_ctl 0 i None io"
  have c: "contexts ?io1 = contexts io" "m_pendingEventCount ?io1 = m_pendingEventCount io" "handed ?io1 = handed io"
    by (simp_all add: epoll_ctl_def)
  have "cancelAll_locked 0 (int i) a io = seq (seq
      (\<lambda>io. if events (context_of a io) AND READ \<noteq> 0 then trigger_pending a READ io else (Inr (), io)) (\<lambda>_ io.
      if events (context_of a io) AND WRITE \<noteq> 0 then trigger_pending a WRITE io else (Inr (), io))) (\<lambda>_ io.
      if events (context_of a io) = 0 then (Inr True, io)
      else (Inl (Assertion ''fd_ctx->events == 0''), io)) ?io1"
    using some by (simp add: cancelAll_locked_def context_of_def Let_def seq_assoc)
  moreover have "seq
      (\<lambda>io. if events (context_of a io) AND READ \<noteq> 0 then trigger_pending a READ io else (Inr (), io)) (\<lambda>_ io.
      if events (context_of a io) AND WRITE \<noteq> 0 then trigger_pending a WRITE io else (Inr (), io)) ?io1 =
    (Inr (), ?io1\<lparr>contexts := (contexts io)[a := fire_both (contexts io ! a)],
       m_pendingEventCount := m_pendingEventCount io - pending (contexts io ! a),
       handed := handed io @ waiters READ (contexts io ! a) @ waiters WRITE (contexts io ! a)\<rparr>)"
    using trigger_both_ok [of a ?io1] D pending_count [OF inv i] unfolding c by (simp add: a)
  ultimately have "cancelAll_locked 0 (int i) a io =
    (Inr True, ?io1\<lparr>contexts := (contexts io)[a := fire_both (contexts io ! a)],
       m_pendingEventCount := m_pendingEventCount io - pending (contexts io ! a),
       handed := handed io @ waiters READ (contexts io ! a) @ waiters WRITE (contexts io ! a)\<rparr>)"
    using D(1) fire_both_ok(3) [OF D(4)] by (simp add: method_simps context_of_def)
  then show ?thesis
    using i by (simp add: cancelAll_def find_context_def a epoll_ctl_def)
qed

subsection \<open>Events from epoll\<close>

text \<open>An error or a hang-up counts as both events.\<close>

definition wants :: "event \<Rightarrow> event \<Rightarrow> bool" where
  "wants event ev \<longleftrightarrow> ev AND (EPOLLERR OR EPOLLHUP) \<noteq> 0 \<or> ev AND event \<noteq> 0"

definition real_events :: "event \<Rightarrow> event" where
  "real_events ev = (if wants READ ev then READ else NONE) OR (if wants WRITE ev then WRITE else NONE)"

lemma idle_event_real:
  "idle_event rt2 ev a io =
    (let c = context_of a io
     in if events c AND real_events ev = NONE then (Inr (), io)
        else
          let left_events = events c AND NOT (real_events ev);
              io1 = epoll_ctl rt2 (ctx_fd c) (if left_events \<noteq> 0 then Some (EPOLLET OR left_events, a) else None) io
          in if rt2 \<noteq> 0 then (Inr (), io1)
             else
               seq (\<lambda>io. if wants READ ev then trigger_pending a READ io else (Inr (), io)) (\<lambda>_ io.
                 if wants WRITE ev then trigger_pending a WRITE io else (Inr (), io)) io1)"
proof -
  let ?ev = "if ev AND (EPOLLERR OR EPOLLHUP) \<noteq> 0 then ev OR EPOLLIN OR EPOLLOUT else ev"
  have "?ev AND EPOLLIN \<noteq> 0 \<longleftrightarrow> wants READ ev" "?ev AND EPOLLOUT \<noteq> 0 \<longleftrightarrow> wants WRITE ev"
    by (auto simp: wants_def READ_def WRITE_def bit.conj_disj_distrib2 or_eq_0_iff) (simp_all add: event_bits)
  then have "(if ?ev AND EPOLLIN \<noteq> 0 then READ else NONE) OR (if ?ev AND EPOLLOUT \<noteq> 0 then WRITE else NONE) = real_events ev"
    by (simp only: real_events_def)
  moreover have "real_events ev AND READ \<noteq> 0 \<longleftrightarrow> wants READ ev" "real_events ev AND WRITE \<noteq> 0 \<longleftrightarrow> wants WRITE ev"
    by (auto simp: real_events_def event_bits)
  ultimately show ?thesis
    unfolding idle_event_def Let_def by (simp only:)
qed

lemma trigger_pending_unregistered:
  "\<not> registered event (contexts io ! a) \<Longrightarrow> trigger_pending a event io = (Inl (Assertion ''events & event''), io)"
  by (simp add: trigger_pending_def triggerEvent_def context_of_def registered_def seq_def Let_def)

lemma registered_events: "registered READ c \<or> registered WRITE c \<Longrightarrow> events c \<noteq> 0"
  by (auto simp: registered_def)

lemma real_hits:
  "ctx_ok c \<Longrightarrow> events c AND real_events ev = NONE \<longleftrightarrow>
    \<not> (wants READ ev \<and> registered READ c) \<and> \<not> (wants WRITE ev \<and> registered WRITE c)"
  by (auto simp: real_events_def ctx_ok_def registered_def event_bits)

lemma idle_event_one:
  assumes inv: "io_inv io" and i: "i < length (m_fdContexts io)" and a: "a = m_fdContexts io ! i"
    and ev: "event \<in> {READ, WRITE}" and "\<forall>e\<in>{READ, WRITE}. wants e ev \<longleftrightarrow> e = event"
    and reg: "registered event (contexts io ! a)"
  shows "\<exists>io'. idle_event 0 ev a io = (Inr (), io') \<and> cancelEvent 0 (int i) event io = (Inr True, io')"
proof -
  note D = io_invD [OF inv i, folded a]
  have "READ \<noteq> WRITE"
    by (simp add: event_bits)
  then have w: "wants READ ev \<longleftrightarrow> event = READ" "wants WRITE ev \<longleftrightarrow> event = WRITE"
    using assms(5) by auto
  have real: "real_events ev = event"
    using ev \<open>READ \<noteq> WRITE\<close> by (auto simp: real_events_def w)
  have hit: "events (contexts io ! a) AND real_events ev \<noteq> NONE"
    using reg by (simp add: real registered_def)
  have seq_is: "seq (\<lambda>io. if wants READ ev then trigger_pending a READ io else (Inr (), io)) (\<lambda>_ io.
      if wants WRITE ev then trigger_pending a WRITE io else (Inr (), io)) io1 = trigger_pending a event io1" for io1
    using ev \<open>READ \<noteq> WRITE\<close> by (auto simp: w seq_def split: prod.split sum.split)
  define io1 where "io1 = epoll_ctl 0 i (if events (contexts io ! a) AND NOT event \<noteq> 0
    then Some (EPOLLET OR (events (contexts io ! a) AND NOT event), a) else None) io"
  have "idle_event 0 ev a io = trigger_pending a event io1"
    using hit D(2) seq_is by (simp add: idle_event_real context_of_def Let_def real io1_def)
  moreover have c: "cancelEvent 0 (int i) event io = seq (trigger_pending a event) (\<lambda>_. ret True) io1"
    using i reg
    by (simp add: cancelEvent_def find_context_def a [symmetric] cancelEvent_locked_def context_of_def Let_def
        registered_def io1_def)
  moreover obtain io' where "cancelEvent 0 (int i) event io = (Inr True, io')"
    using cancelEvent_inv [OF inv i ev] reg by (auto simp: a)
  then obtain u where "trigger_pending a event io1 = (Inr u, io')"
    unfolding c by (elim seq_InrE) (simp add: ret_apply)
  ultimately show ?thesis
    by (simp add: method_simps)
qed

lemma idle_event_both:
  assumes inv: "io_inv io" and i: "i < length (m_fdContexts io)" and a: "a = m_fdContexts io ! i"
    and w: "wants READ ev" "wants WRITE ev"
    and reg: "registered READ (contexts io ! a)" "registered WRITE (contexts io ! a)"
  shows "\<exists>io'. idle_event 0 ev a io = (Inr (), io') \<and> cancelAll 0 (int i) io = (Inr True, io')"
proof -
  note D = io_invD [OF inv i, folded a]
  let ?c = "contexts io ! a"
  have hit: "events ?c AND real_events ev \<noteq> NONE"
    using real_hits [OF D(4)] w reg by simp
  have left: "events ?c AND NOT (real_events ev) = 0"
    using D(4) reg w by (auto simp: real_events_def ctx_ok_def registered_def event_bits)
  let ?io1 = "epoll_ctl 0 i None io"
  have c: "contexts ?io1 = contexts io" "m_pendingEventCount ?io1 = m_pendingEventCount io" "handed ?io1 = handed io"
    by (simp_all add: epoll_ctl_def)
  let ?io' = "?io1\<lparr>contexts := (contexts io)[a := fire_both ?c],
    m_pendingEventCount := m_pendingEventCount io - pending ?c,
    handed := handed io @ waiters READ ?c @ waiters WRITE ?c\<rparr>"
  have both: "seq (\<lambda>io. if events (context_of a io) AND READ \<noteq> 0 then trigger_pending a READ io else (Inr (), io)) (\<lambda>_ io.
      if events (context_of a io) AND WRITE \<noteq> 0 then trigger_pending a WRITE io else (Inr (), io)) ?io1 = (Inr (), ?io')"
    using trigger_both_ok [of a ?io1] D pending_count [OF inv i] unfolding c by (simp add: a)
  have first: "trigger_pending a READ ?io1 = (Inr (), ?io1\<lparr>contexts := (contexts io)[a := without_event READ ?c],
      m_pendingEventCount := m_pendingEventCount io - 1, handed := handed io @ [slot READ ?c]\<rparr>)"
    using D reg(1) registered_pending [OF reg(1)] pending_count [OF inv i]
    by (subst trigger_pending_ok) (auto simp: a epoll_ctl_def)
  have w2: "registered WRITE (without_event READ ?c)"
    using fire_other(1) [OF D(4)] reg by (simp add: fire_def)
  have "seq (\<lambda>io. if wants READ ev then trigger_pending a READ io else (Inr (), io)) (\<lambda>_ io.
      if wants WRITE ev then trigger_pending a WRITE io else (Inr (), io)) ?io1 = (Inr (), ?io')"
    using both w reg first w2 D(1) by (simp add: seq_def context_of_def registered_def c)
  then have "idle_event 0 ev a io = (Inr (), ?io')"
    using hit left D(2) by (simp add: idle_event_real context_of_def Let_def)
  moreover have "events ?c \<noteq> 0"
    using registered_events reg(1) by blast
  from cancelAll_ok [OF inv i a this] have "cancelAll 0 (int i) io = (Inr True, ?io')"
    by (simp add: epoll_ctl_def)
  ultimately show ?thesis
    by blast
qed

lemma idle_event_mixed:
  assumes inv: "io_inv io" and i: "i < length (m_fdContexts io)" and a: "a = m_fdContexts io ! i"
    and ev: "{e, e'} = {READ, WRITE}" and w: "wants READ ev" "wants WRITE ev"
    and reg: "registered e (contexts io ! a)" and unreg: "\<not> registered e' (contexts io ! a)"
  shows "fst (idle_event 0 ev a io) = Inl (Assertion ''events & event'')"
proof -
  note D = io_invD [OF inv i, folded a]
  let ?c = "contexts io ! a"
  have hit: "events ?c AND real_events ev \<noteq> NONE"
    using real_hits [OF D(4)] w reg ev by (auto simp: doubleton_eq_iff)
  have fails: "fst (seq (\<lambda>io. if wants READ ev then trigger_pending a READ io else (Inr (), io)) (\<lambda>_ io.
      if wants WRITE ev then trigger_pending a WRITE io else (Inr (), io)) io1) = Inl (Assertion ''events & event'')"
    if c: "contexts io1 = contexts io" "m_pendingEventCount io1 = m_pendingEventCount io" for io1
  proof (cases "registered READ ?c")
    case False
    then show ?thesis
      using w trigger_pending_unregistered [of READ io1 a] c by (simp add: seq_def)
  next
    case True
    then have nw: "\<not> registered WRITE ?c"
      using ev reg unreg by (auto simp: doubleton_eq_iff)
    have "0 < m_pendingEventCount io1"
      using registered_pending [OF True] pending_count [OF inv i] c by (auto simp: a)
    then obtain io2 where io2: "trigger_pending a READ io1 = (Inr (), io2)" "contexts io2 ! a = without_event READ ?c"
      using trigger_pending_ok [of a io1 READ] D(1,4) True c by auto
    have "\<not> registered WRITE (contexts io2 ! a)"
      using fire_other(1) [OF D(4)] nw True io2(2) by (simp add: fire_def)
    then show ?thesis
      using w io2(1) trigger_pending_unregistered [of WRITE io2 a] by (simp add: seq_def)
  qed
  then show ?thesis
    using hit by (simp add: idle_event_real context_of_def Let_def epoll_ctl_def)
qed

lemma wanted_nothing:
  assumes "io_inv io" and "i < length (m_fdContexts io)" and "a = m_fdContexts io ! i"
    and "\<forall>e\<in>{READ, WRITE}. wants e ev \<longrightarrow> \<not> registered e (contexts io ! a)"
  shows "idle_event 0 ev a io = (Inr (), io)"
  using assms(4) real_hits [of "contexts io ! a" ev] io_invD(4) [OF assms(1,2)] assms(3)
  by (simp add: idle_event_real context_of_def Let_def)

definition delivered :: "event \<Rightarrow> nat \<Rightarrow> io_manager \<Rightarrow> io_manager \<Rightarrow> bool" where
  "delivered ev a io io' \<longleftrightarrow>
    handed io' = handed io @ (if wants READ ev then [read_ctx (contexts io ! a)] else []) @
      (if wants WRITE ev then [write_ctx (contexts io ! a)] else []) \<and>
    (\<forall>e\<in>{READ, WRITE}. registered e (contexts io' ! a) \<longleftrightarrow> registered e (contexts io ! a) \<and> \<not> wants e ev)"

lemma events_differ: "READ \<noteq> WRITE"
  by (simp add: event_bits)

lemma without_event_registered:
  "ctx_ok c \<Longrightarrow> e \<in> {READ, WRITE} \<Longrightarrow> event \<in> {READ, WRITE} \<Longrightarrow>
    registered e (without_event event c) \<longleftrightarrow> registered e c \<and> e \<noteq> event"
  by (auto simp: ctx_simps)

lemma wanted_one:
  assumes inv: "io_inv io" and i: "i < length (m_fdContexts io)" and a: "a = m_fdContexts io ! i"
    and ev: "event \<in> {READ, WRITE}" and only: "\<forall>e\<in>{READ, WRITE}. wants e ev \<longleftrightarrow> e = event"
    and reg: "registered event (contexts io ! a)"
  shows "\<exists>io'. idle_event 0 ev a io = (Inr (), io') \<and> delivered ev a io io'"
proof -
  note D = io_invD [OF inv i, folded a]
  obtain io' where io': "idle_event 0 ev a io = (Inr (), io')" "handed io' = handed io @ [slot event (contexts io ! a)]"
      "contexts io' = (contexts io)[a := without_event event (contexts io ! a)]"
    using idle_event_one [OF inv i a ev only reg] cancelEvent_inv [OF inv i ev] reg by (auto simp: a)
  have w: "wants READ ev \<longleftrightarrow> event = READ" "wants WRITE ev \<longleftrightarrow> event = WRITE"
    using only events_differ by auto
  have "delivered ev a io io'"
    using io'(2,3) D(1) ev events_differ without_event_registered [OF D(4) _ ev] only
    by (auto simp: delivered_def w slot_def)
  then show ?thesis
    using io'(1) by blast
qed

lemma wanted_both:
  assumes inv: "io_inv io" and i: "i < length (m_fdContexts io)" and a: "a = m_fdContexts io ! i"
    and w: "wants READ ev" "wants WRITE ev"
    and reg: "registered READ (contexts io ! a)" "registered WRITE (contexts io ! a)"
  shows "\<exists>io'. idle_event 0 ev a io = (Inr (), io') \<and> delivered ev a io io'"
proof -
  note D = io_invD [OF inv i, folded a]
  have "events (contexts io ! a) \<noteq> 0"
    using registered_events reg(1) by blast
  from cancelAll_ok [OF inv i a this]
  obtain io' where io': "idle_event 0 ev a io = (Inr (), io')"
      "handed io' = handed io @ waiters READ (contexts io ! a) @ waiters WRITE (contexts io ! a)"
      "contexts io' ! a = fire_both (contexts io ! a)"
    using idle_event_both [OF inv i a w reg] D(1) by auto
  have "delivered ev a io io'"
    using io'(2,3) w reg fire_both_ok(3) [OF D(4)] events_differ
    by (auto simp: delivered_def waiters_def slot_def registered_def)
  then show ?thesis
    using io'(1) by blast
qed

section \<open>Runs\<close>

text \<open>The table always has room for the descriptor it has been grown for.\<close>

definition io_good :: "io_manager \<Rightarrow> bool" where
  "io_good io \<longleftrightarrow> io_inv io \<and> 32 \<le> length (m_fdContexts io)"

lemma length_contextResize [simp]: "length (m_fdContexts (contextResize sz io)) = sz"
  by (simp add: contextResize_def Let_def)

lemma contextResize_sel [simp]:
  "m_pendingEventCount (contextResize sz io) = m_pendingEventCount io"
  "handed (contextResize sz io) = handed io"
  by (simp_all add: contextResize_def Let_def)

definition roomy :: "int \<Rightarrow> io_manager \<Rightarrow> io_manager" where
  "roomy fd io = (if addEvent_fits fd io then io else addEvent_grow fd io)"

lemma roomy_good:
  assumes "io_good io" and "0 \<le> fd"
  shows "io_good (roomy fd io)" and "nat fd < length (m_fdContexts (roomy fd io))"
    and "m_pendingEventCount (roomy fd io) = m_pendingEventCount io" and "handed (roomy fd io) = handed io"
proof -
  have big: "length (m_fdContexts io) \<le> nat fd * 3 div 2" "nat fd < nat fd * 3 div 2" "32 \<le> nat fd * 3 div 2"
    if "\<not> addEvent_fits fd io"
    using that assms by (auto simp: addEvent_fits_def io_good_def)
  show "io_good (roomy fd io)"
    using assms(1) big contextResize_grow_inv [of io] by (auto simp: roomy_def addEvent_grow_def io_good_def)
  show "nat fd < length (m_fdContexts (roomy fd io))"
    using big assms(2) by (auto simp: roomy_def addEvent_grow_def addEvent_fits_def)
qed (simp_all add: roomy_def addEvent_grow_def)

lemma addEvent_roomy:
  assumes "io_good io" and "0 \<le> fd"
  shows "addEvent rt sched cur fd event cb io =
    addEvent_locked rt sched cur fd (m_fdContexts (roomy fd io) ! nat fd) event cb (roomy fd io)"
proof -
  have "fd < int (length (m_fdContexts (roomy fd io)))"
    using roomy_good(2) [OF assms] assms(2) by (simp add: nat_less_iff)
  then show ?thesis
    using assms(2) by (simp add: addEvent_def roomy_def [symmetric] find_context_def Let_def)
qed

lemma addEvent_good:
  assumes good: "io_good io" and fd: "0 \<le> fd" and ev: "event \<in> {READ, WRITE}"
    and run: "addEvent 0 (Some sched) (f, EXEC) fd event cb io = (Inr r, io')"
  shows "io_good io' \<and> r = 0 \<and> handed io' = handed io \<and> m_pendingEventCount io' = m_pendingEventCount io + 1 \<and>
    registered event (contexts io' ! (m_fdContexts io' ! nat fd)) \<and> nat fd < length (m_fdContexts io') \<and>
    slot event (contexts io' ! (m_fdContexts io' ! nat fd)) =
      \<lparr>ec_scheduler = Some sched, ec_fiber = (if cb = None then Some f else None), ec_cb = cb\<rparr>"
proof -
  let ?io1 = "roomy fd io" and ?a = "m_fdContexts (roomy fd io) ! nat fd"
  note R = roomy_good [OF good fd]
  have inv: "io_inv ?io1"
    using R(1) by (simp add: io_good_def)
  note D = io_invD [OF inv R(2)]
  have unreg: "\<not> registered event (contexts ?io1 ! ?a)"
    using run by (intro notI) (simp add: addEvent_roomy [OF good fd] addEvent_locked_def context_of_def registered_def Let_def)
  let ?ec = "\<lparr>ec_scheduler = Some sched, ec_fiber = (if cb = None then Some f else None), ec_cb = cb\<rparr>"
  let ?c = "with_event event ?ec (contexts ?io1 ! ?a)"
  have ok: "slot_ok True ?ec"
    by (simp add: slot_ok_def)
  note W = with_event_ok [OF D(4) ev unreg ok]
  have "addEvent_locked 0 (Some sched) (f, EXEC) fd ?a event cb ?io1 =
    (Inr 0, ?io1\<lparr>contexts := (contexts ?io1)[?a := ?c], m_pendingEventCount := m_pendingEventCount ?io1 + 1,
       interest := (interest ?io1)(nat fd := watched ?a ?c)\<rparr>)"
    using addEvent_locked_ok [OF D(1,4) ev unreg, of cb "(f, EXEC)" sched fd] by (simp add: Let_def)
  then have io': "r = 0" "io' = ?io1\<lparr>contexts := (contexts ?io1)[?a := ?c],
      m_pendingEventCount := m_pendingEventCount ?io1 + 1, interest := (interest ?io1)(nat fd := watched ?a ?c),
      handed := handed ?io1\<rparr>"
    using run by (auto simp: addEvent_roomy [OF good fd])
  have "io_inv io'"
    unfolding io'(2) using W(1,2) D(2) by (intro replace_context_inv [OF inv R(2) refl]) simp_all
  moreover have "registered event ?c" "slot event ?c = ?ec"
    using D(4) ev by (auto simp: ctx_simps)
  ultimately show ?thesis
    using R D(1) by (simp add: io'(1) io_good_def split del: if_split) (simp add: io'(2) split del: if_split)
qed

lemma failed_epoll_ctl [simp]: "rt \<noteq> 0 \<Longrightarrow> epoll_ctl rt fd ev io = io"
  by (simp add: epoll_ctl_def)

text \<open>
  A run, with the number of events added and deleted so far. The caller is a fiber of a scheduler
  and \<open>epoll_ctl\<close> answers 0 or \<open>- 1\<close>; an operation that fails an assertion ends the run.
\<close>

inductive io_run :: "nat \<Rightarrow> nat \<Rightarrow> io_manager \<Rightarrow> bool" where
  init: "io_run 0 0 IOManager"
| add: "io_run n d io \<Longrightarrow> 0 \<le> fd \<Longrightarrow> event \<in> {READ, WRITE} \<Longrightarrow>
    addEvent 0 (Some sched) (f, EXEC) fd event cb io = (Inr r, io') \<Longrightarrow> io_run (n + 1) d io'"
| add_fails: "io_run n d io \<Longrightarrow> 0 \<le> fd \<Longrightarrow> event \<in> {READ, WRITE} \<Longrightarrow>
    addEvent (- 1) (Some sched) (f, EXEC) fd event cb io = (Inr r, io') \<Longrightarrow> io_run n d io'"
| del: "io_run n d io \<Longrightarrow> 0 \<le> fd \<Longrightarrow> event \<in> {READ, WRITE} \<Longrightarrow> rt \<in> {0, - 1} \<Longrightarrow>
    delEvent rt fd event io = (Inr done, io') \<Longrightarrow> io_run n (if done then d + 1 else d) io'"
| cancel: "io_run n d io \<Longrightarrow> 0 \<le> fd \<Longrightarrow> event \<in> {READ, WRITE} \<Longrightarrow> rt \<in> {0, - 1} \<Longrightarrow>
    cancelEvent rt fd event io = (Inr done, io') \<Longrightarrow> io_run n d io'"
| cancel_all: "io_run n d io \<Longrightarrow> 0 \<le> fd \<Longrightarrow> rt \<in> {0, - 1} \<Longrightarrow>
    cancelAll rt fd io = (Inr done, io') \<Longrightarrow> io_run n d io'"
| deliver: "io_run n d io \<Longrightarrow> i < length (m_fdContexts io) \<Longrightarrow> rt \<in> {0, - 1} \<Longrightarrow>
    idle_event rt ev (m_fdContexts io ! i) io = (Inr (), io') \<Longrightarrow> io_run n d io'"

text \<open>What an operation may do to the books: hand waiters over, and nothing else.\<close>

definition books :: "io_manager \<Rightarrow> io_manager \<Rightarrow> bool" where
  "books io io' \<longleftrightarrow> io_good io' \<and>
    length (handed io') + m_pendingEventCount io' = length (handed io) + m_pendingEventCount io"

lemma books_refl: "io_good io \<Longrightarrow> books io io"
  by (simp add: books_def)

text \<open>A cancelled event keeps the books: its waiter is handed over.\<close>

lemma cancelEvent_books:
  assumes good: "io_good io" and i: "i < length (m_fdContexts io)" and ev: "event \<in> {READ, WRITE}"
    and reg: "registered event (contexts io ! (m_fdContexts io ! i))"
    and run: "cancelEvent 0 (int i) event io = (Inr b, io')"
  shows "books io io'"
proof -
  have inv: "io_inv io"
    using good by (simp add: io_good_def)
  note U = unregister_inv [OF inv i refl ev reg]
  have "cancelEvent 0 (int i) event io = (let a = m_fdContexts io ! i; c' = without_event event (contexts io ! a)
     in (Inr True, io\<lparr>contexts := (contexts io)[a := c'], m_pendingEventCount := m_pendingEventCount io - 1,
           interest := (interest io)(i := watched a c'), handed := handed io @ [slot event (contexts io ! a)]\<rparr>))"
    using i cancelEvent_locked_ok [OF io_invD(1,4) [OF inv i] ev reg U(2), of "int i"]
    by (simp add: cancelEvent_def find_context_def Let_def)
  then show ?thesis
    using run U good by (auto simp: books_def io_good_def Let_def)
qed

lemma cancelAll_books:
  assumes good: "io_good io" and i: "i < length (m_fdContexts io)"
    and some: "events (contexts io ! (m_fdContexts io ! i)) \<noteq> 0"
    and run: "cancelAll 0 (int i) io = (Inr b, io')"
  shows "books io io'"
proof -
  have inv: "io_inv io"
    using good by (simp add: io_good_def)
  note D = io_invD [OF inv i]
  show ?thesis
    using run cancelAll_ok [OF inv i refl some] good fire_both_inv [OF inv i refl]
      fire_both_ok(4) [OF D(4)] pending_count [OF inv i]
    by (auto simp: books_def io_good_def)
qed

lemma find_context_Inr:
  "0 \<le> fd \<Longrightarrow> fd < int (length (m_fdContexts io)) \<Longrightarrow> find_context fd io = Inr (m_fdContexts io ! nat fd)"
  by (simp add: find_context_def)

lemma cancel_cases:
  assumes "0 \<le> fd"
  shows "(\<exists>b. cancelEvent rt fd event io = (Inr b, io)) \<or>
    rt = 0 \<and> (\<exists>i < length (m_fdContexts io). fd = int i \<and> registered event (contexts io ! (m_fdContexts io ! i)))"
proof (cases "fd < int (length (m_fdContexts io))")
  case True
  then obtain i where "fd = int i" "i < length (m_fdContexts io)"
    using assms by (metis nat_int of_nat_less_iff zero_le_imp_eq_int)
  then show ?thesis
    by (cases "registered event (contexts io ! (m_fdContexts io ! i))"; cases "rt = 0")
      (auto simp: cancelEvent_def find_context_def cancelEvent_locked_def context_of_def registered_def Let_def)
qed (auto simp: cancelEvent_def)

lemma cancelAll_cases:
  assumes "0 \<le> fd"
  shows "(\<exists>b. cancelAll rt fd io = (Inr b, io)) \<or>
    rt = 0 \<and> (\<exists>i < length (m_fdContexts io). fd = int i \<and> events (contexts io ! (m_fdContexts io ! i)) \<noteq> 0)"
proof (cases "fd < int (length (m_fdContexts io))")
  case True
  then obtain i where "fd = int i" "i < length (m_fdContexts io)"
    using assms by (metis nat_int of_nat_less_iff zero_le_imp_eq_int)
  then show ?thesis
    by (cases "events (contexts io ! (m_fdContexts io ! i)) = 0"; cases "rt = 0")
      (auto simp: cancelAll_def find_context_def cancelAll_locked_def context_of_def Let_def)
qed (auto simp: cancelAll_def)

lemma delEvent_cases:
  assumes "0 \<le> fd"
  shows "delEvent rt fd event io = (Inr False, io) \<or>
    rt = 0 \<and> (\<exists>i < length (m_fdContexts io). fd = int i \<and> registered event (contexts io ! (m_fdContexts io ! i)))"
proof (cases "fd < int (length (m_fdContexts io))")
  case True
  then obtain i where "fd = int i" "i < length (m_fdContexts io)"
    using assms by (metis nat_int of_nat_less_iff zero_le_imp_eq_int)
  then show ?thesis
    by (cases "registered event (contexts io ! (m_fdContexts io ! i))"; cases "rt = 0")
      (auto simp: delEvent_def find_context_def delEvent_locked_def context_of_def registered_def Let_def)
qed (simp add: delEvent_def)

lemma delEvent_good:
  assumes good: "io_good io" and i: "i < length (m_fdContexts io)" and ev: "event \<in> {READ, WRITE}"
    and reg: "registered event (contexts io ! (m_fdContexts io ! i))"
    and run: "delEvent 0 (int i) event io = (Inr b, io')"
  shows "b \<and> io_good io' \<and> handed io' = handed io \<and> m_pendingEventCount io' + 1 = m_pendingEventCount io"
proof -
  have inv: "io_inv io"
    using good by (simp add: io_good_def)
  note U = unregister_inv(1) [OF inv i refl ev reg, of "handed io"] unregister_inv(2) [OF inv i refl ev reg]
  have "delEvent 0 (int i) event io = (let a = m_fdContexts io ! i; c' = without_event event (contexts io ! a)
     in (Inr True, io\<lparr>contexts := (contexts io)[a := c'], m_pendingEventCount := m_pendingEventCount io - 1,
           interest := (interest io)(i := watched a c'), handed := handed io\<rparr>))"
    using i delEvent_locked_ok [OF io_invD(1) [OF inv i] ev reg U(2), of "int i"]
    by (simp add: delEvent_def find_context_def Let_def)
  then show ?thesis
    using run U good by (auto simp: io_good_def Let_def)
qed

text \<open>
  Delivery is one of the cancellations, nothing, or a failed assertion.
\<close>

lemma idle_event_cases:
  assumes inv: "io_inv io" and i: "i < length (m_fdContexts io)" and a: "a = m_fdContexts io ! i"
  obtains (nothing) "idle_event rt ev a io = (Inr (), io)"
  | (one) event io' where "event \<in> {READ, WRITE}" "registered event (contexts io ! a)" "rt = 0"
      "idle_event rt ev a io = (Inr (), io')" "cancelEvent 0 (int i) event io = (Inr True, io')"
  | (both) io' where "events (contexts io ! a) \<noteq> 0" "rt = 0"
      "idle_event rt ev a io = (Inr (), io')" "cancelAll 0 (int i) io = (Inr True, io')"
  | (fails) "rt = 0" "fst (idle_event rt ev a io) = Inl (Assertion ''events & event'')"
proof -
  note D = io_invD [OF inv i, folded a]
  let ?c = "contexts io ! a"
  let ?R = "wants READ ev" and ?W = "wants WRITE ev" and ?r = "registered READ ?c" and ?w = "registered WRITE ?c"
  have ne: "READ \<noteq> WRITE"
    by (simp add: event_bits)
  consider "rt \<noteq> 0 \<or> \<not> (?R \<and> ?r) \<and> \<not> (?W \<and> ?w)" | "rt = 0" "?R" "?r" "\<not> ?W" | "rt = 0" "?W" "?w" "\<not> ?R"
    | "rt = 0" "?R" "?W" "?r" "?w" | "rt = 0" "?R" "?W" "?r" "\<not> ?w" | "rt = 0" "?R" "?W" "?w" "\<not> ?r"
    by blast
  then show ?thesis
  proof cases
    case 1
    then have "idle_event rt ev a io = (Inr (), io)"
      using real_hits [OF D(4), of ev] by (auto simp: idle_event_real context_of_def Let_def)
    then show ?thesis by (rule nothing)
  next
    case 2
    then show ?thesis
      using idle_event_one [OF inv i a, of READ ev] ne one [of READ] by auto
  next
    case 3
    then show ?thesis
      using idle_event_one [OF inv i a, of WRITE ev] ne one [of WRITE] by auto
  next
    case 4
    then show ?thesis
      using idle_event_both [OF inv i a] both registered_events [of ?c] by auto
  next
    case 5
    then show ?thesis
      using idle_event_mixed [OF inv i a, of READ WRITE ev] fails by auto
  next
    case 6
    then show ?thesis
      using idle_event_mixed [OF inv i a, of WRITE READ ev] fails by auto
  qed
qed

lemma idle_event_books:
  assumes good: "io_good io" and i: "i < length (m_fdContexts io)"
    and run: "idle_event rt ev (m_fdContexts io ! i) io = (Inr (), io')"
  shows "books io io'"
proof -
  have inv: "io_inv io"
    using good by (simp add: io_good_def)
  show ?thesis
  proof (cases rule: idle_event_cases [OF inv i refl, of rt ev])
    case 1
    then show ?thesis
      using run good by (simp add: books_refl)
  next
    case (2 event io'')
    then show ?thesis
      using run cancelEvent_books [OF good i 2(1,2)] by simp
  next
    case (3 io'')
    then show ?thesis
      using run cancelAll_books [OF good i 3(1)] by simp
  next
    case 4
    then show ?thesis
      using run by simp
  qed
qed

lemma io_run_books: "io_run n d io \<Longrightarrow> io_good io \<and> n = d + length (handed io) + m_pendingEventCount io"
proof (induction rule: io_run.induct)
  case init
  then show ?case
    by (simp add: io_good_def IOManager_inv) (simp add: IOManager_def)
next
  case (add n d io fd event sched f cb r io')
  then show ?case
    using addEvent_good [OF _ add.hyps(2,3,4)] by auto
next
  case (add_fails n d io fd event sched f cb r io')
  have "io' = roomy fd io"
    using add_fails by (auto simp: addEvent_roomy addEvent_locked_def Let_def split: if_splits)
  then show ?case
    using add_fails roomy_good [of io fd] by simp
next
  case (del n d io fd event rt b io')
  show ?case
  proof (cases "delEvent rt fd event io = (Inr False, io)")
    case False
    then obtain i where "rt = 0" "fd = int i" "i < length (m_fdContexts io)"
      "registered event (contexts io ! (m_fdContexts io ! i))"
      using delEvent_cases [OF del.hyps(2), of rt event io] by blast
    then show ?thesis
      using del delEvent_good [of io i event b io'] by simp
  qed (use del in simp)
next
  case (cancel n d io fd event rt b io')
  then show ?case
    using cancel_cases [OF cancel.hyps(2), of rt event io] cancelEvent_books [of io _ event b io'] by (auto simp: books_def)
next
  case (cancel_all n d io fd rt b io')
  then show ?case
    using cancelAll_cases [OF cancel_all.hyps(2), of rt io] cancelAll_books [of io _ b io'] by (auto simp: books_def)
next
  case (deliver n d io i rt ev io')
  then show ?case
    using idle_event_books [of io i rt ev io'] by (simp add: books_def)
qed

section \<open>A concrete run\<close>

text \<open>A fiber 200 waits to read descriptor 5.\<close>

definition example_io :: io_manager where
  "example_io = snd (addEvent 0 (Some 0) (200, EXEC) 5 READ None IOManager)"

lemma example_addEvent: "addEvent 0 (Some 0) (200, EXEC) 5 READ None IOManager = (Inr 0, example_io)"
proof -
  have "m_fdContexts IOManager ! 5 = 5" "contexts IOManager ! 5 = new_fd_context 5" "length (m_fdContexts IOManager) = 32"
    by (simp_all add: IOManager_def contextResize_def Let_def nth_append)
  then show ?thesis
    by (simp add: example_io_def addEvent_def addEvent_fits_def find_context_def addEvent_locked_def context_of_def
        getContext_def new_fd_context_def event_bits Let_def)
qed

lemma example_io_run: "io_run 1 0 example_io"
  using io_run.add [OF io_run.init _ _ example_addEvent] by simp

lemma example_io_sel:
  "m_fdContexts example_io = [0..<32]" "length (contexts example_io) = 32"
  "events (contexts example_io ! 5) = READ" "read_ctx (contexts example_io ! 5) = \<lparr>ec_scheduler = Some 0, ec_fiber = Some 200, ec_cb = None\<rparr>"
  "handed example_io = []"
proof -
  have t: "m_fdContexts IOManager = [0..<32]" "contexts IOManager = map new_fd_context [0..<32]" "handed IOManager = []"
    by (simp_all add: IOManager_def contextResize_def Let_def)
  have c: "example_io = set_context 5 (putContext READ \<lparr>ec_scheduler = Some 0, ec_fiber = Some 200, ec_cb = None\<rparr>
      ((new_fd_context 5)\<lparr>events := READ\<rparr>)) (set_context 5 ((new_fd_context 5)\<lparr>events := READ\<rparr>)
      ((epoll_ctl 0 5 (Some (EPOLLET OR READ, 5)) IOManager)\<lparr>m_pendingEventCount := m_pendingEventCount IOManager + 1\<rparr>))"
    by (simp add: example_io_def addEvent_def addEvent_fits_def find_context_def addEvent_locked_def context_of_def
        getContext_def Let_def t) (simp add: new_fd_context_def no_waiter_def epoll_ctl_def)
  show "m_fdContexts example_io = [0..<32]" "length (contexts example_io) = 32"
    "events (contexts example_io ! 5) = READ" "handed example_io = []"
    "read_ctx (contexts example_io ! 5) = \<lparr>ec_scheduler = Some 0, ec_fiber = Some 200, ec_cb = None\<rparr>"
    by (simp_all add: c t set_context_def epoll_ctl_def putContext_def)
qed

section \<open>Properties\<close>



text \<open>\<open>cancelAll\<close> wakes everyone: the waiters of the descriptor's registered events are handed
  over, the reader first, and the descriptor is left without events and unwatched.\<close>

theorem cancelAll_wakes:
  assumes "io_run n d io" and "fd < length (m_fdContexts io)"
    and "events (contexts io ! (m_fdContexts io ! fd)) \<noteq> NONE"
  shows "\<exists>io'. cancelAll 0 (int fd) io = (Inr True, io') \<and>
    (let c = contexts io ! (m_fdContexts io ! fd) in
      handed io' = handed io @ (if registered READ c then [read_ctx c] else []) @
        (if registered WRITE c then [write_ctx c] else [])) \<and>
    events (contexts io' ! (m_fdContexts io' ! fd)) = NONE \<and> interest io' fd = None"
proof -
  have inv: "io_inv io"
    using io_run_books [OF assms(1)] by (simp add: io_good_def)
  have "READ \<noteq> WRITE"
    by (simp add: event_bits)
  then show ?thesis
    using cancelAll_ok [OF inv assms(2) refl assms(3)] io_invD [OF inv assms(2)] fire_both_ok(3)
    by (simp add: waiters_def slot_def Let_def)
qed

lemma cancelAll_wakes_witness:
  "\<exists>io'. cancelAll 0 5 example_io = (Inr True, io') \<and>
    handed io' = [\<lparr>ec_scheduler = Some 0, ec_fiber = Some 200, ec_cb = None\<rparr>]"
proof -
  have "registered READ (contexts example_io ! 5)" "\<not> registered WRITE (contexts example_io ! 5)"
    unfolding registered_def example_io_sel by (simp_all add: event_bits)
  then show ?thesis
    using cancelAll_wakes [OF example_io_run, of 5] by (auto simp: example_io_sel event_bits)
qed

text \<open>What one event from \<open>epoll_wait\<close> does to a descriptor. If none of the events it stands for
  is registered, nothing; if all of them are, exactly their waiters are handed over, the reader
  first, and only these events are dropped. But an error or hang-up stands for both events: when
  only one of the two is registered, as for a fiber that waits only to read, the assertion in
  \<open>triggerEvent\<close> fails.\<close>

theorem idle_event_delivers:
  assumes "io_run n d io" and "i < length (m_fdContexts io)" and "a = m_fdContexts io ! i"
    and "c = contexts io ! a"
  shows "((\<forall>e\<in>{READ, WRITE}. wants e ev \<longrightarrow> \<not> registered e c) \<longrightarrow> idle_event 0 ev a io = (Inr (), io)) \<and>
    ((\<exists>e\<in>{READ, WRITE}. wants e ev) \<and> (\<forall>e\<in>{READ, WRITE}. wants e ev \<longrightarrow> registered e c) \<longrightarrow>
      (\<exists>io'. idle_event 0 ev a io = (Inr (), io') \<and> io_run n d io' \<and>
        handed io' = handed io @ (if wants READ ev then [read_ctx c] else []) @
          (if wants WRITE ev then [write_ctx c] else []) \<and>
        (\<forall>e\<in>{READ, WRITE}. registered e (contexts io' ! a) \<longleftrightarrow> registered e c \<and> \<not> wants e ev))) \<and>
    ((\<exists>e\<in>{READ, WRITE}. wants e ev \<and> registered e c) \<and> (\<exists>e\<in>{READ, WRITE}. wants e ev \<and> \<not> registered e c) \<longrightarrow>
      fst (idle_event 0 ev a io) = Inl (Assertion ''events & event''))"
proof -
  have inv: "io_inv io"
    using io_run_books [OF assms(1)] by (simp add: io_good_def)
  have "\<exists>io'. idle_event 0 ev a io = (Inr (), io') \<and> delivered ev a io io'"
    if "\<exists>e\<in>{READ, WRITE}. wants e ev" "\<forall>e\<in>{READ, WRITE}. wants e ev \<longrightarrow> registered e c"
    using that wanted_both [OF inv assms(2,3), of ev] wanted_one [OF inv assms(2,3), of READ ev]
      wanted_one [OF inv assms(2,3), of WRITE ev] events_differ assms(4) by auto
  then have "\<exists>io'. idle_event 0 ev a io = (Inr (), io') \<and> io_run n d io' \<and> delivered ev a io io'"
    if "\<exists>e\<in>{READ, WRITE}. wants e ev" "\<forall>e\<in>{READ, WRITE}. wants e ev \<longrightarrow> registered e c"
    using that io_run.deliver [OF assms(1,2), of 0 ev] assms(3) by blast
  moreover have "fst (idle_event 0 ev a io) = Inl (Assertion ''events & event'')"
    if "\<exists>e\<in>{READ, WRITE}. wants e ev \<and> registered e c" "\<exists>e\<in>{READ, WRITE}. wants e ev \<and> \<not> registered e c"
    using that idle_event_mixed [OF inv assms(2,3), of READ WRITE ev] idle_event_mixed [OF inv assms(2,3), of WRITE READ ev]
      assms(4) by auto
  ultimately show ?thesis
    using wanted_nothing [OF inv assms(2,3)] by (simp only: delivered_def assms(4)) blast
qed

lemma idle_event_delivers_witness:
  "fst (idle_event 0 EPOLLIN 5 example_io) = Inr () \<and>
   fst (idle_event 0 EPOLLHUP 5 example_io) = Inl (Assertion ''events & event'')"
proof -
  have w: "wants READ EPOLLIN" "\<not> wants WRITE EPOLLIN" "wants READ EPOLLHUP" "wants WRITE EPOLLHUP"
    by (simp_all add: wants_def event_bits)
  have "registered READ (contexts example_io ! 5)" "\<not> registered WRITE (contexts example_io ! 5)"
    unfolding registered_def example_io_sel by (simp_all add: event_bits)
  then show ?thesis
    using idle_event_delivers [OF example_io_run, of 5 5 _ EPOLLIN] idle_event_delivers [OF example_io_run, of 5 5 _ EPOLLHUP] w
    by (auto simp: example_io_sel)
qed

text \<open>The timeout of \<open>epoll_wait\<close>: for a next deadline less than \<open>2 ^ 31\<close> milliseconds away it is
  that distance, at most three seconds; for one between \<open>2 ^ 31\<close> and \<open>2 ^ 32\<close> milliseconds away
  the cast to \<open>int\<close> makes it negative, so that \<open>epoll_wait\<close> waits without any limit.\<close>

theorem idle_timeout:
  "(unat t < 2 ^ 31 \<longrightarrow> sint (epoll_timeout t) = min 3000 (int (unat t))) \<and>
   (t = NOT 0 \<longrightarrow> sint (epoll_timeout t) = 3000) \<and>
   (2 ^ 31 \<le> unat t \<and> unat t < 2 ^ 32 \<longrightarrow> sint (epoll_timeout t) < 0)"
proof -
  have s: "sint (ucast t :: s32) = (uint t + 2 ^ 31) mod 2 ^ 32 - 2 ^ 31"
    by (simp add: sint_uint unsigned_ucast_eq signed_take_bit_eq_take_bit_shift take_bit_eq_mod mod_simps)
  have m: "uint (NOT 0 :: u64) = 2 ^ 64 - 1"
    by (simp add: unsigned_minus_1_eq_mask mask_eq_exp_minus_1)
  have n: "int (unat t) = uint t"
    by simp
  have low: "sint (ucast t :: s32) = uint t" if "uint t < 2 ^ 31"
    using that uint_ge_0 [of t] by (simp add: s mod_pos_pos_trivial)
  have high: "sint (ucast t :: s32) = uint t - 2 ^ 32" if "2 ^ 31 \<le> uint t" "uint t < 2 ^ 32"
  proof -
    obtain k where k: "uint t = 2 ^ 31 + k" "0 \<le> k" "k < 2 ^ 31"
      by (rule that [of "uint t - 2 ^ 31"]) (use \<open>2 ^ 31 \<le> uint t\<close> \<open>uint t < 2 ^ 32\<close> in simp_all)
    have "(2 ^ 31 + k + 2 ^ 31) mod 2 ^ 32 = (k + 2 ^ 32) mod 2 ^ 32"
      by (simp add: add.commute)
    also have "\<dots> = k"
      using k(2,3) by simp
    finally show ?thesis
      unfolding s k(1) by simp
  qed
  have cmp: "unat t < 2 ^ 31 \<longleftrightarrow> uint t < 2 ^ 31" "unat t < 2 ^ 32 \<longleftrightarrow> uint t < 2 ^ 32"
    "2 ^ 31 \<le> unat t \<longleftrightarrow> 2 ^ 31 \<le> uint t"
    using n by (auto; linarith)+
  have top: "\<not> unat (NOT 0 :: u64) < 2 ^ 32"
  proof
    assume "unat (NOT 0 :: u64) < 2 ^ 32"
    then have "int (unat (NOT 0 :: u64)) < int (2 ^ 32)"
      by (simp only: of_nat_less_iff)
    then show False
      using m by simp
  qed
  show ?thesis
  proof (cases "t = NOT 0")
    case True
    then show ?thesis
      using top by (auto simp: epoll_timeout_def)
  next
    case False
    then have "epoll_timeout t = (if 3000 < sint (ucast t :: s32) then 3000 else ucast t)"
      by (simp add: epoll_timeout_def)
    then show ?thesis
      using False low high n unfolding cmp by auto
  qed
qed

lemma idle_timeout_witness: "sint (epoll_timeout 500) = 500 \<and> sint (epoll_timeout 3000000000) < 0"
  using idle_timeout [of 500] idle_timeout [of 3000000000] by simp

text \<open>\<open>addEvent\<close> is not safe with two threads, since it lets the read lock go before it takes the
  write lock. Thread A finds the table too small for \<open>fd1\<close>; meanwhile thread B registers a waiter
  for a larger descriptor; then A resizes the table to \<open>fd1 * 1.5\<close>, which cuts it, and B's event is
  still pending but can neither be cancelled nor deleted.\<close>

theorem addEvent_race:
  assumes "io_run n d io" and "0 \<le> fd1" and "\<not> addEvent_fits fd1 io" and "fd1 * 3 div 2 \<le> fd2"
    and "event \<in> {READ, WRITE}" and "addEvent 0 (Some sched) (f, EXEC) fd2 event cb io = (Inr r, io')"
    and "io2 = addEvent_grow fd1 io'"
  shows "m_pendingEventCount io2 = m_pendingEventCount io + 1 \<and> handed io2 = handed io \<and>
    cancelEvent rt fd2 event io2 = (Inr False, io2) \<and> cancelAll rt fd2 io2 = (Inr False, io2) \<and>
    delEvent rt fd2 event io2 = (Inr False, io2)"
proof -
  have "0 \<le> fd2" and "int (nat fd1 * 3 div 2) \<le> fd2"
    using assms(2,4) by linarith+
  then show ?thesis
    using addEvent_good [OF conjunct1 [OF io_run_books [OF assms(1)]] _ assms(5,6)] assms(7)
    by (simp add: addEvent_grow_def cancelEvent_def cancelAll_def delEvent_def)
qed

lemma addEvent_race_witness:
  "\<exists>io'. addEvent 0 (Some 0) (200, EXEC) 70 READ None IOManager = (Inr 0, io') \<and>
    m_pendingEventCount (addEvent_grow 40 io') = 1 \<and>
    cancelEvent 0 70 READ (addEvent_grow 40 io') = (Inr False, addEvent_grow 40 io')"
proof -
  have t: "length (m_fdContexts IOManager) = 32" "m_pendingEventCount IOManager = 0"
    by (simp_all add: IOManager_def)
  have n: "\<not> addEvent_fits 70 IOManager" "\<not> addEvent_fits 40 IOManager"
    by (simp_all add: addEvent_fits_def t)
  let ?io1 = "addEvent_grow 70 IOManager"
  have c: "contexts ?io1 ! (m_fdContexts ?io1 ! 70) = new_fd_context 70" "length (m_fdContexts ?io1) = 105"
    by (simp_all add: addEvent_grow_def contextResize_def IOManager_def nth_append Let_def)
  obtain io' where io': "addEvent 0 (Some 0) (200, EXEC) 70 READ None IOManager = (Inr 0, io')"
    using n(1) c by (simp add: addEvent_def find_context_def addEvent_locked_def context_of_def
        getContext_def new_fd_context_def event_bits epoll_ctl_def Let_def)
  show ?thesis
    using addEvent_race [OF io_run.init _ n(2) _ _ io' refl] io' t by simp
qed

end
