(* ===== verification/Hook.thy ===== *)
theory Hook
  imports Fd_Manager IO_Manager "HOL-Library.Signed_Division"
begin

text \<open>
  The hooked system calls of \<open>sylar/hook.cpp\<close> that do not wait for a descriptor: descriptor
  creation, flags and options, and the sleeps, with the case distinctions with which the waiting
  calls begin. \<open>hook\<close> is the thread's \<open>t_hook_enable\<close>; the original functions are those of \<open>sys\<close>.
\<close>

section \<open>Descriptors\<close>

definition hook_socket :: "'k syscalls \<Rightarrow> bool \<Rightarrow> int \<Rightarrow> int \<Rightarrow> int \<Rightarrow> ('k fd_manager, int) action" where
  "hook_socket sys hook family type protocol m =
    (let (fd, k1) = sys_socket sys family type protocol (kernel m); m1 = m\<lparr>kernel := k1\<rparr>
     in if \<not> hook then (Inr fd, m1)
        else if fd = - 1 then (Inr fd, m1)
        else seq (FdManager_get sys fd True) (\<lambda>_. ret fd) m1)"

text \<open>\<open>accept\<close> after its \<open>do_io\<close> has returned \<open>fd\<close>.\<close>

definition hook_accepted :: "'k syscalls \<Rightarrow> int \<Rightarrow> ('k fd_manager, int) action" where
  "hook_accepted sys fd = (if 0 \<le> fd then seq (FdManager_get sys fd True) (\<lambda>_. ret fd) else ret fd)"

text \<open>\<open>rt\<close> is what \<open>epoll_ctl\<close> returns to \<open>cancelAll\<close>; the thread may have no \<open>IOManager\<close>.\<close>

definition close_original :: "'k syscalls \<Rightarrow> int \<Rightarrow> ('k fd_manager \<times> io_manager option, int) action" where
  "close_original sys fd = (\<lambda>(m, iom). let (n, k1) = sys_close sys fd (kernel m) in (Inr n, (m\<lparr>kernel := k1\<rparr>, iom)))"

definition hook_close :: "'k syscalls \<Rightarrow> bool \<Rightarrow> int \<Rightarrow> int \<Rightarrow> ('k fd_manager \<times> io_manager option, int) action" where
  "hook_close sys hook rt fd = (\<lambda>(m, iom).
    if \<not> hook then close_original sys fd (m, iom)
    else
      case FdManager_get sys fd False m of
        (Inl e, m1) \<Rightarrow> (Inl e, (m1, iom))
      | (Inr None, m1) \<Rightarrow> close_original sys fd (m1, iom)
      | (Inr (Some ctx), m1) \<Rightarrow>
          let (r, iom1) = (case iom of None \<Rightarrow> (Inr False, None)
                | Some io \<Rightarrow> let (r, io1) = cancelAll rt fd io in (r, Some io1))
          in case r of
               Inl e \<Rightarrow> (Inl e, (m1, iom1))
             | Inr _ \<Rightarrow>
                 (case FdManager_del fd m1 of
                    (Inl e, m2) \<Rightarrow> (Inl e, (m2, iom1))
                  | (Inr _, m2) \<Rightarrow> close_original sys fd (m2, iom1)))"

section \<open>fcntl\<close>

text \<open>The commands whose argument is an \<open>int\<close>, those without, and those with a pointer.\<close>

definition fcntl_int_cmds :: "int list" where
  "fcntl_int_cmds = [0, 1030, 2, 8, 10, 1024, 1026, 1031]"

definition fcntl_none_cmds :: "int list" where
  "fcntl_none_cmds = [1, 9, 11, 1025, 1032]"

definition fcntl_ptr_cmds :: "int list" where
  "fcntl_ptr_cmds = [6, 7, 5, 16, 15]"

text \<open>\<open>va_arg\<close> at a type other than the argument's is undefined; 0 and the null pointer stand for it.\<close>

definition va_int :: "va_arg \<Rightarrow> s32" where
  "va_int a = (case a of Va_Int i \<Rightarrow> i | _ \<Rightarrow> 0)"

definition va_ptr :: "va_arg \<Rightarrow> nat" where
  "va_ptr a = (case a of Va_Ptr p \<Rightarrow> p | _ \<Rightarrow> 0)"

definition fcntl_f :: "'k syscalls \<Rightarrow> int \<Rightarrow> int \<Rightarrow> va_arg \<Rightarrow> ('k fd_manager, s32) action" where
  "fcntl_f sys fd cmd a m = (let (n, k1) = sys_fcntl sys fd cmd a (kernel m) in (Inr n, m\<lparr>kernel := k1\<rparr>))"

text \<open>The calls leave a descriptor alone unless it has an open context of a socket.\<close>

definition untracked :: "fd_ctx option \<Rightarrow> bool" where
  "untracked ctx \<longleftrightarrow> (case ctx of None \<Rightarrow> True | Some c \<Rightarrow> m_isClosed c \<or> \<not> m_isSocket c)"

definition set_ctx :: "int \<Rightarrow> fd_ctx \<Rightarrow> 'k fd_manager \<Rightarrow> 'k fd_manager" where
  "set_ctx fd c m = m\<lparr>m_datas := (m_datas m)[nat fd := Some c]\<rparr>"

definition hook_fcntl :: "'k syscalls \<Rightarrow> int \<Rightarrow> int \<Rightarrow> va_arg \<Rightarrow> ('k fd_manager, s32) action" where
  "hook_fcntl sys fd cmd a =
    (if cmd = F_SETFL then
       seq (FdManager_get sys fd False) (\<lambda>ctx.
         if untracked ctx then fcntl_f sys fd cmd (Va_Int (va_int a))
         else
           let c = the ctx; arg = va_int a;
               arg' = (if m_sysNonblock c then arg OR O_NONBLOCK else arg AND NOT O_NONBLOCK)
           in (\<lambda>m. fcntl_f sys fd cmd (Va_Int arg') (set_ctx fd (c\<lparr>m_userNonblock := (arg AND O_NONBLOCK \<noteq> 0)\<rparr>) m)))
     else if cmd = F_GETFL then
       seq (fcntl_f sys fd cmd Va_None) (\<lambda>arg.
       seq (FdManager_get sys fd False) (\<lambda>ctx.
         if untracked ctx then ret arg
         else if m_userNonblock (the ctx) then ret (arg OR O_NONBLOCK)
         else ret (arg AND NOT O_NONBLOCK)))
     else if cmd \<in> set fcntl_int_cmds then fcntl_f sys fd cmd (Va_Int (va_int a))
     else if cmd \<in> set fcntl_none_cmds then fcntl_f sys fd cmd Va_None
     else if cmd \<in> set fcntl_ptr_cmds then fcntl_f sys fd cmd (Va_Ptr (va_ptr a))
     else fcntl_f sys fd cmd Va_None)"

section \<open>ioctl and socket options\<close>

definition FIONBIO :: u64 where "FIONBIO = 0x5421"

definition ioctl_f :: "'k syscalls \<Rightarrow> int \<Rightarrow> u64 \<Rightarrow> s32 \<Rightarrow> ('k fd_manager, int) action" where
  "ioctl_f sys d request arg m = (let (n, k1) = sys_ioctl sys d request arg (kernel m) in (Inr n, m\<lparr>kernel := k1\<rparr>))"

text \<open>\<open>arg\<close> is the integer that the pointer points to.\<close>

definition hook_ioctl :: "'k syscalls \<Rightarrow> int \<Rightarrow> u64 \<Rightarrow> s32 \<Rightarrow> ('k fd_manager, int) action" where
  "hook_ioctl sys d request arg =
    (if request = FIONBIO then
       seq (FdManager_get sys d False) (\<lambda>ctx.
         if untracked ctx then ioctl_f sys d request arg
         else (\<lambda>m. ioctl_f sys d request arg (set_ctx d ((the ctx)\<lparr>m_userNonblock := (arg \<noteq> 0)\<rparr>) m)))
     else ioctl_f sys d request arg)"

text \<open>The timeout in milliseconds, from a \<open>timeval\<close> of two \<open>long\<close>s to a \<open>uint64_t\<close>.\<close>

definition timeval_ms :: "s64 \<Rightarrow> s64 \<Rightarrow> u64" where
  "timeval_ms tv_sec tv_usec = tv_sec * 1000 + word_of_int (sint tv_usec sdiv 1000)"

definition SOL_SOCKET :: int where "SOL_SOCKET = 1"

text \<open>
  What \<open>setsockopt\<close> does before it calls the original function, which returns its result; the
  option's value is read as a \<open>timeval\<close>.
\<close>

definition hook_setsockopt :: "'k syscalls \<Rightarrow> bool \<Rightarrow> int \<Rightarrow> int \<Rightarrow> int \<Rightarrow> s64 \<times> s64 \<Rightarrow> ('k fd_manager, unit) action" where
  "hook_setsockopt sys hook sockfd level optname v =
    (if \<not> hook then ret ()
     else if level = SOL_SOCKET \<and> (optname = SO_RCVTIMEO \<or> optname = SO_SNDTIMEO) then
       seq (FdManager_get sys sockfd False) (\<lambda>ctx.
         case ctx of
           None \<Rightarrow> ret ()
         | Some c \<Rightarrow> (\<lambda>m. (Inr (), set_ctx sockfd (FdCtx_setTimeout optname (timeval_ms (fst v) (snd v)) c) m)))
     else ret ())"

section \<open>How the waiting calls begin\<close>

text \<open>Call the original function, fail with \<open>EBADF\<close>, or wait in the coroutine with this timeout.\<close>

datatype io_entry = Original | Bad_Descriptor | Managed u64

definition do_io_entry :: "'k syscalls \<Rightarrow> bool \<Rightarrow> int \<Rightarrow> int \<Rightarrow> ('k fd_manager, io_entry) action" where
  "do_io_entry sys hook fd timeout_so =
    (if \<not> hook then ret Original
     else
       seq (FdManager_get sys fd False) (\<lambda>ctx.
         case ctx of
           None \<Rightarrow> ret Original
         | Some c \<Rightarrow>
             if m_isClosed c then ret Bad_Descriptor
             else if \<not> m_isSocket c \<or> m_userNonblock c then ret Original
             else ret (Managed (FdCtx_getTimeout timeout_so c))))"

definition connect_entry :: "'k syscalls \<Rightarrow> bool \<Rightarrow> int \<Rightarrow> u64 \<Rightarrow> ('k fd_manager, io_entry) action" where
  "connect_entry sys hook fd timeout_ms =
    (if \<not> hook then ret Original
     else
       seq (FdManager_get sys fd False) (\<lambda>ctx.
         case ctx of
           None \<Rightarrow> ret Bad_Descriptor
         | Some c \<Rightarrow>
             if m_isClosed c then ret Bad_Descriptor
             else if \<not> m_isSocket c then ret Original
             else if m_userNonblock c then ret Original
             else ret (Managed timeout_ms)))"

text \<open>The event each call waits for and the timeout it respects.\<close>

datatype hooked_call = H_accept | H_read | H_readv | H_recv | H_recvfrom | H_recvmsg
  | H_write | H_writev | H_send | H_sendto | H_sendmsg

fun hooked_io :: "hooked_call \<Rightarrow> event \<times> int" where
  "hooked_io H_accept = (READ, SO_RCVTIMEO)"
| "hooked_io H_read = (READ, SO_RCVTIMEO)"
| "hooked_io H_readv = (READ, SO_RCVTIMEO)"
| "hooked_io H_recv = (READ, SO_RCVTIMEO)"
| "hooked_io H_recvfrom = (READ, SO_RCVTIMEO)"
| "hooked_io H_recvmsg = (READ, SO_RCVTIMEO)"
| "hooked_io H_write = (WRITE, SO_SNDTIMEO)"
| "hooked_io H_writev = (WRITE, SO_SNDTIMEO)"
| "hooked_io H_send = (WRITE, SO_SNDTIMEO)"
| "hooked_io H_sendto = (WRITE, SO_SNDTIMEO)"
| "hooked_io H_sendmsg = (WRITE, SO_SNDTIMEO)"

section \<open>Sleeping\<close>

text \<open>
  The milliseconds each sleep asks of \<open>addTimer\<close>: \<open>unsigned int\<close> arithmetic in \<open>sleep\<close> and
  \<open>usleep\<close>, \<open>long\<close> arithmetic stored into an \<open>int\<close> in \<open>nanosleep\<close>, and then a conversion to
  \<open>uint64_t\<close>, which extends the sign.
\<close>

definition sleep_ms :: "u32 \<Rightarrow> u64" where
  "sleep_ms seconds = ucast (seconds * 1000)"

definition usleep_ms :: "u32 \<Rightarrow> u64" where
  "usleep_ms usec = ucast (usec div 1000)"

definition nanosleep_ms :: "s64 \<Rightarrow> s64 \<Rightarrow> u64" where
  "nanosleep_ms tv_sec tv_nsec =
    (let timeout_ms = word_of_int (sint tv_sec * 1000 + (sint tv_nsec sdiv 1000) sdiv 1000) :: s32 in scast timeout_ms)"

text \<open>
  The common body: a timer whose callback schedules the fiber, then \<open>YieldToHold\<close> on thread \<open>t\<close>.
  \<open>wakes\<close> names the callback for a fiber, \<open>addr\<close> is the new timer's address and \<open>main\<close> the address of
  a main fiber, if one has to be made.
\<close>

definition hook_sleep ::
  "(nat \<Rightarrow> callback) \<Rightarrow> u64 \<Rightarrow> nat \<Rightarrow> nat \<Rightarrow> nat \<Rightarrow> u64 \<Rightarrow> (timer_manager \<times> fiber_system, unit) action" where
  "hook_sleep wakes now addr t main ms = (\<lambda>(tm, fbs).
    case Fiber_GetThis t main fbs of
      (Inl e, fbs1) \<Rightarrow> (Inl e, (tm, fbs1))
    | (Inr f, fbs1) \<Rightarrow>
        let (_, tm1) = TimerManager_addTimer now addr ms (Some (wakes f)) False tm;
            (r, fbs2) = Fiber_YieldToHold t main fbs1
        in (r, (tm1, fbs2)))"

section \<open>Lemmas\<close>

lemma get_ctx [simp]: "0 \<le> fd \<Longrightarrow> FdManager_get sys fd False m = (Inr (fd_map m (nat fd)), m)"
  using FdManager_get_lookup [of sys "nat fd" m] by simp

lemma set_ctx_map:
  "fd_map m (nat fd) = Some c \<Longrightarrow> fd_map (set_ctx fd c' m) = (fd_map m)(nat fd \<mapsto> c')"
  by (auto simp: set_ctx_def fd_map_def split: if_splits)

lemma set_ctx_sel [simp]: "kernel (set_ctx fd c m) = kernel m" "fd_inv (set_ctx fd c m) = fd_inv m"
  by (simp_all add: set_ctx_def fd_inv_def)

lemma kernel_update [simp]: "fd_map (m\<lparr>kernel := k\<rparr>) = fd_map m" "fd_inv (m\<lparr>kernel := k\<rparr>) = fd_inv m"
  by (auto simp: fd_map_def fd_inv_def)

text \<open>A descriptor the hooks look after: an open socket, kept non-blocking.\<close>

definition managed_socket :: "'k syscalls \<Rightarrow> nat \<Rightarrow> fd_ctx \<Rightarrow> 'k fd_manager \<Rightarrow> bool" where
  "managed_socket sys fd c m \<longleftrightarrow> fd_map m fd = Some c \<and> m_isSocket c \<and> m_sysNonblock c \<and> \<not> m_isClosed c \<and>
    nonblocking sys (int fd) (kernel m)"

lemma getfl_word: "flags_laws sys \<Longrightarrow> fcntl_f sys fd F_GETFL Va_None m = (Inr (fst (sys_fcntl sys fd F_GETFL Va_None (kernel m))), m)"
  by (simp add: fcntl_f_def case_prod_beta flags_laws_def)

lemma F_differ [simp]: "F_GETFL \<noteq> F_SETFL" "F_SETFL \<noteq> F_GETFL" "SO_SNDTIMEO \<noteq> SO_RCVTIMEO" "SO_RCVTIMEO \<noteq> SO_SNDTIMEO"
  by (simp_all add: F_GETFL_def F_SETFL_def SO_SNDTIMEO_def SO_RCVTIMEO_def)

lemma setfl_managed:
  assumes "flags_laws sys" and "managed_socket sys fd c m"
  shows "\<exists>n m'. hook_fcntl sys (int fd) F_SETFL (Va_Int arg) m = (Inr n, m') \<and>
    managed_socket sys fd (c\<lparr>m_userNonblock := (arg AND O_NONBLOCK \<noteq> 0)\<rparr>) m'"
  using assms flags_lawsD(2) [OF assms(1)]
  by (simp add: hook_fcntl_def managed_socket_def seq_def untracked_def va_int_def fcntl_f_def case_prod_beta
      Let_def set_ctx_map)

lemma getfl_managed:
  assumes "flags_laws sys" and "managed_socket sys fd c m"
  shows "hook_fcntl sys (int fd) F_GETFL a m =
    (Inr (if m_userNonblock c then fst (sys_fcntl sys (int fd) F_GETFL Va_None (kernel m)) OR O_NONBLOCK
      else fst (sys_fcntl sys (int fd) F_GETFL Va_None (kernel m)) AND NOT O_NONBLOCK), m)"
  using assms(2) getfl_word [OF assms(1), of "int fd" m]
  by (simp add: hook_fcntl_def managed_socket_def seq_def untracked_def ret_def)

lemma do_io_entry_managed:
  "managed_socket sys fd c m \<Longrightarrow> do_io_entry sys True (int fd) so m =
    (Inr (if m_userNonblock c then Original else Managed (FdCtx_getTimeout so c)), m)"
  by (simp add: do_io_entry_def managed_socket_def seq_def ret_def)

lemma new_socket_managed:
  assumes "flags_laws sys" and "fd_inv m" and "fd_map m fd = None"
    and "sys_fstat sys (int fd) (kernel m) = Some True"
  shows "\<exists>c m'. FdManager_get sys (int fd) True m = (Inr (Some c), m') \<and> fd_inv m' \<and>
    managed_socket sys fd c m' \<and> \<not> m_userNonblock c \<and> FdCtx_getTimeout so c = - 1"
proof -
  define c where "c = fst (FdCtx sys (int fd) (kernel m))"
  have "m_isSocket c" "m_sysNonblock c" "\<not> m_isClosed c" "\<not> m_userNonblock c" "FdCtx_getTimeout so c = - 1"
    "nonblocking sys (int fd) (snd (FdCtx sys (int fd) (kernel m)))"
    using FdCtx_ok [OF assms(1), of "int fd" "kernel m"] assms(4)
    by (simp_all add: c_def case_prod_beta Let_def FdCtx_getTimeout_def)
  moreover obtain m' where "FdManager_get sys (int fd) True m = (Inr (Some c), m')" "fd_map m' = (fd_map m)(fd \<mapsto> c)"
      "kernel m' = snd (FdCtx sys (int fd) (kernel m))" "fd_inv m'"
    using FdManager_get_absent [OF assms(2,3), of sys] unfolding c_def by blast
  ultimately show ?thesis
    by (auto simp: managed_socket_def)
qed

lemma nonblock_bit: "(x AND O_NONBLOCK \<noteq> 0) = (y AND O_NONBLOCK \<noteq> 0) \<Longrightarrow> x AND O_NONBLOCK = y AND O_NONBLOCK" for x y :: s32
proof -
  have "z AND 2 ^ n = (if bit z n then 2 ^ n else 0)" for z :: s32 and n
    by (rule bit_word_eqI) (auto simp: bit_simps)
  from this [of _ 11] have b: "z AND O_NONBLOCK = (if bit z 11 then O_NONBLOCK else 0)" for z :: s32
    by (simp add: O_NONBLOCK_def)
  assume "(x AND O_NONBLOCK \<noteq> 0) = (y AND O_NONBLOCK \<noteq> 0)"
  then show "x AND O_NONBLOCK = y AND O_NONBLOCK"
    unfolding b by (auto split: if_splits)
qed

lemma close_forgets:
  assumes "fd_inv m"
  shows "\<exists>n m'. hook_close sys True rt (int fd) (m, None) = (Inr n, (m', None)) \<and> fd_map m' fd = None"
proof -
  obtain m2 where "FdManager_del (int fd) m = (Inr (), m2)" "fd_map m2 = (fd_map m)(fd := None)"
    using FdManager_del_ok [OF assms, of fd] by blast
  then show ?thesis
    by (simp add: hook_close_def close_original_def case_prod_beta split: option.split)
qed

text \<open>A fiber that is being executed puts itself to sleep.\<close>

lemma hook_sleep_ok:
  assumes "fs_inv fbs" and "running fbs t = Some f" and "fibers fbs f = Some fb" and "\<not> m_use_caller fb"
    and "t_scheduler_fiber fbs t = Some m" and "fibers fbs m = Some mb" and "m_ctx mb \<noteq> Live"
  shows "hook_sleep wakes now addr t main ms (tm, fbs) =
    (Inr (), (snd (TimerManager_addTimer now addr ms (Some (wakes f)) False tm),
      fbs\<lparr>t_fiber := (t_fiber fbs)(t \<mapsto> m), running := (running fbs)(t \<mapsto> m),
         fibers := (fibers fbs)(f \<mapsto> fb\<lparr>m_state := HOLD, m_ctx := Saved\<rparr>, m \<mapsto> mb\<lparr>m_ctx := Live\<rparr>)\<rparr>))"
proof -
  have f: "m_state fb = EXEC" "m_ctx fb = Live" "t_fiber fbs t = Some f"
    using fs_invD(1) [OF assms(1)] fs_invD(2) [OF assms(1,2)] assms(2,3) by auto
  then have "f \<noteq> m"
    using assms(3,6,7) by auto
  then show ?thesis
    using leave_ok [OF f(3) assms(5,2,6,3) _ assms(7) f(1) assms(4), of To_Hold main] f assms(3)
    by (simp add: hook_sleep_def Fiber_GetThis_def case_prod_beta)
qed

lemma addTimer_sel:
  "let tm' = snd (TimerManager_addTimer now addr ms cb recurring tm) in
    addr \<in> set (m_timers tm') \<and> mem tm' addr = Timer now ms cb recurring"
  by (simp add: TimerManager_addTimer_def TimerManager_addTimer_locked_def Let_def)

section \<open>Properties\<close>


definition example_fds :: "(int \<Rightarrow> s32) fd_manager" where
  "example_fds = snd (hook_socket example_sys True 2 1 0 (FdManager (\<lambda>_. 2)))"

lemma example_managed: "\<exists>c. managed_socket example_sys 5 c example_fds \<and> FdCtx_getTimeout so c = - 1"
proof -
  let ?m = "(FdManager (\<lambda>_ :: int. 2 :: s32))\<lparr>kernel := (\<lambda>_. 2)(5 := 2)\<rparr>"
  have s: "hook_socket example_sys True 2 1 0 (FdManager (\<lambda>_. 2)) = seq (FdManager_get example_sys 5 True) (\<lambda>_. ret 5) ?m"
    by (simp add: hook_socket_def example_sys_def FdManager_def)
  obtain c m' where "FdManager_get example_sys (int 5) True ?m = (Inr (Some c), m')" "managed_socket example_sys 5 c m'"
      "FdCtx_getTimeout so c = - 1"
    using new_socket_managed [OF example_flags_laws, of ?m 5 so] by (auto simp: FdManager_init example_sys_def)
  then show ?thesis
    by (auto simp: example_fds_def s seq_def ret_def)
qed


text \<open>\<open>ioctl\<close> does not keep this up. Given that the kernel's \<open>FIONBIO\<close> sets the flag as asked,
  \<open>ioctl(fd, FIONBIO, 0)\<close> makes the kernel's socket blocking while its context still says that it
  is not, so that the next call is one that should suspend the coroutine and blocks the thread.\<close>

theorem hook_ioctl_blocks:
  assumes "managed_socket sys fd c m"
    and "\<forall>k v. nonblocking sys (int fd) (snd (sys_ioctl sys (int fd) FIONBIO v k)) \<longleftrightarrow> v \<noteq> 0"
  shows "\<exists>n m' c'. hook_ioctl sys (int fd) FIONBIO 0 m = (Inr n, m') \<and> fd_map m' fd = Some c' \<and>
    m_sysNonblock c' \<and> \<not> nonblocking sys (int fd) (kernel m') \<and>
    fst (do_io_entry sys True (int fd) so m') = Inr (Managed (FdCtx_getTimeout so c))"
  using assms
  by (simp add: hook_ioctl_def managed_socket_def seq_def untracked_def ioctl_f_def case_prod_beta set_ctx_map
      do_io_entry_def ret_def FdCtx_getTimeout_def)

lemma hook_ioctl_blocks_witness:
  "\<exists>n m'. hook_ioctl example_sys 5 FIONBIO 0 example_fds = (Inr n, m') \<and> \<not> nonblocking example_sys 5 (kernel m')"
proof -
  obtain c where c: "managed_socket example_sys 5 c example_fds"
    using example_managed by blast
  have "\<forall>k v. nonblocking example_sys (int 5) (snd (sys_ioctl example_sys (int 5) FIONBIO v k)) \<longleftrightarrow> v \<noteq> 0"
    by (simp add: nonblocking_def example_sys_def)
  from hook_ioctl_blocks [OF c this, of SO_RCVTIMEO] show ?thesis
    by auto
qed

text \<open>The life of a hooked socket: after \<open>socket\<close> the waiting calls suspend the coroutine without
  a limit; \<open>setsockopt\<close> with \<open>SO_RCVTIMEO\<close> limits the reading calls, and only these, to the
  timeout in milliseconds; after \<open>close\<close> the descriptor is unknown again.\<close>

theorem hooked_socket_life:
  assumes "flags_laws sys" and "fd_inv m" and "sys_socket sys family type protocol (kernel m) = (int fd, k)"
    and "fd_map m fd = None" and "sys_fstat sys (int fd) k = Some True"
  shows "\<exists>m1 m2 n m3. hook_socket sys True family type protocol m = (Inr (int fd), m1) \<and>
    nonblocking sys (int fd) (kernel m1) \<and>
    fst (do_io_entry sys True (int fd) so m1) = Inr (Managed (- 1)) \<and>
    hook_setsockopt sys True (int fd) SOL_SOCKET SO_RCVTIMEO (sec, usec) m1 = (Inr (), m2) \<and>
    fst (do_io_entry sys True (int fd) (snd (hooked_io H_read)) m2) = Inr (Managed (timeval_ms sec usec)) \<and>
    fst (do_io_entry sys True (int fd) (snd (hooked_io H_write)) m2) = Inr (Managed (- 1)) \<and>
    hook_close sys True rt (int fd) (m2, None) = (Inr n, (m3, None)) \<and>
    fst (do_io_entry sys True (int fd) so m3) = Inr Original"
proof -
  let ?m = "m\<lparr>kernel := k\<rparr>"
  obtain c m1 where get: "FdManager_get sys (int fd) True ?m = (Inr (Some c), m1)" and inv: "fd_inv m1"
      and c: "managed_socket sys fd c m1" "\<not> m_userNonblock c" "FdCtx_getTimeout SO_RCVTIMEO c = - 1"
    using new_socket_managed [OF assms(1), of ?m fd SO_RCVTIMEO] assms(2,4,5) by auto
  have c': "FdCtx_getTimeout SO_SNDTIMEO c = - 1"
    using new_socket_managed [OF assms(1), of ?m fd SO_SNDTIMEO] get assms(2,4,5) by auto
  have so: "FdCtx_getTimeout so c = - 1"
    using c(3) c' by (auto simp: FdCtx_getTimeout_def)
  let ?c2 = "FdCtx_setTimeout SO_RCVTIMEO (timeval_ms sec usec) c" and ?m2 = "set_ctx (int fd) (FdCtx_setTimeout SO_RCVTIMEO (timeval_ms sec usec) c) m1"
  have m2: "managed_socket sys fd ?c2 ?m2" "\<not> m_userNonblock ?c2"
    using c by (simp_all add: managed_socket_def set_ctx_map FdCtx_setTimeout_def)
  have t2: "FdCtx_getTimeout SO_RCVTIMEO ?c2 = timeval_ms sec usec" "FdCtx_getTimeout SO_SNDTIMEO ?c2 = - 1"
    using c' by (simp_all add: FdCtx_getTimeout_def FdCtx_setTimeout_def)
  have "hook_setsockopt sys True (int fd) SOL_SOCKET SO_RCVTIMEO (sec, usec) m1 = (Inr (), ?m2)"
    using c(1) by (simp add: hook_setsockopt_def seq_def managed_socket_def)
  moreover have "hook_socket sys True family type protocol m = (Inr (int fd), m1)"
    using assms(3) get by (simp add: hook_socket_def seq_def ret_def)
  moreover obtain n m3 where "hook_close sys True rt (int fd) (?m2, None) = (Inr n, (m3, None))" "fd_map m3 fd = None"
    using close_forgets [of ?m2 sys rt fd] inv by auto
  ultimately show ?thesis
    using do_io_entry_managed [OF c(1), of so] c(1,2) do_io_entry_managed [OF m2(1)] m2(2) t2 so
    by (auto simp: managed_socket_def) (simp add: do_io_entry_def seq_def ret_def)
qed

lemma hooked_socket_life_witness:
  "\<exists>m1. hook_socket example_sys True 2 1 0 (FdManager (\<lambda>_. 2)) = (Inr 5, m1) \<and>
    fst (do_io_entry example_sys True 5 SO_RCVTIMEO m1) = Inr (Managed (- 1))"
proof -
  have "sys_socket example_sys 2 1 0 (kernel (FdManager (\<lambda>_. 2))) = (int 5, (\<lambda>_. 2)(5 := 2))"
    "fd_map (FdManager (\<lambda>_. 2)) 5 = None" "sys_fstat example_sys (int 5) ((\<lambda>_. 2)(5 := 2)) = Some True"
    by (simp_all add: example_sys_def FdManager_init FdManager_def fd_map_def)
  from hooked_socket_life [OF example_flags_laws FdManager_init(1) this, of SO_RCVTIMEO 0 0 0] show ?thesis
    by auto
qed

text \<open>A sleeping fiber gives its thread back to the scheduler's fiber and is left in state \<open>HOLD\<close>
  with its context saved; a timer that will schedule it is in the set, and is due after the
  milliseconds asked for and not before.\<close>

theorem hook_sleep_holds:
  assumes "fs_inv fbs" and "running fbs t = Some f" and "fibers fbs f = Some fb" and "\<not> m_use_caller fb"
    and "t_scheduler_fiber fbs t = Some m" and "fibers fbs m = Some mb" and "m_ctx mb \<noteq> Live"
  shows "\<exists>tm' fbs'. hook_sleep wakes now addr t main (sleep_ms seconds) (tm, fbs) = (Inr (), (tm', fbs')) \<and>
    running fbs' t = Some m \<and> fibers fbs' f = Some (fb\<lparr>m_state := HOLD, m_ctx := Saved\<rparr>) \<and>
    m_cb (mem tm' addr) = Some (wakes f) \<and> \<not> m_recurring (mem tm' addr) \<and>
    (\<forall>later. addr \<in> set (expired_timers later False tm') \<longleftrightarrow> now + sleep_ms seconds \<le> later)"
proof -
  have "f \<noteq> m"
    using fs_invD(2) [OF assms(1,2)] assms(3,6,7) by auto
  then show ?thesis
    unfolding hook_sleep_ok [OF assms]
    using addTimer_sel [of now addr "sleep_ms seconds" "Some (wakes f)" False tm]
    by (auto simp: Let_def Timer_def expired_timers_def)
qed

lemma hook_sleep_holds_witness:
  "\<exists>tm' fbs'. hook_sleep (\<lambda>_. Function 1) 10 2 0 0 (sleep_ms 3) (example_timers True, example_fibers) = (Inr (), (tm', fbs')) \<and>
    running fbs' 0 = Some 100"
proof -
  obtain fb mb where "running example_fibers 0 = Some 200" "fibers example_fibers 200 = Some fb" "\<not> m_use_caller fb"
      "t_scheduler_fiber example_fibers 0 = Some 100" "fibers example_fibers 100 = Some mb" "m_ctx mb \<noteq> Live"
    by (simp add: example_fibers_def main_fiber_def)
  from hook_sleep_holds [OF example_fs_inv this] show ?thesis
    by blast
qed

lemma sdiv_nonneg: "0 \<le> a \<Longrightarrow> a sdiv 1000 = a div 1000" for a :: int
  by (cases "a = 0") (simp_all add: signed_divide_int_def)

text \<open>A value that is cut to 32 bits, extended with its sign, and read as unsigned.\<close>

lemma extended_low: "0 \<le> v \<Longrightarrow> v < 2 ^ 31 \<Longrightarrow> uint (scast (word_of_int v :: s32) :: u64) = v"
  and extended_high: "2 ^ 31 \<le> v \<Longrightarrow> v < 2 ^ 32 \<Longrightarrow> uint (scast (word_of_int v :: s32) :: u64) = v - 2 ^ 32 + 2 ^ 64"
proof -
  have u: "uint (scast (word_of_int v :: s32) :: u64) = ((v + 2 ^ 31) mod 2 ^ 32 - 2 ^ 31) mod 2 ^ 64"
    by (simp only: scast_eq uint_word_of_int sint_sbintrunc')
      (simp add: signed_take_bit_eq_take_bit_shift take_bit_eq_mod mod_simps)
  show "uint (scast (word_of_int v :: s32) :: u64) = v" if "0 \<le> v" "v < 2 ^ 31"
    using that by (simp add: u mod_pos_pos_trivial)
  show "uint (scast (word_of_int v :: s32) :: u64) = v - 2 ^ 32 + 2 ^ 64" if "2 ^ 31 \<le> v" "v < 2 ^ 32"
  proof -
    obtain w where w: "v = 2 ^ 31 + w" "0 \<le> w" "w < 2 ^ 31"
      by (rule that [of "v - 2 ^ 31"]) (use \<open>2 ^ 31 \<le> v\<close> \<open>v < 2 ^ 32\<close> in simp_all)
    have "(v + 2 ^ 31) mod 2 ^ 32 = (w + 2 ^ 32) mod 2 ^ 32"
      by (simp add: w(1) add.commute)
    also have "\<dots> = w"
      using w(2,3) by simp
    finally have "uint (scast (word_of_int v :: s32) :: u64) = (w - 2 ^ 31) mod 2 ^ 64"
      by (simp add: u)
    also have "\<dots> = (w - 2 ^ 31 + 2 ^ 64) mod 2 ^ 64"
      by (simp only: mod_add_self2)
    also have "\<dots> = w - 2 ^ 31 + 2 ^ 64"
      using w(2,3) by (intro mod_pos_pos_trivial) simp_all
    finally show ?thesis
      by (simp add: w(1))
  qed
qed

lemma nanosleep_int:
  "0 \<le> sint nsec \<Longrightarrow> nanosleep_ms sec nsec = scast (word_of_int (sint sec * 1000 + sint nsec div 1000000) :: s32)"
  by (simp add: nanosleep_ms_def Let_def sdiv_nonneg pos_imp_zdiv_nonneg_iff zdiv_zmult2_eq [symmetric])

lemma sleep_unat: "unat (sleep_ms seconds) = unat seconds * 1000 mod 2 ^ 32"
  by (simp add: sleep_ms_def unsigned_ucast_eq unat_word_ariths take_bit_nat_eq_self_iff)

lemma usleep_unat: "unat (usleep_ms usec) = unat usec div 1000"
proof -
  have "unat usec < 2 ^ LENGTH(32)"
    by (rule unsigned_less)
  then show ?thesis
    using div_le_dividend [of "unat usec" 1000]
    by (simp add: usleep_ms_def unsigned_ucast_eq unat_div take_bit_nat_eq_self_iff)
qed

text \<open>How long the sleeps last. \<open>usleep\<close> is exact to the millisecond, but \<open>sleep\<close> multiplies in
  32 bits: 4294968 seconds, just under 50 days, become 704 milliseconds. \<open>nanosleep\<close> is exact below
  \<open>2 ^ 31\<close> milliseconds; from there up to \<open>2 ^ 32\<close> its \<open>int\<close> is negative and the sleep lasts more
  than \<open>2 ^ 63\<close> milliseconds.\<close>

theorem sleeps_last:
  "unat (sleep_ms seconds) = unat seconds * 1000 mod 2 ^ 32 \<and> unat (sleep_ms 4294968) = 704 \<and>
   unat (usleep_ms usec) = unat usec div 1000 \<and>
   (0 \<le> sint sec \<and> 0 \<le> sint nsec \<and> sint sec * 1000 + sint nsec div 1000000 < 2 ^ 31 \<longrightarrow>
     int (unat (nanosleep_ms sec nsec)) = sint sec * 1000 + sint nsec div 1000000) \<and>
   (0 \<le> sint nsec \<and> 2 ^ 31 \<le> sint sec * 1000 + sint nsec div 1000000 \<and>
       sint sec * 1000 + sint nsec div 1000000 < 2 ^ 32 \<longrightarrow>
     2 ^ 63 \<le> unat (nanosleep_ms sec nsec))"
proof -
  let ?v = "sint sec * 1000 + sint nsec div 1000000"
  have "int (unat (nanosleep_ms sec nsec)) = ?v" if "0 \<le> sint sec" "0 \<le> sint nsec" "?v < 2 ^ 31"
    using that extended_low [of ?v] nanosleep_int [of nsec sec] by (simp add: pos_imp_zdiv_nonneg_iff)
  moreover have "2 ^ 63 \<le> unat (nanosleep_ms sec nsec)" if "0 \<le> sint nsec" "2 ^ 31 \<le> ?v" "?v < 2 ^ 32"
  proof -
    have "int (2 ^ 63) \<le> int (unat (nanosleep_ms sec nsec))"
      using that extended_high [of ?v] nanosleep_int [of nsec sec] by simp
    then show ?thesis
      by (simp only: of_nat_le_iff)
  qed
  ultimately show ?thesis
    using sleep_unat [of seconds] sleep_unat [of 4294968] usleep_unat [of usec] by simp
qed

lemma sleeps_last_witness: "unat (sleep_ms 60) = 60000 \<and> int (unat (nanosleep_ms 5 30000000)) = 5030 \<and>
    2 ^ 63 \<le> unat (nanosleep_ms 3000000 0)"
  using sleeps_last [of 60 0 5 30000000] sleeps_last [of 60 0 3000000 0] by simp

text \<open>A \<open>timeval\<close> is rounded down to milliseconds; in particular the timeouts below one
  millisecond, and the zero that means no timeout at all, become a timeout of zero.\<close>

theorem timeval_ms_rounds:
  assumes "0 \<le> sint sec" and "sint sec < 2 ^ 50" and "0 \<le> sint usec" and "sint usec < 1000000"
  shows "int (unat (timeval_ms sec usec)) = sint sec * 1000 + sint usec div 1000 \<and>
    (timeval_ms sec usec = 0 \<longleftrightarrow> sec = 0 \<and> sint usec < 1000) \<and> timeval_ms sec usec \<noteq> - 1"
proof -
  have "sint usec div 1000 < 1000" "0 \<le> sint usec div 1000"
    using assms(3,4) by simp_all
  then have lim: "0 \<le> sint sec * 1000 + sint usec div 1000" "sint sec * 1000 + sint usec div 1000 < 2 ^ 62"
    using assms(1,2) by simp_all
  have "timeval_ms sec usec = word_of_int (sint sec * 1000 + sint usec div 1000)"
    by (simp add: timeval_ms_def sdiv_nonneg assms(3))
  then have u: "uint (timeval_ms sec usec) = sint sec * 1000 + sint usec div 1000"
    using lim by (simp only: uint_word_of_int) (simp add: mod_pos_pos_trivial)
  have "sec = word_of_int (sint sec)"
    by simp
  then have "sec = 0 \<longleftrightarrow> sint sec = 0"
    by (metis signed_0 of_int_0)
  moreover have "timeval_ms sec usec = 0 \<longleftrightarrow> uint (timeval_ms sec usec) = 0"
    by (simp add: uint_0_iff)
  moreover have "timeval_ms sec usec \<noteq> - 1"
    using u lim(2) by (auto simp: unsigned_minus_1_eq_mask mask_eq_exp_minus_1)
  ultimately show ?thesis
    using u assms(1,3) \<open>sint usec div 1000 < 1000\<close> by auto
qed

lemma timeval_ms_rounds_witness: "timeval_ms 0 999 = 0 \<and> timeval_ms 1 500000 \<noteq> - 1"
  using timeval_ms_rounds [of 0 999] timeval_ms_rounds [of 1 500000] by simp

end
