(* ===== verification/Hook_IO.thy ===== *)
theory Hook_IO
  imports Hook
begin

text \<open>
  \<open>do_io\<close> and \<open>connect_with_timeout\<close> (\<open>sylar/hook.cpp\<close>) from the point where the descriptor turns
  out to be a socket to wait for: the coroutine tries the original call, and when that would block
  it arms a timer, registers itself for the event, yields, and looks when it is resumed who has
  woken it. Each of these is one step of its own; the expiry of timers, the timeout's callback and
  the events of other fibers and of epoll come in between in any order.
\<close>

section \<open>The state of a waiting call\<close>

datatype wait_pc = Calling | Arming | Adding | Waiting | Checking | Return_With int int

text \<open>
  The call's constants: the fiber and its scheduler, the descriptor, the event, the timeout
  (\<open>(uint64_t)-1\<close> for none), and a name for its \<open>tinfo\<close> and the lambda it gives to the timer.
\<close>

record waiter =
  w_fiber :: nat
  w_sched :: nat
  w_fd :: nat
  w_event :: event
  w_to :: u64
  w_tinfo :: nat

text \<open>
  \<open>w_cancelled\<close> is \<open>tinfo->cancelled\<close>, \<open>w_fired\<close> the number of times the timer has handed its
  callback to the scheduler without the callback having run, \<open>w_resumed\<close> says that the fiber has
  been handed to its scheduler since it began to wait. \<open>w_calls\<close> and \<open>w_failed\<close> record the results
  of the original call, with \<open>errno\<close>, and whether \<open>addEvent\<close> has failed.
\<close>

record wait_state =
  w_tm :: timer_manager
  w_io :: io_manager
  w_timer :: "nat option"
  w_fired :: nat
  w_cancelled :: int
  w_resumed :: bool
  w_pc :: wait_pc
  w_calls :: "(int \<times> int) list"
  w_failed :: bool

definition EINTR :: int where "EINTR = 4"
definition EAGAIN :: int where "EAGAIN = 11"
definition ETIMEDOUT :: int where "ETIMEDOUT = 110"
definition EINPROGRESS :: int where "EINPROGRESS = 115"

lemmas errnos = EINTR_def EAGAIN_def ETIMEDOUT_def EINPROGRESS_def

text \<open>The callback in the timer, and the item the fiber is handed over as.\<close>

definition own_cb :: "waiter \<Rightarrow> callback" where
  "own_cb p = OnTimer (w_tinfo p) (Function (w_tinfo p))"

definition own_item :: "waiter \<Rightarrow> event_context" where
  "own_item p = \<lparr>ec_scheduler = Some (w_sched p), ec_fiber = Some (w_fiber p), ec_cb = None\<rparr>"

section \<open>The steps of do_io\<close>

text \<open>The original call answers \<open>n\<close> and leaves \<open>e\<close> in \<open>errno\<close>; \<open>EINTR\<close> means to call again.\<close>

definition do_io_call :: "int \<Rightarrow> int \<Rightarrow> wait_state \<Rightarrow> wait_state" where
  "do_io_call n e st =
    (let st1 = st\<lparr>w_calls := w_calls st @ [(n, e)]\<rparr>
     in if n = - 1 \<and> e = EINTR then st1
        else if n = - 1 \<and> e = EAGAIN then st1\<lparr>w_pc := Arming\<rparr>
        else st1\<lparr>w_pc := Return_With n e\<rparr>)"

definition arm_timeout :: "waiter \<Rightarrow> u64 \<Rightarrow> nat \<Rightarrow> wait_state \<Rightarrow> wait_state" where
  "arm_timeout p now addr st =
    (if w_to p \<noteq> - 1 then
       let (timer, tm1) = TimerManager_addConditionTimer now addr (w_to p) (Function (w_tinfo p)) (w_tinfo p) False (w_tm st)
       in st\<lparr>w_tm := tm1, w_timer := Some timer, w_pc := Adding\<rparr>
     else st\<lparr>w_timer := None, w_pc := Adding\<rparr>)"

definition cancel_timeout :: "wait_state \<Rightarrow> wait_state" where
  "cancel_timeout st = (case w_timer st of None \<Rightarrow> st | Some t \<Rightarrow> st\<lparr>w_tm := snd (Timer_cancel t (w_tm st))\<rparr>)"

text \<open>\<open>rt\<close> is what \<open>epoll_ctl\<close> answers.\<close>

definition do_io_add :: "waiter \<Rightarrow> int \<Rightarrow> int \<Rightarrow> wait_state \<Rightarrow> fault + wait_state" where
  "do_io_add p rt e st =
    (case addEvent rt (Some (w_sched p)) (w_fiber p, EXEC) (int (w_fd p)) (w_event p) None (w_io st) of
       (Inl f, _) \<Rightarrow> Inl f
     | (Inr r, io1) \<Rightarrow>
         if r \<noteq> 0 then Inr ((cancel_timeout (st\<lparr>w_io := io1\<rparr>))\<lparr>w_pc := Return_With (- 1) e, w_failed := True\<rparr>)
         else Inr (st\<lparr>w_io := io1, w_resumed := False, w_pc := Waiting\<rparr>))"

definition do_io_wake :: "wait_state \<Rightarrow> wait_state" where
  "do_io_wake st =
    (let st1 = cancel_timeout st
     in if w_cancelled st1 \<noteq> 0 then st1\<lparr>w_pc := Return_With (- 1) (w_cancelled st1)\<rparr> else st1\<lparr>w_pc := Calling\<rparr>)"

section \<open>The steps of connect_with_timeout\<close>

definition connect_call :: "int \<Rightarrow> int \<Rightarrow> wait_state \<Rightarrow> wait_state" where
  "connect_call n e st =
    (let st1 = st\<lparr>w_calls := w_calls st @ [(n, e)]\<rparr>
     in if n = 0 then st1\<lparr>w_pc := Return_With 0 e\<rparr>
        else if n \<noteq> - 1 \<or> e \<noteq> EINPROGRESS then st1\<lparr>w_pc := Return_With n e\<rparr>
        else st1\<lparr>w_pc := Arming\<rparr>)"

definition connect_add :: "waiter \<Rightarrow> int \<Rightarrow> wait_state \<Rightarrow> fault + wait_state" where
  "connect_add p rt st =
    (case addEvent rt (Some (w_sched p)) (w_fiber p, EXEC) (int (w_fd p)) WRITE None (w_io st) of
       (Inl f, _) \<Rightarrow> Inl f
     | (Inr r, io1) \<Rightarrow>
         if r = 0 then Inr (st\<lparr>w_io := io1, w_resumed := False, w_pc := Waiting\<rparr>)
         else Inr ((cancel_timeout (st\<lparr>w_io := io1\<rparr>))\<lparr>w_pc := Checking, w_failed := True\<rparr>))"

definition connect_wake :: "wait_state \<Rightarrow> wait_state" where
  "connect_wake st =
    (let st1 = cancel_timeout st
     in if w_cancelled st1 \<noteq> 0 then st1\<lparr>w_pc := Return_With (- 1) (w_cancelled st1)\<rparr> else st1\<lparr>w_pc := Checking\<rparr>)"

text \<open>\<open>getsockopt\<close> answers \<open>rc\<close>, with \<open>e\<close> in \<open>errno\<close>, and stores \<open>err\<close>.\<close>

definition connect_check :: "int \<Rightarrow> int \<Rightarrow> int \<Rightarrow> wait_state \<Rightarrow> wait_state" where
  "connect_check rc e err st =
    (if rc = - 1 then st\<lparr>w_pc := Return_With (- 1) e\<rparr>
     else if err = 0 then st\<lparr>w_pc := Return_With 0 e\<rparr>
     else st\<lparr>w_pc := Return_With (- 1) err\<rparr>)"

section \<open>What happens in between\<close>

text \<open>What an operation hands over is appended to \<open>handed\<close>.\<close>

definition handed_since :: "io_manager \<Rightarrow> io_manager \<Rightarrow> event_context list" where
  "handed_since io io' = drop (length (handed io)) (handed io')"

definition returned :: "wait_state \<Rightarrow> bool" where
  "returned st \<longleftrightarrow> (case w_pc st of Return_With _ _ \<Rightarrow> True | _ \<Rightarrow> False)"

text \<open>
  The timer's callback runs: \<open>tinfo\<close> is gone when the call has returned; otherwise it is marked
  as timed out and the event is cancelled.
\<close>

definition timeout_cb :: "waiter \<Rightarrow> int \<Rightarrow> wait_state \<Rightarrow> fault + wait_state" where
  "timeout_cb p rt st =
    (if returned st \<or> w_cancelled st \<noteq> 0 then Inr st
     else
       case cancelEvent rt (int (w_fd p)) (w_event p) (w_io st) of
         (Inl f, _) \<Rightarrow> Inl f
       | (Inr _, io1) \<Rightarrow>
           Inr (st\<lparr>w_cancelled := ETIMEDOUT, w_io := io1,
             w_resumed := (w_resumed st \<or> own_item p \<in> set (handed_since (w_io st) io1))\<rparr>))"

text \<open>The fiber is registered for its event.\<close>

definition awaiting :: "waiter \<Rightarrow> io_manager \<Rightarrow> bool" where
  "awaiting p io \<longleftrightarrow> w_fd p < length (m_fdContexts io) \<and>
    (let c = contexts io ! (m_fdContexts io ! w_fd p) in registered (w_event p) c \<and> slot (w_event p) c = own_item p)"

text \<open>
  What the rest of the program may do to the events meanwhile: anything that hands the fiber over
  when it takes its event away. The events of epoll and the cancellations are of this kind.
\<close>

definition fair_io :: "waiter \<Rightarrow> io_manager \<Rightarrow> io_manager \<Rightarrow> bool" where
  "fair_io p io io' \<longleftrightarrow> (\<exists>n d. io_run n d io') \<and>
    (awaiting p io \<longrightarrow> awaiting p io' \<or> own_item p \<in> set (handed_since io io'))"

text \<open>And to the timers: anything that leaves the call's own timer alone.\<close>

definition fair_tm :: "wait_state \<Rightarrow> timer_manager \<Rightarrow> bool" where
  "fair_tm st tm' \<longleftrightarrow> tm_reachable tm' \<and>
    (\<forall>t. w_timer st = Some t \<longrightarrow> mem tm' t = mem (w_tm st) t \<and> (t \<in> set (m_timers tm') \<longleftrightarrow> t \<in> set (m_timers (w_tm st))))"

text \<open>
  A scheduler thread collects the expired timers; no other timer uses this call's callback.
\<close>

inductive wait_env :: "waiter \<Rightarrow> wait_state \<Rightarrow> wait_state \<Rightarrow> bool" for p where
  timers: "fair_tm st tm' \<Longrightarrow> wait_env p st (st\<lparr>w_tm := tm'\<rparr>)"
| collect: "TimerManager_listExpiredCb now tmp (w_tm st) = (Inr cbs, tm') \<Longrightarrow> tmp \<notin> set (m_timers (w_tm st)) \<Longrightarrow>
    (w_timer st = None \<longrightarrow> Some (own_cb p) \<notin> set cbs) \<Longrightarrow>
    wait_env p st (st\<lparr>w_tm := tm', w_fired := w_fired st + count_list cbs (Some (own_cb p))\<rparr>)"
| run_cb: "0 < w_fired st \<Longrightarrow> rt \<in> {0, - 1} \<Longrightarrow> timeout_cb p rt st = Inr st' \<Longrightarrow>
    wait_env p st (st'\<lparr>w_fired := w_fired st' - 1\<rparr>)"
| others: "fair_io p (w_io st) io' \<Longrightarrow>
    wait_env p st (st\<lparr>w_io := io', w_resumed := (w_resumed st \<or> own_item p \<in> set (handed_since (w_io st) io'))\<rparr>)"

inductive do_io_step :: "waiter \<Rightarrow> wait_state \<Rightarrow> wait_state \<Rightarrow> bool" for p where
  call: "w_pc st = Calling \<Longrightarrow> do_io_step p st (do_io_call n e st)"
| arm: "w_pc st = Arming \<Longrightarrow> addr \<notin> set (m_timers (w_tm st)) \<Longrightarrow> do_io_step p st (arm_timeout p now addr st)"
| add: "w_pc st = Adding \<Longrightarrow> rt \<in> {0, - 1} \<Longrightarrow> do_io_add p rt e st = Inr st' \<Longrightarrow> do_io_step p st st'"
| wake: "w_pc st = Waiting \<Longrightarrow> w_resumed st \<Longrightarrow> do_io_step p st (do_io_wake st)"
| env: "wait_env p st st' \<Longrightarrow> do_io_step p st st'"

definition do_io_begin :: "timer_manager \<Rightarrow> io_manager \<Rightarrow> wait_state" where
  "do_io_begin tm io = \<lparr>w_tm = tm, w_io = io, w_timer = None, w_fired = 0, w_cancelled = 0, w_resumed = False,
    w_pc = Calling, w_calls = [], w_failed = False\<rparr>"

inductive do_io_reachable :: "waiter \<Rightarrow> wait_state \<Rightarrow> bool" for p where
  begins: "tm_reachable tm \<Longrightarrow> io_run n d io \<Longrightarrow> do_io_reachable p (do_io_begin tm io)"
| step: "do_io_reachable p st \<Longrightarrow> do_io_step p st st' \<Longrightarrow> do_io_reachable p st'"

inductive connect_step :: "waiter \<Rightarrow> wait_state \<Rightarrow> wait_state \<Rightarrow> bool" for p where
  call: "w_pc st = Calling \<Longrightarrow> connect_step p st (connect_call n e st)"
| arm: "w_pc st = Arming \<Longrightarrow> addr \<notin> set (m_timers (w_tm st)) \<Longrightarrow> connect_step p st (arm_timeout p now addr st)"
| add: "w_pc st = Adding \<Longrightarrow> rt \<in> {0, - 1} \<Longrightarrow> connect_add p rt st = Inr st' \<Longrightarrow> connect_step p st st'"
| wake: "w_pc st = Waiting \<Longrightarrow> w_resumed st \<Longrightarrow> connect_step p st (connect_wake st)"
| check: "w_pc st = Checking \<Longrightarrow> connect_step p st (connect_check rc e err st)"
| env: "wait_env p st st' \<Longrightarrow> connect_step p st st'"

inductive connect_reachable :: "waiter \<Rightarrow> wait_state \<Rightarrow> bool" for p where
  begins: "tm_reachable tm \<Longrightarrow> io_run n d io \<Longrightarrow> connect_reachable p (do_io_begin tm io)"
| step: "connect_reachable p st \<Longrightarrow> connect_step p st st' \<Longrightarrow> connect_reachable p st'"

section \<open>What the events and cancellations do to a waiter\<close>

lemma cancelEvent_eq:
  assumes good: "io_good io" and i: "i < length (m_fdContexts io)" and ev: "event \<in> {READ, WRITE}"
    and reg: "registered event (contexts io ! (m_fdContexts io ! i))"
  shows "cancelEvent 0 (int i) event io = (let a = m_fdContexts io ! i; c' = without_event event (contexts io ! a)
     in (Inr True, io\<lparr>contexts := (contexts io)[a := c'], m_pendingEventCount := m_pendingEventCount io - 1,
           interest := (interest io)(i := watched a c'), handed := handed io @ [slot event (contexts io ! a)]\<rparr>))"
proof -
  have inv: "io_inv io"
    using good by (simp add: io_good_def)
  show ?thesis
    using i cancelEvent_locked_ok [OF io_invD(1,4) [OF inv i] ev reg unregister_inv(2) [OF inv i refl ev reg], of "int i"]
    by (simp add: cancelEvent_def find_context_def Let_def)
qed

lemma other_slot:
  assumes "ctx_ok c" and "{e, event} = {READ, WRITE}"
  shows "registered e (without_event event c) = registered e c" and "slot e (without_event event c) = slot e c"
  using assms by (auto simp: ctx_simps doubleton_eq_iff)

lemma other_context:
  assumes "io_inv io" and "i < length (m_fdContexts io)" and "j < length (m_fdContexts io)" and "i \<noteq> j"
  shows "m_fdContexts io ! i \<noteq> m_fdContexts io ! j"
  using io_invD(2) [OF assms(1,2)] io_invD(2) [OF assms(1,3)] assms(4) by metis

lemma awaiting_other:
  assumes inv: "io_inv io" and i: "i < length (m_fdContexts io)" and "i \<noteq> w_fd p" and "awaiting p io"
    and "m_fdContexts io' = m_fdContexts io" and "contexts io' = (contexts io)[m_fdContexts io ! i := c]"
  shows "awaiting p io'"
  using assms other_context [OF inv i _ assms(3)] by (auto simp: awaiting_def Let_def)

lemma cancelEvent_fair:
  assumes good: "io_good io" and i: "i < length (m_fdContexts io)" and ev: "event \<in> {READ, WRITE}" "w_event p \<in> {READ, WRITE}"
    and reg: "registered event (contexts io ! (m_fdContexts io ! i))"
    and run: "cancelEvent 0 (int i) event io = (Inr b, io')" and aw: "awaiting p io"
  shows "awaiting p io' \<or> own_item p \<in> set (handed_since io io')"
proof -
  have inv: "io_inv io"
    using good by (simp add: io_good_def)
  let ?a = "m_fdContexts io ! i"
  have io': "m_fdContexts io' = m_fdContexts io" "contexts io' = (contexts io)[?a := without_event event (contexts io ! ?a)]"
    "handed_since io io' = [slot event (contexts io ! ?a)]"
    using run cancelEvent_eq [OF good i ev(1) reg] by (auto simp: Let_def handed_since_def)
  consider "i \<noteq> w_fd p" | "i = w_fd p" "event = w_event p" | "i = w_fd p" "{w_event p, event} = {READ, WRITE}"
    using ev by (cases "i = w_fd p"; cases "event = w_event p") (auto simp: insert_commute)
  then show ?thesis
  proof cases
    case 1
    then show ?thesis
      using awaiting_other [OF inv i _ aw io'(1,2)] by blast
  next
    case 2
    then show ?thesis
      using aw by (simp add: io'(3) awaiting_def Let_def)
  next
    case 3
    then have "awaiting p io'"
      using aw io_invD(1,4) [OF inv i] other_slot [of "contexts io ! ?a" "w_event p" event] io'(1,2)
      by (simp add: awaiting_def Let_def)
    then show ?thesis ..
  qed
qed

lemma cancelAll_fair:
  assumes inv: "io_inv io" and i: "i < length (m_fdContexts io)" and ev: "w_event p \<in> {READ, WRITE}"
    and some: "events (contexts io ! (m_fdContexts io ! i)) \<noteq> 0"
    and run: "cancelAll 0 (int i) io = (Inr b, io')" and aw: "awaiting p io"
  shows "awaiting p io' \<or> own_item p \<in> set (handed_since io io')"
proof -
  let ?a = "m_fdContexts io ! i"
  have io': "m_fdContexts io' = m_fdContexts io" "contexts io' = (contexts io)[?a := fire_both (contexts io ! ?a)]"
    "handed_since io io' = waiters READ (contexts io ! ?a) @ waiters WRITE (contexts io ! ?a)"
    using run cancelAll_ok [OF inv i refl some] by (auto simp: handed_since_def)
  show ?thesis
  proof (cases "i = w_fd p")
    case True
    then show ?thesis
      using aw ev by (auto simp: io'(3) awaiting_def Let_def waiters_def)
  next
    case False
    then show ?thesis
      using awaiting_other [OF inv i False aw io'(1,2)] by blast
  qed
qed

text \<open>An event of epoll, whatever its descriptor, is fair.\<close>

lemma idle_event_fair:
  assumes run: "io_run n d io" and i: "i < length (m_fdContexts io)" and ev: "w_event p \<in> {READ, WRITE}" and rt: "rt \<in> {0, - 1}"
    and step: "idle_event rt ev (m_fdContexts io ! i) io = (Inr (), io')"
  shows "fair_io p io io'"
proof -
  have good: "io_good io"
    using io_run_books [OF run] by blast
  then have inv: "io_inv io"
    by (simp add: io_good_def)
  have "awaiting p io' \<or> own_item p \<in> set (handed_since io io')" if aw: "awaiting p io"
  proof (cases rule: idle_event_cases [OF inv i refl, of rt ev])
    case 1
    then show ?thesis
      using step aw by simp
  next
    case (2 event io1)
    then show ?thesis
      using step cancelEvent_fair [OF good i 2(1) ev 2(2) 2(5) aw] by simp
  next
    case (3 io1)
    then show ?thesis
      using step cancelAll_fair [OF inv i ev 3(1) 3(4) aw] by simp
  next
    case 4
    then show ?thesis
      using step by simp
  qed
  then show ?thesis
    using io_run.deliver [OF run i rt step] by (auto simp: fair_io_def)
qed

lemma cancelEvent_own:
  assumes run: "io_run n d io" and ev: "w_event p \<in> {READ, WRITE}" and rt: "rt \<in> {0, - 1}"
    and step: "cancelEvent rt (int (w_fd p)) (w_event p) io = (Inr b, io')"
  shows "fair_io p io io'"
proof -
  have good: "io_good io"
    using io_run_books [OF run] by blast
  have "awaiting p io' \<or> own_item p \<in> set (handed_since io io')" if aw: "awaiting p io"
    using cancel_cases [of "int (w_fd p)" rt "w_event p" io] step aw cancelEvent_fair [OF good _ ev ev _ _ aw] by auto
  then show ?thesis
    using io_run.cancel [OF run _ ev rt step] by (auto simp: fair_io_def)
qed

text \<open>The timeout of a fiber that is waiting wakes it.\<close>

lemma cancelEvent_wakes:
  assumes "io_run n d io" and "w_event p \<in> {READ, WRITE}" and "awaiting p io"
  shows "\<exists>io'. cancelEvent 0 (int (w_fd p)) (w_event p) io = (Inr True, io') \<and> own_item p \<in> set (handed_since io io')"
  using cancelEvent_eq [OF conjunct1 [OF io_run_books [OF assms(1)]] _ assms(2), of "w_fd p"] assms(3)
  by (simp add: awaiting_def Let_def handed_since_def)

section \<open>Invariant\<close>

definition armed :: "waiter \<Rightarrow> nat \<Rightarrow> timer_manager \<Rightarrow> bool" where
  "armed p t tm \<longleftrightarrow> t \<in> set (m_timers tm) \<and> m_cb (mem tm t) = Some (own_cb p) \<and> \<not> m_recurring (mem tm t)"

definition wait_inv :: "waiter \<Rightarrow> wait_state \<Rightarrow> bool" where
  "wait_inv p st \<longleftrightarrow>
    tm_reachable (w_tm st) \<and> (\<exists>n d. io_run n d (w_io st)) \<and>
    w_cancelled st \<in> {0, ETIMEDOUT} \<and>
    (w_cancelled st \<noteq> 0 \<or> 0 < w_fired st \<or> w_timer st \<noteq> None \<longrightarrow> w_to p \<noteq> - 1) \<and>
    (w_pc st \<in> {Adding, Waiting} \<and> w_to p \<noteq> - 1 \<longrightarrow>
      (\<exists>t. w_timer st = Some t \<and> (w_cancelled st = 0 \<longrightarrow> armed p t (w_tm st) \<or> 0 < w_fired st))) \<and>
    (w_pc st = Waiting \<longrightarrow> awaiting p (w_io st) \<or> w_resumed st)"

lemma wait_invD:
  assumes "wait_inv p st"
  shows "tm_reachable (w_tm st)" and "\<exists>n d. io_run n d (w_io st)" and "w_cancelled st = 0 \<or> w_cancelled st = ETIMEDOUT"
    and "w_cancelled st \<noteq> 0 \<or> 0 < w_fired st \<or> w_timer st \<noteq> None \<Longrightarrow> w_to p \<noteq> - 1"
    and "w_pc st \<in> {Adding, Waiting} \<Longrightarrow> w_to p \<noteq> - 1 \<Longrightarrow>
      \<exists>t. w_timer st = Some t \<and> (w_cancelled st = 0 \<longrightarrow> armed p t (w_tm st) \<or> 0 < w_fired st)"
    and "w_pc st = Waiting \<Longrightarrow> awaiting p (w_io st) \<or> w_resumed st"
  using assms by (auto simp: wait_inv_def)

lemma cancel_timeout_sel [simp]:
  "w_io (cancel_timeout st) = w_io st" "w_cancelled (cancel_timeout st) = w_cancelled st"
  "w_fired (cancel_timeout st) = w_fired st" "w_timer (cancel_timeout st) = w_timer st"
  "w_calls (cancel_timeout st) = w_calls st" "w_failed (cancel_timeout st) = w_failed st"
  by (simp_all add: cancel_timeout_def split: option.split)

lemma cancel_timeout_reachable: "tm_reachable (w_tm st) \<Longrightarrow> tm_reachable (w_tm (cancel_timeout st))"
  using tm_reachable.client client_step.cancel by (auto simp: cancel_timeout_def split: option.split)

text \<open>Collecting the expired timers hands the callback of an armed timer over or keeps the timer.\<close>

lemma collect_armed:
  assumes "tm_reachable tm" and "tmp \<notin> set (m_timers tm)" and "TimerManager_listExpiredCb now tmp tm = (Inr cbs, tm')"
  shows "tm_reachable tm'" and "armed p t tm \<Longrightarrow> armed p t tm' \<or> 0 < count_list cbs (Some (own_cb p))"
proof -
  have "tm_reachable tm' \<and> (armed p t tm \<longrightarrow> armed p t tm' \<or> Some (own_cb p) \<in> set cbs)"
  proof (cases "m_timers tm = []")
    case True
    then show ?thesis
      using assms by (simp add: TimerManager_listExpiredCb_def listExpiredCb_empty_def)
  next
    case False
    define roll where "roll = fst (TimerManager_detectClockRollover now tm)"
    obtain cbs0 tm0 where m0: "TimerManager_listExpiredCb now tmp tm = (Inr (map Some cbs0), tm0)"
      "map Some cbs0 = map (\<lambda>t. m_cb (mem tm t)) (expired_timers now roll tm)" "tm_reachable tm0"
      "\<forall>t. t \<in> set (m_timers tm0) \<longleftrightarrow> t \<in> set (m_timers tm) \<and> (\<not> roll \<and> now < m_next (mem tm t) \<or> m_recurring (mem tm t))"
      "mem tm0 = (\<lambda>t. if t \<in> set (expired_timers now roll tm) then fired now (mem tm t) else mem tm t)"
      using listExpiredCb_collected [OF assms(1,2) False, of now] unfolding Let_def roll_def [symmetric] by blast
    then have "tm0 = tm'" "cbs = map (\<lambda>t. m_cb (mem tm t)) (expired_timers now roll tm)"
      using assms(3) by simp_all
    note m = m0(3-5) [unfolded this(1)] this(2)
    have "armed p t tm' \<or> Some (own_cb p) \<in> set cbs" if "armed p t tm"
    proof (cases "t \<in> set (expired_timers now roll tm)")
      case True
      then have "m_cb (mem tm t) \<in> set cbs"
        by (auto simp: m(4))
      then show ?thesis
        using that by (simp add: armed_def)
    next
      case False
      then show ?thesis
        using that by (auto simp: armed_def m(2,3) expired_timers_def)
    qed
    then show ?thesis
      using m(1) by blast
  qed
  then show "tm_reachable tm'" and "armed p t tm \<Longrightarrow> armed p t tm' \<or> 0 < count_list cbs (Some (own_cb p))"
    using count_list_0_iff [of cbs "Some (own_cb p)"] by auto
qed

lemma timeout_cb_cases:
  assumes inv: "wait_inv p st" and ev: "w_event p \<in> {READ, WRITE}" and rt: "rt \<in> {0, - 1}" and run: "timeout_cb p rt st = Inr st'"
  obtains (gone) "returned st \<or> w_cancelled st \<noteq> 0" "st' = st"
  | (timed_out) io' where "\<not> returned st" "w_cancelled st = 0" "fair_io p (w_io st) io'"
      "st' = st\<lparr>w_cancelled := ETIMEDOUT, w_io := io', w_resumed := (w_resumed st \<or> own_item p \<in> set (handed_since (w_io st) io'))\<rparr>"
proof (cases "returned st \<or> w_cancelled st \<noteq> 0")
  case True
  then have "st' = st"
    using run by (simp only: timeout_cb_def if_True sum.inject)
  with True show ?thesis
    by (rule gone)
next
  case False
  let ?c = "cancelEvent rt (int (w_fd p)) (w_event p) (w_io st)"
  obtain b io' where c: "?c = (Inr b, io')"
    using run False by (cases ?c; cases "fst ?c") (simp_all add: timeout_cb_def)
  have st': "st' = st\<lparr>w_cancelled := ETIMEDOUT, w_io := io',
      w_resumed := (w_resumed st \<or> own_item p \<in> set (handed_since (w_io st) io'))\<rparr>"
    using run False by (simp add: timeout_cb_def c)
  obtain n d where "io_run n d (w_io st)"
    using wait_invD(2) [OF inv] by blast
  then have "fair_io p (w_io st) io'"
    using cancelEvent_own [OF _ ev rt c] by blast
  then show ?thesis
    using timed_out False st' by blast
qed

text \<open>What happens in between keeps the invariant, and leaves the call's own variables alone.\<close>

lemma wait_env_inv:
  assumes "wait_env p st st'" and inv: "wait_inv p st" and ev: "w_event p \<in> {READ, WRITE}"
  shows "wait_inv p st'"
  using assms(1)
proof cases
  case (timers tm')
  then show ?thesis
    using inv by (auto simp: wait_inv_def fair_tm_def armed_def)
next
  case (collect now tmp cbs tm')
  note C = collect_armed [OF wait_invD(1) [OF inv] collect(3,2)]
  have "count_list cbs (Some (own_cb p)) = 0" if "w_to p = - 1"
    using collect(4) that wait_invD(4) [OF inv] by (auto simp: count_list_0_iff)
  then show ?thesis
    using C inv unfolding collect(1) wait_inv_def by (auto simp del: count_list_0_iff)
next
  case (run_cb rt st1)
  from timeout_cb_cases [OF inv ev run_cb(3,4)] show ?thesis
  proof cases
    case 1
    then show ?thesis
      using inv unfolding run_cb(1) wait_inv_def by (auto simp: returned_def)
  next
    case (2 io')
    then show ?thesis
      using inv run_cb(2) unfolding run_cb(1) wait_inv_def by (auto simp: fair_io_def ETIMEDOUT_def)
  qed
next
  case (others io')
  then show ?thesis
    using inv by (auto simp: wait_inv_def fair_io_def)
qed

text \<open>Registering: with success the fiber is awaiting its event, otherwise nothing is registered.\<close>

lemma addEvent_own:
  assumes run: "io_run n d io" and ev: "w_event p \<in> {READ, WRITE}" and rt: "rt \<in> {0, - 1}"
    and step: "addEvent rt (Some (w_sched p)) (w_fiber p, EXEC) (int (w_fd p)) (w_event p) None io = (Inr r, io')"
  shows "r = rt \<and> (\<exists>n d. io_run n d io') \<and> (rt = 0 \<longrightarrow> awaiting p io')"
proof (cases "rt = 0")
  case True
  note s = step [unfolded True]
  show ?thesis
    using addEvent_good [OF conjunct1 [OF io_run_books [OF run]] _ ev s] io_run.add [OF run _ ev s] True
    by (auto simp: awaiting_def own_item_def Let_def)
next
  case False
  then have "rt = - 1"
    using rt by simp
  then have "r = - 1"
    using step addEvent_roomy [OF conjunct1 [OF io_run_books [OF run]], of "int (w_fd p)"]
    by (auto simp: addEvent_locked_def Let_def split: if_splits)
  then show ?thesis
    using io_run.add_fails [OF run _ ev step [unfolded \<open>rt = - 1\<close>]] \<open>rt = - 1\<close> by auto
qed

lemma do_io_add_cases:
  assumes inv: "wait_inv p st" and ev: "w_event p \<in> {READ, WRITE}" and rt: "rt \<in> {0, - 1}" and run: "do_io_add p rt e st = Inr st'"
  obtains (waits) io' where "rt = 0" "awaiting p io'" "\<exists>n d. io_run n d io'"
      "st' = st\<lparr>w_io := io', w_resumed := False, w_pc := Waiting\<rparr>"
  | (fails) io' where "rt = - 1" "\<exists>n d. io_run n d io'"
      "st' = (cancel_timeout (st\<lparr>w_io := io'\<rparr>))\<lparr>w_pc := Return_With (- 1) e, w_failed := True\<rparr>"
proof -
  let ?c = "addEvent rt (Some (w_sched p)) (w_fiber p, EXEC) (int (w_fd p)) (w_event p) None (w_io st)"
  obtain r io' where c: "?c = (Inr r, io')"
    using run by (cases ?c; cases "fst ?c") (simp_all add: do_io_add_def)
  obtain n d where "io_run n d (w_io st)"
    using wait_invD(2) [OF inv] by blast
  note own = addEvent_own [OF this ev rt c]
  have st': "st' = (if r \<noteq> 0 then (cancel_timeout (st\<lparr>w_io := io'\<rparr>))\<lparr>w_pc := Return_With (- 1) e, w_failed := True\<rparr>
      else st\<lparr>w_io := io', w_resumed := False, w_pc := Waiting\<rparr>)"
    using run by (simp add: do_io_add_def c split: if_splits)
  show ?thesis
  proof (cases "rt = 0")
    case True
    then show ?thesis
      using own by (intro waits [of io']) (simp_all add: st')
  next
    case False
    then show ?thesis
      using own rt by (intro fails [of io']) (simp_all add: st')
  qed
qed

lemma connect_add_cases:
  assumes inv: "wait_inv p st" and ev: "w_event p = WRITE" and rt: "rt \<in> {0, - 1}" and run: "connect_add p rt st = Inr st'"
  obtains (waits) io' where "rt = 0" "awaiting p io'" "\<exists>n d. io_run n d io'"
      "st' = st\<lparr>w_io := io', w_resumed := False, w_pc := Waiting\<rparr>"
  | (fails) io' where "rt = - 1" "\<exists>n d. io_run n d io'"
      "st' = (cancel_timeout (st\<lparr>w_io := io'\<rparr>))\<lparr>w_pc := Checking, w_failed := True\<rparr>"
proof -
  let ?c = "addEvent rt (Some (w_sched p)) (w_fiber p, EXEC) (int (w_fd p)) (w_event p) None (w_io st)"
  obtain r io' where c: "?c = (Inr r, io')"
    using run by (cases ?c; cases "fst ?c") (simp_all add: connect_add_def ev)
  obtain n d where "io_run n d (w_io st)"
    using wait_invD(2) [OF inv] by blast
  note own = addEvent_own [OF this _ rt c]
  have st': "st' = (if r = 0 then st\<lparr>w_io := io', w_resumed := False, w_pc := Waiting\<rparr>
      else (cancel_timeout (st\<lparr>w_io := io'\<rparr>))\<lparr>w_pc := Checking, w_failed := True\<rparr>)"
    using run by (simp add: connect_add_def c [unfolded ev] split: if_splits)
  show ?thesis
  proof (cases "rt = 0")
    case True
    then show ?thesis
      using own ev by (intro waits [of io']) (simp_all add: st')
  next
    case False
    then show ?thesis
      using own ev rt by (intro fails [of io']) (simp_all add: st')
  qed
qed

lemma waits_inv:
  assumes "wait_inv p st" and "w_pc st = Adding" and "awaiting p io'" and "\<exists>n d. io_run n d io'"
  shows "wait_inv p (st\<lparr>w_io := io', w_resumed := False, w_pc := Waiting\<rparr>)"
  using assms by (auto simp: wait_inv_def)

text \<open>Leaving the wait, with the timer cancelled.\<close>

lemma leave_inv:
  assumes "wait_inv p st" and "q \<notin> {Adding, Waiting}"
  shows "wait_inv p ((cancel_timeout st)\<lparr>w_pc := q\<rparr>)" and "wait_inv p ((cancel_timeout st)\<lparr>w_pc := q, w_failed := b\<rparr>)"
  using assms cancel_timeout_reachable by (auto simp: wait_inv_def)

lemma io_update_inv:
  "wait_inv p st \<Longrightarrow> w_pc st \<noteq> Waiting \<Longrightarrow> \<exists>n d. io_run n d io' \<Longrightarrow> wait_inv p (st\<lparr>w_io := io'\<rparr>)"
  by (auto simp: wait_inv_def)

lemma wake_inv: "wait_inv p st \<Longrightarrow> wait_inv p (do_io_wake st)" "wait_inv p st \<Longrightarrow> wait_inv p (connect_wake st)"
  using leave_inv(1) [of p st] by (simp_all add: do_io_wake_def connect_wake_def Let_def)

lemma arm_inv:
  assumes "wait_inv p st" and "w_pc st = Arming" and "addr \<notin> set (m_timers (w_tm st))"
  shows "wait_inv p (arm_timeout p now addr st)"
proof (cases "w_to p = - 1")
  case True
  then show ?thesis
    using assms(1) by (auto simp: arm_timeout_def wait_inv_def)
next
  case False
  define tm1 where "tm1 = snd (TimerManager_addConditionTimer now addr (w_to p) (Function (w_tinfo p)) (w_tinfo p) False (w_tm st))"
  have a: "arm_timeout p now addr st = st\<lparr>w_tm := tm1, w_timer := Some addr, w_pc := Adding\<rparr>"
    using False by (simp add: arm_timeout_def tm1_def TimerManager_addConditionTimer_def TimerManager_addTimer_def)
  have "armed p addr tm1"
    using addTimer_sel [of now addr "w_to p" "Some (own_cb p)" False "w_tm st"]
    by (simp add: armed_def tm1_def TimerManager_addConditionTimer_def own_cb_def Let_def Timer_def)
  moreover have "tm_reachable tm1"
    using tm_reachable.client [OF wait_invD(1) [OF assms(1)] client_step.add_condition [OF assms(3)]] by (simp add: tm1_def)
  ultimately show ?thesis
    using assms(1) False unfolding a by (auto simp: wait_inv_def)
qed

lemma begin_inv: "tm_reachable tm \<Longrightarrow> io_run n d io \<Longrightarrow> wait_inv p (do_io_begin tm io)"
  by (auto simp: wait_inv_def do_io_begin_def)

lemma do_io_step_inv:
  assumes "do_io_step p st st'" and inv: "wait_inv p st" and ev: "w_event p \<in> {READ, WRITE}"
  shows "wait_inv p st'"
  using assms(1)
proof cases
  case (call n e)
  then show ?thesis
    using inv by (auto simp: wait_inv_def do_io_call_def Let_def)
next
  case (arm addr now)
  then show ?thesis
    using arm_inv inv by simp
next
  case (add rt e)
  from do_io_add_cases [OF inv ev add(2,3)] show ?thesis
  proof cases
    case (1 io')
    then show ?thesis
      using waits_inv [OF inv add(1)] by simp
  next
    case (2 io')
    then show ?thesis
      using leave_inv(2) [OF io_update_inv [OF inv _ 2(2)]] add(1) by simp
  qed
next
  case wake
  then show ?thesis
    using wake_inv(1) [OF inv] by simp
next
  case env
  then show ?thesis
    using wait_env_inv [OF _ inv ev] by simp
qed

lemma connect_step_inv:
  assumes "connect_step p st st'" and inv: "wait_inv p st" and ev: "w_event p = WRITE"
  shows "wait_inv p st'"
  using assms(1)
proof cases
  case (call n e)
  then show ?thesis
    using inv by (auto simp: wait_inv_def connect_call_def Let_def)
next
  case (arm addr now)
  then show ?thesis
    using arm_inv inv by simp
next
  case (add rt)
  from connect_add_cases [OF inv ev add(2,3)] show ?thesis
  proof cases
    case (1 io')
    then show ?thesis
      using waits_inv [OF inv add(1)] by simp
  next
    case (2 io')
    then show ?thesis
      using leave_inv(2) [OF io_update_inv [OF inv _ 2(2)]] add(1) by simp
  qed
next
  case wake
  then show ?thesis
    using wake_inv(2) [OF inv] by simp
next
  case (check rc e err)
  then show ?thesis
    using inv by (auto simp: wait_inv_def connect_check_def)
next
  case env
  then show ?thesis
    using wait_env_inv [OF _ inv] ev by simp
qed

lemma do_io_reachable_inv: "do_io_reachable p st \<Longrightarrow> w_event p \<in> {READ, WRITE} \<Longrightarrow> wait_inv p st"
  by (induction rule: do_io_reachable.induct) (auto intro: begin_inv do_io_step_inv)

lemma connect_reachable_inv: "connect_reachable p st \<Longrightarrow> w_event p = WRITE \<Longrightarrow> wait_inv p st"
  by (induction rule: connect_reachable.induct) (auto intro: begin_inv connect_step_inv)

section \<open>Results\<close>

lemma wait_env_sel:
  assumes "wait_env p st st'"
  shows "w_pc st' = w_pc st" and "w_calls st' = w_calls st" and "w_failed st' = w_failed st"
    and "returned st \<Longrightarrow> w_cancelled st' = w_cancelled st"
  using assms by (cases; auto simp: timeout_cb_def returned_def split: prod.splits sum.splits if_splits)+

text \<open>The answers that make \<open>do_io\<close> go on.\<close>

definition retry :: "int \<times> int \<Rightarrow> bool" where
  "retry = (\<lambda>(n, e). n = - 1 \<and> (e = EINTR \<or> e = EAGAIN))"

definition result_ok :: "waiter \<Rightarrow> wait_state \<Rightarrow> bool" where
  "result_ok p st \<longleftrightarrow>
    (case w_pc st of
       Return_With n e \<Rightarrow>
         (\<not> w_failed st \<and> \<not> retry (n, e) \<and> (\<exists>cs. w_calls st = cs @ [(n, e)] \<and> list_all retry cs)) \<or>
         (\<not> w_failed st \<and> n = - 1 \<and> e = ETIMEDOUT \<and> w_to p \<noteq> - 1 \<and> w_cancelled st = ETIMEDOUT \<and> list_all retry (w_calls st)) \<or>
         (w_failed st \<and> n = - 1 \<and> list_all retry (w_calls st))
     | _ \<Rightarrow> \<not> w_failed st \<and> list_all retry (w_calls st))"

lemma do_io_step_result:
  assumes "do_io_step p st st'" and inv: "wait_inv p st" and ev: "w_event p \<in> {READ, WRITE}" and ok: "result_ok p st"
  shows "result_ok p st'"
  using assms(1)
proof cases
  case (call n e)
  then show ?thesis
    using ok by (auto simp: result_ok_def do_io_call_def Let_def retry_def list_all_iff)
next
  case (arm addr now)
  then show ?thesis
    using ok by (simp add: result_ok_def arm_timeout_def case_prod_beta)
next
  case (add rt e)
  from do_io_add_cases [OF inv ev add(2,3)] show ?thesis
    by cases (use ok add(1) in \<open>auto simp: result_ok_def\<close>)
next
  case wake
  then show ?thesis
    using ok wait_invD(3,4) [OF inv] by (auto simp: result_ok_def do_io_wake_def Let_def)
next
  case env
  note E = wait_env_sel [OF env]
  show ?thesis
    using ok E unfolding result_ok_def by (cases "w_pc st") (auto simp: returned_def)
qed

lemma do_io_reachable_result: "do_io_reachable p st \<Longrightarrow> w_event p \<in> {READ, WRITE} \<Longrightarrow> result_ok p st"
proof (induction rule: do_io_reachable.induct)
  case (begins tm n d io)
  then show ?case
    by (simp add: result_ok_def do_io_begin_def)
next
  case (step st st')
  then show ?case
    using do_io_step_result do_io_reachable_inv by blast
qed

text \<open>The timer's callback, run while the fiber waits for its event, resumes it.\<close>

lemma timeout_resumes:
  assumes inv: "wait_inv p st" and ev: "w_event p \<in> {READ, WRITE}" and w: "w_pc st = Waiting"
    and aw: "awaiting p (w_io st)" and c: "w_cancelled st = 0"
  shows "\<exists>st'. timeout_cb p 0 st = Inr st' \<and> w_resumed st' \<and> w_cancelled st' = ETIMEDOUT"
proof -
  obtain n d where "io_run n d (w_io st)"
    using wait_invD(2) [OF inv] by blast
  then obtain io' where "cancelEvent 0 (int (w_fd p)) (w_event p) (w_io st) = (Inr True, io')"
      "own_item p \<in> set (handed_since (w_io st) io')"
    using cancelEvent_wakes [OF _ ev aw] by blast
  then show ?thesis
    using w c by (simp add: timeout_cb_def returned_def)
qed

lemma timed_out_wake:
  "w_cancelled st = ETIMEDOUT \<Longrightarrow> w_pc (do_io_wake st) = Return_With (- 1) ETIMEDOUT"
  "w_cancelled st = ETIMEDOUT \<Longrightarrow> w_pc (connect_wake st) = Return_With (- 1) ETIMEDOUT"
  by (simp_all add: do_io_wake_def connect_wake_def Let_def ETIMEDOUT_def)

section \<open>A concrete call\<close>

text \<open>A fiber reads from descriptor 5 with a timeout of 0 milliseconds.\<close>

definition example_waiter :: waiter where
  "example_waiter = \<lparr>w_fiber = 200, w_sched = 0, w_fd = 5, w_event = READ, w_to = 0, w_tinfo = 9\<rparr>"

definition example_start :: wait_state where
  "example_start = do_io_begin (TimerManager (\<lambda>_. Timer 0 0 None False) 10) IOManager"

definition example_adding :: wait_state where
  "example_adding = arm_timeout example_waiter 10 2 (do_io_call (- 1) EAGAIN example_start)"

lemma example_adding_sel:
  "w_pc example_adding = Adding" "w_cancelled example_adding = 0" "w_io example_adding = IOManager"
  "w_timer example_adding = Some 2" "w_fired example_adding = 0" "m_timers (w_tm example_adding) = [2]"
  "mem (w_tm example_adding) 2 = Timer 10 0 (Some (own_cb example_waiter)) False" "m_previousTime (w_tm example_adding) = 10"
  by (simp_all add: example_adding_def example_start_def do_io_begin_def do_io_call_def arm_timeout_def example_waiter_def
      errnos own_cb_def TimerManager_addConditionTimer_def TimerManager_addTimer_def TimerManager_addTimer_locked_def
      TimerManager_def Let_def)

lemma example_adding_reachable: "do_io_reachable example_waiter example_adding"
proof -
  have "do_io_reachable example_waiter example_start"
    unfolding example_start_def by (rule do_io_reachable.begins [OF tm_reachable.init io_run.init])
  then have "do_io_reachable example_waiter (do_io_call (- 1) EAGAIN example_start)"
    by (rule do_io_reachable.step) (rule do_io_step.call, simp add: example_start_def do_io_begin_def)
  then show ?thesis
    unfolding example_adding_def
    by (rule do_io_reachable.step)
      (rule do_io_step.arm, simp_all add: example_start_def do_io_begin_def do_io_call_def errnos TimerManager_def Let_def)
qed

lemma example_fired:
  "\<exists>st. do_io_reachable example_waiter st \<and> w_pc st = Adding \<and> w_cancelled st = 0 \<and> w_io st = IOManager \<and> 0 < w_fired st"
proof -
  note S = example_adding_sel
  have reach: "tm_reachable (w_tm example_adding)"
    using wait_invD(1) [OF do_io_reachable_inv [OF example_adding_reachable]] by (simp add: example_waiter_def)
  have e: "expired_timers 10 roll (w_tm example_adding) = [2]" for roll
    by (simp add: expired_timers_def S Timer_def)
  obtain tm' where c: "TimerManager_listExpiredCb 10 0 (w_tm example_adding) = (Inr [Some (own_cb example_waiter)], tm')"
    using listExpiredCb_collected [OF reach, of 0 10] by (auto simp: e S Timer_def Let_def)
  let ?st = "example_adding\<lparr>w_tm := tm', w_fired := w_fired example_adding + count_list [Some (own_cb example_waiter)] (Some (own_cb example_waiter))\<rparr>"
  have "wait_env example_waiter example_adding ?st"
    by (rule wait_env.collect [OF c]) (simp_all add: S)
  then have "do_io_reachable example_waiter ?st"
    by (rule do_io_reachable.step [OF example_adding_reachable do_io_step.env])
  moreover have "0 < w_fired ?st"
    by simp
  ultimately show ?thesis
    by (intro exI [of _ ?st]) (simp add: S)
qed

section \<open>Properties\<close>

text \<open>C20: what a hooked call can return, however the expiry of its timer, the events and the other
  fibers interleave: the answer of the original call, at the first attempt that neither was
  interrupted nor would have blocked; or \<open>ETIMEDOUT\<close>, only if a timeout is set and has expired; or
  \<open>- 1\<close> if the event could not be registered. All earlier attempts would have blocked or were
  interrupted, so no data is lost.\<close>

theorem do_io_returns:
  assumes "do_io_reachable p st" and "w_event p \<in> {READ, WRITE}" and "w_pc st = Return_With n e"
  shows "(\<exists>cs. w_calls st = cs @ [(n, e)] \<and> list_all retry cs \<and> \<not> retry (n, e)) \<or>
    n = - 1 \<and> e = ETIMEDOUT \<and> w_to p \<noteq> - 1 \<and> w_cancelled st = ETIMEDOUT \<and> list_all retry (w_calls st) \<or>
    n = - 1 \<and> w_failed st \<and> list_all retry (w_calls st)"
  using do_io_reachable_result [OF assms(1,2)] assms(3) by (auto simp: result_ok_def)

lemma do_io_returns_witness:
  "do_io_reachable example_waiter (do_io_call 7 0 example_start) \<and> w_pc (do_io_call 7 0 example_start) = Return_With 7 0 \<and>
   (\<exists>cs. w_calls (do_io_call 7 0 example_start) = cs @ [(7, 0)] \<and> list_all retry cs)"
proof -
  have "do_io_reachable example_waiter example_start"
    unfolding example_start_def by (rule do_io_reachable.begins [OF tm_reachable.init io_run.init])
  then have r: "do_io_reachable example_waiter (do_io_call 7 0 example_start)"
    by (rule do_io_reachable.step) (rule do_io_step.call, simp add: example_start_def do_io_begin_def)
  have "w_pc (do_io_call 7 0 example_start) = Return_With 7 0"
    by (simp add: do_io_call_def Let_def)
  with do_io_returns [OF r _ this] r show ?thesis
    by (auto simp: example_waiter_def)
qed



text \<open>The same for \<open>connect\<close>.\<close>

theorem connect_wakes:
  assumes "connect_reachable p st" and "w_event p = WRITE" and "w_pc st = Waiting"
  shows "(awaiting p (w_io st) \<or> w_resumed st) \<and>
    (w_to p \<noteq> - 1 \<and> w_cancelled st = 0 \<longrightarrow>
      (\<exists>t. w_timer st = Some t \<and> (armed p t (w_tm st) \<or> 0 < w_fired st))) \<and>
    (awaiting p (w_io st) \<and> w_cancelled st = 0 \<longrightarrow>
      (\<exists>st'. timeout_cb p 0 st = Inr st' \<and> w_resumed st' \<and> w_pc (connect_wake st') = Return_With (- 1) ETIMEDOUT))"
proof -
  note inv = connect_reachable_inv [OF assms(1,2)]
  have ev: "w_event p \<in> {READ, WRITE}"
    using assms(2) by simp
  show ?thesis
    using wait_invD(5,6) [OF inv] timeout_resumes [OF inv ev assms(3)] timed_out_wake(2) assms(3) by blast
qed

lemma connect_wakes_witness:
  "\<exists>p st. connect_reachable p st \<and> w_pc st = Waiting \<and> w_to p = 1000 \<and> (\<exists>t. w_timer st = Some t)"
proof -
  let ?p = "example_waiter\<lparr>w_event := WRITE, w_to := 1000\<rparr>"
  let ?st1 = "connect_call (- 1) EINPROGRESS example_start"
  let ?st2 = "arm_timeout ?p 10 2 ?st1"
  have "connect_reachable ?p example_start"
    unfolding example_start_def by (rule connect_reachable.begins [OF tm_reachable.init io_run.init])
  then have "connect_reachable ?p ?st1"
    by (rule connect_reachable.step) (rule connect_step.call, simp add: example_start_def do_io_begin_def)
  then have r2: "connect_reachable ?p ?st2"
    by (rule connect_reachable.step)
      (rule connect_step.arm, simp_all add: example_start_def do_io_begin_def connect_call_def errnos TimerManager_def Let_def)
  have st2: "w_pc ?st2 = Adding" "w_io ?st2 = IOManager" "w_cancelled ?st2 = 0"
    by (simp_all add: arm_timeout_def connect_call_def example_start_def do_io_begin_def errnos case_prod_beta Let_def)
  have "contexts IOManager ! (m_fdContexts IOManager ! 5) = new_fd_context 5" "length (m_fdContexts IOManager) = 32"
    by (simp_all add: IOManager_def contextResize_def nth_append Let_def)
  then obtain io' where "addEvent 0 (Some 0) (200, EXEC) 5 WRITE None IOManager = (Inr 0, io')"
    by (simp add: addEvent_def addEvent_fits_def find_context_def addEvent_locked_def context_of_def
        getContext_def new_fd_context_def event_bits epoll_ctl_def Let_def)
  then obtain st3 where "connect_add ?p 0 ?st2 = Inr st3" "w_pc st3 = Waiting" "w_cancelled st3 = 0"
    using st2 by (simp add: connect_add_def example_waiter_def)
  moreover from this have r3: "connect_reachable ?p st3"
    using connect_reachable.step [OF r2 connect_step.add [OF st2(1), of 0]] by blast
  ultimately show ?thesis
    using connect_wakes [OF r3] by (intro exI [of _ ?p] exI [of _ st3]) auto
qed

text \<open>The timeout can be lost. The timer is armed before the event is registered; if it expires
  and its callback runs in between, on another thread, there is nothing to cancel yet: the fiber
  then waits for its event without any limit, since the callback will not do anything any more,
  and when the event comes the call answers \<open>ETIMEDOUT\<close> all the same.\<close>

theorem do_io_timeout_race:
  assumes "do_io_reachable p st" and "w_event p \<in> {READ, WRITE}" and "w_pc st = Adding" and "w_cancelled st = 0"
    and "cancelEvent rt (int (w_fd p)) (w_event p) (w_io st) = (Inr False, w_io st)"
    and "timeout_cb p rt st = Inr st1" and "do_io_add p 0 e st1 = Inr st2"
  shows "w_pc st2 = Waiting \<and> awaiting p (w_io st2) \<and> \<not> w_resumed st2 \<and>
    (\<forall>rt'. timeout_cb p rt' st2 = Inr st2) \<and> w_pc (do_io_wake st2) = Return_With (- 1) ETIMEDOUT"
proof -
  note inv = do_io_reachable_inv [OF assms(1,2)]
  have st1: "w_cancelled st1 = ETIMEDOUT" "w_pc st1 = Adding" "w_io st1 = w_io st" "w_tm st1 = w_tm st"
    "w_timer st1 = w_timer st" "w_fired st1 = w_fired st"
    using assms(3-6) by (auto simp: timeout_cb_def returned_def)
  obtain n d where "io_run n d (w_io st1)"
    using wait_invD(2) [OF inv] st1(3) by auto
  moreover let ?c = "addEvent 0 (Some (w_sched p)) (w_fiber p, EXEC) (int (w_fd p)) (w_event p) None (w_io st1)"
  obtain r io' where c: "?c = (Inr r, io')"
    using assms(7) by (cases ?c; cases "fst ?c") (simp_all add: do_io_add_def)
  ultimately have "r = 0" "awaiting p io'"
    using addEvent_own [OF _ assms(2) _ c] by auto
  then have "st2 = st1\<lparr>w_io := io', w_resumed := False, w_pc := Waiting\<rparr>" "awaiting p io'"
    using assms(7) by (simp_all add: do_io_add_def c)
  then show ?thesis
    using st1(1) timed_out_wake(1) by (simp add: timeout_cb_def ETIMEDOUT_def)
qed

lemma do_io_timeout_race_witness:
  "\<exists>st st1 st2. do_io_reachable example_waiter st \<and> 0 < w_fired st \<and> timeout_cb example_waiter 0 st = Inr st1 \<and>
    do_io_add example_waiter 0 0 st1 = Inr st2 \<and> w_pc st2 = Waiting \<and> timeout_cb example_waiter 0 st2 = Inr st2"
proof -
  obtain st where st: "do_io_reachable example_waiter st" "w_pc st = Adding" "w_cancelled st = 0" "w_io st = IOManager"
      "0 < w_fired st"
    using example_fired by blast
  have ev: "w_event example_waiter \<in> {READ, WRITE}"
    by (simp add: example_waiter_def)
  have "contexts IOManager ! (m_fdContexts IOManager ! 5) = new_fd_context 5" "length (m_fdContexts IOManager) = 32"
    by (simp_all add: IOManager_def contextResize_def nth_append Let_def)
  then have cancel: "cancelEvent 0 (int (w_fd example_waiter)) (w_event example_waiter) (w_io st) = (Inr False, w_io st)"
    by (simp add: st(4) example_waiter_def cancelEvent_def find_context_def cancelEvent_locked_def context_of_def new_fd_context_def)
  then obtain st1 where st1: "timeout_cb example_waiter 0 st = Inr st1" "w_io st1 = IOManager"
    using st(2-4) by (simp add: timeout_cb_def returned_def)
  then obtain st2 where st2: "do_io_add example_waiter 0 0 st1 = Inr st2"
    using example_addEvent by (simp add: do_io_add_def example_waiter_def)
  show ?thesis
    using do_io_timeout_race [OF st(1) ev st(2,3) cancel st1(1) st2] st(1,5) st1(1) st2 by blast
qed

text \<open>What \<open>connect\<close> can return.\<close>

definition connect_ok :: "waiter \<Rightarrow> wait_state \<Rightarrow> bool" where
  "connect_ok p st \<longleftrightarrow>
    (case w_pc st of
       Calling \<Rightarrow> w_calls st = [] \<and> \<not> w_failed st
     | Return_With n e \<Rightarrow>
         w_calls st = [(n, e)] \<and> \<not> (n = - 1 \<and> e = EINPROGRESS) \<or>
         w_calls st = [(- 1, EINPROGRESS)] \<and>
           (n = - 1 \<and> e = ETIMEDOUT \<and> w_to p \<noteq> - 1 \<or>
            (\<exists>st0 rc e0 err. connect_reachable p st0 \<and> w_pc st0 = Checking \<and> w_pc (connect_check rc e0 err st0) = Return_With n e))
     | _ \<Rightarrow> w_calls st = [(- 1, EINPROGRESS)])"

lemma connect_step_result:
  assumes "connect_step p st st'" and reach: "connect_reachable p st" and ev: "w_event p = WRITE" and ok: "connect_ok p st"
  shows "connect_ok p st'"
  using assms(1)
proof cases
  case (call n e)
  then show ?thesis
    using ok by (auto simp: connect_ok_def connect_call_def Let_def)
next
  case (arm addr now)
  then show ?thesis
    using ok by (simp add: connect_ok_def arm_timeout_def case_prod_beta)
next
  case (add rt)
  from connect_add_cases [OF connect_reachable_inv [OF reach ev] ev add(2,3)] show ?thesis
    by cases (use ok add(1) in \<open>auto simp: connect_ok_def\<close>)
next
  case wake
  then show ?thesis
    using ok wait_invD(3,4) [OF connect_reachable_inv [OF reach ev]] by (auto simp: connect_ok_def connect_wake_def Let_def)
next
  case (check rc e err)
  obtain n e' where "w_pc (connect_check rc e err st) = Return_With n e'"
    by (cases "rc = - 1"; cases "err = 0") (simp_all add: connect_check_def)
  moreover have "w_calls (connect_check rc e err st) = w_calls st"
    by (simp add: connect_check_def)
  ultimately show ?thesis
    using ok check reach by (auto simp: connect_ok_def)
next
  case env
  note E = wait_env_sel [OF env]
  show ?thesis
    using ok E unfolding connect_ok_def by (cases "w_pc st") auto
qed

text \<open>
  The original call is made once. Its answer is returned, or \<open>ETIMEDOUT\<close> if there is a timeout, or what
  the socket's pending error says; and that is 0 as well when the event could not be registered, so
  that \<open>connect\<close> then reports a connection that is still in progress as made.
\<close>

theorem connect_returns:
  assumes "connect_reachable p st" and "w_event p = WRITE"
  shows "connect_ok p st" and "w_pc st = Checking \<Longrightarrow> w_failed st \<Longrightarrow>
    w_calls st = [(- 1, EINPROGRESS)] \<and> w_pc (connect_check 0 e 0 st) = Return_With 0 e"
proof -
  show ok: "connect_ok p st"
    using assms(1)
  proof (induction rule: connect_reachable.induct)
    case (begins tm n d io)
    then show ?case
      by (simp add: connect_ok_def do_io_begin_def)
  next
    case (step st st')
    then show ?case
      using connect_step_result assms(2) by blast
  qed
  show "w_pc st = Checking \<Longrightarrow> w_failed st \<Longrightarrow>
    w_calls st = [(- 1, EINPROGRESS)] \<and> w_pc (connect_check 0 e 0 st) = Return_With 0 e"
    using ok by (simp add: connect_ok_def connect_check_def)
qed

end
