(* ===== verification/IO_Loop.thy ===== *)
theory IO_Loop
  imports IO_Manager
begin

text \<open>
  \<open>IOManager::idle\<close> (\<open>sylar/iomanager.cpp\<close>), where the three base parts meet: one round asks the
  timers for a deadline, waits in \<open>epoll_wait\<close>, hands the callbacks of the expired timers to the
  scheduler, and wakes the fibers whose events have come.
\<close>

section \<open>A round\<close>

text \<open>
  The state is that of the base classes and of the manager itself. \<open>code\<close> names each callback for
  the scheduler. \<open>now\<close> and \<open>now'\<close> are the times before and after \<open>epoll_wait\<close>, \<open>tmp\<close> is the address
  of the temporary timer, and \<open>evs\<close> are the events \<open>epoll_wait\<close> reports, the reads of the tickle
  pipe left out. The result is the timeout that was passed to \<open>epoll_wait\<close>, or \<open>None\<close> when the
  fiber ends.
\<close>

type_synonym io_state = "timer_manager \<times> scheduler \<times> io_manager"

definition IOManager_idle_round ::
  "(callback \<Rightarrow> nat) \<Rightarrow> u64 \<Rightarrow> u64 \<Rightarrow> nat \<Rightarrow> (int \<times> event \<times> nat) list \<Rightarrow> (io_state, s32 option) action" where
  "IOManager_idle_round code now now' tmp evs = (\<lambda>(tm, s, io).
    (let ((next_timeout, stop), tm1) = IOManager_stopping now tm s io
     in if stop then (Inr None, (tm1, s, io))
        else
          case TimerManager_listExpiredCb now' tmp tm1 of
            (Inl e, tm2) \<Rightarrow> (Inl e, (tm2, s, io))
          | (Inr cbs, tm2) \<Rightarrow>
              let s1 = (if cbs \<noteq> [] then Scheduler_schedule_range (map (\<lambda>cb. (None, map_option code cb)) cbs) s else s)
              in case idle_events evs io of
                   (Inl e, io1) \<Rightarrow> (Inl e, (tm2, s1, io1))
                 | (Inr _, io1) \<Rightarrow> (Inr (Some (epoll_timeout next_timeout)), (tm2, s1, io1))))"

section \<open>The parts of a round\<close>

lemma getNextTimer_keeps:
  "snd (TimerManager_getNextTimer now tm) = tm\<lparr>m_tickled := False\<rparr>"
  by (simp add: TimerManager_getNextTimer_def Let_def)

lemma asked_simps [simp]:
  "expired_timers now rollover (tm\<lparr>m_tickled := b\<rparr>) = expired_timers now rollover tm"
  "fst (TimerManager_detectClockRollover now (tm\<lparr>m_tickled := b\<rparr>)) = fst (TimerManager_detectClockRollover now tm)"
  by (simp_all add: expired_timers_def TimerManager_detectClockRollover_def Let_def)

lemma trigger_keeps_table:
  "m_fdContexts (snd (trigger_pending a event io)) = m_fdContexts io"
  by (auto simp: trigger_pending_def seq_def triggerEvent_def set_context_def Let_def split: sum.split prod.split if_splits)

lemma idle_event_keeps_table: "m_fdContexts (snd (idle_event rt ev a io)) = m_fdContexts io"
proof -
  have "m_fdContexts (snd (if b then trigger_pending a event io else (Inr (), io))) = m_fdContexts io" for b event io
    by (simp add: trigger_keeps_table)
  then have "m_fdContexts (snd (seq (\<lambda>io. if b then trigger_pending a READ io else (Inr (), io)) (\<lambda>_ io.
      if b' then trigger_pending a WRITE io else (Inr (), io)) io)) = m_fdContexts io" for b b' io
    unfolding seq_def by (auto split: prod.split sum.split) (metis snd_conv)+
  then show ?thesis
    by (simp add: idle_event_def Let_def epoll_ctl_def)
qed

text \<open>A batch of events keeps a run going, or ends in the assertion.\<close>

lemma idle_events_run:
  assumes "io_run n d io" and "\<forall>(rt, ev, a)\<in>set evs. rt \<in> {0, - 1} \<and> a \<in> set (m_fdContexts io)"
  shows "(\<exists>io'. idle_events evs io = (Inr (), io') \<and> io_run n d io') \<or>
    fst (idle_events evs io) = Inl (Assertion ''events & event'')"
  using assms
proof (induction evs arbitrary: io)
  case Nil
  then show ?case
    by (simp add: ret_apply)
next
  case (Cons e evs)
  obtain rt ev a where e: "e = (rt, ev, a)"
    by (cases e)
  obtain i where i: "i < length (m_fdContexts io)" "a = m_fdContexts io ! i" and rt: "rt \<in> {0, - 1}"
    using Cons.prems(2) by (auto simp: e in_set_conv_nth)
  have inv: "io_inv io"
    using io_run_books [OF Cons.prems(1)] by (simp add: io_good_def)
  consider io' where "idle_event rt ev a io = (Inr (), io')"
    | "fst (idle_event rt ev a io) = Inl (Assertion ''events & event'')"
    by (rule idle_event_cases [OF inv i, of rt ev]) auto
  then show ?case
  proof cases
    case (1 io')
    have "io_run n d io'"
      using io_run.deliver [OF Cons.prems(1) i(1) rt] 1 i(2) by blast
    moreover have "m_fdContexts io' = m_fdContexts io"
      using idle_event_keeps_table [of rt ev a io] 1 by simp
    moreover have "idle_events (e # evs) io = idle_events evs io'"
      by (simp add: e seq_def 1)
    ultimately show ?thesis
      using Cons.IH [of io'] Cons.prems(2) by (simp del: idle_events.simps)
  next
    case 2
    then have "fst (idle_events (e # evs) io) = Inl (Assertion ''events & event'')"
      by (auto simp: e seq_def split: prod.split)
    then show ?thesis ..
  qed
qed

section \<open>Properties\<close>

text \<open>A manager that answers \<open>stopping()\<close> is quiet: there is no timer, no descriptor awaits an
  event, every waiter has been handed to a scheduler or deleted, and the scheduler has no task,
  queued, picked or running.\<close>

theorem IOManager_stopping_quiet:
  assumes "io_run n d io" and "sched_reachable s" and "0 < now"
    and "snd (fst (IOManager_stopping now tm s io))"
  shows "m_timers tm = [] \<and> (\<forall>fd < length (m_fdContexts io). events (contexts io ! (m_fdContexts io ! fd)) = NONE) \<and>
    n = d + length (handed io) \<and> m_fibers s = [] \<and> (\<forall>w < length (workers s). \<not> has_work (pc (workers s ! w)))"
proof -
  have s: "Scheduler_stopping s" and p: "m_pendingEventCount io = 0"
    and t: "fst (TimerManager_getNextTimer now tm) = NOT 0"
    using assms(4) by (auto simp: IOManager_stopping_def split: prod.splits)
  have "now - 1 < now"
    using assms(3) by (simp add: word_less_nat_alt unat_sub word_le_nat_alt)
  then have "x - now \<noteq> NOT 0" if "now < x" for x
    using that by (auto simp: diff_eq_eq)
  then have "m_timers tm = []"
    using t by (auto simp: TimerManager_getNextTimer_def Let_def not_le split: list.splits if_splits)
  moreover have "events (contexts io ! (m_fdContexts io ! fd)) = NONE" if "fd < length (m_fdContexts io)" for fd
  proof -
    have inv: "io_inv io"
      using io_run_books [OF assms(1)] by (simp add: io_good_def)
    note D = io_invD [OF inv that]
    have "pending (contexts io ! (m_fdContexts io ! fd)) = 0"
      using pending_count [OF inv that] p by simp
    then show ?thesis
      using D(4) by (auto simp: pending_def ctx_ok_def registered_def event_bits split: if_splits)
  qed
  moreover have "\<forall>w < length (workers s). \<not> has_work (pc (workers s ! w))"
    using sched_reachable_inv [OF assms(2)] s active_positive by (force simp: Scheduler_stopping_def)
  ultimately show ?thesis
    using io_run_books [OF assms(1)] p s by (simp add: Scheduler_stopping_def)
qed

lemma IOManager_stopping_quiet_witness:
  "let s = snd (Scheduler_stop False example_scheduler)
   in m_fibers s = [] \<and> \<not> has_work (pc (workers s ! 0)) \<and> m_timers (TimerManager (\<lambda>_. Timer 0 0 None False) 0) = []"
proof -
  let ?s = "snd (Scheduler_stop False example_scheduler)" and ?tm = "TimerManager (\<lambda>_. Timer 0 0 None False) 0"
  have "sched_reachable ?s"
    by (rule sched_reachable.step [OF example_sched_reachable sched_step.stop])
  moreover have "snd (fst (IOManager_stopping 1 ?tm ?s IOManager))"
    by (simp add: IOManager_stopping_def TimerManager_getNextTimer_def TimerManager_def IOManager_def
        Scheduler_stopping_def Scheduler_stop_def Scheduler_tickle_def example_scheduler_def Let_def numeral_2_eq_2)
  ultimately show ?thesis
    using IOManager_stopping_quiet [OF io_run.init, of ?s 1 ?tm]
    by (simp add: Let_def) (simp add: Scheduler_stop_def Scheduler_stopping_def Scheduler_tickle_def example_scheduler_def)
qed



end
