(* ===== verification/IO_Stop.thy ===== *)
theory IO_Stop
  imports IO_Loop
begin

text \<open>
  How an \<open>IOManager\<close> ends (\<open>sylar/iomanager.cpp\<close>): \<open>stopping\<close> reads the timers, the pending count and the
  queue one after the other, while other threads go on; the overriders of the base classes' virtual
  functions; and the destructor.
\<close>

section \<open>The overriders\<close>

definition IOManager_stopping_now :: "u64 \<Rightarrow> timer_manager \<Rightarrow> scheduler \<Rightarrow> io_manager \<Rightarrow> bool \<times> timer_manager" where
  "IOManager_stopping_now now tm s io = (let ((_, answer), tm1) = IOManager_stopping now tm s io in (answer, tm1))"

definition IOManager_onTimerInsertedAtFront :: "scheduler \<Rightarrow> bool" where
  "IOManager_onTimerInsertedAtFront s = IOManager_tickle s"

text \<open>\<open>GetThis\<close> casts the thread's scheduler, which may be a plain \<open>Scheduler\<close>.\<close>

definition IOManager_GetThis :: "(nat \<Rightarrow> bool) \<Rightarrow> nat option \<Rightarrow> nat option" where
  "IOManager_GetThis is_IOManager t_scheduler =
    (case t_scheduler of None \<Rightarrow> None | Some a \<Rightarrow> if is_IOManager a then Some a else None)"

text \<open>The destructor behind \<open>stop\<close>: the descriptors it closes, in order, and the contexts it deletes.\<close>

definition IOManager_destroy :: "int \<Rightarrow> int \<times> int \<Rightarrow> io_manager \<Rightarrow> int list \<times> nat list" where
  "IOManager_destroy m_epfd m_tickleFds io = ([m_epfd, fst m_tickleFds, snd m_tickleFds], m_fdContexts io)"

section \<open>The three reads of stopping\<close>

text \<open>
  \<open>timeout == ~0ull && m_pendingEventCount == 0 && Scheduler::stopping()\<close> stops at the first conjunct
  that is false.
\<close>

datatype reading = Read_Timers | Read_Count u64 | Read_Scheduler u64 | Answered u64 bool

fun stopping_read :: "u64 \<Rightarrow> reading \<Rightarrow> io_state \<Rightarrow> reading \<times> io_state" where
  "stopping_read now Read_Timers (tm, s, io) =
    (let (timeout, tm1) = TimerManager_getNextTimer now tm
     in (if timeout = NOT 0 then Read_Count timeout else Answered timeout False, (tm1, s, io)))"
| "stopping_read now (Read_Count timeout) (tm, s, io) =
    (if m_pendingEventCount io = 0 then Read_Scheduler timeout else Answered timeout False, (tm, s, io))"
| "stopping_read now (Read_Scheduler timeout) (tm, s, io) = (Answered timeout (Scheduler_stopping s), (tm, s, io))"
| "stopping_read now (Answered timeout answer) st = (Answered timeout answer, st)"

text \<open>With nothing in between, the reads are \<open>stopping\<close>.\<close>

lemma stopping_reads:
  "(let (r1, st1) = stopping_read now Read_Timers (tm, s, io);
        (r2, st2) = stopping_read now r1 st1
    in stopping_read now r2 st2) =
   (let ((timeout, answer), tm1) = IOManager_stopping now tm s io in (Answered timeout answer, (tm1, s, io)))"
  by (simp add: IOManager_stopping_def Let_def split: prod.split)

text \<open>In between, clients use the timers, events come and go, and the scheduler works.\<close>

inductive asking :: "u64 \<Rightarrow> reading \<Rightarrow> io_state \<Rightarrow> bool" where
  begins: "tm_reachable tm \<Longrightarrow> sched_reachable s \<Longrightarrow> io_run n d io \<Longrightarrow> asking now Read_Timers (tm, s, io)"
| reads: "asking now r st \<Longrightarrow> stopping_read now r st = (r', st') \<Longrightarrow> asking now r' st'"
| timers: "asking now r (tm, s, io) \<Longrightarrow> client_step tm tm' \<Longrightarrow> asking now r (tm', s, io)"
| scheduler: "asking now r (tm, s, io) \<Longrightarrow> sched_step s s' \<Longrightarrow> asking now r (tm, s', io)"
| waiters: "asking now r (tm, s, io) \<Longrightarrow> io_run n d io' \<Longrightarrow> asking now r (tm, s, io')"

text \<open>
  A manager can answer \<open>stopping()\<close> although it has a timer: a thread reads the timers before \<open>stop\<close> is
  called and the rest afterwards, and a timer is added in between.
\<close>

theorem IOManager_stopping_race:
  assumes "asking now Read_Timers (tm, s, io)" and "m_timers tm = []" and "m_pendingEventCount io = 0"
    and "Scheduler_stop here s = (Inr r, s')" and "Scheduler_stopping s'"
  shows "\<exists>tm'. asking now (Answered (NOT 0) True) (tm', s', io) \<and> m_timers tm' = [addr] \<and> m_cb (mem tm' addr) = Some cb"
proof -
  let ?tm1 = "tm\<lparr>m_tickled := False\<rparr>"
  let ?tm2 = "snd (TimerManager_addTimer now addr ms (Some cb) False ?tm1)"
  have "stopping_read now Read_Timers (tm, s, io) = (Read_Count (NOT 0), (?tm1, s, io))"
    using assms(2) by (simp add: TimerManager_getNextTimer_def)
  from asking.reads [OF assms(1) this] have "asking now (Read_Count (NOT 0)) (?tm2, s, io)"
    by (rule asking.timers) (rule client_step.add, simp add: assms(2))
  moreover have "sched_step s s'"
    using sched_step.stop [of s here] assms(4) by simp
  ultimately have "asking now (Read_Count (NOT 0)) (?tm2, s', io)"
    by (rule asking.scheduler)
  then have "asking now (Read_Scheduler (NOT 0)) (?tm2, s', io)"
    by (rule asking.reads) (simp add: assms(3))
  then have "asking now (Answered (NOT 0) True) (?tm2, s', io)"
    by (rule asking.reads) (simp add: assms(5))
  moreover have "m_timers ?tm2 = [addr]" "m_cb (mem ?tm2 addr) = Some cb"
    using assms(2) by (simp_all add: TimerManager_addTimer_def TimerManager_addTimer_locked_def Timer_def Let_def)
  ultimately show ?thesis
    by blast
qed

lemma IOManager_stopping_race_witness:
  "\<exists>tm s io. asking 10 (Answered (NOT 0) True) (tm, s, io) \<and> m_timers tm = [2]"
proof -
  have "asking 10 Read_Timers (TimerManager (\<lambda>_. Timer_at 0) 10, example_scheduler, IOManager)"
    by (rule asking.begins [OF tm_reachable.init example_sched_reachable io_run.init])
  then show ?thesis
    using IOManager_stopping_race [of 10 "TimerManager (\<lambda>_. Timer_at 0) 10" example_scheduler IOManager False "Stop_Join False" _ 2 "Function 3"]
    by (simp add: TimerManager_def IOManager_def Scheduler_stop_def Scheduler_stopping_def Scheduler_tickle_def example_scheduler_def
        Let_def numeral_2_eq_2) blast
qed

end
