(* ===== verification/IO_Wake.thy ===== *)
theory IO_Wake
  imports IO_Loop
begin

text \<open>
  How the threads of an \<open>IOManager\<close> sleep and are woken (\<open>sylar/iomanager.cpp\<close>): \<open>idle\<close> waits in
  \<open>epoll_wait\<close>, and \<open>tickle\<close> writes to a pipe that \<open>epoll\<close> watches, if it sees an idle thread.
\<close>

section \<open>The loop of idle\<close>

text \<open>
  Where an idle fiber is: before \<open>stopping\<close>; in \<open>epoll_wait\<close>, with the time at which that returns at the
  latest (\<open>None\<close> for a negative timeout); behind it, on the way to the yield; or behind a \<open>break\<close>.
\<close>

datatype idle_phase = Asking | Waiting "nat option" | Woken | Leaving

definition idle_ask :: "nat \<Rightarrow> u64 \<Rightarrow> bool \<Rightarrow> idle_phase" where
  "idle_ask clock next_timeout stop =
    (if stop then Leaving
     else let t = sint (epoll_timeout next_timeout) in Waiting (if t < 0 then None else Some (clock + nat t)))"

text \<open>
  The pipe is watched with \<open>EPOLLET\<close>, so that what counts is whether there is a write that has neither been
  reported to a waiting thread nor read. Behind a lock, a thread that needs a \<open>tickle\<close> has yet to read \<open>m_idleThreadCount\<close>;
  \<open>due\<close> counts these. \<open>missed\<close> records that a \<open>tickle\<close> found no idle thread while a worker, having found no
  task, was on its way to \<open>idle\<close>, and that since then the queue has not been empty and no thread has woken.
\<close>

record io_loop =
  base :: scheduler
  idles :: "nat \<Rightarrow> idle_phase"
  due :: nat
  tickle_event :: bool
  clock :: nat
  missed :: bool

definition empty_handed :: "worker_pc \<Rightarrow> bool" where
  "empty_handed p = (case p of Got ft is_active tickle_me \<Rightarrow> \<not> is_active | _ \<Rightarrow> False)"

definition tickle_written :: "io_loop \<Rightarrow> io_loop" where
  "tickle_written d =
    (if IOManager_tickle (base d) then d\<lparr>due := due d - 1, tickle_event := True\<rparr>
     else d\<lparr>due := due d - 1, missed := missed d \<or> (\<exists>x \<in> set (workers (base d)). empty_handed (pc x))\<rparr>)"

text \<open>A thread that \<open>epoll_wait\<close> has told of the pipe reads all that is in it.\<close>

definition tickle_read :: "io_loop \<Rightarrow> io_loop" where
  "tickle_read d = d\<lparr>tickle_event := False\<rparr>"

definition in_idle :: "nat \<Rightarrow> idle_phase \<Rightarrow> io_loop \<Rightarrow> bool" where
  "in_idle w ph d \<longleftrightarrow> w < length (workers (base d)) \<and> pc (workers (base d) ! w) = In_Idle \<and> idles d w = ph"

text \<open>A step of the scheduler outside \<open>idle\<close>: new tickles are due, and who enters \<open>idle\<close> asks first.\<close>

definition base_moved :: "scheduler \<Rightarrow> io_loop \<Rightarrow> io_loop" where
  "base_moved s d = d\<lparr>base := s, due := due d + (tickles s - tickles (base d)), missed := missed d \<and> m_fibers s \<noteq> [],
    idles := (\<lambda>w. if pc (workers (base d) ! w) = In_Idle then idles d w else Asking)\<rparr>"

definition stays_idle :: "scheduler \<Rightarrow> scheduler \<Rightarrow> bool" where
  "stays_idle s s' \<longleftrightarrow> (\<forall>w < length (workers s). pc (workers s ! w) = In_Idle \<longrightarrow> pc (workers s' ! w) = In_Idle)"

text \<open>
  \<open>ok\<close> restricts the states of the scheduler. Timers and descriptors are read as they are at that
  moment. An event, a signal of the timeout or the pipe ends a wait; the time does not pass the end
  of a wait.
\<close>

inductive loop_step :: "(scheduler \<Rightarrow> bool) \<Rightarrow> io_loop \<Rightarrow> io_loop \<Rightarrow> bool" for ok d where
  elsewhere: "ok (base d) \<Longrightarrow> sched_step (base d) s \<Longrightarrow> stays_idle (base d) s \<Longrightarrow> loop_step ok d (base_moved s d)"
| tickle: "0 < due d \<Longrightarrow> loop_step ok d (tickle_written d)"
| asks: "in_idle w Asking d \<Longrightarrow> IOManager_stopping now tm (base d) io = ((next_timeout, stop), tm') \<Longrightarrow>
    loop_step ok d (d\<lparr>idles := (idles d)(w := idle_ask (clock d) next_timeout stop)\<rparr>)"
| tickled: "in_idle w (Waiting until) d \<Longrightarrow> tickle_event d \<Longrightarrow>
    loop_step ok d (d\<lparr>idles := (idles d)(w := Woken), missed := False, tickle_event := False\<rparr>)"
| wakes: "in_idle w (Waiting until) d \<Longrightarrow> loop_step ok d (d\<lparr>idles := (idles d)(w := Woken), missed := False\<rparr>)"
| reads: "in_idle w Woken d \<Longrightarrow> loop_step ok d (tickle_read d)"
| leaves: "in_idle w ph d \<Longrightarrow> ph \<in> {Woken, Leaving} \<Longrightarrow> loop_step ok d (d\<lparr>base := after_idle w (base d)\<rparr>)"
| time: "\<forall>w u. in_idle w (Waiting (Some u)) d \<longrightarrow> clock d + k \<le> u \<Longrightarrow> loop_step ok d (d\<lparr>clock := clock d + k\<rparr>)"

inductive loop_reachable :: "(scheduler \<Rightarrow> bool) \<Rightarrow> io_loop \<Rightarrow> bool" for ok where
  started: "Scheduler threads use_caller here other root fsys = Inr s0 \<Longrightarrow> Scheduler_start addrs s0 = (Inr (), s) \<Longrightarrow>
    loop_reachable ok \<lparr>base = s, idles = \<lambda>_. Asking, due = 0, tickle_event = False, clock = t, missed = False\<rparr>"
| step: "loop_reachable ok d \<Longrightarrow> loop_step ok d d' \<Longrightarrow> loop_reachable ok d'"

text \<open>Runs in which no task is bound to a thread, and a queued fiber that executes does so on a worker.\<close>

definition unbound :: "scheduler \<Rightarrow> bool" where
  "unbound s \<longleftrightarrow> (\<forall>t \<in> set (m_fibers s). task_thread t = - 1 \<and>
    (\<forall>f. task_fiber t = Some f \<longrightarrow> state_of s f = EXEC \<longrightarrow> (\<exists>x \<in> set (workers s). pc x = In_Fiber f \<or> pc x = In_Cb f)))"

text \<open>The worker will search the queue without being woken.\<close>

definition heads :: "worker_pc \<Rightarrow> bool" where
  "heads p = (case p of Got ft is_active tickle_me \<Rightarrow> is_active | In_Idle \<Rightarrow> False | Finished \<Rightarrow> False | _ \<Rightarrow> True)"

definition coming :: "io_loop \<Rightarrow> nat \<Rightarrow> bool" where
  "coming d w \<longleftrightarrow> w < length (workers (base d)) \<and>
    (heads (pc (workers (base d) ! w)) \<or> in_idle w Woken d \<or> in_idle w Leaving d)"

text \<open>Whatever is queued will be found.\<close>

definition found :: "io_loop \<Rightarrow> bool" where
  "found d \<longleftrightarrow> (\<exists>w. coming d w) \<or> 0 < due d \<or>
    tickle_event d \<and> (\<exists>w < length (workers (base d)). pc (workers (base d) ! w) = In_Idle)"

section \<open>What a step of the scheduler does\<close>

lemma fiber_op_queue [simp]:
  "m_fibers (snd (fiber_op op s)) = m_fibers s" "tickles (snd (fiber_op op s)) = tickles s"
  by (simp_all add: fiber_op_def split: prod.split)

lemma fiber_op_InrQ: "fiber_op op s = (Inr a, s') \<Longrightarrow> m_fibers s' = m_fibers s \<and> tickles s' = tickles s \<and> workers s' = workers s"
  using fiber_op_queue [of op s] fiber_op_sel(1) [of op s] by simp

lemma load_cb_InrQ:
  assumes "load_cb default_stack addr w cb s = (Inr f, s')"
  shows "m_fibers s' = m_fibers s \<and> tickles s' = tickles s"
  using assms fiber_op_InrQ by (fastforce simp: load_cb_def ret_apply split: option.splits elim: seq_InrE)

lemma Scheduler_tickle_count [simp]: "tickles (Scheduler_tickle s) = tickles s + 1"
  by (simp add: Scheduler_tickle_def)

lemma goto_queue [simp]: "m_fibers (goto w p s) = m_fibers s" "tickles (goto w p s) = tickles s"
  by (simp_all add: goto_def)

lemma schedule_queue:
  "tickles (Scheduler_schedule f cb thread s) = tickles s + (if m_fibers s = [] then 1 else 0)"
  by (simp add: Scheduler_schedule_def scheduleNoLock_def Scheduler_tickle_def Let_def)

text \<open>At most one worker moves; a tickle comes with the first task of an empty queue.\<close>

definition empty_pick :: "nat \<Rightarrow> scheduler \<Rightarrow> bool" where
  "empty_pick w s \<longleftrightarrow> pc (workers s ! w) = At_Loop \<and> (\<forall>t \<in> set (m_fibers s). foreign (int w) t \<or> executing (state_of s) t)"

definition worker_moves :: "nat \<Rightarrow> scheduler \<Rightarrow> scheduler \<Rightarrow> bool" where
  "worker_moves w s s' \<longleftrightarrow> length (workers s') = length (workers s) \<and>
    (\<forall>v. v \<noteq> w \<longrightarrow> pc (workers s' ! v) = pc (workers s ! v)) \<and> tickles s \<le> tickles s' \<and>
    (m_fibers s = [] \<longrightarrow> m_fibers s' = [] \<or> tickles s < tickles s') \<and>
    (heads (pc (workers s ! w)) \<longrightarrow> heads (pc (workers s' ! w)) \<or> empty_pick w s) \<and>
    (pc (workers s ! w) = Finished \<longrightarrow> pc (workers s' ! w) = Finished)"

lemma dispatch_moves:
  assumes w: "w < length (workers s)" and pc: "pc (workers s ! w) = Got ft is_active tickle_me"
    and run: "run_dispatch default_stack addr w ft is_active tickle_me s = (Inr (), s')"
  shows "worker_moves w s s'"
proof -
  define s1 where "s1 = (if tickle_me then Scheduler_tickle s else s)"
  have s1: "workers s1 = workers s" "m_fibers s1 = m_fibers s" "tickles s \<le> tickles s1"
    by (simp_all add: s1_def)
  consider (fiber) f s2 where "fiber_op (Fiber_swapIn w f) s1 = (Inr (), s2)" "s' = goto w (In_Fiber f) s2"
    | (cb) f s2 s3 where "load_cb default_stack addr w (task_cb ft) s1 = (Inr f, s2)"
      "fiber_op (Fiber_swapIn w f) s2 = (Inr (), s3)" "s' = goto w (In_Cb f) s3"
    | (bad) "s' = goto w At_Loop (s1\<lparr>m_activeThreadCount := size_sub (m_activeThreadCount s1) 1\<rparr>)"
    | (finished) "\<not> is_active" "s' = goto w Finished s1"
    | (idle) s2 where "\<not> is_active" "s' = goto w In_Idle s2"
      "fiber_op (Fiber_swapIn w (idle_fiber (workers s1 ! w))) (s1\<lparr>m_idleThreadCount := m_idleThreadCount s1 + 1\<rparr>) = (Inr (), s2)"
    using run unfolding run_dispatch_def Let_def s1_def [symmetric]
    by (auto split: if_splits option.splits elim!: seq_InrE)
  then show ?thesis
  proof cases
    case (fiber f s2)
    then show ?thesis
      using fiber_op_InrQ [OF fiber(1)] s1 w pc by (simp add: worker_moves_def heads_def goto_def)
  next
    case (cb f s2 s3)
    then show ?thesis
      using fiber_op_InrQ [OF cb(2)] load_cb_InrD [OF cb(1)] load_cb_InrQ [OF cb(1)] s1 w pc
      by (simp add: worker_moves_def heads_def goto_def)
  next
    case (idle s2)
    then show ?thesis
      using fiber_op_InrQ [OF idle(3)] s1 w pc by (simp add: worker_moves_def heads_def goto_def)
  qed (use s1 w pc in \<open>simp_all add: worker_moves_def heads_def goto_def\<close>)
qed

lemma drop_cb_queue [simp]: "m_fibers (drop_cb_fiber w s) = m_fibers s" "tickles (drop_cb_fiber w s) = tickles s"
  by (simp_all add: drop_cb_fiber_def)

lemma back_moves:
  assumes "w < length (workers s)" and "length (workers s1) = length (workers s)"
    and "\<And>v. pc (workers s1 ! v) = pc (workers s ! v)"
    and "tickles s \<le> tickles s1" and "m_fibers s = [] \<longrightarrow> m_fibers s1 = [] \<or> tickles s < tickles s1"
    and "heads p" and "pc (workers s ! w) \<noteq> Finished"
  shows "worker_moves w s (goto w p s1)"
  using assms by (auto simp: worker_moves_def goto_def)

lemma after_cb_moves:
  assumes w: "w < length (workers s)" and pc: "pc (workers s ! w) = Left_Cb f" and run: "after_cb w f s = (Inr (), s')"
  shows "worker_moves w s s'"
proof -
  have drop: "pc (workers (drop_cb_fiber w x) ! v) = pc (workers x ! v)" for x v
    by (rule drop_cb_fiber_sel)
  show ?thesis
    using run w pc back_moves [OF w, of "drop_cb_fiber w (Scheduler_schedule (Some f) None (- 1) s)" At_Loop]
      back_moves [OF w, of "drop_cb_fiber w (s\<lparr>fs := set_state f HOLD (fs s)\<rparr>)" At_Loop]
      back_moves [OF w, of _ At_Loop]
    by (auto simp: after_cb_def heads_def schedule_queue drop dest!: fiber_op_InrQ split: if_splits elim!: seq_InrE)
qed

lemma sched_step_moves:
  assumes "sched_step s s'"
  shows "\<exists>w. worker_moves w s s'"
  using assms
proof cases
  case (schedule f cb thread)
  then show ?thesis
    by (auto simp: worker_moves_def schedule_queue)
next
  case (schedule_range items)
  then show ?thesis
    by (auto simp: worker_moves_def Scheduler_schedule_range_def schedule_loop_tasks Scheduler_tickle_def batch_tasks_def)
next
  case (stop here)
  have "tickles (tickle_times n x) = tickles x + n" "m_fibers (tickle_times n x) = m_fibers x" for n x
    by (induction n arbitrary: x) (auto simp: Scheduler_tickle_def)
  then show ?thesis
    unfolding stop worker_moves_def Scheduler_stop_def Let_def
    by auto
next
  case (fiber_code fsys)
  then show ?thesis
    by (simp add: worker_moves_def)
next
  case (pick w)
  obtain r rest tm where p: "pick (state_of s) (int w) (m_fibers s) = Inr (r, rest, tm)"
    using pick(3) by (cases "pick (state_of s) (int w) (m_fibers s)") (auto simp: run_pick_def)
  have "m_fibers s = [] \<longrightarrow> rest = []"
    using p by auto
  moreover have "empty_pick w s" if "r = None"
    using pick_None [OF p [unfolded that]] pick(2) by (simp add: empty_pick_def)
  ultimately show ?thesis
    using pick p by (intro exI [of _ w]) (cases r; auto simp: run_pick_def worker_moves_def goto_def heads_def)
next
  case (dispatch w ft is_active tickle_me default_stack addr)
  then show ?thesis
    using dispatch_moves by blast
next
  case (back_from_fiber w f)
  then show ?thesis
    by (intro exI [of _ w]) (auto simp: task_left_def heads_def intro!: back_moves)
next
  case (back_from_cb w f)
  then show ?thesis
    by (intro exI [of _ w]) (auto simp: task_left_def heads_def intro!: back_moves)
next
  case (fiber_left w f)
  then show ?thesis
    by (intro exI [of _ w]) (auto simp: after_fiber_def heads_def schedule_queue intro!: back_moves)
next
  case (cb_left w f)
  then show ?thesis
    using after_cb_moves by blast
next
  case (back_from_idle w)
  then show ?thesis
    by (intro exI [of _ w]) (auto simp: after_idle_def Let_def heads_def intro!: back_moves)
qed

section \<open>Every step keeps the tasks in sight\<close>

definition kept :: "io_loop \<Rightarrow> bool" where
  "kept d \<longleftrightarrow> m_fibers (base d) = [] \<or> found d \<or> missed d \<or> (\<forall>x \<in> set (workers (base d)). pc x = Finished)"

lemma foundI:
  "coming d w \<Longrightarrow> found d" "0 < due d \<Longrightarrow> found d"
  "tickle_event d \<Longrightarrow> w < length (workers (base d)) \<Longrightarrow> pc (workers (base d) ! w) = In_Idle \<Longrightarrow> found d"
  by (auto simp: found_def)

lemma in_task_heads: "p \<in> {In_Fiber f, In_Cb f} \<Longrightarrow> heads p"
  by (auto simp: heads_def)

lemma tickle_written_base [simp]: "base (tickle_written d) = base d"
  by (simp add: tickle_written_def)

text \<open>A worker that searches an unbound queue in vain leaves it to those who execute its fibers.\<close>

lemma empty_pick_found:
  assumes "unbound (base d)" and "empty_pick w (base d)" and "m_fibers (base d) \<noteq> []"
  shows "\<exists>v f. v \<noteq> w \<and> v < length (workers (base d)) \<and> pc (workers (base d) ! v) \<in> {In_Fiber f, In_Cb f}"
proof -
  obtain t where t: "t \<in> set (m_fibers (base d))"
    using assms(3) by (cases "m_fibers (base d)") auto
  then have "task_thread t = - 1" "executing (state_of (base d)) t"
    using assms(1,2) by (auto simp: unbound_def empty_pick_def foreign_def)
  then obtain f x where "x \<in> set (workers (base d))" "pc x = In_Fiber f \<or> pc x = In_Cb f"
    using assms(1) t by (force simp: unbound_def executing_def split: option.splits)
  then obtain v where "v < length (workers (base d))" "pc (workers (base d) ! v) \<in> {In_Fiber f, In_Cb f}"
    by (auto simp: in_set_conv_nth)
  moreover have "v \<noteq> w"
    using calculation assms(2) by (auto simp: empty_pick_def)
  ultimately show ?thesis
    by blast
qed

lemma elsewhere_kept:
  assumes kept: "kept d" and ok: "unbound (base d)" and step: "sched_step (base d) s" and idle: "stays_idle (base d) s"
  shows "kept (base_moved s d)"
proof -
  obtain w where w: "worker_moves w (base d) s"
    using sched_step_moves [OF step] by blast
  then have len: "length (workers s) = length (workers (base d))"
    by (simp add: worker_moves_def)
  have due: "due d \<le> due (base_moved s d)"
    by (simp add: base_moved_def)
  have idles: "in_idle v ph d \<Longrightarrow> in_idle v ph (base_moved s d)" for v ph
    using idle len by (simp add: in_idle_def base_moved_def stays_idle_def)
  have heads: "coming (base_moved s d) v" if "v < length (workers (base d))" "heads (pc (workers (base d) ! v))"
    "v = w \<longrightarrow> \<not> empty_pick w (base d)" for v
    using that w len by (cases "v = w") (auto simp: coming_def base_moved_def worker_moves_def)
  show ?thesis
  proof (cases "m_fibers (base d) = []")
    case True
    then show ?thesis
      using w foundI(2) by (auto simp: kept_def base_moved_def worker_moves_def found_def)
  next
    case False
    have found: "found (base_moved s d)" if "found d"
      using that unfolding found_def [of d]
    proof (elim disjE exE conjE)
      fix v
      assume v: "coming d v"
      show ?thesis
      proof (cases "in_idle v Woken d \<or> in_idle v Leaving d")
        case True
        then show ?thesis
          using idles [of v] foundI(1) [of "base_moved s d" v] v len by (auto simp: coming_def base_moved_def)
      next
        case nidle: False
        then have "heads (pc (workers (base d) ! v))" "v < length (workers (base d))"
          using v by (auto simp: coming_def)
        then have "\<exists>u. coming (base_moved s d) u"
          using heads [of v] in_task_heads empty_pick_found [OF ok _ False, of w] heads
          by (cases "v = w \<and> empty_pick w (base d)") blast+
        then show ?thesis
          using foundI(1) by blast
      qed
    next
      assume "0 < due d"
      then show ?thesis
        using due foundI(2) by simp
    next
      fix v
      assume "tickle_event d" "v < length (workers (base d))" "pc (workers (base d) ! v) = In_Idle"
      then show ?thesis
        using idle len foundI(3) [of "base_moved s d" v] by (simp add: base_moved_def stays_idle_def)
    qed
    have "pc x = Finished" if all: "\<forall>x \<in> set (workers (base d)). pc x = Finished" and x: "x \<in> set (workers s)" for x
    proof -
      obtain v where v: "v < length (workers (base d))" "x = workers s ! v"
        using x len by (auto simp: in_set_conv_nth)
      then have "pc (workers (base d) ! v) = Finished"
        using all by simp
      then show ?thesis
        using w v(2) by (cases "v = w") (simp_all add: worker_moves_def)
    qed
    then show ?thesis
      using kept False found by (auto simp: kept_def base_moved_def)
  qed
qed

lemma tickle_kept:
  assumes inv: "sched_inv (base d)"
  shows "kept (tickle_written d)"
proof (cases "0 < m_idleThreadCount (base d)")
  case True
  then have "\<exists>x \<in> set (workers (base d)). pc x = In_Idle"
    using inv by (auto simp: sched_inv_def count_pc_def filter_empty_conv)
  then obtain v where "v < length (workers (base d))" "pc (workers (base d) ! v) = In_Idle"
    by (auto simp: in_set_conv_nth)
  then show ?thesis
    using True foundI(3) [of "tickle_written d" v] by (simp add: kept_def tickle_written_def IOManager_tickle_def)
next
  case False
  have none: "pc x \<noteq> In_Idle" if "x \<in> set (workers (base d))" for x
    using that inv False by (auto simp: sched_inv_def count_pc_def filter_empty_conv)
  have "(\<exists>w. coming (tickle_written d) w) \<or> missed (tickle_written d) \<or> (\<forall>x \<in> set (workers (base d)). pc x = Finished)"
  proof (rule ccontr)
    assume no: "\<not> ?thesis"
    then obtain x where x: "x \<in> set (workers (base d))" "pc x \<noteq> Finished" "\<not> empty_handed (pc x)"
      using False by (auto simp: tickle_written_def IOManager_tickle_def)
    then have "heads (pc x)"
      using none by (cases "pc x") (auto simp: heads_def empty_handed_def)
    then show False
      using no x(1) by (auto simp: coming_def in_set_conv_nth)
  qed
  then show ?thesis
    using False foundI(1) by (auto simp: kept_def tickle_written_def IOManager_tickle_def)
qed

text \<open>Steps in \<open>idle\<close>.\<close>

lemma idle_kept:
  assumes kept: "kept d" and w: "w < length (workers (base d))"
    and "base d' = base d" "due d' = due d" "in_idle w Woken d' \<or> missed d' = missed d"
    and "\<And>v. v \<noteq> w \<Longrightarrow> idles d' v = idles d v"
    and "in_idle w Woken d' \<or> (in_idle w Asking d \<or> (\<exists>u. in_idle w (Waiting u) d)) \<and> tickle_event d' = tickle_event d"
  shows "kept d'"
proof (cases "in_idle w Woken d'")
  case True
  then show ?thesis
    using foundI(1) [of d' w] by (simp add: kept_def coming_def in_idle_def)
next
  case False
  have "coming d v \<Longrightarrow> coming d' v" for v
    using assms(3,6,7) False by (cases "v = w") (auto simp: coming_def in_idle_def)
  then have "found d \<Longrightarrow> found d'"
    using assms(3-) False by (auto simp: found_def)
  then show ?thesis
    using kept assms(3,5) False by (auto simp: kept_def)
qed

lemma leaves_kept:
  assumes "w < length (workers (base d))"
  shows "kept (d\<lparr>base := after_idle w (base d)\<rparr>)"
proof -
  have "heads (pc (workers (after_idle w (base d)) ! w))" "length (workers (after_idle w (base d))) = length (workers (base d))"
    using assms by (auto simp: after_idle_def Let_def heads_def goto_def)
  then show ?thesis
    using assms foundI(1) [of "d\<lparr>base := after_idle w (base d)\<rparr>" w] by (simp add: kept_def coming_def)
qed

section \<open>Reachable states\<close>

lemma idle_ask_until:
  assumes "idle_ask c t stop = Waiting (Some u)"
  shows "c \<le> u \<and> u \<le> c + 3000"
proof -
  have "sint (epoll_timeout t) \<le> 3000"
    by (simp add: epoll_timeout_def)
  then show ?thesis
    using assms by (auto simp: idle_ask_def Let_def split: if_splits)
qed

lemma idle_ask_kinds: "idle_ask c t stop = Leaving \<or> (\<exists>until. idle_ask c t stop = Waiting until)"
  by (simp add: idle_ask_def Let_def)

definition waits_bounded :: "io_loop \<Rightarrow> bool" where
  "waits_bounded d \<longleftrightarrow> (\<forall>w u. in_idle w (Waiting (Some u)) d \<longrightarrow> clock d \<le> u \<and> u \<le> clock d + 3000)"

lemma after_idle_pc:
  assumes "w < length (workers s)"
  shows "length (workers (after_idle w s)) = length (workers s)" and "pc (workers (after_idle w s) ! w) = At_Loop"
    and "v \<noteq> w \<Longrightarrow> workers (after_idle w s) ! v = workers s ! v"
  using assms by (simp_all add: after_idle_def Let_def goto_def)

lemma waits_mono:
  assumes "waits_bounded d" and "clock d' = clock d"
    and "\<And>w u. in_idle w (Waiting (Some u)) d' \<Longrightarrow> in_idle w (Waiting (Some u)) d \<or> clock d \<le> u \<and> u \<le> clock d + 3000"
  shows "waits_bounded d'"
  using assms by (fastforce simp: waits_bounded_def)

lemma loop_step_inv:
  assumes step: "loop_step ok d d'" and reach: "sched_reachable (base d)" and waits: "waits_bounded d"
  shows "sched_reachable (base d') \<and> waits_bounded d'"
  using step
proof cases
  case (elsewhere s)
  obtain w where "worker_moves w (base d) s"
    using sched_step_moves [OF elsewhere(3)] by blast
  then have "length (workers s) = length (workers (base d))"
    by (simp add: worker_moves_def)
  then have "waits_bounded d'"
    using elsewhere(1) by (intro waits_mono [OF waits]) (auto simp: base_moved_def in_idle_def split: if_splits)
  then show ?thesis
    using elsewhere sched_reachable.step [OF reach elsewhere(3)] by (simp add: base_moved_def)
next
  case tickle
  then show ?thesis
    using reach by (auto intro!: waits_mono [OF waits] simp: tickle_written_def in_idle_def)
next
  case (asks w now tm io next_timeout stop tm')
  then show ?thesis
    using reach idle_ask_until [of "clock d" next_timeout stop]
    by (auto intro!: waits_mono [OF waits] simp: in_idle_def split: if_splits)
next
  case (leaves w ph)
  then have w: "w < length (workers (base d))" "pc (workers (base d) ! w) = In_Idle"
    by (simp_all add: in_idle_def)
  have "in_idle v (Waiting (Some u)) d" if "in_idle v (Waiting (Some u)) d'" for v u
    using that leaves(1) after_idle_pc [OF w(1)] by (cases "v = w") (auto simp: in_idle_def)
  then have "waits_bounded d'"
    using leaves(1) by (intro waits_mono [OF waits]) simp_all
  then show ?thesis
    using leaves(1) sched_reachable.step [OF reach sched_step.back_from_idle [OF w]] by simp
next
  case (time k)
  then have "waits_bounded d'"
    using waits by (fastforce simp: waits_bounded_def in_idle_def)
  then show ?thesis
    using reach time(1) by simp
qed (use reach in \<open>auto intro!: waits_mono [OF waits] simp: in_idle_def tickle_read_def split: if_splits\<close>)

lemma loop_step_kept:
  assumes step: "loop_step unbound d d'" and reach: "sched_reachable (base d)" and kept: "kept d"
  shows "kept d'"
  using step
proof cases
  case (elsewhere s)
  then show ?thesis
    using elsewhere_kept [OF kept] by simp
next
  case tickle
  then show ?thesis
    using tickle_kept sched_reachable_inv [OF reach] by simp
next
  case (asks w now tm io next_timeout stop tm')
  then show ?thesis
    using idle_kept [OF kept, of w d'] by (simp add: in_idle_def)
next
  case (tickled w until)
  then show ?thesis
    using idle_kept [OF kept, of w d'] by (simp add: in_idle_def)
next
  case (wakes w until)
  then show ?thesis
    using idle_kept [OF kept, of w d'] by (simp add: in_idle_def)
next
  case (reads w)
  then show ?thesis
    using idle_kept [OF kept, of w d'] by (simp add: in_idle_def tickle_read_def)
next
  case (leaves w ph)
  then show ?thesis
    using leaves_kept by (simp add: in_idle_def)
next
  case (time k)
  then show ?thesis
    using kept by (simp add: kept_def found_def coming_def in_idle_def)
qed

lemma loop_reachable_inv: "loop_reachable ok d \<Longrightarrow> sched_reachable (base d) \<and> waits_bounded d"
proof (induction rule: loop_reachable.induct)
  case (started threads use_caller here other root fsys s0 addrs s t)
  then show ?case
    using sched_reachable.started by (auto simp: waits_bounded_def in_idle_def)
next
  case (step d d')
  then show ?case
    using loop_step_inv by blast
qed

lemma loop_reachable_kept: "loop_reachable unbound d \<Longrightarrow> kept d"
proof (induction rule: loop_reachable.induct)
  case (started threads use_caller here other root fsys s0 addrs s t)
  then have "m_fibers s = []"
    by (auto simp: Scheduler_def Scheduler_start_def split: if_splits)
  then show ?case
    by (simp add: kept_def)
next
  case (step d d')
  then show ?case
    using loop_step_kept loop_reachable_inv by blast
qed

section \<open>A wake-up that is missed\<close>

text \<open>
  A task that is scheduled between the search of the only thread and its \<open>++m_idleThreadCount\<close> wakes
  nobody, and waits until \<open>epoll_wait\<close> returns.
\<close>

definition lone_fibers :: fiber_system where
  "lone_fibers = \<lparr>fibers = [100 \<mapsto> main_fiber Live, 300 \<mapsto> \<lparr>m_id = 1, m_stacksize = 4096, m_state = INIT, m_ctx = Entry False,
      m_stack = True, fiber_cb = Some 1, m_use_caller = False\<rparr>],
    t_fiber = [0 \<mapsto> 100], t_threadFiber = [0 \<mapsto> 100], t_scheduler_fiber = [0 \<mapsto> 100], running = [0 \<mapsto> 100],
    s_fiber_id = 1, s_fiber_count = 2\<rparr>"

lemma lone_dispatch:
  "\<exists>F. Fiber_swapIn 0 300 lone_fibers = (Inr (), F)"
  by (simp add: lone_fibers_def Fiber_swapIn_def seq_def the_fiber_def SYLAR_ASSERT_def Fiber_SetThis_def set_state_def
      swapcontext_def Let_def)

lemma base_moved_asking:
  "idles d = (\<lambda>_. Asking) \<Longrightarrow>
    base_moved s d = d\<lparr>base := s, due := due d + (tickles s - tickles (base d)), missed := missed d \<and> m_fibers s \<noteq> []\<rparr>"
  by (cases d) (simp add: base_moved_def fun_eq_iff)

theorem tickle_missed:
  "\<exists>d. loop_reachable unbound d \<and> m_fibers (base d) = [\<lparr>task_fiber = None, task_cb = Some 7, task_thread = - 1\<rparr>] \<and>
    length (workers (base d)) = 1 \<and> in_idle 0 (Waiting (Some 3000)) d \<and> due d = 0 \<and> \<not> tickle_event d"
proof -
  let ?s = "\<lambda>F. example_scheduler\<lparr>fs := F\<rparr>"
  let ?d = "\<lambda>s n m ph. \<lparr>base = s, idles = \<lambda>_. ph, due = n, tickle_event = False, clock = 0, missed = m\<rparr>"
  let ?s1 = "(?s lone_fibers)\<lparr>workers := [\<lparr>pc = Got no_task False False, idle_fiber = 300, cb_fiber = None\<rparr>]\<rparr>"
  let ?q = "[\<lparr>task_fiber = None, task_cb = Some 7, task_thread = - 1\<rparr>]"
  let ?s2 = "?s1\<lparr>m_fibers := ?q, tickles := 1\<rparr>"
  obtain F where F: "Fiber_swapIn 0 300 lone_fibers = (Inr (), F)"
    using lone_dispatch by blast
  let ?s3 = "?s2\<lparr>workers := [\<lparr>pc = In_Idle, idle_fiber = 300, cb_fiber = None\<rparr>], m_idleThreadCount := 1, fs := F\<rparr>"
  have to: "loop_reachable unbound d \<Longrightarrow> loop_step unbound d d' \<Longrightarrow> d' = e \<Longrightarrow> loop_reachable unbound e" for d d' e
    using loop_reachable.step by blast
  have "loop_reachable unbound (?d (?s lone_fibers) 0 False Asking)"
    by (rule loop_reachable.started [of 1 False 9 False 0 lone_fibers "(?s lone_fibers)\<lparr>m_stopping := True, workers := []\<rparr>" "\<lambda>_. 300"])
      (simp add: Scheduler_def example_scheduler_def, simp add: Scheduler_start_def example_scheduler_def new_worker_def)
  from to [OF this loop_step.elsewhere [OF _ sched_step.pick [of 0, where s' = ?s1]]]
  have "loop_reachable unbound (?d ?s1 0 False Asking)"
    by (simp add: unbound_def run_pick_def goto_def base_moved_asking stays_idle_def example_scheduler_def)
  from to [OF this loop_step.elsewhere [OF _ sched_step.schedule [of _ None "Some 7" "- 1"]]]
  have "loop_reachable unbound (?d ?s2 1 False Asking)"
    by (simp add: unbound_def Scheduler_schedule_def scheduleNoLock_def Let_def Scheduler_tickle_def base_moved_asking
        stays_idle_def example_scheduler_def)
  from to [OF this loop_step.tickle]
  have waits: "loop_reachable unbound (?d ?s2 0 True Asking)"
    by (simp add: tickle_written_def IOManager_tickle_def empty_handed_def example_scheduler_def)
  have enters: "run_dispatch 0 0 0 no_task False False ?s2 = (Inr (), ?s3)"
    using F by (simp add: run_dispatch_def Let_def no_task_def state_of_def lone_fibers_def seq_def fiber_op_def goto_def example_scheduler_def)
  have "sched_step ?s2 ?s3"
    by (rule sched_step.dispatch [OF _ _ enters]) simp_all
  then have "loop_step unbound (?d ?s2 0 True Asking) (base_moved ?s3 (?d ?s2 0 True Asking))"
    by (intro loop_step.elsewhere) (simp_all add: unbound_def stays_idle_def)
  from to [OF waits this] have "loop_reachable unbound (?d ?s3 0 True Asking)"
    by (simp add: base_moved_asking)
  moreover have "IOManager_stopping 1 (TimerManager (\<lambda>_. Timer_at 0) 0) ?s3 IOManager =
      ((NOT 0, False), (TimerManager (\<lambda>_. Timer_at 0) 0)\<lparr>m_tickled := False\<rparr>)"
    by (simp add: IOManager_stopping_def TimerManager_getNextTimer_def TimerManager_def Scheduler_stopping_def example_scheduler_def)
  moreover have "in_idle 0 Asking (?d ?s3 0 True Asking)"
    by (simp add: in_idle_def)
  moreover have "idle_ask 0 (NOT 0) False = Waiting (Some 3000)"
    by (simp add: idle_ask_def epoll_timeout_def)
  ultimately have "loop_reachable unbound ((?d ?s3 0 True Asking)\<lparr>idles := (\<lambda>_. Asking)(0 := Waiting (Some 3000))\<rparr>)"
    using to [OF _ loop_step.asks] by fastforce
  then show ?thesis
    by (intro exI conjI, assumption) (simp_all add: in_idle_def example_scheduler_def)
qed

section \<open>Properties\<close>



text \<open>A task that is queued behind others wakes nobody, whoever the others are for.\<close>

lemma schedule_silent:
  "m_fibers s \<noteq> [] \<Longrightarrow> tickles (Scheduler_schedule f cb thread s) = tickles s"
  by (simp add: schedule_queue)

end
