(* ===== verification/Address.thy ===== *)
theory Address
  imports Endian
begin

text \<open>
  \<open>sylar/address.{h,cpp}\<close>: socket addresses. The four classes are the constructors of one type
  around the structures of the socket API, whose multi-byte fields hold network order: \<open>host\<close> is
  the byte order of the machine, as in the theory of \<open>endian.h\<close>. This theory has the values, the
  comparison, and the arithmetic of prefixes; the textual forms are in \<open>Address_Text\<close>.
\<close>

section \<open>The structures\<close>

record sockaddr_in =
  sin_family :: u16
  sin_port :: u16
  s_addr :: u32
  sin_zero :: "byte list"

record sockaddr_in6 =
  sin6_family :: u16
  sin6_port :: u16
  sin6_flowinfo :: u32
  s6_addr :: "byte list"
  sin6_scope_id :: u32

record sockaddr_un =
  sun_family :: u16
  sun_path :: "byte list"

record sockaddr =
  sa_family :: u16
  sa_data :: "byte list"

datatype address =
    IPv4Address sockaddr_in
  | IPv6Address sockaddr_in6
  | UnixAddress sockaddr_un nat
  | UnknownAddress sockaddr

definition AF_UNIX :: u16 where "AF_UNIX = 1"
definition AF_INET :: u16 where "AF_INET = 2"
definition AF_INET6 :: u16 where "AF_INET6 = 10"

abbreviation net16 :: "endian \<Rightarrow> u16 \<Rightarrow> u16" where
  "net16 host \<equiv> byteswapOnLittleEndian host byteswap16"

abbreviation net32 :: "endian \<Rightarrow> u32 \<Rightarrow> u32" where
  "net32 host \<equiv> byteswapOnLittleEndian host byteswap32"

section \<open>Construction\<close>

definition new_IPv4Address :: "endian \<Rightarrow> u32 \<Rightarrow> u16 \<Rightarrow> sockaddr_in" where
  "new_IPv4Address host a port =
    \<lparr>sin_family = AF_INET, sin_port = net16 host port, s_addr = net32 host a, sin_zero = replicate 8 0\<rparr>"

definition new_IPv6Address :: sockaddr_in6 where
  "new_IPv6Address =
    \<lparr>sin6_family = AF_INET6, sin6_port = 0, sin6_flowinfo = 0, s6_addr = replicate 16 0, sin6_scope_id = 0\<rparr>"

definition IPv6Address_of :: "endian \<Rightarrow> byte list \<Rightarrow> u16 \<Rightarrow> sockaddr_in6" where
  "IPv6Address_of host a port = new_IPv6Address\<lparr>sin6_port := net16 host port, s6_addr := take 16 a\<rparr>"

definition UnknownAddress_of :: "u16 \<Rightarrow> sockaddr" where
  "UnknownAddress_of family = \<lparr>sa_family = family, sa_data = replicate 14 0\<rparr>"

text \<open>The memory of a structure, its size, and the structure that memory holds.\<close>

fun getAddr :: "endian \<Rightarrow> address \<Rightarrow> byte list" where
  "getAddr host (IPv4Address a) =
    bytes_in host 2 (sin_family a) @ bytes_in host 2 (sin_port a) @ bytes_in host 4 (s_addr a) @ sin_zero a"
| "getAddr host (IPv6Address a) =
    bytes_in host 2 (sin6_family a) @ bytes_in host 2 (sin6_port a) @ bytes_in host 4 (sin6_flowinfo a) @
    s6_addr a @ bytes_in host 4 (sin6_scope_id a)"
| "getAddr host (UnixAddress a len) = bytes_in host 2 (sun_family a) @ sun_path a"
| "getAddr host (UnknownAddress a) = bytes_in host 2 (sa_family a) @ sa_data a"

fun getAddrLen :: "address \<Rightarrow> nat" where
  "getAddrLen (IPv4Address a) = 16"
| "getAddrLen (IPv6Address a) = 28"
| "getAddrLen (UnixAddress a len) = len"
| "getAddrLen (UnknownAddress a) = 16"

fun getFamily :: "address \<Rightarrow> u16" where
  "getFamily (IPv4Address a) = sin_family a"
| "getFamily (IPv6Address a) = sin6_family a"
| "getFamily (UnixAddress a len) = sun_family a"
| "getFamily (UnknownAddress a) = sa_family a"

definition part :: "nat \<Rightarrow> nat \<Rightarrow> byte list \<Rightarrow> byte list" where
  "part i n bs = take n (drop i bs)"

definition read_sockaddr_in :: "endian \<Rightarrow> byte list \<Rightarrow> sockaddr_in" where
  "read_sockaddr_in host bs = \<lparr>sin_family = of_bytes_in host (part 0 2 bs), sin_port = of_bytes_in host (part 2 2 bs),
    s_addr = of_bytes_in host (part 4 4 bs), sin_zero = part 8 8 bs\<rparr>"

definition read_sockaddr_in6 :: "endian \<Rightarrow> byte list \<Rightarrow> sockaddr_in6" where
  "read_sockaddr_in6 host bs = \<lparr>sin6_family = of_bytes_in host (part 0 2 bs), sin6_port = of_bytes_in host (part 2 2 bs),
    sin6_flowinfo = of_bytes_in host (part 4 4 bs), s6_addr = part 8 16 bs, sin6_scope_id = of_bytes_in host (part 24 4 bs)\<rparr>"

text \<open>
  \<open>Address::Create\<close> from a pointer to memory: the structure it is cast to has to lie within it.
\<close>

definition Address_Create :: "endian \<Rightarrow> byte list option \<Rightarrow> fault + address option" where
  "Address_Create host p =
    (case p of
       None \<Rightarrow> Inr None
     | Some bs \<Rightarrow>
         let family = of_bytes_in host (part 0 2 bs) :: u16
         in if family = AF_INET then
              (if length bs < 16 then Inl Out_Of_Bounds else Inr (Some (IPv4Address (read_sockaddr_in host bs))))
            else if family = AF_INET6 then
              (if length bs < 28 then Inl Out_Of_Bounds else Inr (Some (IPv6Address (read_sockaddr_in6 host bs))))
            else if length bs < 16 then Inl Out_Of_Bounds
            else Inr (Some (UnknownAddress \<lparr>sa_family = family, sa_data = part 2 14 bs\<rparr>)))"

section \<open>Comparison\<close>

fun memcmp :: "byte list \<Rightarrow> byte list \<Rightarrow> int" where
  "memcmp (x # xs) (y # ys) = (if x < y then - 1 else if y < x then 1 else memcmp xs ys)"
| "memcmp _ _ = 0"

definition Address_less :: "endian \<Rightarrow> address \<Rightarrow> address \<Rightarrow> bool" where
  "Address_less host a rhs =
    (let minlen = min (getAddrLen a) (getAddrLen rhs);
         result = memcmp (take minlen (getAddr host a)) (take minlen (getAddr host rhs))
     in if result < 0 then True
        else if 0 < result then False
        else if getAddrLen a < getAddrLen rhs then True
        else False)"

definition Address_eq :: "endian \<Rightarrow> address \<Rightarrow> address \<Rightarrow> bool" where
  "Address_eq host a rhs \<longleftrightarrow> getAddrLen a = getAddrLen rhs \<and>
    memcmp (take (getAddrLen a) (getAddr host a)) (take (getAddrLen a) (getAddr host rhs)) = 0"

section \<open>Prefixes\<close>

text \<open>
  \<open>CreateMask<T>\<close>: the shift is one of an \<open>int\<close>. A count of 32 or more is undefined; so is taking 1
  from the \<open>INT_MIN\<close> that a count of 31 gives.
\<close>

definition CreateMask :: "nat \<Rightarrow> nat \<Rightarrow> fault + int" where
  "CreateMask size_T bits =
    (if size_T * 8 < bits \<or> 31 \<le> size_T * 8 - bits then Inl Bad_Arith else Inr (2 ^ (size_T * 8 - bits) - 1))"

function CountBytes :: "'a::len word \<Rightarrow> nat" where
  "CountBytes v = (if v = 0 then 0 else Suc (CountBytes (v AND (v - 1))))"
  by pat_completeness auto

lemma clear_lowest_less: "v \<noteq> 0 \<Longrightarrow> v AND (v - 1) < (v :: 'a::len word)"
proof -
  assume "v \<noteq> 0"
  then have "v - 1 < v"
    by (simp add: word_less_nat_alt unat_minus_one unat_gt_0)
  then show ?thesis
    by (rule order.strict_trans1 [OF word_and_le1])
qed

termination CountBytes
  by (relation "measure unat") (simp_all add: clear_lowest_less flip: word_less_nat_alt)

declare CountBytes.simps [simp del]

definition IPv4_broadcastAddress :: "endian \<Rightarrow> nat \<Rightarrow> sockaddr_in \<Rightarrow> fault + sockaddr_in option" where
  "IPv4_broadcastAddress host prefix_len a =
    (if 32 < prefix_len then Inr None
     else map_sum id (\<lambda>m. Some (a\<lparr>s_addr := s_addr a OR net32 host (word_of_int m)\<rparr>)) (CreateMask 4 prefix_len))"

definition IPv4_networdAddress :: "endian \<Rightarrow> nat \<Rightarrow> sockaddr_in \<Rightarrow> fault + sockaddr_in option" where
  "IPv4_networdAddress host prefix_len a =
    (if 32 < prefix_len then Inr None
     else map_sum id (\<lambda>m. Some (a\<lparr>s_addr := s_addr a AND NOT (net32 host (word_of_int m))\<rparr>)) (CreateMask 4 prefix_len))"

definition IPv4_subnetMask :: "endian \<Rightarrow> nat \<Rightarrow> fault + sockaddr_in option" where
  "IPv4_subnetMask host prefix_len =
    map_sum id (\<lambda>m. Some \<lparr>sin_family = AF_INET, sin_port = 0, s_addr = NOT (net32 host (word_of_int m)),
      sin_zero = replicate 8 0\<rparr>) (CreateMask 4 prefix_len)"

definition IPv4_getPort :: "endian \<Rightarrow> sockaddr_in \<Rightarrow> u16" where
  "IPv4_getPort host a = net16 host (sin_port a)"

definition IPv4_setPort :: "endian \<Rightarrow> u16 \<Rightarrow> sockaddr_in \<Rightarrow> sockaddr_in" where
  "IPv4_setPort host v a = a\<lparr>sin_port := net16 host v\<rparr>"

text \<open>An array element that has to exist.\<close>

definition update_byte :: "nat \<Rightarrow> (byte \<Rightarrow> byte) \<Rightarrow> byte list \<Rightarrow> fault + byte list" where
  "update_byte i f bs = (if i < length bs then Inr (bs[i := f (bs ! i)]) else Inl Out_Of_Bounds)"

text \<open>The loops that fill the bytes after a position, and those before.\<close>

definition fill_after :: "nat \<Rightarrow> byte \<Rightarrow> byte list \<Rightarrow> byte list" where
  "fill_after i b bs = take (i + 1) bs @ replicate (length bs - (i + 1)) b"

definition fill_before :: "nat \<Rightarrow> byte \<Rightarrow> byte list \<Rightarrow> byte list" where
  "fill_before i b bs = replicate i b @ drop i bs"

definition mask8 :: "nat \<Rightarrow> byte" where
  "mask8 bits = (case CreateMask 1 bits of Inl _ \<Rightarrow> 0 | Inr m \<Rightarrow> word_of_int m)"

definition IPv6_broadcastAddress :: "nat \<Rightarrow> sockaddr_in6 \<Rightarrow> fault + sockaddr_in6" where
  "IPv6_broadcastAddress prefix_len a =
    map_sum id (\<lambda>bs. a\<lparr>s6_addr := fill_after (prefix_len div 8) 0xff bs\<rparr>)
      (update_byte (prefix_len div 8) (\<lambda>b. b OR mask8 (prefix_len mod 8)) (s6_addr a))"

definition IPv6_networdAddress :: "nat \<Rightarrow> sockaddr_in6 \<Rightarrow> fault + sockaddr_in6" where
  "IPv6_networdAddress prefix_len a =
    map_sum id (\<lambda>bs. a\<lparr>s6_addr := fill_after (prefix_len div 8) 0 bs\<rparr>)
      (update_byte (prefix_len div 8) (\<lambda>b. b AND NOT (mask8 (prefix_len mod 8))) (s6_addr a))"

definition IPv6_subnetMask :: "nat \<Rightarrow> fault + sockaddr_in6" where
  "IPv6_subnetMask prefix_len =
    map_sum id (\<lambda>bs. new_IPv6Address\<lparr>s6_addr := fill_before (prefix_len div 8) 0xff bs\<rparr>)
      (update_byte (prefix_len div 8) (\<lambda>_. NOT (mask8 (prefix_len mod 8))) (s6_addr new_IPv6Address))"

definition IPv6_getPort :: "endian \<Rightarrow> sockaddr_in6 \<Rightarrow> u16" where
  "IPv6_getPort host a = net16 host (sin6_port a)"

definition IPv6_setPort :: "endian \<Rightarrow> u16 \<Rightarrow> sockaddr_in6 \<Rightarrow> sockaddr_in6" where
  "IPv6_setPort host v a = a\<lparr>sin6_port := net16 host v\<rparr>"

section \<open>The interfaces of the machine\<close>

text \<open>
  An entry of \<open>getifaddrs\<close>: the name, and the memory of the address and of the netmask, either of
  which may be absent. The multimap keeps the entries of a name in the order of insertion; it is a
  list here, and looking a name up filters it.
\<close>

record ifaddr =
  ifa_name :: string
  ifa_addr :: "byte list option"
  ifa_netmask :: "byte list option"

definition AF_UNSPEC :: u16 where "AF_UNSPEC = 0"

definition interface_entry :: "endian \<Rightarrow> u16 \<Rightarrow> ifaddr \<Rightarrow> fault + (string \<times> address \<times> nat) list" where
  "interface_entry host family next =
    (case ifa_addr next of
       None \<Rightarrow> Inl Null_Deref
     | Some sa \<Rightarrow>
         let sa_fam = of_bytes_in host (part 0 2 sa) :: u16
         in if family \<noteq> AF_UNSPEC \<and> family \<noteq> sa_fam then Inr []
            else if sa_fam = AF_INET \<or> sa_fam = AF_INET6 then
              (case (Address_Create host (Some sa), ifa_netmask next) of
                 (Inl e, _) \<Rightarrow> Inl e
               | (_, None) \<Rightarrow> Inl Null_Deref
               | (Inr None, _) \<Rightarrow> Inr []
               | (Inr (Some addr), Some nm) \<Rightarrow>
                   Inr [(ifa_name next, addr,
                     if sa_fam = AF_INET then CountBytes (s_addr (read_sockaddr_in host nm))
                     else sum_list (map CountBytes (part 8 16 nm)))])
            else Inr [])"

fun interface_loop :: "endian \<Rightarrow> u16 \<Rightarrow> ifaddr list \<Rightarrow> fault + (string \<times> address \<times> nat) list" where
  "interface_loop host family [] = Inr []"
| "interface_loop host family (next # rest) =
    (case interface_entry host family next of
       Inl e \<Rightarrow> Inl e
     | Inr xs \<Rightarrow> map_sum id (\<lambda>ys. xs @ ys) (interface_loop host family rest))"

text \<open>The answer of \<open>getifaddrs\<close> is an argument: \<open>None\<close> when it fails.\<close>

definition GetInterfaceAddresses ::
  "endian \<Rightarrow> u16 \<Rightarrow> ifaddr list option \<Rightarrow> fault + bool \<times> (string \<times> address \<times> nat) list" where
  "GetInterfaceAddresses host family results =
    (case results of
       None \<Rightarrow> Inr (False, [])
     | Some xs \<Rightarrow> map_sum id (\<lambda>r. (r \<noteq> [], r)) (interface_loop host family xs))"

definition GetInterfaceAddresses_of ::
  "endian \<Rightarrow> string \<Rightarrow> u16 \<Rightarrow> ifaddr list option \<Rightarrow> fault + bool \<times> (address \<times> nat) list" where
  "GetInterfaceAddresses_of host iface family results =
    (if iface = '''' \<or> iface = ''*'' then
       Inr (True,
         (if family = AF_INET \<or> family = AF_UNSPEC then [(IPv4Address (new_IPv4Address host 0 0), 0)] else []) @
         (if family = AF_INET6 \<or> family = AF_UNSPEC then [(IPv6Address new_IPv6Address, 0)] else []))
     else
       map_sum id (\<lambda>(ok, r). if \<not> ok then (False, [])
           else let its = map snd (filter (\<lambda>(name, _). name = iface) r) in (its \<noteq> [], its))
         (GetInterfaceAddresses host family results))"

section \<open>Lemmas\<close>

subsection \<open>Comparison\<close>

text \<open>What is compared: as many bytes of the structure as the address is long.\<close>

definition image_of :: "endian \<Rightarrow> address \<Rightarrow> byte list" where
  "image_of host a = take (getAddrLen a) (getAddr host a)"

definition addr_ok :: "endian \<Rightarrow> address \<Rightarrow> bool" where
  "addr_ok host a \<longleftrightarrow> getAddrLen a \<le> length (getAddr host a)"

lemma memcmp_zero: "length xs = length ys \<Longrightarrow> memcmp xs ys = 0 \<longleftrightarrow> xs = ys"
  by (induction xs ys rule: memcmp.induct) auto

lemma memcmp_lexord:
  "(memcmp (take (min (length xs) (length ys)) xs) (take (min (length xs) (length ys)) ys) < 0 \<or>
    memcmp (take (min (length xs) (length ys)) xs) (take (min (length xs) (length ys)) ys) = 0 \<and> length xs < length ys)
   \<longleftrightarrow> (xs, ys) \<in> lexord {(x, y). x < y}"
  by (induction xs ys rule: memcmp.induct) (auto simp: neq_Nil_conv)

lemma image_length: "addr_ok host a \<Longrightarrow> length (image_of host a) = getAddrLen a"
  by (simp add: addr_ok_def image_of_def)

lemma take_image: "n \<le> getAddrLen a \<Longrightarrow> take n (image_of host a) = take n (getAddr host a)"
  by (simp add: image_of_def min_absorb1)

lemma Address_less_image:
  assumes "addr_ok host a" and "addr_ok host b"
  shows "Address_less host a b \<longleftrightarrow> (image_of host a, image_of host b) \<in> lexord {(x, y). x < y}"
  using memcmp_lexord [of "image_of host a" "image_of host b"]
  by (auto simp: Address_less_def Let_def image_length assms take_image)

lemma Address_eq_image:
  assumes "addr_ok host a" and "addr_ok host b"
  shows "Address_eq host a b \<longleftrightarrow> image_of host a = image_of host b"
proof (cases "getAddrLen a = getAddrLen b")
  case True
  then have "length (image_of host a) = length (image_of host b)"
    by (simp add: image_length assms)
  from memcmp_zero [OF this] True show ?thesis
    by (simp add: Address_eq_def image_of_def)
next
  case False
  then have "length (image_of host a) \<noteq> length (image_of host b)"
    by (simp add: image_length assms)
  with False show ?thesis
    by (auto simp: Address_eq_def)
qed

subsection \<open>Words and masks\<close>

lemma high_part: "(h :: 'a::len word) AND NOT (mask n) = push_bit n (drop_bit n h)"
  by (rule bit_word_eqI) (auto simp: bit_simps)

lemma network_uint:
  assumes "n < LENGTH('a)"
  shows "uint ((h :: 'a::len word) AND NOT (mask n)) = uint h div 2 ^ n * 2 ^ n"
    and "uint (h OR mask n) = uint h div 2 ^ n * 2 ^ n + 2 ^ n - 1"
    and "uint (NOT (mask n) :: 'a word) = 2 ^ LENGTH('a) - 2 ^ n"
proof -
  show net: "uint (h AND NOT (mask n)) = uint h div 2 ^ n * 2 ^ n"
  proof -
    have "uint (h AND NOT (mask n)) = uint h AND NOT (mask n)"
      by (rule bit_eqI) (auto simp: bit_simps dest: bit_imp_le_length)
    also have "\<dots> = push_bit n (drop_bit n (uint h))"
      by (rule bit_eqI) (auto simp: bit_simps)
    finally show ?thesis
      by (simp add: push_bit_eq_mult drop_bit_eq_div)
  qed
  have "uint (mask n :: 'a word) = mask n"
    by (rule bit_eqI) (use assms in \<open>auto simp: bit_simps\<close>)
  then have m: "uint (mask n :: 'a word) = 2 ^ n - 1"
    by (simp add: mask_eq_exp_minus_1)
  have "uint (h OR mask n) = uint (h AND NOT (mask n)) + uint (mask n :: 'a word)"
  proof -
    have "uint (h OR mask n) = uint (h AND NOT (mask n)) OR uint (mask n :: 'a word)"
      by (rule bit_eqI) (auto simp: bit_simps dest: bit_imp_le_length)
    also have "\<dots> = uint (h AND NOT (mask n)) + uint (mask n :: 'a word)"
      by (rule disjunctive_add [symmetric]) (auto simp: bit_simps)
    finally show ?thesis .
  qed
  then show "uint (h OR mask n) = uint h div 2 ^ n * 2 ^ n + 2 ^ n - 1"
    by (simp add: net m)
  have "NOT (mask n) = - 1 - (mask n :: 'a word)"
    by (simp add: not_eq_complement)
  then have "uint (NOT (mask n) :: 'a word) = (2 ^ LENGTH('a) - 1 - (2 ^ n - 1)) mod 2 ^ LENGTH('a)"
    by (simp add: uint_word_ariths m mod_simps)
  also have "2 ^ LENGTH('a) - 1 - (2 ^ n - 1) = 2 ^ LENGTH('a) - (2 ^ n :: int)"
    by simp
  also have "(2 ^ LENGTH('a) - 2 ^ n) mod 2 ^ LENGTH('a) = 2 ^ LENGTH('a) - (2 ^ n :: int)"
    using assms by (intro mod_pos_pos_trivial) (simp_all add: power_increasing)
  finally show "uint (NOT (mask n) :: 'a word) = 2 ^ LENGTH('a) - 2 ^ n" .
qed

text \<open>Bitwise operations commute with the conversion to network order.\<close>

lemma CreateMask_mask: "1 < bits \<Longrightarrow> bits \<le> 32 \<Longrightarrow> CreateMask 4 bits = Inr (2 ^ (32 - bits) - 1)"
  by (simp add: CreateMask_def)

lemma mask8_mask: "bits < 8 \<Longrightarrow> mask8 bits = mask (8 - bits)"
  by (simp add: mask8_def CreateMask_def mask_eq_exp_minus_1)

subsection \<open>Counting bits\<close>

text \<open>The bits of a word above the position \<open>k\<close>.\<close>

definition above :: "nat \<Rightarrow> 'a::len word \<Rightarrow> 'a word" where
  "above k v = push_bit (Suc k) (drop_bit (Suc k) v)"

lemma bit_above: "bit (above k v) n \<longleftrightarrow> k < n \<and> bit v n"
  by (cases "k < n")
    (auto simp: above_def bit_push_bit_iff bit_drop_bit_eq Suc_le_eq dest: bit_imp_le_length
      simp del: push_bit_Suc drop_bit_Suc)

lemma clear_lowest_bit:
  assumes "bit v k" and "\<forall>n < k. \<not> bit v n"
  shows "(v :: 'a::len word) AND (v - 1) = above k v"
proof -
  have k: "k < LENGTH('a)"
    using assms(1) bit_imp_le_length by blast
  have "bit v n \<longleftrightarrow> n = k \<or> k < n \<and> bit v n" for n
    using assms by (metis nat_neq_iff)
  then have v_or: "v = above k v OR 2 ^ k"
    using k by (intro bit_word_eqI) (auto simp: bit_or_iff bit_above bit_exp_iff)
  have "above k v + 2 ^ k = above k v OR 2 ^ k"
    by (rule disjunctive_add) (auto simp: bit_above bit_exp_iff)
  then have "v - 1 = above k v + mask k"
    using v_or by (metis add_diff_eq mask_eq_exp_minus_1)
  also have "\<dots> = above k v OR mask k"
    by (rule disjunctive_add) (auto simp: bit_above bit_mask_iff)
  finally have "v AND (v - 1) = (above k v OR 2 ^ k) AND (above k v OR mask k)"
    using v_or by simp
  also have "\<dots> = above k v"
    by (rule bit_word_eqI) (auto simp: bit_and_iff bit_or_iff bit_above bit_exp_iff bit_mask_iff)
  finally show ?thesis .
qed

lemma CountBytes_card: "CountBytes v = card {n. bit v n}"
proof (induction v rule: CountBytes.induct)
  case (1 v)
  show ?case
  proof (cases "v = 0")
    case True
    then show ?thesis
      by (simp add: CountBytes.simps)
  next
    case False
    then obtain n where "bit v n"
      by (auto simp: bit_eq_iff)
    define k where "k = (LEAST n. bit v n)"
    have k: "bit v k" "\<forall>n < k. \<not> bit v n"
      using LeastI [of "bit v", OF \<open>bit v n\<close>] not_less_Least [of _ "bit v"] unfolding k_def by blast+
    have "bit (v AND (v - 1)) n \<longleftrightarrow> k < n \<and> bit v n" for n
      unfolding clear_lowest_bit [OF k] by (rule bit_above)
    moreover have "k < n \<longleftrightarrow> n \<noteq> k" if "bit v n" for n
      using that k(2) by (metis nat_neq_iff)
    ultimately have "bit (v AND (v - 1)) n \<longleftrightarrow> bit v n \<and> n \<noteq> k" for n
      by blast
    then have "{n. bit v n} = insert k {n. bit (v AND (v - 1)) n}" "k \<notin> {n. bit (v AND (v - 1)) n}"
      using k(1) by auto
    moreover have "finite {n. bit (v AND (v - 1)) n}"
      by (rule finite_subset [of _ "{..<LENGTH('a)}"]) (use bit_imp_le_length in auto)
    ultimately show ?thesis
      using False 1 by (simp add: CountBytes.simps [of v])
  qed
qed

subsection \<open>Network order and bitwise operations\<close>

lemma byteswap32_explicit:
  "byteswap32 v = ucast (ucast (drop_bit 24 v) :: byte) OR push_bit 8 (ucast (ucast (drop_bit 16 v) :: byte)) OR
    push_bit 16 (ucast (ucast (drop_bit 8 v) :: byte)) OR push_bit 24 (ucast (ucast v :: byte))"
proof -
  have four: "le_bytes 4 v = [ucast v, ucast (drop_bit 8 v), ucast (drop_bit 16 v), ucast (drop_bit 24 v)]" for v :: u32
    by (simp add: eval_nat_numeral drop_bit_drop_bit del: drop_bit_Suc)
  show ?thesis
    by (simp add: byteswap32_def bswap_def four or.assoc)
qed

lemma bit_byteswap32:
  "bit (byteswap32 v) n \<longleftrightarrow>
    (if n < 8 then bit v (n + 24) else if n < 16 then bit v (n + 8) else if n < 24 then bit v (n - 8)
     else n < 32 \<and> bit v (n - 24))"
proof -
  consider "n < 8" | "8 \<le> n" "n < 16" | "16 \<le> n" "n < 24" | "24 \<le> n" "n < 32" | "32 \<le> n"
    by linarith
  then show ?thesis
    by cases (auto simp: byteswap32_explicit bit_simps add.commute dest: bit_imp_le_length)
qed

lemma byteswap32_bitwise:
  "byteswap32 (v OR w) = byteswap32 v OR byteswap32 w"
  "byteswap32 (v AND w) = byteswap32 v AND byteswap32 w"
  "byteswap32 (NOT v) = NOT (byteswap32 v)"
  by (rule bit_word_eqI; simp add: bit_byteswap32 bit_or_iff bit_and_iff bit_not_iff; linarith?)+

lemma net32_bitwise:
  "net32 host (v OR w) = net32 host v OR net32 host w"
  "net32 host (v AND w) = net32 host v AND net32 host w"
  "net32 host (NOT v) = NOT (net32 host v)"
  by (simp_all add: byteswapOnLittleEndian_def byteswap32_bitwise)

lemma net32_net32 [simp]: "net32 host (net32 host v) = v"
  by (rule bit_word_eqI) (auto simp: byteswapOnLittleEndian_def bit_byteswap32 split: endian.splits)

lemma net16_0: "net16 host 0 = 0"
  by (cases host) (simp_all add: byteswapOnLittleEndian_def byteswap16_def bswap_def eval_nat_numeral)

text \<open>The count of one bits does not depend on the byte order, and a netmask has its length.\<close>

lemma CountBytes_byteswap32: "CountBytes (byteswap32 v) = CountBytes v"
proof -
  let ?p = "\<lambda>n :: nat. if n < 8 then n + 24 else if n < 16 then n + 8 else if n < 24 then n - 8 else n - 24"
  have "bij_betw ?p {n. bit (byteswap32 v) n} {n. bit v n}"
    by (rule bij_betw_byWitness [where f' = ?p])
      (auto simp: bit_byteswap32 dest: bit_imp_le_length split: if_splits)
  from bij_betw_same_card [OF this] show ?thesis
    by (simp add: CountBytes_card)
qed

lemma CountBytes_net32: "CountBytes (net32 host v) = CountBytes v"
  by (simp add: byteswapOnLittleEndian_def CountBytes_byteswap32 split: endian.splits)

lemma CountBytes_high:
  assumes "k \<le> LENGTH('a)"
  shows "CountBytes (NOT (mask k) :: 'a::len word) = LENGTH('a) - k"
proof -
  have "{n. bit (NOT (mask k) :: 'a word) n} = {k..<LENGTH('a)}"
    by (auto simp: bit_not_iff bit_mask_iff dest: bit_imp_le_length)
  then show ?thesis
    by (simp add: CountBytes_card)
qed

subsection \<open>The bits of an IPv6 address\<close>

text \<open>Bit \<open>i\<close> counted from the first, most significant one.\<close>

definition bit6 :: "byte list \<Rightarrow> nat \<Rightarrow> bool" where
  "bit6 bs i = bit (bs ! (i div 8)) (7 - i mod 8)"

lemma mask8_bit:
  assumes "r < 8" and "s < 8"
  shows "bit (mask8 r) (7 - s) \<longleftrightarrow> r \<le> s"
  using assms by (auto simp: mask8_mask bit_mask_iff)

lemma prefix_loop:
  assumes "length bs = 16" and "p < 128" and "i < 128"
  shows "bit6 (fill_after (p div 8) b (bs[p div 8 := f (bs ! (p div 8))])) i =
    (if i div 8 < p div 8 then bit6 bs i else if i div 8 = p div 8 then bit (f (bs ! (p div 8))) (7 - i mod 8)
     else bit b (7 - i mod 8))"
proof -
  have b: "p div 8 < 16" "i div 8 < 16"
    using assms(2,3) by simp_all
  have "replicate (15 - p div 8) b ! (i div 8 - Suc (p div 8)) = b" if "p div 8 < i div 8"
    by (rule nth_replicate) (use b that in linarith)
  with b show ?thesis
    using assms(1) by (cases "i div 8" "p div 8" rule: linorder_cases) (simp_all add: bit6_def fill_after_def nth_append)
qed

lemma prefix_order:
  "i div 8 < p div 8 \<Longrightarrow> i < (p :: nat)" "p div 8 < i div 8 \<Longrightarrow> p \<le> i"
  "i div 8 = p div 8 \<Longrightarrow> p mod 8 \<le> i mod 8 \<longleftrightarrow> p \<le> i"
  using div_le_mono [of p i 8] div_le_mono [of i p 8] div_mult_mod_eq [of i 8] div_mult_mod_eq [of p 8] by linarith+

lemma update_byte_in: "length bs = 16 \<Longrightarrow> p < 128 \<Longrightarrow> update_byte (p div 8) f bs = Inr (bs[p div 8 := f (bs ! (p div 8))])"
  by (simp add: update_byte_def)

lemma mask_bytes:
  assumes "p < 128"
  shows "fill_before (p div 8) 0xff ((replicate 16 0)[p div 8 := NOT (mask8 (p mod 8))]) =
    replicate (p div 8) 0xff @ NOT (mask8 (p mod 8)) # replicate (15 - p div 8) 0"
proof -
  have "p div 8 < 16"
    using assms by simp
  then show ?thesis
    by (simp add: fill_before_def drop_update_swap drop_update_cancel) (simp add: list_eq_iff_nth_eq nth_Cons')
qed

lemma byte_ones: "(0xff :: byte) = - 1"
  by simp

lemma CountBytes_mask_bytes:
  "p < 128 \<Longrightarrow> sum_list (map CountBytes (replicate (p div 8) 0xff @ NOT (mask8 (p mod 8)) # replicate (15 - p div 8) 0)) = p"
  using CountBytes_high [of "8 - p mod 8", where 'a = 8] CountBytes_high [of 0, where 'a = 8]
  by (simp add: mask8_mask sum_list_replicate CountBytes.simps [of 0] byte_ones)

section \<open>Properties\<close>

text \<open>The comparison operators order addresses strictly and totally: \<open><\<close> is the lexicographic
  order of the bytes of the structures, and of any two addresses exactly one is smaller or they are
  equal by \<open>==\<close>.\<close>

theorem Address_less_total:
  assumes "addr_ok host a" and "addr_ok host b" and "addr_ok host c"
  shows "\<not> Address_less host a a \<and> (Address_less host a b \<longrightarrow> Address_less host b c \<longrightarrow> Address_less host a c) \<and>
    (Address_less host a b \<or> Address_eq host a b \<or> Address_less host b a) \<and>
    (Address_less host a b \<longrightarrow> \<not> Address_eq host a b \<and> \<not> Address_less host b a) \<and>
    (Address_eq host a b \<longleftrightarrow> image_of host a = image_of host b)"
proof -
  let ?r = "{(x, y). x < y} :: (byte \<times> byte) set"
  note less = Address_less_image [OF assms(1,2)] Address_less_image [OF assms(2,1)] Address_less_image [OF assms(1,1)]
    Address_less_image [OF assms(2,3)] Address_less_image [OF assms(1,3)] Address_eq_image [OF assms(1,2)]
  have tr: "trans ?r"
    by (auto simp: trans_def)
  have irr: "(x, x) \<notin> lexord ?r" for x
    by (rule lexord_irreflexive) simp
  have tot: "(x, y) \<in> lexord ?r \<or> x = y \<or> (y, x) \<in> lexord ?r" for x y
    by (rule lexord_linear) auto
  have "\<not> Address_less host a a"
    unfolding less by (rule irr)
  moreover have "Address_less host a b \<longrightarrow> Address_less host b c \<longrightarrow> Address_less host a c"
    unfolding less using lexord_trans [OF _ _ tr] by blast
  moreover have "Address_less host a b \<or> Address_eq host a b \<or> Address_less host b a"
    unfolding less by (rule tot)
  moreover have "Address_less host a b \<longrightarrow> \<not> Address_eq host a b \<and> \<not> Address_less host b a"
    unfolding less using lexord_trans [OF _ _ tr] irr by metis
  ultimately show ?thesis
    using less(6) by blast
qed

lemma Address_less_total_witness:
  "\<not> Address_less SYLAR_LITTLE_ENDIAN (IPv4Address (new_IPv4Address SYLAR_LITTLE_ENDIAN 1 80))
     (IPv4Address (new_IPv4Address SYLAR_LITTLE_ENDIAN 1 80))"
proof -
  have "addr_ok SYLAR_LITTLE_ENDIAN (IPv4Address (new_IPv4Address SYLAR_LITTLE_ENDIAN 1 80))"
    by (simp add: addr_ok_def new_IPv4Address_def)
  from Address_less_total [OF this this this] show ?thesis
    by simp
qed

text \<open>The prefix operations of an IPv4 address on every prefix length, on either kind of host: the
  network address clears the bits after the prefix, the broadcast address is the last of the
  network, and the netmask has exactly \<open>prefix_len\<close> one bits. The lengths 0 and 1 are undefined (a
  shift by 32 bits, and 1 taken from \<open>INT_MIN\<close>); beyond 32 the first two answer null and the
  netmask, which lacks the check, is undefined.\<close>

theorem IPv4_prefixes:
  "if 2 \<le> p \<and> p \<le> 32 then
     \<exists>n b m. IPv4_networdAddress host p (new_IPv4Address host a port) = Inr (Some (new_IPv4Address host n port)) \<and>
       IPv4_broadcastAddress host p (new_IPv4Address host a port) = Inr (Some (new_IPv4Address host b port)) \<and>
       IPv4_subnetMask host p = Inr (Some (new_IPv4Address host m 0)) \<and>
       uint n = uint a div 2 ^ (32 - p) * 2 ^ (32 - p) \<and> uint b = uint n + 2 ^ (32 - p) - 1 \<and>
       uint m = 2 ^ 32 - 2 ^ (32 - p) \<and> CountBytes (s_addr (new_IPv4Address host m 0)) = p
   else if p < 2 then
     IPv4_networdAddress host p (new_IPv4Address host a port) = Inl Bad_Arith \<and>
     IPv4_broadcastAddress host p (new_IPv4Address host a port) = Inl Bad_Arith \<and> IPv4_subnetMask host p = Inl Bad_Arith
   else
     IPv4_networdAddress host p (new_IPv4Address host a port) = Inr None \<and>
     IPv4_broadcastAddress host p (new_IPv4Address host a port) = Inr None \<and> IPv4_subnetMask host p = Inl Bad_Arith"
proof -
  have err: "p < 2 \<Longrightarrow> CreateMask 4 p = Inl Bad_Arith" "32 < p \<Longrightarrow> CreateMask 4 p = Inl Bad_Arith"
    by (auto simp: CreateMask_def)
  have ok: "\<exists>n b m. IPv4_networdAddress host p (new_IPv4Address host a port) = Inr (Some (new_IPv4Address host n port)) \<and>
       IPv4_broadcastAddress host p (new_IPv4Address host a port) = Inr (Some (new_IPv4Address host b port)) \<and>
       IPv4_subnetMask host p = Inr (Some (new_IPv4Address host m 0)) \<and>
       uint n = uint a div 2 ^ (32 - p) * 2 ^ (32 - p) \<and> uint b = uint n + 2 ^ (32 - p) - 1 \<and>
       uint m = 2 ^ 32 - 2 ^ (32 - p) \<and> CountBytes (s_addr (new_IPv4Address host m 0)) = p" if p: "2 \<le> p" "p \<le> 32"
  proof (intro exI conjI)
    note sel = CreateMask_mask mask_eq_exp_minus_1 new_IPv4Address_def net32_bitwise
    have k: "32 - p < LENGTH(32)"
      using p by simp
    show "IPv4_networdAddress host p (new_IPv4Address host a port) =
        Inr (Some (new_IPv4Address host (a AND NOT (mask (32 - p))) port))"
      using p by (simp add: IPv4_networdAddress_def sel)
    show "IPv4_broadcastAddress host p (new_IPv4Address host a port) =
        Inr (Some (new_IPv4Address host (a OR mask (32 - p)) port))"
      using p by (simp add: IPv4_broadcastAddress_def sel)
    show "IPv4_subnetMask host p = Inr (Some (new_IPv4Address host (NOT (mask (32 - p))) 0))"
      using p by (simp add: IPv4_subnetMask_def sel net16_0)
    show "uint (a AND NOT (mask (32 - p))) = uint a div 2 ^ (32 - p) * 2 ^ (32 - p)"
        "uint (a OR mask (32 - p)) = uint (a AND NOT (mask (32 - p))) + 2 ^ (32 - p) - 1"
        "uint (NOT (mask (32 - p)) :: u32) = 2 ^ 32 - 2 ^ (32 - p)"
      using network_uint [OF k] by simp_all
    show "CountBytes (s_addr (new_IPv4Address host (NOT (mask (32 - p))) 0)) = p"
      using p CountBytes_high [of "32 - p", where 'a = 32] by (simp add: new_IPv4Address_def CountBytes_net32)
  qed
  show ?thesis
    using ok err by (auto simp: IPv4_networdAddress_def IPv4_broadcastAddress_def IPv4_subnetMask_def)
qed

lemma prefix_bits:
  assumes "length bs = 16" and "p < 128" and "i < 128"
  shows "bit6 (fill_after (p div 8) 0 (bs[p div 8 := bs ! (p div 8) AND NOT (mask8 (p mod 8))])) i \<longleftrightarrow> i < p \<and> bit6 bs i"
    and "bit6 (fill_after (p div 8) 0xff (bs[p div 8 := bs ! (p div 8) OR mask8 (p mod 8)])) i \<longleftrightarrow> (i < p \<longrightarrow> bit6 bs i)"
    and "bit6 (replicate (p div 8) 0xff @ NOT (mask8 (p mod 8)) # replicate (15 - p div 8) 0) i \<longleftrightarrow> i < p"
proof -
  have r: "bit (mask8 (p mod 8)) (7 - i mod 8) \<longleftrightarrow> p mod 8 \<le> i mod 8"
    by (rule mask8_bit) simp_all
  have b: "bit (- 1 :: byte) (7 - i mod 8)"
    by simp
  note loop = prefix_loop [OF assms, where b = 255 and f = "\<lambda>x. x OR mask8 (p mod 8)"]
  show "bit6 (fill_after (p div 8) 0 (bs[p div 8 := bs ! (p div 8) AND NOT (mask8 (p mod 8))])) i \<longleftrightarrow> i < p \<and> bit6 bs i"
    unfolding prefix_loop [OF assms, where b = 0 and f = "\<lambda>x. x AND NOT (mask8 (p mod 8))"]
    using r prefix_order [of i p]
    by (cases "i div 8" "p div 8" rule: linorder_cases) (auto simp: bit_and_iff bit_not_iff bit6_def)
  show "bit6 (fill_after (p div 8) 0xff (bs[p div 8 := bs ! (p div 8) OR mask8 (p mod 8)])) i \<longleftrightarrow> (i < p \<longrightarrow> bit6 bs i)"
  proof (cases "i div 8" "p div 8" rule: linorder_cases)
    case less
    with prefix_order(1) [OF less] show ?thesis
      by (simp add: loop)
  next
    case equal
    then show ?thesis
      unfolding loop using r prefix_order(3) [OF equal] by (auto simp: bit_or_iff bit6_def)
  next
    case greater
    then show ?thesis
      unfolding loop using prefix_order(2) [OF greater] b by (simp add: byte_ones)
  qed
  have "i div 8 - Suc (p div 8) < 15 - p div 8" if "p div 8 < i div 8"
    using that assms(3) by linarith
  then show "bit6 (replicate (p div 8) 0xff @ NOT (mask8 (p mod 8)) # replicate (15 - p div 8) 0) i \<longleftrightarrow> i < p"
    using r b prefix_order [of i p]
    by (cases "i div 8" "p div 8" rule: linorder_cases) (auto simp: bit6_def nth_append nth_Cons' bit_not_iff byte_ones)
qed

text \<open>C40: the prefix operations of an IPv6 address, bit by bit from the most significant: the network
  address keeps the first \<open>prefix_len\<close> bits and clears the others, the broadcast address sets them,
  and the netmask has the first \<open>prefix_len\<close> bits set. A length of 128, which \<open>subnetMask\<close> and the
  others do not reject, writes past the array.\<close>

theorem IPv6_prefixes:
  assumes "length (s6_addr a) = 16"
  shows "if p < 128 then
      \<exists>n b m. IPv6_networdAddress p a = Inr (a\<lparr>s6_addr := n\<rparr>) \<and> IPv6_broadcastAddress p a = Inr (a\<lparr>s6_addr := b\<rparr>) \<and>
        IPv6_subnetMask p = Inr (new_IPv6Address\<lparr>s6_addr := m\<rparr>) \<and> sum_list (map CountBytes m) = p \<and>
        (\<forall>i < 128. (bit6 n i \<longleftrightarrow> i < p \<and> bit6 (s6_addr a) i) \<and> (bit6 b i \<longleftrightarrow> (i < p \<longrightarrow> bit6 (s6_addr a) i)) \<and>
          (bit6 m i \<longleftrightarrow> i < p))
    else IPv6_networdAddress p a = Inl Out_Of_Bounds \<and> IPv6_broadcastAddress p a = Inl Out_Of_Bounds \<and>
      IPv6_subnetMask p = Inl Out_Of_Bounds"
proof (cases "p < 128")
  case True
  note ops = IPv6_networdAddress_def IPv6_broadcastAddress_def IPv6_subnetMask_def new_IPv6Address_def
  have "IPv6_subnetMask p = Inr (new_IPv6Address\<lparr>s6_addr :=
      replicate (p div 8) 0xff @ NOT (mask8 (p mod 8)) # replicate (15 - p div 8) 0\<rparr>)"
    using True by (simp add: ops update_byte_in mask_bytes)
  moreover have "IPv6_networdAddress p a = Inr (a\<lparr>s6_addr := fill_after (p div 8) 0
      ((s6_addr a)[p div 8 := s6_addr a ! (p div 8) AND NOT (mask8 (p mod 8))])\<rparr>)"
    "IPv6_broadcastAddress p a = Inr (a\<lparr>s6_addr := fill_after (p div 8) 0xff
      ((s6_addr a)[p div 8 := s6_addr a ! (p div 8) OR mask8 (p mod 8)])\<rparr>)"
    using True by (simp_all add: ops(1,2) update_byte_in assms)
  ultimately show ?thesis
    using True CountBytes_mask_bytes [OF True] prefix_bits [OF assms True] unfolding if_P [OF True] by blast
next
  case False
  then have "16 \<le> p div 8"
    by simp
  with False assms show ?thesis
    by (simp add: IPv6_networdAddress_def IPv6_broadcastAddress_def IPv6_subnetMask_def new_IPv6Address_def update_byte_def)
qed

lemma IPv6_prefixes_witness:
  "\<exists>m. IPv6_subnetMask 64 = Inr (new_IPv6Address\<lparr>s6_addr := m\<rparr>) \<and> sum_list (map CountBytes m) = 64"
proof -
  have "length (s6_addr new_IPv6Address) = 16"
    by (simp add: new_IPv6Address_def)
  from IPv6_prefixes [OF this, of 64] show ?thesis
    by auto
qed

text \<open>
  An interface with a name, an address and a prefix length, as \<open>getifaddrs\<close> lists it: the netmask is
  the one that \<open>subnetMask\<close> makes.
\<close>

definition netmask_of :: "endian \<Rightarrow> address \<Rightarrow> nat \<Rightarrow> address option" where
  "netmask_of host a p =
    (case a of
       IPv4Address _ \<Rightarrow> (case IPv4_subnetMask host p of Inr (Some m) \<Rightarrow> Some (IPv4Address m) | _ \<Rightarrow> None)
     | IPv6Address _ \<Rightarrow> (case IPv6_subnetMask p of Inr m \<Rightarrow> Some (IPv6Address m) | _ \<Rightarrow> None)
     | _ \<Rightarrow> None)"

definition listed :: "endian \<Rightarrow> string \<times> address \<times> nat \<Rightarrow> ifaddr" where
  "listed host = (\<lambda>(name, a, p). \<lparr>ifa_name = name, ifa_addr = Some (getAddr host a),
    ifa_netmask = map_option (getAddr host) (netmask_of host a p)\<rparr>)"

definition ip_ok :: "address \<Rightarrow> bool" where
  "ip_ok a = (case a of
     IPv4Address s \<Rightarrow> sin_family s = AF_INET \<and> length (sin_zero s) = 8
   | IPv6Address s \<Rightarrow> sin6_family s = AF_INET6 \<and> length (s6_addr s) = 16
   | _ \<Rightarrow> False)"

lemma Address_Create_getAddr:
  "ip_ok a \<Longrightarrow> Address_Create host (Some (getAddr host a)) = Inr (Some a)"
  by (cases a) (simp_all add: ip_ok_def Address_Create_def part_def AF_INET_def AF_INET6_def
      read_sockaddr_in_def read_sockaddr_in6_def)

lemma getAddr_family:
  "of_bytes_in host (part 0 2 (getAddr host a)) = getFamily a"
  by (cases a) (simp_all add: part_def)

lemma IPv4_subnetMask_count:
  assumes "IPv4_subnetMask host p = Inr (Some m)"
  shows "CountBytes (s_addr m) = p"
proof -
  from assms obtain v where v: "CreateMask 4 p = Inr v" and m: "s_addr m = NOT (net32 host (word_of_int v))"
    by (cases "CreateMask 4 p") (auto simp: IPv4_subnetMask_def)
  then have "p \<le> 32" and "v = 2 ^ (32 - p) - 1"
    by (auto simp: CreateMask_def split: if_splits)
  with m have "s_addr m = net32 host (NOT (mask (32 - p)))"
    by (simp add: net32_bitwise mask_eq_exp_minus_1)
  then show ?thesis
    using CountBytes_high [of "32 - p", where 'a = 32] \<open>p \<le> 32\<close> by (simp add: CountBytes_net32)
qed

lemma IPv6_subnetMask_count:
  assumes "IPv6_subnetMask p = Inr m"
  shows "sum_list (map CountBytes (s6_addr m)) = p" and "length (s6_addr m) = 16"
proof -
  from assms have "p div 8 < 16"
    by (auto simp: IPv6_subnetMask_def update_byte_def new_IPv6Address_def split: if_splits)
  then have p: "p < 128"
    by linarith
  with assms have "s6_addr m = replicate (p div 8) 0xff @ NOT (mask8 (p mod 8)) # replicate (15 - p div 8) 0"
    by (auto simp: IPv6_subnetMask_def update_byte_in mask_bytes new_IPv6Address_def)
  with CountBytes_mask_bytes [OF p] \<open>p div 8 < 16\<close> show "sum_list (map CountBytes (s6_addr m)) = p" "length (s6_addr m) = 16"
    by simp_all
qed

lemma interface_entry_listed:
  assumes "ip_ok a" and "netmask_of host a p \<noteq> None"
  shows "interface_entry host family (listed host (name, a, p)) =
    Inr (if family = AF_UNSPEC \<or> family = getFamily a then [(name, a, p)] else [])"
proof -
  have fam: "getFamily a = AF_INET \<or> getFamily a = AF_INET6" "AF_INET \<noteq> AF_INET6"
    using assms(1) by (auto simp: ip_ok_def AF_INET_def AF_INET6_def split: address.splits)
  note c = Address_Create_getAddr [OF assms(1)] getAddr_family [of host a]
  show ?thesis
  proof (cases a)
    case (IPv4Address s)
    then obtain m where m: "IPv4_subnetMask host p = Inr (Some m)"
      using assms(2) by (auto simp: netmask_of_def split: sum.splits option.splits)
    then have "CountBytes (s_addr m) = p"
      by (rule IPv4_subnetMask_count)
    with m show ?thesis
      using IPv4Address assms c fam
      by (auto simp: ip_ok_def interface_entry_def listed_def netmask_of_def read_sockaddr_in_def part_def Let_def)
  next
    case (IPv6Address s)
    then obtain m where m: "IPv6_subnetMask p = Inr m"
      using assms(2) by (auto simp: netmask_of_def split: sum.splits)
    then have "sum_list (map CountBytes (s6_addr m)) = p" "length (s6_addr m) = 16"
      by (rule IPv6_subnetMask_count)+
    with m show ?thesis
      using IPv6Address assms c fam
      by (auto simp: ip_ok_def interface_entry_def listed_def netmask_of_def read_sockaddr_in6_def part_def Let_def)
  qed (use assms(1) in \<open>simp_all add: ip_ok_def\<close>)
qed

definition of_family :: "u16 \<Rightarrow> (string \<times> address \<times> nat) list \<Rightarrow> (string \<times> address \<times> nat) list" where
  "of_family family xs = filter (\<lambda>(_, a, _). family = AF_UNSPEC \<or> family = getFamily a) xs"

definition listed_ok :: "endian \<Rightarrow> (string \<times> address \<times> nat) list \<Rightarrow> bool" where
  "listed_ok host xs \<longleftrightarrow> list_all (\<lambda>(_, a, p). ip_ok a \<and> netmask_of host a p \<noteq> None) xs"

lemma interface_loop_listed:
  assumes "listed_ok host xs"
  shows "interface_loop host family (map (listed host) xs @ ys) =
    map_sum id ((@) (of_family family xs)) (interface_loop host family ys)"
  using assms
proof (induction xs)
  case Nil
  then show ?case
    by (cases "interface_loop host family ys") (simp_all add: of_family_def)
next
  case (Cons x xs)
  obtain name a p where x: "x = (name, a, p)"
    using prod_cases3 by blast
  with Cons have "interface_entry host family (listed host x) = Inr (of_family family [x])"
    using interface_entry_listed [of a host p family name] by (simp add: listed_ok_def of_family_def)
  with Cons show ?case
    by (cases "interface_loop host family ys") (simp_all add: listed_ok_def of_family_def)
qed

text \<open>Given what the kernel lists for interfaces whose netmasks have the configured prefix lengths,
  \<open>GetInterfaceAddresses\<close> answers their names, addresses and prefix lengths, those of the family
  asked for, in order, and by name those of one interface; it succeeds if there is any. An entry
  without an address, as \<open>getifaddrs\<close> lists for an interface that has none, crashes it.\<close>

theorem GetInterfaceAddresses_exact:
  assumes "listed_ok host xs"
  shows "GetInterfaceAddresses host family (Some (map (listed host) xs)) = Inr (of_family family xs \<noteq> [], of_family family xs) \<and>
    (iface \<notin> {'''', ''*''} \<longrightarrow>
      GetInterfaceAddresses_of host iface family (Some (map (listed host) xs)) =
        (let its = map snd (filter (\<lambda>(name, _). name = iface) (of_family family xs)) in Inr (its \<noteq> [], its))) \<and>
    (ifa_addr y = None \<longrightarrow>
      GetInterfaceAddresses host family (Some (map (listed host) xs @ y # ys)) = Inl Null_Deref)"
proof -
  have all: "GetInterfaceAddresses host family (Some (map (listed host) xs)) = Inr (of_family family xs \<noteq> [], of_family family xs)"
    using interface_loop_listed [OF assms, of family "[]"] by (simp add: GetInterfaceAddresses_def)
  moreover have "GetInterfaceAddresses_of host iface family (Some (map (listed host) xs)) =
        (let its = map snd (filter (\<lambda>(name, _). name = iface) (of_family family xs)) in Inr (its \<noteq> [], its))"
    if "iface \<notin> {'''', ''*''}"
    using that by (auto simp: GetInterfaceAddresses_of_def all Let_def)
  moreover have "GetInterfaceAddresses host family (Some (map (listed host) xs @ y # ys)) = Inl Null_Deref"
    if "ifa_addr y = None"
    using interface_loop_listed [OF assms, of family "y # ys"] that
    by (simp add: GetInterfaceAddresses_def interface_entry_def)
  ultimately show ?thesis
    by blast
qed

lemma GetInterfaceAddresses_exact_witness:
  "\<exists>xs. GetInterfaceAddresses SYLAR_LITTLE_ENDIAN AF_INET (Some xs) =
     Inr (True, [(''lo'', IPv4Address (new_IPv4Address SYLAR_LITTLE_ENDIAN 0x7f000001 0), 8)])"
proof -
  let ?x = "(''lo'', IPv4Address (new_IPv4Address SYLAR_LITTLE_ENDIAN 0x7f000001 0), 8)"
  have "listed_ok SYLAR_LITTLE_ENDIAN [?x]"
    by (simp add: listed_ok_def ip_ok_def netmask_of_def new_IPv4Address_def IPv4_subnetMask_def CreateMask_def)
  from GetInterfaceAddresses_exact [OF this, of AF_INET] show ?thesis
    by (auto simp: of_family_def new_IPv4Address_def AF_INET_def AF_UNSPEC_def split: if_splits)
qed

end
