(* ===== verification/Text.thy ===== *)
theory Text
  imports Sylar_Prelude
begin

text \<open>
  Text: the numbers that the sources write to a stream, in decimal and in hexadecimal, the
  C string that a \<open>const char*\<close> into a \<open>std::string\<close> stands for, and splitting at a character.
  A \<open>std::string\<close> is a HOL string; its characters are bytes.
\<close>

section \<open>Numbers\<close>

definition digit :: "nat \<Rightarrow> char" where
  "digit n = ''0123456789abcdef'' ! n"

fun digits :: "nat \<Rightarrow> nat \<Rightarrow> string" where
  "digits b n = (if n < b \<or> b < 2 then [digit n] else digits b (n div b) @ [digit (n mod b)])"

declare digits.simps [simp del]

abbreviation dec :: "nat \<Rightarrow> string" where "dec \<equiv> digits 10"
abbreviation hex :: "nat \<Rightarrow> string" where "hex \<equiv> digits 16"

definition dec_int :: "int \<Rightarrow> string" where
  "dec_int i = (if i < 0 then ''-'' @ dec (nat (- i)) else dec (nat i))"

text \<open>Reading a number back.\<close>

definition digit_val :: "char \<Rightarrow> nat" where
  "digit_val c = (let n = of_char c in if 97 \<le> n then n - 87 else n - 48)"

definition number :: "nat \<Rightarrow> string \<Rightarrow> nat" where
  "number b s = foldl (\<lambda>n c. n * b + digit_val c) 0 s"

lemma digit_all: "list_all (\<lambda>n. digit_val (digit n) = n \<and> digit n \<in> set ''0123456789abcdef'') [0..<16]"
  by code_simp

lemma digit_val_digit [simp]: "n < 16 \<Longrightarrow> digit_val (digit n) = n"
  and digit_in: "n < 16 \<Longrightarrow> digit n \<in> set ''0123456789abcdef''"
  using digit_all by (simp_all add: list_all_iff)

lemma number_snoc [simp]: "number b (s @ [c]) = number b s * b + digit_val c"
  by (simp add: number_def)

lemma number_digits [simp]:
  assumes "2 \<le> b" and "b \<le> 16"
  shows "number b (digits b n) = n"
  using assms
proof (induction b n rule: digits.induct)
  case (1 b n)
  have "n mod b < 16"
    using mod_less_divisor [of b n] 1(2,3) by linarith
  with 1 show ?case
    by (subst digits.simps) (simp add: number_def)
qed

lemma digits_inject [simp]: "2 \<le> b \<Longrightarrow> b \<le> 16 \<Longrightarrow> digits b n = digits b m \<longleftrightarrow> n = m"
  by (metis number_digits)

lemma digits_nonempty [simp]: "digits b n \<noteq> []"
  by (subst digits.simps) simp

lemma digits_chars: "2 \<le> b \<Longrightarrow> b \<le> 16 \<Longrightarrow> c \<in> set (digits b n) \<Longrightarrow> \<exists>m < 16. c = digit m"
proof (induction b n rule: digits.induct)
  case (1 b n)
  show ?case
  proof (cases "n < b")
    case True
    then have "c = digit n" and "n < 16"
      using 1(2-4) by (simp_all add: digits.simps [of b n])
    then show ?thesis
      by blast
  next
    case False
    then have "c \<in> set (digits b (n div b)) \<or> c = digit (n mod b)"
      using 1(2-4) by (auto simp: digits.simps [of b n])
    moreover have "n mod b < 16"
      using mod_less_divisor [of b n] 1(2,3) by linarith
    ultimately show ?thesis
      using 1 False by auto
  qed
qed

lemma digits_not:
  assumes "c \<notin> set ''0123456789abcdef''" and "2 \<le> b" and "b \<le> 16"
  shows "c \<notin> set (digits b n)"
  using digits_chars [OF assms(2,3)] digit_in assms(1) by metis

section \<open>C strings\<close>

definition c_str :: "string \<Rightarrow> string" where
  "c_str s = takeWhile (\<lambda>c. c \<noteq> CHR 0x00) s"

lemma c_str_id: "CHR 0x00 \<notin> set s \<Longrightarrow> c_str s = s"
  by (auto simp: c_str_def takeWhile_eq_all_conv)

section \<open>Fields\<close>

text \<open>The fields of a text that a separator divides, and the text of some fields.\<close>

fun fields :: "char \<Rightarrow> string \<Rightarrow> string list" where
  "fields d [] = [[]]"
| "fields d (c # cs) = (if c = d then [] # fields d cs else
    (case fields d cs of f # rest \<Rightarrow> (c # f) # rest | [] \<Rightarrow> [[c]]))"

fun join :: "char \<Rightarrow> string list \<Rightarrow> string" where
  "join d [] = []"
| "join d [f] = f"
| "join d (f # g # rest) = f @ d # join d (g # rest)"

lemma fields_nonempty [simp]: "fields d s \<noteq> []"
  by (induction s) (auto split: list.splits)

lemma fields_plain: "d \<notin> set f \<Longrightarrow> fields d f = [f]"
  by (induction f) auto

lemma fields_cons: "d \<notin> set f \<Longrightarrow> fields d (f @ d # s) = f # fields d s"
  by (induction f) auto

lemma fields_join: "fs \<noteq> [] \<Longrightarrow> list_all (\<lambda>f. d \<notin> set f) fs \<Longrightarrow> fields d (join d fs) = fs"
  by (induction d fs rule: join.induct) (simp_all add: fields_plain fields_cons)

lemma join_append: "fs \<noteq> [] \<Longrightarrow> gs \<noteq> [] \<Longrightarrow> join d (fs @ gs) = join d fs @ d # join d gs"
  by (induction d fs rule: join.induct) (auto simp: neq_Nil_conv)

end
