(* ===== verification/Address_Text.thy ===== *)
theory Address_Text
  imports Address Text
begin

text \<open>
  \<open>sylar/address.cpp\<close>: the textual forms of addresses, the addresses of Unix sockets, which are
  paths, and the resolution of host names, for which \<open>getaddrinfo\<close> and \<open>inet_pton\<close> are arguments.
\<close>

section \<open>IPv4 and IPv6\<close>

definition IPv4_insert :: "endian \<Rightarrow> sockaddr_in \<Rightarrow> string" where
  "IPv4_insert host a =
    (let addr = net32 host (s_addr a)
     in dec (unat (drop_bit 24 addr AND 0xff)) @ ''.'' @
        dec (unat (drop_bit 16 addr AND 0xff)) @ ''.'' @
        dec (unat (drop_bit 8 addr AND 0xff)) @ ''.'' @
        dec (unat (addr AND 0xff)) @
        '':'' @ dec (unat (net16 host (sin_port a))))"

text \<open>
  The address as an array of eight \<open>uint16_t\<close>, and the loop that writes them: \<open>i\<close> counts up, \<open>prev\<close>
  is \<open>addr[i - 1]\<close>. It answers what it has written and \<open>used_zeros\<close>.
\<close>

definition words16 :: "endian \<Rightarrow> byte list \<Rightarrow> u16 list" where
  "words16 host bs = map (\<lambda>i. of_bytes_in host (part (2 * i) 2 bs)) [0..<8]"

fun IPv6_loop :: "endian \<Rightarrow> nat \<Rightarrow> u16 \<Rightarrow> bool \<Rightarrow> u16 list \<Rightarrow> string \<times> bool" where
  "IPv6_loop host i prev used_zeros [] = ('''', used_zeros)"
| "IPv6_loop host i prev used_zeros (x # xs) =
    (if x = 0 \<and> \<not> used_zeros then IPv6_loop host (Suc i) x used_zeros xs
     else
       let skipped = (i \<noteq> 0 \<and> prev = 0 \<and> \<not> used_zeros);
           (os, used) = IPv6_loop host (Suc i) x (used_zeros \<or> skipped) xs
       in ((if skipped then '':'' else '''') @ (if i \<noteq> 0 then '':'' else '''') @
           hex (unat (net16 host x)) @ os, used))"

definition IPv6_host_text :: "endian \<Rightarrow> byte list \<Rightarrow> string" where
  "IPv6_host_text host bs =
    (let addr = words16 host bs; (os, used_zeros) = IPv6_loop host 0 0 False addr
     in os @ (if \<not> used_zeros \<and> addr ! 7 = 0 then ''::'' else ''''))"

definition IPv6_insert :: "endian \<Rightarrow> sockaddr_in6 \<Rightarrow> string" where
  "IPv6_insert host a = ''['' @ IPv6_host_text host (s6_addr a) @ '']:'' @ dec (unat (net16 host (sin6_port a)))"

section \<open>Unix sockets\<close>

text \<open>
  \<open>sun_path\<close> has 108 bytes and lies behind the 2 bytes of the family. The length is a \<open>uint32_t\<close>.
\<close>

definition bytes_of :: "string \<Rightarrow> byte list" where
  "bytes_of s = map of_char s"

definition chars_of :: "byte list \<Rightarrow> string" where
  "chars_of bs = map (\<lambda>b. char_of (unat b)) bs"

definition MAX_PATH_LEN :: nat where "MAX_PATH_LEN = 107"

definition new_UnixAddress :: address where
  "new_UnixAddress = UnixAddress \<lparr>sun_family = AF_UNIX, sun_path = replicate 108 0\<rparr> (2 + MAX_PATH_LEN)"

definition UnixAddress_of :: "string \<Rightarrow> fault + address" where
  "UnixAddress_of path =
    (let len = (length path + 1) mod 2 ^ 32;
         m_length = (if path \<noteq> [] \<and> hd path = CHR 0x00 then (len + 2 ^ 32 - 1) mod 2 ^ 32 else len)
     in if 108 < m_length then Inl (Exn (Logic_Error ''path too long''))
        else Inr (UnixAddress \<lparr>sun_family = AF_UNIX,
               sun_path = splice 0 (take m_length (bytes_of (path @ [CHR 0x00]))) (replicate 108 0)\<rparr> (m_length + 2)))"

definition UnixAddress_setAddrLen :: "nat \<Rightarrow> address \<Rightarrow> address" where
  "UnixAddress_setAddrLen v a = (case a of UnixAddress s _ \<Rightarrow> UnixAddress s v | _ \<Rightarrow> a)"

text \<open>The C string in an array, which has to end within it.\<close>

definition array_c_str :: "byte list \<Rightarrow> fault + string" where
  "array_c_str bs = (if 0 \<in> set bs then Inr (chars_of (takeWhile (\<lambda>b. b \<noteq> 0) bs)) else Inl Out_Of_Bounds)"

definition UnixAddress_getPath :: "sockaddr_un \<Rightarrow> nat \<Rightarrow> fault + string" where
  "UnixAddress_getPath a m_length =
    (if 2 < m_length \<and> sun_path a ! 0 = 0 then
       (if length (sun_path a) < m_length - 2 then Inl Out_Of_Bounds
        else Inr ([CHR 0x5C, CHR ''0''] @ chars_of (part 1 (m_length - 2 - 1) (sun_path a))))
     else array_c_str (sun_path a))"

definition UnixAddress_insert :: "sockaddr_un \<Rightarrow> nat \<Rightarrow> fault + string" where
  "UnixAddress_insert a m_length =
    (if 2 < m_length \<and> sun_path a ! 0 = 0 then
       (if length (sun_path a) < m_length - 2 then Inl Out_Of_Bounds
        else Inr ([CHR 0x5C, CHR ''0''] @ chars_of (part 1 (m_length - 2 - 1) (sun_path a))))
     else array_c_str (sun_path a))"

definition UnknownAddress_insert :: "sockaddr \<Rightarrow> string" where
  "UnknownAddress_insert a = ''[UnknownAddress family='' @ dec (unat (sa_family a)) @ '']''"

fun Address_toString :: "endian \<Rightarrow> address \<Rightarrow> fault + string" where
  "Address_toString host (IPv4Address a) = Inr (IPv4_insert host a)"
| "Address_toString host (IPv6Address a) = Inr (IPv6_insert host a)"
| "Address_toString host (UnixAddress a len) = UnixAddress_insert a len"
| "Address_toString host (UnknownAddress a) = Inr (UnknownAddress_insert a)"

section \<open>Resolution\<close>

text \<open>
  How \<open>Lookup\<close> takes a host apart into the node and the service for \<open>getaddrinfo\<close>. A pointer into
  the host stands for what follows it; the terminating zero byte is the end of the string.
\<close>

definition after :: "char \<Rightarrow> string \<Rightarrow> string option" where
  "after c s = (if c \<in> set s then Some (tl (dropWhile (\<lambda>x. x \<noteq> c) s)) else None)"

definition before :: "char \<Rightarrow> string \<Rightarrow> string" where
  "before c s = takeWhile (\<lambda>x. x \<noteq> c) s"

definition Lookup_bracket :: "string \<Rightarrow> string \<times> string option" where
  "Lookup_bracket host =
    (if host \<noteq> [] \<and> hd host = CHR ''['' then
       (case after (CHR '']'') (tl host) of
          None \<Rightarrow> ('''', None)
        | Some rest \<Rightarrow>
            (before (CHR '']'') (tl host), if rest \<noteq> [] \<and> hd rest = CHR '':'' then Some (tl rest) else None))
     else ('''', None))"

definition Lookup_split :: "string \<Rightarrow> string \<times> string option" where
  "Lookup_split host =
    (let (node, service) = Lookup_bracket host;
         (node, service) =
           (if node = [] then
              (case after (CHR '':'') host of
                 None \<Rightarrow> (node, None)
               | Some rest \<Rightarrow>
                   if CHR '':'' \<notin> set rest then (before (CHR '':'') host, Some rest)
                   else (node, Some (CHR '':'' # rest)))
            else (node, service))
     in (if node = [] then host else node, service))"

text \<open>
  \<open>gai\<close> is \<open>getaddrinfo\<close>: of the node, the service and the hints (flags, family, type, protocol), an
  error or the list of results, each with its memory. A C string ends at its first zero byte.
\<close>

type_synonym getaddrinfo = "string \<Rightarrow> string option \<Rightarrow> int \<times> int \<times> int \<times> int \<Rightarrow> int + byte list option list"

fun create_all :: "endian \<Rightarrow> byte list option list \<Rightarrow> fault + address option list" where
  "create_all host [] = Inr []"
| "create_all host (r # rs) =
    (case Address_Create host r of Inl e \<Rightarrow> Inl e | Inr a \<Rightarrow> map_sum id (\<lambda>as. a # as) (create_all host rs))"

definition Address_Lookup ::
  "endian \<Rightarrow> getaddrinfo \<Rightarrow> string \<Rightarrow> int \<Rightarrow> int \<Rightarrow> int \<Rightarrow> fault + bool \<times> address option list" where
  "Address_Lookup e gai host family type protocol =
    (let (node, service) = Lookup_split host
     in case gai (c_str node) (map_option c_str service) (0, family, type, protocol) of
          Inl err \<Rightarrow> Inr (False, [])
        | Inr results \<Rightarrow> map_sum id (\<lambda>as. (as \<noteq> [], as)) (create_all e results))"

definition Address_LookupAny ::
  "endian \<Rightarrow> getaddrinfo \<Rightarrow> string \<Rightarrow> int \<Rightarrow> int \<Rightarrow> int \<Rightarrow> fault + address option" where
  "Address_LookupAny e gai host family type protocol =
    map_sum id (\<lambda>(ok, as). if ok then as ! 0 else None) (Address_Lookup e gai host family type protocol)"

definition as_IPAddress :: "address option \<Rightarrow> address option" where
  "as_IPAddress a = (case a of Some (IPv4Address _) \<Rightarrow> a | Some (IPv6Address _) \<Rightarrow> a | _ \<Rightarrow> None)"

fun first_IPAddress :: "address option list \<Rightarrow> address option" where
  "first_IPAddress [] = None"
| "first_IPAddress (i # as) = (case as_IPAddress i of Some v \<Rightarrow> Some v | None \<Rightarrow> first_IPAddress as)"

definition Address_LookupAnyIPAddress ::
  "endian \<Rightarrow> getaddrinfo \<Rightarrow> string \<Rightarrow> int \<Rightarrow> int \<Rightarrow> int \<Rightarrow> fault + address option" where
  "Address_LookupAnyIPAddress e gai host family type protocol =
    map_sum id (\<lambda>(ok, as). if ok then first_IPAddress as else None) (Address_Lookup e gai host family type protocol)"

definition IPAddress_setPort :: "endian \<Rightarrow> u16 \<Rightarrow> address \<Rightarrow> address" where
  "IPAddress_setPort host v a =
    (case a of
       IPv4Address s \<Rightarrow> IPv4Address (IPv4_setPort host v s)
     | IPv6Address s \<Rightarrow> IPv6Address (IPv6_setPort host v s)
     | _ \<Rightarrow> a)"

text \<open>\<open>AI_NUMERICHOST\<close> is 4.\<close>

definition IPAddress_Create :: "endian \<Rightarrow> getaddrinfo \<Rightarrow> string \<Rightarrow> u16 \<Rightarrow> fault + address option" where
  "IPAddress_Create e gai a port =
    (case gai a None (4, 0, 0, 0) of
       Inl err \<Rightarrow> Inr None
     | Inr [] \<Rightarrow> Inl Null_Deref
     | Inr (r # _) \<Rightarrow> map_sum id (\<lambda>x. map_option (IPAddress_setPort e port) (as_IPAddress x)) (Address_Create e r))"

text \<open>\<open>pton\<close> is \<open>inet_pton\<close>: its result, and the bytes it stores when that is positive.\<close>

definition IPv4Address_Create :: "endian \<Rightarrow> (u16 \<Rightarrow> string \<Rightarrow> int \<times> byte list) \<Rightarrow> string \<Rightarrow> u16 \<Rightarrow> sockaddr_in option" where
  "IPv4Address_Create host pton a port =
    (let rt = (new_IPv4Address host 0 0)\<lparr>sin_port := net16 host port\<rparr>; (result, bs) = pton AF_INET a
     in if result \<le> 0 then None else Some (rt\<lparr>s_addr := of_bytes_in host (take 4 bs)\<rparr>))"

definition IPv6Address_Create :: "endian \<Rightarrow> (u16 \<Rightarrow> string \<Rightarrow> int \<times> byte list) \<Rightarrow> string \<Rightarrow> u16 \<Rightarrow> sockaddr_in6 option" where
  "IPv6Address_Create host pton a port =
    (let rt = new_IPv6Address\<lparr>sin6_port := net16 host port\<rparr>; (result, bs) = pton AF_INET6 a
     in if result \<le> 0 then None else Some (rt\<lparr>s6_addr := take 16 bs\<rparr>))"

section \<open>Lemmas\<close>

lemma net16_eq_0: "net16 host x = 0 \<longleftrightarrow> x = 0"
  using swap16.network_involution [of host x] net16_0 [of host] by metis

abbreviation group :: "endian \<Rightarrow> u16 \<Rightarrow> string" where
  "group host x \<equiv> hex (unat (net16 host x))"

subsection \<open>The loop of IPv6\<close>

lemma join_Cons: "join d (f # fs) = f @ concat (map (\<lambda>g. d # g) fs)"
proof (induction fs arbitrary: f)
  case (Cons g fs)
  then show ?case by simp
qed simp

lemma loop_used:
  "i \<noteq> 0 \<Longrightarrow> IPv6_loop host i prev True xs = (concat (map (\<lambda>x. CHR '':'' # group host x) xs), True)"
  by (induction xs arbitrary: i prev) simp_all

lemma loop_nonzero:
  assumes "i \<noteq> 0" and "prev \<noteq> 0" and "0 \<notin> set xs"
  shows "IPv6_loop host i prev False (xs @ ys) =
    (let (os, used) = IPv6_loop host (i + length xs) (last (prev # xs)) False ys
     in (concat (map (\<lambda>x. CHR '':'' # group host x) xs) @ os, used))"
  using assms by (induction xs arbitrary: i prev) (auto split: prod.split)

lemma loop_zero:
  "IPv6_loop host i prev False (replicate n 0 @ ys) = IPv6_loop host (i + n) (if n = 0 then prev else 0) False ys"
  by (induction n arbitrary: i prev) auto

text \<open>An array is the groups before the first run of zeros, the run, and the groups after it.\<close>

lemma loop_text:
  assumes "0 \<notin> set xs" and "ys \<noteq> [] \<Longrightarrow> hd ys \<noteq> 0 \<and> n \<noteq> 0"
  shows "IPv6_loop host 0 0 False (xs @ replicate n 0 @ ys) =
    (join (CHR '':'') (map (group host) xs) @ (if ys = [] then '''' else ''::'' @ join (CHR '':'') (map (group host) ys)), ys \<noteq> [])"
proof -
  have tail: "IPv6_loop host i prev False (replicate n 0 @ ys) =
      (if ys = [] then '''' else ''::'' @ join (CHR '':'') (map (group host) ys), ys \<noteq> [])" for i prev
    using assms(2) loop_zero [of host i prev n "[]"] by (cases ys) (auto simp: loop_zero loop_used join_Cons comp_def)
  show ?thesis
  proof (cases xs)
    case Nil
    then show ?thesis
      using tail by simp
  next
    case (Cons x xs')
    with assms(1) have "0 \<notin> set xs'" "x \<noteq> 0"
      by auto
    with Cons show ?thesis
      using loop_nonzero [of 1 x xs' host "replicate n 0 @ ys"] tail by (simp add: join_Cons comp_def)
  qed
qed

lemma zero_run:
  obtains xs n ys where "zs = xs @ replicate n (0 :: u16) @ ys" and "0 \<notin> set xs" and "ys \<noteq> [] \<Longrightarrow> hd ys \<noteq> 0 \<and> n \<noteq> 0"
proof -
  let ?xs = "takeWhile (\<lambda>x. x \<noteq> 0) zs" and ?r = "dropWhile (\<lambda>x. x \<noteq> 0) zs"
  have z: "takeWhile (\<lambda>x. x = 0) ?r = replicate (length (takeWhile (\<lambda>x. x = 0) ?r)) 0"
    by (induction ?r) (auto simp: replicate_length_same [symmetric] dest: set_takeWhileD intro!: replicate_length_same [symmetric])
  show ?thesis
  proof (rule that)
    show "zs = ?xs @ replicate (length (takeWhile (\<lambda>x. x = 0) ?r)) 0 @ dropWhile (\<lambda>x. x = 0) ?r"
      using z by (metis takeWhile_dropWhile_id)
    show "0 \<notin> set ?xs"
      by (auto dest: set_takeWhileD)
    show "dropWhile (\<lambda>x. x = 0) ?r \<noteq> [] \<Longrightarrow> hd (dropWhile (\<lambda>x. x = 0) ?r) \<noteq> 0 \<and> length (takeWhile (\<lambda>x. x = 0) ?r) \<noteq> 0"
      using hd_dropWhile [of "\<lambda>x. x = 0" ?r] hd_dropWhile [of "\<lambda>x. x \<noteq> 0" zs] by (cases ?r) auto
  qed
qed

subsection \<open>Reading the text of an IPv6 address\<close>

text \<open>
  The value of a text, as RFC 4291 defines it: eight hexadecimal groups between colons, of which one
  run of zeros may be left out and written as two colons.
\<close>

definition expand6 :: "string \<Rightarrow> nat list" where
  "expand6 s =
    (let fs = fields (CHR '':'') s; pre = takeWhile (\<lambda>f. f \<noteq> []) fs; post = rev (takeWhile (\<lambda>f. f \<noteq> []) (rev fs))
     in if [] \<in> set fs then map (number 16) pre @ replicate (8 - length pre - length post) 0 @ map (number 16) post
        else map (number 16) fs)"

lemma group_props [simp]: "group host x \<noteq> []" "CHR '':'' \<notin> set (group host x)" "CHR '']'' \<notin> set (group host x)"
  "CHR 0x00 \<notin> set (group host x)"
  by (rule digits_nonempty) (rule digits_not; simp)+

lemma fields_groups: "xs \<noteq> [] \<Longrightarrow> fields (CHR '':'') (join (CHR '':'') (map (group host) xs)) = map (group host) xs"
  by (intro fields_join) (simp_all add: list_all_iff)

lemma number_groups: "map (number 16) (map (group host) xs) = map (\<lambda>x. unat (net16 host x)) xs"
  by simp

lemma expand6_gap:
  "expand6 (join (CHR '':'') (map (group host) xs) @ ''::'' @ join (CHR '':'') (map (group host) ys)) =
    map (\<lambda>x. unat (net16 host x)) xs @ replicate (8 - length xs - length ys) 0 @ map (\<lambda>x. unat (net16 host x)) ys"
proof -
  let ?e = "\<lambda>zs. if zs = [] then [[]] else map (group host) zs"
  let ?fs = "?e xs @ [[]] @ ?e ys"
  have e: "join (CHR '':'') (?e zs) = join (CHR '':'') (map (group host) zs)" for zs
    by simp
  have "join (CHR '':'') ?fs = join (CHR '':'') (map (group host) xs) @ ''::'' @ join (CHR '':'') (map (group host) ys)"
    using join_append [of "?e xs" "[[]] @ ?e ys"] join_append [of "[[]]" "?e ys"] e by simp
  moreover have "fields (CHR '':'') (join (CHR '':'') ?fs) = ?fs"
    by (rule fields_join) (auto simp: list_all_iff)
  moreover have "takeWhile (\<lambda>f. f \<noteq> []) ?fs = map (group host) xs" "takeWhile (\<lambda>f. f \<noteq> []) (rev ?fs) = rev (map (group host) ys)"
    by (auto simp: takeWhile_append rev_map)
  ultimately show ?thesis
    by (simp add: expand6_def Let_def comp_def rev_map [symmetric])
qed

lemma expand6_full:
  "xs \<noteq> [] \<Longrightarrow> expand6 (join (CHR '':'') (map (group host) xs)) = map (\<lambda>x. unat (net16 host x)) xs"
  using group_props(1) [of host] by (auto simp: expand6_def fields_groups Let_def dest: sym)

lemma IPv6_host_text_cases:
  obtains "0 \<notin> set (words16 host bs)" "IPv6_host_text host bs = join (CHR '':'') (map (group host) (words16 host bs))"
  | xs n ys where "words16 host bs = xs @ replicate n 0 @ ys" "0 < n"
      "IPv6_host_text host bs = join (CHR '':'') (map (group host) xs) @ ''::'' @ join (CHR '':'') (map (group host) ys)"
proof -
  obtain xs n ys where zs: "words16 host bs = xs @ replicate n 0 @ ys" and
      r: "0 \<notin> set xs" "ys \<noteq> [] \<Longrightarrow> hd ys \<noteq> 0 \<and> n \<noteq> 0"
    by (rule zero_run [of "words16 host bs"]) blast
  have len: "length (words16 host bs) = 8"
    by (simp add: words16_def)
  show ?thesis
  proof (cases "ys = [] \<and> n = 0")
    case True
    then have xs: "words16 host bs = xs" "length xs = 8"
      using zs len by simp_all
    then have "xs ! 7 \<noteq> 0"
      using r(1) nth_mem [of 7 xs] by force
    with xs r True loop_text [OF r, of host] that(1) show ?thesis
      by (auto simp: IPv6_host_text_def)
  next
    case False
    then have "IPv6_host_text host bs = join (CHR '':'') (map (group host) xs) @ ''::'' @ join (CHR '':'') (map (group host) ys)"
      using loop_text [OF r, of host] len by (auto simp: IPv6_host_text_def zs nth_append)
    with False zs r(2) that(2) show ?thesis
      by blast
  qed
qed

lemma IPv6_host_text_expand: "expand6 (IPv6_host_text host bs) = map (\<lambda>x. unat (net16 host x)) (words16 host bs)"
proof (cases rule: IPv6_host_text_cases [of host bs])
  case 1
  moreover have "words16 host bs \<noteq> []"
    by (simp add: words16_def)
  ultimately show ?thesis
    using expand6_full [of "words16 host bs" host] by simp
next
  case (2 xs n ys)
  moreover have "n = 8 - length xs - length ys"
    using arg_cong [OF 2(1), of length] by (simp add: words16_def)
  ultimately show ?thesis
    using expand6_gap [of host xs ys] by (simp add: net16_0)
qed

lemma IPv6_host_text_nonempty: "IPv6_host_text host bs \<noteq> []"
proof (cases rule: IPv6_host_text_cases [of host bs])
  case 1
  moreover obtain x xs where "words16 host bs = x # xs"
    by (cases "words16 host bs") (simp_all add: words16_def)
  ultimately show ?thesis
    by (simp add: join_Cons)
qed simp

subsection \<open>Taking hosts apart\<close>

lemma after_simps [simp]:
  "c \<notin> set s \<Longrightarrow> after c (s @ c # t) = Some t" "c \<notin> set s \<Longrightarrow> before c (s @ c # t) = s"
  "c \<notin> set s \<Longrightarrow> after c s = None" "after c (c # t) = Some t"
  by (auto simp: after_def before_def dropWhile_append takeWhile_append)

lemma split_bracketed:
  assumes "CHR '']'' \<notin> set n" and "n \<noteq> []"
  shows "Lookup_split (CHR ''['' # n @ CHR '']'' # CHR '':'' # s) = (n, Some s)"
    and "Lookup_split (CHR ''['' # n @ [CHR '']'']) = (n, None)"
  using assms by (simp_all add: Lookup_split_def Lookup_bracket_def)

lemma split_plain:
  assumes "n = [] \<or> hd n \<noteq> CHR ''[''" and "n \<noteq> []"
  shows "CHR '':'' \<notin> set n \<Longrightarrow> Lookup_split n = (n, None)"
    and "CHR '':'' \<notin> set n \<Longrightarrow> CHR '':'' \<notin> set s \<Longrightarrow> Lookup_split (n @ CHR '':'' # s) = (n, Some s)"
  using assms by (auto simp: Lookup_split_def Lookup_bracket_def hd_append)

lemma split_two_colons:
  assumes "CHR '':'' \<notin> set s" and "CHR '':'' \<in> set t" and "hd (s @ [CHR '':'']) \<noteq> CHR ''[''"
  shows "Lookup_split (s @ CHR '':'' # t) = (s @ CHR '':'' # t, Some (CHR '':'' # t))"
  using assms after_simps(1,2) [OF assms(1), of t] by (cases s) (auto simp: Lookup_split_def Lookup_bracket_def)

subsection \<open>The parts of an address text\<close>

fun node_text :: "endian \<Rightarrow> address \<Rightarrow> string" where
  "node_text host (IPv4Address a) =
    (let addr = net32 host (s_addr a)
     in join (CHR ''.'') (map (\<lambda>k. dec (unat (drop_bit k addr AND 0xff))) [24, 16, 8, 0]))"
| "node_text host (IPv6Address a) = IPv6_host_text host (s6_addr a)"
| "node_text host a = ''''"

definition service_text :: "endian \<Rightarrow> address \<Rightarrow> string" where
  "service_text host a = dec (unat (case a of IPv4Address s \<Rightarrow> IPv4_getPort host s | IPv6Address s \<Rightarrow> IPv6_getPort host s | _ \<Rightarrow> 0))"

lemma join_not_in: "c \<noteq> d \<Longrightarrow> c \<notin> set (join d fs) \<longleftrightarrow> list_all (\<lambda>f. c \<notin> set f) fs"
  by (induction d fs rule: join.induct) auto

lemma IPv6_loop_not:
  assumes "c \<noteq> CHR '':''" and "\<And>x. c \<notin> set (group host x)"
  shows "c \<notin> set (fst (IPv6_loop host i prev u xs))"
proof (induction xs arbitrary: i prev u)
  case (Cons x xs)
  then show ?case
    using assms by (simp add: Let_def case_prod_beta)
qed simp

lemma IPv6_host_text_not: "CHR '']'' \<notin> set (IPv6_host_text host bs)" "CHR 0x00 \<notin> set (IPv6_host_text host bs)"
  by (simp_all add: IPv6_host_text_def Let_def case_prod_beta IPv6_loop_not)

lemma dec_props [simp]: "CHR '':'' \<notin> set (dec n)" "CHR ''.'' \<notin> set (dec n)" "CHR 0x00 \<notin> set (dec n)" "CHR ''['' \<notin> set (dec n)"
  by (rule digits_not; simp)+

lemma hd_dec: "hd (dec n) \<noteq> CHR ''[''"
  using dec_props(4) [of n] by (metis digits_nonempty hd_in_set)

lemma split_toString:
  assumes "ip_ok a"
  shows "\<exists>s. Address_toString host a = Inr s \<and> Lookup_split s = (node_text host a, Some (service_text host a))"
proof (cases a)
  case (IPv4Address s)
  have "IPv4_insert host s = node_text host a @ CHR '':'' # service_text host a"
    by (simp add: IPv4Address IPv4_insert_def service_text_def IPv4_getPort_def Let_def)
  moreover have "CHR '':'' \<notin> set (node_text host a)" "node_text host a \<noteq> []" "hd (node_text host a) \<noteq> CHR ''[''"
    by (simp_all add: IPv4Address Let_def hd_dec)
  ultimately show ?thesis
    using split_plain(2) [of "node_text host a" "service_text host a"] by (simp add: IPv4Address service_text_def)
next
  case (IPv6Address s)
  then show ?thesis
    using split_bracketed(1) [OF IPv6_host_text_not(1) IPv6_host_text_nonempty, of host "s6_addr s" "service_text host a"]
    by (simp add: IPv6_insert_def service_text_def IPv6_getPort_def)
qed (use assms in \<open>simp_all add: ip_ok_def\<close>)

lemma text_c_str: "ip_ok a \<Longrightarrow> c_str (node_text host a) = node_text host a" "c_str (service_text host a) = service_text host a"
  by (cases a) (auto simp: ip_ok_def Let_def service_text_def IPv6_host_text_not intro!: c_str_id)

lemma words16_network:
  "length bs = 16 \<Longrightarrow> map (net16 host) (words16 host bs) = map (\<lambda>i. of_bytes_in SYLAR_BIG_ENDIAN (part (2 * i) 2 bs)) [0..<8]"
  using swap16.from_wire_bytes [where e = SYLAR_BIG_ENDIAN and host = host]
  by (auto simp: words16_def byteswapOnLittleEndian_def part_def split: endian.splits)

lemma words16_inject:
  assumes "length as = 16" and "length bs = 16" and "words16 host as = words16 host bs"
  shows "as = bs"
proof -
  have pair: "part (2 * i) 2 cs = bytes_in host 2 (words16 host cs ! i)" if "i < 8" "length cs = 16" for i cs
    using that bytes_in_of_bytes_in [of "part (2 * i) 2 cs" host, where 'a = 16] by (simp add: words16_def part_def)
  have eq: "part (2 * i) 2 as = part (2 * i) 2 bs" if "i < 8" for i
    using that pair assms by metis
  show ?thesis
  proof (rule nth_equalityI)
    fix j
    assume "j < length as"
    then have "part (2 * (j div 2)) 2 as ! (j mod 2) = as ! j" "part (2 * (j div 2)) 2 bs ! (j mod 2) = bs ! j"
      using assms(1,2) by (simp_all add: part_def)
    with eq [of "j div 2"] \<open>j < length as\<close> assms(1) show "as ! j = bs ! j"
      by simp
  qed (simp add: assms)
qed

section \<open>Properties\<close>

text \<open>C38: the loop that writes an IPv6 address, with its run of zeros left out at the right place and
  only once, writes a text whose value by RFC 4291 is the address: eight groups in network order,
  on either kind of host. Two addresses with the same text are the same.\<close>

theorem IPv6_insert_expands:
  assumes "length (s6_addr a) = 16" and "length (s6_addr b) = 16"
  shows "(\<exists>h. IPv6_insert host a = ''['' @ h @ '']:'' @ dec (unat (IPv6_getPort host a)) \<and> CHR '']'' \<notin> set h \<and>
      expand6 h = map (\<lambda>i. unat (of_bytes_in SYLAR_BIG_ENDIAN (part (2 * i) 2 (s6_addr a)) :: u16)) [0..<8]) \<and>
    (IPv6_host_text host (s6_addr a) = IPv6_host_text host (s6_addr b) \<longrightarrow> s6_addr a = s6_addr b)"
proof -
  have inj: "inj (\<lambda>x. unat (net16 host x))"
    by (rule injI) (metis swap16.network_involution unsigned_word_eqI)
  have "words16 host (s6_addr a) = words16 host (s6_addr b)"
    if "IPv6_host_text host (s6_addr a) = IPv6_host_text host (s6_addr b)"
    using arg_cong [OF that, of expand6] inj by (simp add: IPv6_host_text_expand inj_map_eq_map)
  moreover have "expand6 (IPv6_host_text host (s6_addr a)) =
      map unat (map (\<lambda>i. of_bytes_in SYLAR_BIG_ENDIAN (part (2 * i) 2 (s6_addr a)) :: u16) [0..<8])"
    using arg_cong [OF words16_network [OF assms(1), of host], of "map unat"] by (simp add: IPv6_host_text_expand comp_def)
  ultimately show ?thesis
    using IPv6_host_text_not(1) words16_inject [OF assms] by (auto simp: IPv6_insert_def IPv6_getPort_def comp_def)
qed

lemma IPv6_insert_expands_witness:
  "IPv6_host_text SYLAR_LITTLE_ENDIAN (s6_addr new_IPv6Address) = ''::'' \<and> expand6 ''::'' = replicate 8 0"
proof -
  have *: "length (s6_addr new_IPv6Address) = 16" "IPv6_host_text SYLAR_LITTLE_ENDIAN (s6_addr new_IPv6Address) = ''::''"
    by (simp add: new_IPv6Address_def) code_simp
  from IPv6_insert_expands [OF *(1) *(1), of SYLAR_LITTLE_ENDIAN] *(2) show ?thesis
    by (simp add: expand6_def)
qed



text \<open>How \<open>Lookup\<close> takes a host apart: \<open>[node]:service\<close>, \<open>[node]\<close>, \<open>node:service\<close> and \<open>node\<close> as
  intended. A host with two colons and no brackets, such as an IPv6 address, is looked up whole,
  but its text from the first colon on is passed as the service, since the pointer is not reset.\<close>

theorem Lookup_split_cases:
  assumes "CHR '']'' \<notin> set n" and "CHR '':'' \<notin> set m" and "m \<noteq> []" and "n \<noteq> []" and "hd m \<noteq> CHR ''[''"
  shows "Lookup_split (CHR ''['' # n @ CHR '']'' # CHR '':'' # s) = (n, Some s) \<and>
    Lookup_split (CHR ''['' # n @ [CHR '']'']) = (n, None) \<and>
    Lookup_split m = (m, None) \<and>
    (CHR '':'' \<notin> set s \<longrightarrow> Lookup_split (m @ CHR '':'' # s) = (m, Some s)) \<and>
    (CHR '':'' \<in> set s \<longrightarrow> Lookup_split (m @ CHR '':'' # s) = (m @ CHR '':'' # s, Some (CHR '':'' # s)))"
  using split_bracketed [OF assms(1,4)] split_plain [of m] split_two_colons [OF assms(2), of s] assms(2,3,5) by auto

lemma Lookup_split_cases_witness:
  "Lookup_split ''[::1]:80'' = (''::1'', Some ''80'') \<and> Lookup_split ''fe80::1'' = (''fe80::1'', Some ''::1'')"
  using Lookup_split_cases [of "''::1''" "''fe80''" "''80''"] Lookup_split_cases [of "''::1''" "''fe80''" "'':1''"] by simp

lemma unat_of_char: "unat (of_char c :: byte) = of_char c"
proof -
  have "unat (of_char c :: byte) = of_char c mod 2 ^ LENGTH(8)"
    using of_nat_of_char [of c, where 'a = "8 word"] unat_of_nat [where 'a = 8] by metis
  then show ?thesis
    by simp
qed

lemma chars_of_bytes_of [simp]: "chars_of (bytes_of s) = s"
  by (induction s) (simp_all add: chars_of_def bytes_of_def unat_of_char)

lemma byte_of_char_0: "(of_char c :: byte) = 0 \<longleftrightarrow> c = CHR 0x00"
proof -
  have "(of_char c :: byte) = of_char (CHR 0x00) \<longleftrightarrow> c = CHR 0x00"
    using unat_of_char by (metis of_char_eq_iff)
  then show ?thesis
    by simp
qed

lemma length_bytes_of [simp]: "length (bytes_of s) = length s"
  by (simp add: bytes_of_def)

lemma chars_of_take: "chars_of (take n bs) = take n (chars_of bs)"
  by (simp add: chars_of_def take_map)

text \<open>What the constructor stores: the path, then zeros to the end of the array.\<close>

lemma UnixAddress_of_stores:
  assumes "length path < 2 ^ 32 - 1"
  shows "UnixAddress_of path =
    (let abstract = (path \<noteq> [] \<and> hd path = CHR 0x00); n = (if abstract then length path else length path + 1)
     in if 108 < n then Inl (Exn (Logic_Error ''path too long''))
        else Inr (UnixAddress \<lparr>sun_family = AF_UNIX, sun_path = bytes_of path @ replicate (108 - length path) 0\<rparr> (n + 2)))"
proof -
  have m: "(length path + 1) mod 2 ^ 32 = length path + 1" "(length path + 1 + 2 ^ 32 - 1) mod 2 ^ 32 = length path"
    using assms by simp_all
  have "splice 0 (take n (bytes_of (path @ [CHR 0x00]))) (replicate 108 0) = bytes_of path @ replicate (108 - length path) 0"
    if "n = length path \<or> n = length path + 1" "n \<le> 108" for n
    using that by (auto simp: splice_whole bytes_of_def Suc_diff_Suc simp flip: replicate_Suc)
  then show ?thesis
    unfolding UnixAddress_of_def m Let_def by (auto simp: m)
qed

text \<open>The path of a Unix socket address, for every path a string can be: a path without zero bytes
  reads back as it is if it fits, with its terminator, into the 108 bytes; an abstract path, which
  begins with a zero byte, reads back with that byte written as \<open>\0\<close>, and may use all of them; longer
  ones are rejected. The empty path reads back as \<open>\0\<close>: it is the abstract path of one zero byte.\<close>

theorem UnixAddress_path_roundtrip:
  assumes "length path < 2 ^ 32 - 1"
  shows "(path \<noteq> [] \<and> CHR 0x00 \<notin> set path \<longrightarrow>
      (if length path \<le> 107
       then \<exists>s n. UnixAddress_of path = Inr (UnixAddress s n) \<and> UnixAddress_getPath s n = Inr path \<and>
          addr_ok host (UnixAddress s n) \<and> Address_toString host (UnixAddress s n) = Inr path
       else UnixAddress_of path = Inl (Exn (Logic_Error ''path too long'')))) \<and>
    (path \<noteq> [] \<and> hd path = CHR 0x00 \<longrightarrow>
      (if length path \<le> 108
       then \<exists>s n. UnixAddress_of path = Inr (UnixAddress s n) \<and>
          UnixAddress_getPath s n = Inr ([CHR 0x5C, CHR ''0''] @ tl path) \<and> addr_ok host (UnixAddress s n)
       else UnixAddress_of path = Inl (Exn (Logic_Error ''path too long'')))) \<and>
    UnixAddress_of [] = UnixAddress_of [CHR 0x00]"
proof -
  note stores = UnixAddress_of_stores [OF assms]
  let ?s = "\<lparr>sun_family = AF_UNIX, sun_path = bytes_of path @ replicate (108 - length path) 0\<rparr>"
  have named: "UnixAddress_getPath s n = Inr path \<and> addr_ok host (UnixAddress s n) \<and> Address_toString host (UnixAddress s n) = Inr path"
    if "path \<noteq> []" "CHR 0x00 \<notin> set path" "length path \<le> 107" "s = \<lparr>sun_family = AF_UNIX, sun_path = bytes_of path @ replicate (108 - length path) 0\<rparr>"
      "n = Suc (Suc (Suc (length path)))" for s n
  proof -
    have nz: "\<And>b. b \<in> set (bytes_of path) \<Longrightarrow> b \<noteq> 0"
      using that(2) by (auto simp: bytes_of_def byte_of_char_0)
    then have "takeWhile (\<lambda>b. b \<noteq> 0) (sun_path s) = bytes_of path"
      using that(3,4) by (auto simp: takeWhile_append2 takeWhile_eq_Nil_iff)
    moreover have "sun_path s ! 0 \<noteq> 0"
      using nz that(1,4) by (simp add: nth_append)
    moreover have "0 \<in> set (sun_path s)"
      using that(3,4) by simp
    ultimately show ?thesis
      using that(3-5) by (simp add: UnixAddress_getPath_def UnixAddress_insert_def array_c_str_def addr_ok_def)
  qed
  have abstract: "UnixAddress_getPath s n = Inr ([CHR 0x5C, CHR ''0''] @ tl path) \<and> addr_ok host (UnixAddress s n)"
    if "path = CHR 0x00 # t" "length path \<le> 108" "s = \<lparr>sun_family = AF_UNIX, sun_path = bytes_of path @ replicate (108 - length path) 0\<rparr>"
      "n = length path + 2" for s n t
  proof -
    have "chars_of (part 1 (n - 2 - 1) (sun_path s)) = t"
      using that by (simp add: part_def bytes_of_def chars_of_take) (simp flip: bytes_of_def)
    moreover have "sun_path s ! 0 = 0"
      using that(1,3) by (simp add: bytes_of_def)
    ultimately show ?thesis
      using that by (simp add: UnixAddress_getPath_def addr_ok_def)
  qed
  have "UnixAddress_of [] = UnixAddress_of [CHR 0x00]"
    using replicate_Suc [of 107 "0 :: byte"] by (simp add: UnixAddress_of_stores bytes_of_def)
  moreover have "if length path \<le> 107
       then \<exists>s n. UnixAddress_of path = Inr (UnixAddress s n) \<and> UnixAddress_getPath s n = Inr path \<and>
          addr_ok host (UnixAddress s n) \<and> Address_toString host (UnixAddress s n) = Inr path
       else UnixAddress_of path = Inl (Exn (Logic_Error ''path too long''))"
    if "path \<noteq> []" "CHR 0x00 \<notin> set path"
  proof -
    have "hd path \<noteq> CHR 0x00"
      using that by (metis hd_in_set)
    with that stores named [OF that _ refl refl] show ?thesis
      by (auto simp: Let_def)
  qed
  moreover have "if length path \<le> 108
       then \<exists>s n. UnixAddress_of path = Inr (UnixAddress s n) \<and>
          UnixAddress_getPath s n = Inr ([CHR 0x5C, CHR ''0''] @ tl path) \<and> addr_ok host (UnixAddress s n)
       else UnixAddress_of path = Inl (Exn (Logic_Error ''path too long''))"
    if "path \<noteq> []" "hd path = CHR 0x00"
  proof -
    have "path = CHR 0x00 # tl path"
      using that by (metis list.collapse)
    from that stores abstract [OF this _ refl refl] show ?thesis
      by (auto simp: Let_def)
  qed
  ultimately show ?thesis
    by blast
qed

lemma UnixAddress_path_roundtrip_witness:
  "\<exists>s n. UnixAddress_of ''/tmp/s'' = Inr (UnixAddress s n) \<and> UnixAddress_getPath s n = Inr ''/tmp/s''"
  using UnixAddress_path_roundtrip [of "''/tmp/s''" SYLAR_LITTLE_ENDIAN] by auto

end
