(* ===== verification/Log_Format.thy ===== *)
theory Log_Format
  imports Text
begin

text \<open>
  The first half of \<open>sylar/log.{h,cpp}\<close>: levels, events and formatters, with the parser of format
  patterns. A level is the number of the enumeration constant, since the sources also cast other
  numbers to the type. \<open>strftime\<close> with the local time zone is an argument: of a format and a time it
  is the text left in the buffer.
\<close>

section \<open>Levels\<close>

type_synonym level = nat

definition UNKNOWN :: level where "UNKNOWN = 0"
definition DEBUG :: level where "DEBUG = 1"
definition INFO :: level where "INFO = 2"
definition WARN :: level where "WARN = 3"
definition ERROR :: level where "ERROR = 4"
definition FATAL :: level where "FATAL = 5"

lemmas levels = UNKNOWN_def DEBUG_def INFO_def WARN_def ERROR_def FATAL_def

definition LogLevel_ToString :: "level \<Rightarrow> string" where
  "LogLevel_ToString level =
    (if level = DEBUG then ''DEBUG''
     else if level = INFO then ''INFO''
     else if level = WARN then ''WARN''
     else if level = ERROR then ''ERROR''
     else if level = FATAL then ''FATAL''
     else ''UNKNOWN'')"

text \<open>\<open>toupper\<close> and \<open>isalpha\<close> in the C locale.\<close>

definition toupper :: "char \<Rightarrow> char" where
  "toupper c = (let n = of_char c :: nat in if 97 \<le> n \<and> n \<le> 122 then char_of (n - 32) else c)"

definition isalpha :: "char \<Rightarrow> bool" where
  "isalpha c = (let n = of_char c :: nat in 65 \<le> n \<and> n \<le> 90 \<or> 97 \<le> n \<and> n \<le> 122)"

definition LogLevel_FromString :: "string \<Rightarrow> level" where
  "LogLevel_FromString str =
    (let s = c_str (map toupper str)
     in if s = ''DEBUG'' then DEBUG
        else if s = ''INFO'' then INFO
        else if s = ''WARN'' then WARN
        else if s = ''ERROR'' then ERROR
        else if s = ''FATAL'' then FATAL
        else UNKNOWN)"

section \<open>Events\<close>

record log_event =
  le_file :: string
  le_line :: int
  le_elapse :: nat
  le_threadId :: int
  le_fiberId :: nat
  le_time :: nat
  le_ss :: string
  le_logger :: nat
  le_level :: level
  le_threadName :: string

definition LogEvent :: "nat \<Rightarrow> level \<Rightarrow> string \<Rightarrow> int \<Rightarrow> nat \<Rightarrow> int \<Rightarrow> nat \<Rightarrow> nat \<Rightarrow> string \<Rightarrow> log_event" where
  "LogEvent logger level file line elapse thread_id fiber_id time thread_name =
    \<lparr>le_file = file, le_line = line, le_elapse = elapse, le_threadId = thread_id, le_fiberId = fiber_id,
     le_time = time, le_ss = '''', le_logger = logger, le_level = level, le_threadName = thread_name\<rparr>"

text \<open>\<open>LogEvent::format\<close>: what \<open>vasprintf\<close> produces, if it does, is appended to the message.\<close>

definition LogEvent_format :: "string option \<Rightarrow> log_event \<Rightarrow> log_event" where
  "LogEvent_format printed e = (case printed of None \<Rightarrow> e | Some s \<Rightarrow> e\<lparr>le_ss := le_ss e @ s\<rparr>)"

section \<open>Format items\<close>

datatype format_item =
    MessageFormatItem
  | LevelFormatItem
  | ElapseFormatItem
  | LoggerNameFormatItem
  | ThreadIdFormatItem
  | NewLineFormatItem
  | DateTimeFormatItem string
  | FilenameFormatItem
  | LineFormatItem
  | TabFormatItem
  | FiberIdFormatItem
  | ThreadNameFormatItem
  | StringFormatItem string

text \<open>\<open>names\<close> is the name of each logger.\<close>

fun FormatItem_format :: "(string \<Rightarrow> nat \<Rightarrow> string) \<Rightarrow> (nat \<Rightarrow> string) \<Rightarrow> level \<Rightarrow> log_event \<Rightarrow> format_item \<Rightarrow> string" where
  "FormatItem_format strf names level event MessageFormatItem = le_ss event"
| "FormatItem_format strf names level event LevelFormatItem = LogLevel_ToString level"
| "FormatItem_format strf names level event ElapseFormatItem = dec (le_elapse event)"
| "FormatItem_format strf names level event LoggerNameFormatItem = names (le_logger event)"
| "FormatItem_format strf names level event ThreadIdFormatItem = dec_int (le_threadId event)"
| "FormatItem_format strf names level event NewLineFormatItem = [CHR 0x0A]"
| "FormatItem_format strf names level event (DateTimeFormatItem f) = strf (c_str f) (le_time event)"
| "FormatItem_format strf names level event FilenameFormatItem = le_file event"
| "FormatItem_format strf names level event LineFormatItem = dec_int (le_line event)"
| "FormatItem_format strf names level event TabFormatItem = [CHR 0x09]"
| "FormatItem_format strf names level event FiberIdFormatItem = dec (le_fiberId event)"
| "FormatItem_format strf names level event ThreadNameFormatItem = le_threadName event"
| "FormatItem_format strf names level event (StringFormatItem s) = s"

section \<open>Patterns\<close>

definition substr :: "nat \<Rightarrow> nat \<Rightarrow> string \<Rightarrow> string" where
  "substr pos n s = take n (drop pos s)"

type_synonym triple = "string \<times> string \<times> nat"

definition pattern_error :: triple where
  "pattern_error = (''<pattern_error>'', '''', 0)"

text \<open>
  The inner loop, for a conversion whose percent sign is at \<open>i\<close>: \<open>n\<close> is \<open>next_i\<close>, \<open>b\<close> is \<open>fmt_begin\<close>
  and \<open>st\<close> is \<open>fmt_status\<close>. It answers the new \<open>i\<close>, what it pushes, and whether that is an error.
\<close>

function init_item :: "string \<Rightarrow> nat \<Rightarrow> nat \<Rightarrow> nat \<Rightarrow> nat \<Rightarrow> string \<Rightarrow> nat \<times> triple list \<times> bool" where
  "init_item s i n b st str =
    (if n < length s then
       let c = s ! n;
           (str, b, st) = (if c = CHR ''{'' then (substr (i + 1) (n - i - 1) s, n, 1) else (str, b, st))
       in if st = 1 \<and> c = CHR ''}'' then (n, [(str, substr (b + 1) (n - b - 1) s, 1)], False)
          else if st = 0 \<and> \<not> isalpha c then (n - 1, [(substr (i + 1) (n - i - 1) s, '''', 1)], False)
          else if st = 0 \<and> isalpha c \<and> length s \<le> n + 1 then (n, [(substr (i + 1) n s, '''', 1)], False)
          else init_item s i (n + 1) b st str
     else if st = 1 then (n, [pattern_error], True)
     else (i, [], False))"
  by pat_completeness auto

termination init_item
  by (relation "measure (\<lambda>(s, i, n, b, st, str). length s - n)") auto

declare init_item.simps [simp del]

lemma init_item_advances: "i < n \<Longrightarrow> i \<le> fst (init_item s i n b st str)"
proof (induction "length s - n" arbitrary: n b st str rule: less_induct)
  case less
  have "n < length s \<Longrightarrow> i \<le> fst (init_item s i (Suc n) b' st' str')" for b' st' str'
    using less.hyps [of "Suc n" b' st' str'] less.prems by simp
  moreover have "i \<le> n - 1"
    using less.prems by simp
  ultimately show ?case
    using less.prems by (subst init_item.simps) (simp add: Let_def)
qed

text \<open>The outer loop: the position, the literal text so far, what has been pushed, and \<open>m_error\<close>.\<close>

function init_loop :: "string \<Rightarrow> nat \<Rightarrow> string \<Rightarrow> triple list \<Rightarrow> bool \<Rightarrow> triple list \<times> bool" where
  "init_loop s i nstr vec err =
    (if i < length s then
       if s ! i \<noteq> CHR ''%'' then init_loop s (i + 1) (nstr @ [s ! i]) vec err
       else
         let vec = (if nstr \<noteq> [] then vec @ [(nstr, '''', 0)] else vec)
         in if length s \<le> i + 1 then (vec @ [pattern_error], True)
            else if s ! (i + 1) = CHR ''%'' then init_loop s (i + 2) ''%'' vec err
            else if \<not> isalpha (s ! (i + 1)) then init_loop s (i + 1) '''' (vec @ [pattern_error]) True
            else
              let (i', pushed, e) = init_item s i (i + 1) 0 0 ''''
              in init_loop s (i' + 1) '''' (vec @ pushed) (err \<or> e)
     else (if nstr \<noteq> [] then vec @ [(nstr, '''', 0)] else vec, err))"
  by pat_completeness auto

termination init_loop
proof (relation "measure (\<lambda>(s, i, nstr, vec, err). length s - i)", goal_cases)
  case (5 s i nstr vec err vec' r i' q pushed e)
  have "i \<le> fst (init_item s i (i + 1) 0 0 '''')"
    by (rule init_item_advances) simp
  then have "i \<le> i'"
    unfolding 5(7) [symmetric] 5(8) [symmetric] by simp
  with 5(1) show ?case
    by simp
qed auto

declare init_loop.simps [simp del]

text \<open>The table of conversions; an empty format is the same as none.\<close>

definition format_items :: "string \<Rightarrow> string \<Rightarrow> format_item option" where
  "format_items str fmt =
    (if str = ''m'' then Some MessageFormatItem
     else if str = ''p'' then Some LevelFormatItem
     else if str = ''r'' then Some ElapseFormatItem
     else if str = ''c'' then Some LoggerNameFormatItem
     else if str = ''t'' then Some ThreadIdFormatItem
     else if str = ''n'' then Some NewLineFormatItem
     else if str = ''d'' then Some (DateTimeFormatItem (if fmt \<noteq> '''' then fmt else ''%Y-%m-%d %H:%M:%S''))
     else if str = ''f'' then Some FilenameFormatItem
     else if str = ''l'' then Some LineFormatItem
     else if str = ''T'' then Some TabFormatItem
     else if str = ''F'' then Some FiberIdFormatItem
     else if str = ''N'' then Some ThreadNameFormatItem
     else None)"

fun init_items :: "triple list \<Rightarrow> bool \<Rightarrow> format_item list \<times> bool" where
  "init_items [] err = ([], err)"
| "init_items ((str, fmt, k) # vec) err =
    (if k = 0 then let (items, err) = init_items vec err in (StringFormatItem str # items, err)
     else if k = 1 then
       (case format_items str fmt of
          None \<Rightarrow> let (items, err) = init_items vec True in (StringFormatItem (''<<error_format  %'' @ str @ ''>>'') # items, err)
        | Some item \<Rightarrow> let (items, err) = init_items vec err in (item # items, err))
     else init_items vec err)"

record formatter =
  fm_pattern :: string
  fm_items :: "format_item list"
  fm_error :: bool

definition LogFormatter_init :: "string \<Rightarrow> format_item list \<times> bool" where
  "LogFormatter_init pattern = (let (vec, err) = init_loop pattern 0 '''' [] False in init_items vec err)"

definition LogFormatter :: "string \<Rightarrow> formatter" where
  "LogFormatter pattern = (let (items, err) = LogFormatter_init pattern in \<lparr>fm_pattern = pattern, fm_items = items, fm_error = err\<rparr>)"

definition LogFormatter_format :: "(string \<Rightarrow> nat \<Rightarrow> string) \<Rightarrow> (nat \<Rightarrow> string) \<Rightarrow> formatter \<Rightarrow> level \<Rightarrow> log_event \<Rightarrow> string" where
  "LogFormatter_format strf names fm level event = concat (map (FormatItem_format strf names level event) (fm_items fm))"

section \<open>Lemmas\<close>

subsection \<open>The inner loop\<close>

lemma isalpha_neq: "isalpha c \<Longrightarrow> c \<noteq> CHR ''{''" "isalpha c \<Longrightarrow> c \<noteq> CHR ''%''"
  by (auto simp: isalpha_def)

lemma nth_mid: "n = length pre \<Longrightarrow> (pre @ c # rest) ! n = c"
  by simp

text \<open>The letters of a name, up to the character that ends it.\<close>

lemma init_item_name:
  assumes "list_all isalpha as" and "rest \<noteq> []"
  shows "init_item (pre @ as @ rest) i (length pre) b 0 str = init_item (pre @ as @ rest) i (length pre + length as) b 0 str"
  using assms(1)
proof (induction as arbitrary: pre)
  case (Cons a as)
  then have "init_item ((pre @ [a]) @ as @ rest) i (length (pre @ [a])) b 0 str =
      init_item ((pre @ [a]) @ as @ rest) i (length (pre @ [a]) + length as) b 0 str"
    by (intro Cons.IH) simp
  moreover have "init_item (pre @ (a # as) @ rest) i (length pre) b 0 str =
      init_item (pre @ (a # as) @ rest) i (Suc (length pre)) b 0 str"
    using Cons.prems assms(2) isalpha_neq(1) [of a] by (subst init_item.simps) (auto simp: neq_Nil_conv)
  ultimately show ?case
    by simp
qed simp

lemma init_item_fmt:
  assumes "CHR ''{'' \<notin> set f" and "CHR ''}'' \<notin> set f"
  shows "init_item (pre @ f @ CHR ''}'' # rest) i (length pre) b 1 str =
    (length pre + length f, [(str, substr (b + 1) (length pre + length f - b - 1) (pre @ f @ CHR ''}'' # rest), 1)], False)"
  using assms
proof (induction f arbitrary: pre)
  case Nil
  then show ?case
    by (subst init_item.simps) (simp add: nth_mid)
next
  case (Cons c f)
  then have "init_item ((pre @ [c]) @ f @ CHR ''}'' # rest) i (length (pre @ [c])) b 1 str =
    (length (pre @ [c]) + length f,
      [(str, substr (b + 1) (length (pre @ [c]) + length f - b - 1) ((pre @ [c]) @ f @ CHR ''}'' # rest), 1)], False)"
    by (intro Cons.IH) simp_all
  moreover have "init_item (pre @ (c # f) @ CHR ''}'' # rest) i (length pre) b 1 str =
      init_item (pre @ (c # f) @ CHR ''}'' # rest) i (Suc (length pre)) b 1 str"
    using Cons.prems by (subst init_item.simps) (auto simp: nth_mid)
  ultimately show ?case
    by simp
qed

lemma substr_mid: "i = length pre \<Longrightarrow> n = length as \<Longrightarrow> substr i n (pre @ as @ rest) = as"
  by (simp add: substr_def)

text \<open>What a conversion yields: at the end of the pattern, before other text, and with a format.\<close>

lemma init_item_last:
  assumes "list_all isalpha as" and "as \<noteq> []"
  shows "init_item (pre @ CHR ''%'' # as) (length pre) (length pre + 1) b 0 str = (length pre + length as, [(as, '''', 1)], False)"
proof -
  obtain bs a where as: "as = bs @ [a]"
    using assms(2) by (metis rev_exhaust)
  have "init_item ((pre @ [CHR ''%'']) @ bs @ [a]) (length pre) (length (pre @ [CHR ''%''])) b 0 str =
      init_item ((pre @ [CHR ''%'']) @ bs @ [a]) (length pre) (length (pre @ [CHR ''%'']) + length bs) b 0 str"
    using assms(1) by (intro init_item_name) (simp_all add: as)
  also have "\<dots> = (length pre + length as, [(as, '''', 1)], False)"
    using assms(1) isalpha_neq(1) [of a] by (subst init_item.simps) (simp add: as nth_append substr_def)
  finally show ?thesis
    by (simp add: as)
qed

lemma init_item_plain:
  assumes "list_all isalpha as" and "\<not> isalpha c" and "c \<noteq> CHR ''{''"
  shows "init_item (pre @ CHR ''%'' # as @ c # rest) (length pre) (length pre + 1) b 0 str =
    (length pre + length as, [(as, '''', 1)], False)"
proof -
  have "init_item ((pre @ [CHR ''%'']) @ as @ c # rest) (length pre) (length (pre @ [CHR ''%''])) b 0 str =
      init_item ((pre @ [CHR ''%'']) @ as @ c # rest) (length pre) (length (pre @ [CHR ''%'']) + length as) b 0 str"
    using assms(1) by (intro init_item_name) simp_all
  also have "\<dots> = (length pre + length as, [(as, '''', 1)], False)"
    using assms(2,3) by (subst init_item.simps) (simp add: nth_append substr_def)
  finally show ?thesis
    by simp
qed

lemma init_item_formatted:
  assumes "list_all isalpha as" and "CHR ''{'' \<notin> set f" and "CHR ''}'' \<notin> set f"
  shows "init_item (pre @ CHR ''%'' # as @ CHR ''{'' # f @ CHR ''}'' # rest) (length pre) (length pre + 1) b 0 str =
    (length pre + length as + length f + 2, [(as, f, 1)], False)"
proof -
  let ?p = "pre @ CHR ''%'' # as"
  have "init_item ((pre @ [CHR ''%'']) @ as @ CHR ''{'' # f @ CHR ''}'' # rest) (length pre) (length (pre @ [CHR ''%''])) b 0 str =
      init_item ((pre @ [CHR ''%'']) @ as @ CHR ''{'' # f @ CHR ''}'' # rest) (length pre) (length (pre @ [CHR ''%'']) + length as) b 0 str"
    using assms(1) by (intro init_item_name) simp_all
  also have "\<dots> = init_item ((?p @ [CHR ''{'']) @ f @ CHR ''}'' # rest) (length pre) (length (?p @ [CHR ''{''])) (length ?p) 1 as"
    by (subst init_item.simps) (simp add: nth_append substr_def)
  also have "\<dots> = (length pre + length as + length f + 2, [(as, f, 1)], False)"
    by (subst init_item_fmt [OF assms(2,3)]) (simp add: substr_def)
  finally show ?thesis
    by simp
qed

subsection \<open>Patterns as they are meant\<close>

text \<open>
  A pattern consists of literal text, conversions, and conversions with a format; this is how one
  is written, and what its parts print.
\<close>

datatype pattern_part = Literal string | Conversion string | Formatted string string

definition escape :: "string \<Rightarrow> string" where
  "escape s = concat (map (\<lambda>c. if c = CHR ''%'' then ''%%'' else [c]) s)"

fun render :: "pattern_part \<Rightarrow> string" where
  "render (Literal s) = escape s"
| "render (Conversion name) = CHR ''%'' # name"
| "render (Formatted name f) = CHR ''%'' # name @ CHR ''{'' # f @ [CHR ''}'']"

definition pattern_of :: "pattern_part list \<Rightarrow> string" where
  "pattern_of ps = concat (map render ps)"

lemma pattern_of_Cons [simp]: "pattern_of (p # ps) = render p @ pattern_of ps"
  by (simp add: pattern_of_def)

text \<open>What must not follow a conversion: a letter or an opening brace.\<close>

fun parts_before :: "string \<Rightarrow> pattern_part list \<Rightarrow> bool" where
  "parts_before rest [] = True"
| "parts_before rest (Literal s # ps) = parts_before rest ps"
| "parts_before rest (Conversion name # ps) =
    (name \<noteq> [] \<and> list_all isalpha name \<and> parts_before rest ps \<and>
     (case pattern_of ps @ rest of [] \<Rightarrow> True | c # _ \<Rightarrow> \<not> isalpha c \<and> c \<noteq> CHR ''{''))"
| "parts_before rest (Formatted name f # ps) =
    (name \<noteq> [] \<and> list_all isalpha name \<and> CHR ''{'' \<notin> set f \<and> CHR ''}'' \<notin> set f \<and> parts_before rest ps)"

abbreviation parts_ok :: "pattern_part list \<Rightarrow> bool" where
  "parts_ok \<equiv> parts_before []"

fun triple_of :: "pattern_part \<Rightarrow> triple" where
  "triple_of (Literal s) = (s, '''', 0)"
| "triple_of (Conversion name) = (name, '''', 1)"
| "triple_of (Formatted name f) = (name, f, 1)"

fun triple_item :: "triple \<Rightarrow> format_item" where
  "triple_item (str, fmt, k) =
    (if k = 0 then StringFormatItem str
     else case format_items str fmt of None \<Rightarrow> StringFormatItem (''<<error_format  %'' @ str @ ''>>'') | Some item \<Rightarrow> item)"

fun triple_known :: "triple \<Rightarrow> bool" where
  "triple_known (str, fmt, k) = (k = 0 \<or> format_items str fmt \<noteq> None)"

definition valid_triple :: "triple \<Rightarrow> bool" where
  "valid_triple t \<longleftrightarrow> snd (snd t) \<in> {0, 1}"

lemma valid_triple_simps [simp]: "valid_triple (str, fmt, 0)" "valid_triple (str, fmt, Suc 0)"
  by (simp_all add: valid_triple_def)

lemma init_items_map:
  "list_all valid_triple vec \<Longrightarrow> init_items vec err = (map triple_item vec, err \<or> \<not> list_all triple_known vec)"
  by (induction vec err rule: init_items.induct) (auto simp: valid_triple_def Let_def split: option.splits)

subsection \<open>The outer loop\<close>

text \<open>Two states of the loop that amount to the same output.\<close>

definition amounts :: "(triple \<Rightarrow> string) \<Rightarrow> triple list \<Rightarrow> string \<times> bool \<times> bool" where
  "amounts out vec = (concat (map out vec), list_all triple_known vec, list_all valid_triple vec)"

definition literal_out :: "(triple \<Rightarrow> string) \<Rightarrow> bool" where
  "literal_out out \<longleftrightarrow> (\<forall>s. out (s, '''', 0) = s)"

lemma amounts_flush:
  "literal_out out \<Longrightarrow> amounts out (if nstr \<noteq> [] then vec @ [(nstr, '''', 0)] else vec) =
    (concat (map out vec) @ nstr, list_all triple_known vec, list_all valid_triple vec)"
  by (simp add: amounts_def literal_out_def valid_triple_def)

lemma init_loop_end [simp]:
  "init_loop s (length s) nstr vec err = (if nstr \<noteq> [] then vec @ [(nstr, '''', 0)] else vec, err)"
  by (subst init_loop.simps) simp

lemma init_loop_literal:
  assumes "literal_out out"
  shows "\<exists>nstr' vec'. init_loop (pre @ escape t @ rest) (length pre) nstr vec err =
      init_loop (pre @ escape t @ rest) (length pre + length (escape t)) nstr' vec' err \<and>
    concat (map out vec') @ nstr' = concat (map out vec) @ nstr @ t \<and>
    (list_all triple_known vec', list_all valid_triple vec') = (list_all triple_known vec, list_all valid_triple vec)"
proof (induction t arbitrary: pre nstr vec)
  case Nil
  then show ?case
    by (auto simp: escape_def)
next
  case (Cons c t)
  let ?e = "if c = CHR ''%'' then ''%%'' else [c]" and ?s = "pre @ escape (c # t) @ rest"
  have s: "?s = (pre @ ?e) @ escape t @ rest" and len: "length pre + length (escape (c # t)) = length (pre @ ?e) + length (escape t)"
    by (simp_all add: escape_def)
  let ?n1 = "if c = CHR ''%'' then ''%'' else nstr @ [c]"
  let ?v1 = "if c = CHR ''%'' \<and> nstr \<noteq> [] then vec @ [(nstr, '''', 0)] else vec"
  have "init_loop ?s (length pre) nstr vec err = init_loop ?s (length (pre @ ?e)) ?n1 ?v1 err"
    by (subst init_loop.simps) (auto simp: escape_def nth_append)
  moreover have "concat (map out ?v1) @ ?n1 @ t = concat (map out vec) @ nstr @ c # t"
      "(list_all triple_known ?v1, list_all valid_triple ?v1) = (list_all triple_known vec, list_all valid_triple vec)"
    using assms by (auto simp: literal_out_def valid_triple_def)
  moreover obtain nstr' vec' where "init_loop ?s (length (pre @ ?e)) ?n1 ?v1 err =
      init_loop ?s (length (pre @ ?e) + length (escape t)) nstr' vec' err"
      "concat (map out vec') @ nstr' = concat (map out ?v1) @ ?n1 @ t"
      "(list_all triple_known vec', list_all valid_triple vec') = (list_all triple_known ?v1, list_all valid_triple ?v1)"
    using Cons.IH [of "pre @ ?e" ?n1 ?v1] unfolding s by blast
  ultimately show ?case
    unfolding len by (intro exI [of _ nstr'] exI [of _ vec']) simp
qed

lemma init_loop_item:
  assumes "name \<noteq> []" and "list_all isalpha name"
    and "init_item (pre @ CHR ''%'' # name @ rest) (length pre) (length pre + 1) 0 0 '''' = (j, [t], False)"
  shows "init_loop (pre @ CHR ''%'' # name @ rest) (length pre) nstr vec err =
    init_loop (pre @ CHR ''%'' # name @ rest) (j + 1) '''' ((if nstr \<noteq> [] then vec @ [(nstr, '''', 0)] else vec) @ [t]) err"
proof -
  obtain a as where name: "name = a # as" "isalpha a"
    using assms(1,2) by (cases name) auto
  then have "(pre @ CHR ''%'' # name @ rest) ! (length pre) = CHR ''%''" "(pre @ CHR ''%'' # name @ rest) ! (length pre + 1) = a"
    by (simp_all add: nth_append)
  with name(2) isalpha_neq(2) [OF name(2)] assms(3) show ?thesis
    by (subst init_loop.simps) (auto simp: name(1) Let_def)
qed

text \<open>The parts before some rest of the pattern.\<close>

definition loop_passes ::
  "(triple \<Rightarrow> string) \<Rightarrow> string \<Rightarrow> string \<Rightarrow> pattern_part list \<Rightarrow> string \<Rightarrow> triple list \<Rightarrow> bool \<Rightarrow> string \<Rightarrow> triple list \<Rightarrow> bool" where
  "loop_passes out pre rest ps nstr vec err nstr' vec' \<longleftrightarrow>
    init_loop (pre @ pattern_of ps @ rest) (length pre) nstr vec err =
      init_loop (pre @ pattern_of ps @ rest) (length pre + length (pattern_of ps)) nstr' vec' err \<and>
    concat (map out vec') @ nstr' = concat (map out vec) @ nstr @ concat (map (\<lambda>p. out (triple_of p)) ps) \<and>
    list_all triple_known vec' = (list_all triple_known vec \<and> list_all triple_known (map triple_of ps)) \<and>
    list_all valid_triple vec' = list_all valid_triple vec"

lemma loop_passes_item:
  assumes "literal_out out" and "name \<noteq> []" and "list_all isalpha name" and "triple_of p = (str, fmt, 1)"
    and "render p = CHR ''%'' # name @ extra"
    and "init_item (pre @ render p @ pattern_of ps @ rest) (length pre) (length pre + 1) 0 0 '''' =
      (length pre + length (render p) - 1, [(str, fmt, 1)], False)"
    and "\<exists>nstr' vec'. loop_passes out (pre @ render p) rest ps ''''
      ((if nstr \<noteq> [] then vec @ [(nstr, '''', 0)] else vec) @ [(str, fmt, 1)]) err nstr' vec'"
  shows "\<exists>nstr' vec'. loop_passes out pre rest (p # ps) nstr vec err nstr' vec'"
proof -
  let ?flush = "if nstr \<noteq> [] then vec @ [(nstr, '''', 0)] else vec"
  have flush: "concat (map out ?flush) = concat (map out vec) @ nstr"
    "list_all triple_known ?flush = list_all triple_known vec" "list_all valid_triple ?flush = list_all valid_triple vec"
    using amounts_flush [OF assms(1), of nstr vec] by (simp_all only: amounts_def prod.inject)
  have "init_loop (pre @ render p @ pattern_of ps @ rest) (length pre) nstr vec err =
      init_loop (pre @ render p @ pattern_of ps @ rest) (length pre + length (render p)) '''' (?flush @ [(str, fmt, 1)]) err"
    using init_loop_item [OF assms(2,3), of pre "extra @ pattern_of ps @ rest" "length pre + length (render p) - 1" "(str, fmt, 1)" nstr vec err]
      assms(5,6) by simp
  moreover obtain nstr' vec' where "loop_passes out (pre @ render p) rest ps '''' (?flush @ [(str, fmt, 1)]) err nstr' vec'"
    using assms(7) by blast
  ultimately have "loop_passes out pre rest (p # ps) nstr vec err nstr' vec'"
    using assms(4) flush by (simp add: loop_passes_def ac_simps)
  then show ?thesis
    by blast
qed

lemma init_loop_parts:
  assumes "literal_out out" and "parts_before rest ps"
  shows "\<exists>nstr' vec'. loop_passes out pre rest ps nstr vec err nstr' vec'"
  using assms(2)
proof (induction ps arbitrary: pre nstr vec)
  case Nil
  then show ?case
    by (auto simp: loop_passes_def pattern_of_def)
next
  case (Cons p ps)
  show ?case
  proof (cases p)
    case (Literal t)
    obtain nstr1 vec1 where 1: "init_loop (pre @ escape t @ pattern_of ps @ rest) (length pre) nstr vec err =
        init_loop (pre @ escape t @ pattern_of ps @ rest) (length pre + length (escape t)) nstr1 vec1 err"
      "concat (map out vec1) @ nstr1 = concat (map out vec) @ nstr @ t"
      "list_all triple_known vec1 = list_all triple_known vec" "list_all valid_triple vec1 = list_all valid_triple vec"
      using init_loop_literal [OF assms(1), of pre t "pattern_of ps @ rest" nstr vec err] by auto
    obtain nstr' vec' where 2: "loop_passes out (pre @ escape t) rest ps nstr1 vec1 err nstr' vec'"
      using Cons.IH [of "pre @ escape t" nstr1 vec1] Cons.prems Literal by auto
    have t: "out (t, '''', 0) = t"
      using assms(1) by (simp add: literal_out_def)
    have "concat (map out vec1) @ nstr1 @ x = concat (map out vec) @ nstr @ t @ x" for x
      using 1(2) by (metis append_assoc)
    with 1(1,3,4) 2 t have "loop_passes out pre rest (p # ps) nstr vec err nstr' vec'"
      by (simp add: loop_passes_def Literal ac_simps)
    then show ?thesis
      by blast
  next
    case (Conversion name)
    then have "init_item (pre @ render p @ pattern_of ps @ rest) (length pre) (length pre + 1) 0 0 '''' =
        (length pre + length (render p) - 1, [(name, '''', 1)], False)"
      using Cons.prems init_item_last [of name pre] init_item_plain [of name _ pre]
      by (cases "pattern_of ps @ rest") auto
    with Conversion Cons show ?thesis
      by (intro loop_passes_item [OF assms(1), where name = name and extra = "''''"]) auto
  next
    case (Formatted name f)
    then have "init_item (pre @ render p @ pattern_of ps @ rest) (length pre) (length pre + 1) 0 0 '''' =
        (length pre + length (render p) - 1, [(name, f, 1)], False)"
      using Cons.prems init_item_formatted [of name f pre "pattern_of ps @ rest"] by simp
    with Formatted Cons show ?thesis
      by (intro loop_passes_item [OF assms(1), where name = name and extra = "CHR ''{'' # f @ ''}''"]) auto
  qed
qed

text \<open>What a part prints.\<close>

definition part_text :: "(string \<Rightarrow> nat \<Rightarrow> string) \<Rightarrow> (nat \<Rightarrow> string) \<Rightarrow> level \<Rightarrow> log_event \<Rightarrow> pattern_part \<Rightarrow> string" where
  "part_text strf names level event p = FormatItem_format strf names level event (triple_item (triple_of p))"

definition part_known :: "pattern_part \<Rightarrow> bool" where
  "part_known p \<longleftrightarrow> triple_known (triple_of p)"

text \<open>How the loop comes to the rest of a pattern, and that an error stays.\<close>

lemma init_loop_start:
  assumes "literal_out out" and "parts_before rest ps"
  obtains nstr vec where "init_loop (pattern_of ps @ rest) 0 '''' [] False =
      init_loop (pattern_of ps @ rest) (length (pattern_of ps)) nstr vec False"
    "concat (map out vec) @ nstr = concat (map (\<lambda>p. out (triple_of p)) ps)"
    "list_all triple_known vec = list_all part_known ps" "list_all valid_triple vec"
proof -
  obtain nstr vec where "loop_passes out [] rest ps '''' [] False nstr vec"
    using init_loop_parts [OF assms] by blast
  then have "init_loop (pattern_of ps @ rest) 0 '''' [] False =
      init_loop (pattern_of ps @ rest) (length (pattern_of ps)) nstr vec False"
    "concat (map out vec) @ nstr = concat (map (\<lambda>p. out (triple_of p)) ps)"
    "list_all triple_known vec = list_all part_known ps" "list_all valid_triple vec"
    by (simp_all add: loop_passes_def part_known_def [abs_def] list.pred_map comp_def)
  then show ?thesis
    by (rule that)
qed

lemma init_loop_err: "snd (init_loop s i nstr vec True)"
proof (induction "length s - i" arbitrary: i nstr vec rule: less_induct)
  case less
  have "i < length s \<Longrightarrow> i < j \<Longrightarrow> snd (init_loop s j n v True)" for j n v
    by (rule less.hyps) simp
  moreover have "i \<le> fst (init_item s i (i + 1) 0 0 '''')"
    by (rule init_item_advances) simp
  ultimately show ?case
    by (subst init_loop.simps) (auto simp: Let_def split: prod.split)
qed

lemma init_items_err: "snd (init_items vec True)"
  by (induction vec True rule: init_items.induct) (auto simp: Let_def case_prod_beta split: option.split)

definition item_out :: "(string \<Rightarrow> nat \<Rightarrow> string) \<Rightarrow> (nat \<Rightarrow> string) \<Rightarrow> level \<Rightarrow> log_event \<Rightarrow> triple \<Rightarrow> string" where
  "item_out strf names level event t = FormatItem_format strf names level event (triple_item t)"

lemma literal_item_out [simp]: "literal_out (item_out strf names level event)"
  by (simp add: literal_out_def item_out_def)

lemma LogFormatter_triples:
  assumes "init_loop pattern 0 '''' [] False = (vec, err)" and "list_all valid_triple vec"
  shows "LogFormatter_format strf names (LogFormatter pattern) level event = concat (map (item_out strf names level event) vec)"
    and "fm_error (LogFormatter pattern) = (err \<or> \<not> list_all triple_known vec)"
  using assms by (simp_all add: LogFormatter_def LogFormatter_init_def LogFormatter_format_def init_items_map item_out_def [abs_def] comp_def)

lemma LogFormatter_parts:
  assumes "parts_ok ps"
  shows "fm_error (LogFormatter (pattern_of ps)) = (\<not> list_all part_known ps)"
    and "LogFormatter_format strf names (LogFormatter (pattern_of ps)) level event = concat (map (part_text strf names level event) ps)"
proof -
  let ?out = "item_out strf names level event"
  obtain nstr vec where vec: "init_loop (pattern_of ps @ []) 0 '''' [] False = init_loop (pattern_of ps @ []) (length (pattern_of ps)) nstr vec False"
    "concat (map ?out vec) @ nstr = concat (map (\<lambda>p. ?out (triple_of p)) ps)"
    "list_all triple_known vec = list_all part_known ps" "list_all valid_triple vec"
    by (rule init_loop_start [OF literal_item_out assms]) blast
  let ?flush = "if nstr \<noteq> [] then vec @ [(nstr, '''', 0)] else vec"
  have "concat (map ?out ?flush) = concat (map ?out vec) @ nstr" "list_all triple_known ?flush = list_all triple_known vec"
    "list_all valid_triple ?flush"
    using amounts_flush [OF literal_item_out, of strf names level event nstr vec] vec(4) by (simp_all only: amounts_def prod.inject)
  with vec LogFormatter_triples [of "pattern_of ps" ?flush False]
  show "fm_error (LogFormatter (pattern_of ps)) = (\<not> list_all part_known ps)"
    and "LogFormatter_format strf names (LogFormatter (pattern_of ps)) level event = concat (map (part_text strf names level event) ps)"
    by (simp_all add: part_text_def [abs_def] item_out_def)
qed

lemma LogLevel_strings:
  "level \<le> 5 \<Longrightarrow> LogLevel_FromString (LogLevel_ToString level) = level"
proof -
  have "list_all (\<lambda>l. LogLevel_FromString (LogLevel_ToString l) = l) [0..<6]"
    by code_simp
  then show "level \<le> 5 \<Longrightarrow> ?thesis"
    by (simp add: list_all_iff)
qed

section \<open>Properties\<close>

text \<open>C28: the formatter does what its pattern says: for every pattern composed of literal text (with
  \<open>%%\<close> for a percent sign), conversions \<open>%name\<close> and conversions with a format \<open>%name{format}\<close>, an
  event is formatted as the concatenation of what the parts print, in order; the formatter is in
  error exactly if one of the names is unknown, and then prints a mark in that place.\<close>

theorem LogFormatter_prints_parts:
  assumes "parts_ok ps"
  shows "LogFormatter_format strf names (LogFormatter (pattern_of ps)) level event =
      concat (map (part_text strf names level event) ps) \<and>
    (fm_error (LogFormatter (pattern_of ps)) \<longleftrightarrow> \<not> list_all part_known ps) \<and>
    part_text strf names level event (Literal s) = s \<and>
    part_text strf names level event (Conversion ''m'') = le_ss event \<and>
    part_text strf names level event (Conversion ''p'') = LogLevel_ToString level \<and>
    part_text strf names level event (Formatted ''d'' (f # fs)) = strf (c_str (f # fs)) (le_time event) \<and>
    part_text strf names level event (Conversion ''xyz'') = ''<<error_format  %xyz>>''"
  using LogFormatter_parts [OF assms] by (simp add: part_text_def format_items_def)

lemma LogFormatter_prints_parts_witness:
  "LogFormatter_format (\<lambda>f t. ''12'') (\<lambda>_. ''root'') (LogFormatter ''[%p] %d{%H}: 100%%'') ERROR
     (LogEvent 0 ERROR ''a.cc'' 3 0 7 1 0 ''main'') = ''[ERROR] 12: 100%''"
proof -
  let ?ps = "[Literal ''['', Conversion ''p'', Literal ''] '', Formatted ''d'' ''%H'', Literal '': 100%'']"
  have "parts_ok ?ps" "pattern_of ?ps = ''[%p] %d{%H}: 100%%''"
    by (simp_all add: pattern_of_def escape_def isalpha_def)
  from LogFormatter_prints_parts [OF this(1), of "\<lambda>f t. ''12''" "\<lambda>_. ''root''" ERROR "LogEvent 0 ERROR ''a.cc'' 3 0 7 1 0 ''main''"]
    this(2)
  show ?thesis
    by (simp add: part_text_def format_items_def LogLevel_ToString_def levels)
qed

lemma init_item_unterminated:
  assumes "CHR ''}'' \<notin> set f"
  shows "init_item (pre @ f) i (length pre) b 1 str = (length pre + length f, [pattern_error], True)"
  using assms
proof (induction f arbitrary: pre b str)
  case Nil
  then show ?case
    by (subst init_item.simps) simp
next
  case (Cons c f)

  have "\<exists>b' str'. init_item (pre @ c # f) i (length pre) b 1 str = init_item ((pre @ [c]) @ f) i (length (pre @ [c])) b' 1 str'"
    using Cons.prems by (subst init_item.simps) (auto simp: Let_def)
  then obtain b' str' where "init_item (pre @ c # f) i (length pre) b 1 str = init_item ((pre @ [c]) @ f) i (length (pre @ [c])) b' 1 str'"
    by blast
  also have "\<dots> = (length (pre @ [c]) + length f, [pattern_error], True)"
    using Cons.prems by (intro Cons.IH) simp
  finally show ?case
    by simp
qed

text \<open>What is wrong after a percent sign: nothing, a symbol, or a format that is not closed.\<close>

definition malformed :: "string \<Rightarrow> bool" where
  "malformed t \<longleftrightarrow> t = [] \<or> (\<exists>c u. t = c # u \<and> \<not> isalpha c \<and> c \<noteq> CHR ''%'') \<or>
    (\<exists>name f. t = name @ CHR ''{'' # f \<and> name \<noteq> [] \<and> list_all isalpha name \<and> CHR ''}'' \<notin> set f)"

lemma init_item_valid: "list_all valid_triple (fst (snd (init_item s i n b st str)))"
proof (induction "length s - n" arbitrary: n b st str rule: less_induct)
  case less
  have "n < length s \<Longrightarrow> list_all valid_triple (fst (snd (init_item s i (Suc n) b' st' str')))" for b' st' str'
    using less.hyps [of "Suc n" b' st' str'] by simp
  then show ?case
    by (subst init_item.simps) (simp add: Let_def pattern_error_def)
qed

lemma init_loop_valid: "list_all valid_triple vec \<Longrightarrow> list_all valid_triple (fst (init_loop s i nstr vec err))"
proof (induction "length s - i" arbitrary: i nstr vec err rule: less_induct)
  case less
  have IH: "i < length s \<Longrightarrow> i < j \<Longrightarrow> list_all valid_triple v \<Longrightarrow> list_all valid_triple (fst (init_loop s j n v e))" for j n v e
    by (rule less.hyps) simp_all
  moreover have "i \<le> fst (init_item s i (i + 1) 0 0 '''')"
    by (rule init_item_advances) simp
  moreover have "list_all valid_triple (fst (snd (init_item s i (i + 1) 0 0 '''')))"
    by (rule init_item_valid)
  ultimately show ?case
    using less.prems by (subst init_loop.simps) (auto simp: Let_def pattern_error_def split: prod.split)
qed

lemma init_loop_extends: "\<exists>more. fst (init_loop s i nstr vec err) = vec @ more"
proof (induction "length s - i" arbitrary: i nstr vec err rule: less_induct)
  case less
  have IH: "\<exists>more. fst (init_loop s j n (vec @ v) e) = vec @ more" if "i < length s" "i < j" for j n v e
  proof -
    have "length s - j < length s - i"
      using that by simp
    from less.hyps [OF this, of n "vec @ v" e] show ?thesis
      by (metis append_assoc)
  qed
  have "i \<le> fst (init_item s i (i + 1) 0 0 '''')"
    by (rule init_item_advances) simp
  then show ?case
    using IH IH [where v = "[]"] by (subst init_loop.simps) (auto simp: Let_def split: prod.split)
qed

lemma init_loop_malformed:
  assumes "malformed t"
  shows "snd (init_loop (pre @ CHR ''%'' # t) (length pre) nstr vec err)"
    and "\<exists>more. fst (init_loop (pre @ CHR ''%'' # t) (length pre) nstr vec err) =
      (if nstr \<noteq> [] then vec @ [(nstr, '''', 0)] else vec) @ more"
proof -
  let ?s = "pre @ CHR ''%'' # t" and ?flush = "if nstr \<noteq> [] then vec @ [(nstr, '''', 0)] else vec"
  have "\<exists>j v. init_loop ?s (length pre) nstr vec err = (?flush @ [pattern_error], True) \<or>
      init_loop ?s (length pre) nstr vec err = init_loop ?s j '''' (?flush @ v) True"
    using assms unfolding malformed_def
  proof (elim disjE exE conjE)
    assume "t = []"
    then show ?thesis
      by (subst init_loop.simps) simp
  next
    fix c u
    assume "t = c # u" "\<not> isalpha c" "c \<noteq> CHR ''%''"
    then show ?thesis
      by (intro exI [of _ "length pre + 1"] exI [of _ "[pattern_error]"]) (subst init_loop.simps, simp add: nth_append Let_def)
  next
    fix name f
    assume t: "t = name @ CHR ''{'' # f" "name \<noteq> []" "list_all isalpha name" "CHR ''}'' \<notin> set f"
    then obtain a as where name: "name = a # as" "isalpha a"
      by (cases name) auto
    let ?p = "pre @ CHR ''%'' # name"
    have "init_item ((pre @ [CHR ''%'']) @ name @ CHR ''{'' # f) (length pre) (length (pre @ [CHR ''%''])) 0 0 '''' =
        init_item ((pre @ [CHR ''%'']) @ name @ CHR ''{'' # f) (length pre) (length (pre @ [CHR ''%'']) + length name) 0 0 ''''"
      using t(3) by (intro init_item_name) simp_all
    also have "\<dots> = init_item ((?p @ [CHR ''{'']) @ f) (length pre) (length (?p @ [CHR ''{''])) (length ?p) 1 name"
      by (subst init_item.simps) (simp add: nth_append substr_def)
    also have "\<dots> = (length (?p @ [CHR ''{'']) + length f, [pattern_error], True)"
      using t(4) by (rule init_item_unterminated)
    finally have "init_item ?s (length pre) (length pre + 1) 0 0 '''' = (length (?p @ [CHR ''{'']) + length f, [pattern_error], True)"
      by (simp add: t(1))
    moreover have "?s ! (length pre) = CHR ''%''" "?s ! (length pre + 1) = a"
      by (simp_all add: t(1) name nth_append)
    ultimately show ?thesis
      using name(2) isalpha_neq(2) [OF name(2)]
      by (intro exI [of _ "length (?p @ [CHR ''{'']) + length f + 1"] exI [of _ "[pattern_error]"])
        (subst init_loop.simps, auto simp: Let_def t(1) name(1))
  qed
  then obtain j v where r: "init_loop ?s (length pre) nstr vec err = (?flush @ [pattern_error], True) \<or>
      init_loop ?s (length pre) nstr vec err = init_loop ?s j '''' (?flush @ v) True"
    by blast
  show "snd (init_loop ?s (length pre) nstr vec err)"
    using r init_loop_err [of ?s j "''''" "?flush @ v"] by (elim disjE) simp_all
  obtain w where "fst (init_loop ?s j '''' (?flush @ v) True) = (?flush @ v) @ w"
    using init_loop_extends by blast
  with r show "\<exists>more. fst (init_loop ?s (length pre) nstr vec err) = ?flush @ more"
    by (elim disjE) (simp_all only: fst_conv append_assoc, blast+)
qed

text \<open>C29: malformed patterns are detected: if the well-formed parts of a pattern are followed by a
  percent sign with nothing, a symbol, or an unclosed format after it, the formatter is in error,
  whatever else the pattern contains; and it still prints the parts before the mistake.\<close>

theorem LogFormatter_detects_malformed:
  assumes "malformed t" and "parts_before (CHR ''%'' # t) ps"
  shows "fm_error (LogFormatter (pattern_of ps @ CHR ''%'' # t)) \<and>
    (\<exists>more. LogFormatter_format strf names (LogFormatter (pattern_of ps @ CHR ''%'' # t)) level event =
      concat (map (part_text strf names level event) ps) @ more)"
proof -
  let ?s = "pattern_of ps @ CHR ''%'' # t" and ?out = "item_out strf names level event"
  obtain nstr vec where start: "init_loop ?s 0 '''' [] False = init_loop ?s (length (pattern_of ps)) nstr vec False"
    "concat (map ?out vec) @ nstr = concat (map (\<lambda>p. ?out (triple_of p)) ps)" "list_all valid_triple vec"
    by (rule init_loop_start [OF literal_item_out assms(2)]) blast
  let ?flush = "if nstr \<noteq> [] then vec @ [(nstr, '''', 0)] else vec"
  obtain vec' err where res: "init_loop ?s 0 '''' [] False = (vec', err)"
    by (cases "init_loop ?s 0 '''' [] False")
  have "list_all valid_triple vec'"
    using init_loop_valid [OF start(3), of ?s "length (pattern_of ps)" nstr False] res start(1) by simp
  note out = LogFormatter_triples [OF res this]
  have "err" "\<exists>more. vec' = ?flush @ more"
    using init_loop_malformed [OF assms(1), of "pattern_of ps" nstr vec False] res start(1) by auto
  moreover have "concat (map ?out ?flush) = concat (map (part_text strf names level event) ps)"
    using amounts_flush [OF literal_item_out, of strf names level event nstr vec] start(2)
    by (simp only: amounts_def prod.inject part_text_def [abs_def] item_out_def)
  ultimately show ?thesis
    using out by auto
qed

lemma LogFormatter_detects_malformed_witness:
  "fm_error (LogFormatter ''%m%d{%H'')"
proof -
  have "malformed ''d{%H''"
    unfolding malformed_def by (intro disjI2 exI [of _ "''d''"] exI [of _ "''%H''"]) (simp add: isalpha_def)
  moreover have "parts_before (CHR ''%'' # ''d{%H'') [Conversion ''m'']"
    by (simp add: pattern_of_def isalpha_def)
  ultimately show ?thesis
    using LogFormatter_detects_malformed [of "''d{%H''" "[Conversion ''m'']"] by (simp add: pattern_of_def)
qed

end
