(* ===== verification/Logger.thy ===== *)
theory Logger
  imports Log_Format
begin

text \<open>
  The second half of \<open>sylar/log.{h,cpp}\<close>: appenders, loggers and the logger manager. Loggers and
  appenders are shared objects, so they live in a store and are referred to by their numbers.
  Files have names and contents apart from the names, so that deleting a file that is still open
  can be told from writing to it. Each locked section is one step.
\<close>

section \<open>The store\<close>

datatype appender_kind = StdoutLogAppender | FileLogAppender string

record appender =
  ap_kind :: appender_kind
  ap_level :: level
  ap_hasFormatter :: bool
  ap_formatter :: "formatter option"
  ap_filestream :: "nat option"
  ap_lastTime :: nat

record logger =
  lg_name :: string
  lg_level :: level
  lg_appenders :: "nat list"
  lg_formatter :: "formatter option"
  lg_root :: "nat option"

text \<open>
  \<open>file_names\<close> are the names and the files they stand for, \<open>file_texts\<close> the contents, and the three
  counters are the numbers not in use.
\<close>

record log_world =
  appenders :: "nat \<Rightarrow> appender"
  loggers :: "nat \<Rightarrow> logger"
  next_appender :: nat
  next_logger :: nat
  cout :: string
  file_names :: "string \<Rightarrow> nat option"
  file_texts :: "nat \<Rightarrow> string"
  next_file :: nat
  m_loggers :: "string \<Rightarrow> nat option"
  manager_root :: nat

definition set_appender :: "nat \<Rightarrow> appender \<Rightarrow> log_world \<Rightarrow> log_world" where
  "set_appender i a w = w\<lparr>appenders := (appenders w)(i := a)\<rparr>"

definition set_logger :: "nat \<Rightarrow> logger \<Rightarrow> log_world \<Rightarrow> log_world" where
  "set_logger l lg w = w\<lparr>loggers := (loggers w)(l := lg)\<rparr>"

section \<open>Appenders\<close>

definition new_appender :: "appender_kind \<Rightarrow> appender" where
  "new_appender kind = \<lparr>ap_kind = kind, ap_level = DEBUG, ap_hasFormatter = False, ap_formatter = None,
    ap_filestream = None, ap_lastTime = 0\<rparr>"

text \<open>
  \<open>openable\<close> says which names the system can open for appending. A stream that is not open drops
  what is written to it.
\<close>

definition FileLogAppender_reopen :: "(string \<Rightarrow> bool) \<Rightarrow> nat \<Rightarrow> log_world \<Rightarrow> bool \<times> log_world" where
  "FileLogAppender_reopen openable i w =
    (case ap_kind (appenders w i) of
       StdoutLogAppender \<Rightarrow> (False, w)
     | FileLogAppender filename \<Rightarrow>
         let a = (appenders w i)\<lparr>ap_filestream := None\<rparr>
         in if \<not> openable filename then (False, set_appender i a w)
            else
              case file_names w filename of
                Some n \<Rightarrow> (True, set_appender i (a\<lparr>ap_filestream := Some n\<rparr>) w)
              | None \<Rightarrow>
                  (True, (set_appender i (a\<lparr>ap_filestream := Some (next_file w)\<rparr>) w)\<lparr>
                     file_names := (file_names w)(filename \<mapsto> next_file w),
                     file_texts := (file_texts w)(next_file w := ''''), next_file := next_file w + 1\<rparr>))"

definition StdoutLogAppender_new :: "log_world \<Rightarrow> nat \<times> log_world" where
  "StdoutLogAppender_new w =
    (let i = next_appender w in (i, set_appender i (new_appender StdoutLogAppender) (w\<lparr>next_appender := i + 1\<rparr>)))"

definition FileLogAppender_new :: "(string \<Rightarrow> bool) \<Rightarrow> string \<Rightarrow> log_world \<Rightarrow> nat \<times> log_world" where
  "FileLogAppender_new openable filename w =
    (let i = next_appender w;
         w1 = set_appender i (new_appender (FileLogAppender filename)) (w\<lparr>next_appender := i + 1\<rparr>)
     in (i, snd (FileLogAppender_reopen openable i w1)))"

definition logger_names :: "log_world \<Rightarrow> nat \<Rightarrow> string" where
  "logger_names w l = lg_name (loggers w l)"

definition StdoutLogAppender_log ::
  "(string \<Rightarrow> nat \<Rightarrow> string) \<Rightarrow> level \<Rightarrow> log_event \<Rightarrow> nat \<Rightarrow> log_world \<Rightarrow> fault + log_world" where
  "StdoutLogAppender_log strf level event i w =
    (if ap_level (appenders w i) \<le> level then
       (case ap_formatter (appenders w i) of
          None \<Rightarrow> Inl Null_Deref
        | Some fm \<Rightarrow> Inr (w\<lparr>cout := cout w @ LogFormatter_format strf (logger_names w) fm level event\<rparr>))
     else Inr w)"

text \<open>\<open>now\<close> is \<open>time(0)\<close>.\<close>

definition FileLogAppender_log ::
  "(string \<Rightarrow> bool) \<Rightarrow> (string \<Rightarrow> nat \<Rightarrow> string) \<Rightarrow> nat \<Rightarrow> level \<Rightarrow> log_event \<Rightarrow> nat \<Rightarrow> log_world \<Rightarrow> fault + log_world" where
  "FileLogAppender_log openable strf now level event i w =
    (if ap_level (appenders w i) \<le> level then
       let w1 = (if now \<noteq> ap_lastTime (appenders w i) then
                   let w0 = snd (FileLogAppender_reopen openable i w)
                   in set_appender i ((appenders w0 i)\<lparr>ap_lastTime := now\<rparr>) w0
                 else w)
       in case ap_formatter (appenders w1 i) of
            None \<Rightarrow> Inl Null_Deref
          | Some fm \<Rightarrow>
              (case ap_filestream (appenders w1 i) of
                 None \<Rightarrow> Inr w1
               | Some n \<Rightarrow> Inr (w1\<lparr>file_texts := (file_texts w1)(n :=
                   file_texts w1 n @ LogFormatter_format strf (logger_names w1) fm level event)\<rparr>))
     else Inr w)"

definition LogAppender_log ::
  "(string \<Rightarrow> bool) \<Rightarrow> (string \<Rightarrow> nat \<Rightarrow> string) \<Rightarrow> nat \<Rightarrow> level \<Rightarrow> log_event \<Rightarrow> nat \<Rightarrow> log_world \<Rightarrow> fault + log_world" where
  "LogAppender_log openable strf now level event i w =
    (case ap_kind (appenders w i) of
       StdoutLogAppender \<Rightarrow> StdoutLogAppender_log strf level event i w
     | FileLogAppender _ \<Rightarrow> FileLogAppender_log openable strf now level event i w)"

definition LogAppender_setFormatter :: "nat \<Rightarrow> formatter option \<Rightarrow> log_world \<Rightarrow> log_world" where
  "LogAppender_setFormatter i val w =
    set_appender i ((appenders w i)\<lparr>ap_formatter := val, ap_hasFormatter := (val \<noteq> None)\<rparr>) w"

definition LogAppender_setFormatter_string :: "nat \<Rightarrow> string \<Rightarrow> log_world \<Rightarrow> log_world" where
  "LogAppender_setFormatter_string i fmt w =
    (let new_val = LogFormatter fmt
     in if fm_error new_val then
          (set_appender i ((appenders w i)\<lparr>ap_hasFormatter := False\<rparr>) w)\<lparr>
            cout := cout w @ ''LoggerAppender setFormatter, value='' @ fmt @ '' invaild formatter'' @ [CHR 0x0A]\<rparr>
        else LogAppender_setFormatter i (Some new_val) w)"

definition LogAppender_setLevel :: "nat \<Rightarrow> level \<Rightarrow> log_world \<Rightarrow> log_world" where
  "LogAppender_setLevel i level w = set_appender i ((appenders w i)\<lparr>ap_level := level\<rparr>) w"

section \<open>Loggers\<close>

definition Logger_addAppender :: "nat \<Rightarrow> nat \<Rightarrow> log_world \<Rightarrow> log_world" where
  "Logger_addAppender l i w =
    (let a = appenders w i; lg = loggers w l;
         w1 = (if ap_formatter a = None then set_appender i (a\<lparr>ap_formatter := lg_formatter lg\<rparr>) w else w)
     in set_logger l (lg\<lparr>lg_appenders := lg_appenders lg @ [i]\<rparr>) w1)"

definition default_pattern :: string where
  "default_pattern = ''%d{%Y-%m-%d %H:%M:%S}%T%t%T%N%T%F%T[%p]%T[%c]%T%f:%l%T%m%n''"

definition Logger_new :: "string \<Rightarrow> log_world \<Rightarrow> nat \<times> log_world" where
  "Logger_new name w =
    (let l = next_logger w;
         w1 = set_logger l \<lparr>lg_name = name, lg_level = DEBUG, lg_appenders = [],
                lg_formatter = Some (LogFormatter default_pattern), lg_root = None\<rparr> (w\<lparr>next_logger := l + 1\<rparr>)
     in (l, if name = ''root'' then let (i, w2) = StdoutLogAppender_new w1 in Logger_addAppender l i w2 else w1))"

fun inherit_formatter :: "formatter option \<Rightarrow> nat list \<Rightarrow> log_world \<Rightarrow> log_world" where
  "inherit_formatter fm [] w = w"
| "inherit_formatter fm (i # is) w =
    inherit_formatter fm is
      (if \<not> ap_hasFormatter (appenders w i) then set_appender i ((appenders w i)\<lparr>ap_formatter := fm\<rparr>) w else w)"

definition Logger_setFormatter :: "nat \<Rightarrow> formatter option \<Rightarrow> log_world \<Rightarrow> log_world" where
  "Logger_setFormatter l val w =
    (let w1 = set_logger l ((loggers w l)\<lparr>lg_formatter := val\<rparr>) w
     in inherit_formatter val (lg_appenders (loggers w1 l)) w1)"

definition Logger_setFormatter_string :: "nat \<Rightarrow> string \<Rightarrow> log_world \<Rightarrow> log_world" where
  "Logger_setFormatter_string l val w =
    (let new_val = LogFormatter val
     in if fm_error new_val then
          w\<lparr>cout := cout w @ ''Logger setFormatter name='' @ lg_name (loggers w l) @ '' value='' @ val @
            '' invaild formatter'' @ [CHR 0x0A]\<rparr>
        else Logger_setFormatter l (Some new_val) w)"

text \<open>\<open>remove1\<close> takes the first occurrence out, as the loop with its \<open>break\<close> does.\<close>

definition Logger_delAppender :: "nat \<Rightarrow> nat \<Rightarrow> log_world \<Rightarrow> log_world" where
  "Logger_delAppender l i w = set_logger l ((loggers w l)\<lparr>lg_appenders := remove1 i (lg_appenders (loggers w l))\<rparr>) w"

definition Logger_clearAppenders :: "nat \<Rightarrow> log_world \<Rightarrow> log_world" where
  "Logger_clearAppenders l w = set_logger l ((loggers w l)\<lparr>lg_appenders := []\<rparr>) w"

definition Logger_setLevel :: "nat \<Rightarrow> level \<Rightarrow> log_world \<Rightarrow> log_world" where
  "Logger_setLevel l level w = set_logger l ((loggers w l)\<lparr>lg_level := level\<rparr>) w"

fun log_all :: "(nat \<Rightarrow> log_world \<Rightarrow> fault + log_world) \<Rightarrow> nat list \<Rightarrow> log_world \<Rightarrow> fault + log_world" where
  "log_all f [] w = Inr w"
| "log_all f (i # is) w = (case f i w of Inl e \<Rightarrow> Inl e | Inr w1 \<Rightarrow> log_all f is w1)"

text \<open>
  \<open>Logger::log\<close> calls itself on the root logger; the recursion is bounded by fuel, and \<open>None\<close> means
  that it was not enough.
\<close>

fun Logger_log ::
  "nat \<Rightarrow> (string \<Rightarrow> bool) \<Rightarrow> (string \<Rightarrow> nat \<Rightarrow> string) \<Rightarrow> nat \<Rightarrow> level \<Rightarrow> log_event \<Rightarrow> nat \<Rightarrow> log_world \<Rightarrow> (fault + log_world) option" where
  "Logger_log 0 openable strf now level event l w = None"
| "Logger_log (Suc fuel) openable strf now level event l w =
    (if lg_level (loggers w l) \<le> level then
       if lg_appenders (loggers w l) \<noteq> [] then
         Some (log_all (LogAppender_log openable strf now level event) (lg_appenders (loggers w l)) w)
       else
         case lg_root (loggers w l) of
           Some r \<Rightarrow> Logger_log fuel openable strf now level event r w
         | None \<Rightarrow> Some (Inr w)
     else Some (Inr w))"

text \<open>
  The macro \<open>SYLAR_LOG_LEVEL\<close>: unless the level is below the logger's, an event is made, \<open>text\<close> is
  written to its stream, and the destructor of \<open>LogEventWrap\<close> logs it.
\<close>

definition LogEventWrap_log ::
  "nat \<Rightarrow> (string \<Rightarrow> bool) \<Rightarrow> (string \<Rightarrow> nat \<Rightarrow> string) \<Rightarrow> nat \<Rightarrow> log_event \<Rightarrow> log_world \<Rightarrow> (fault + log_world) option" where
  "LogEventWrap_log fuel openable strf now event w =
    Logger_log fuel openable strf now (le_level event) event (le_logger event) w"

definition SYLAR_LOG_LEVEL ::
  "nat \<Rightarrow> (string \<Rightarrow> bool) \<Rightarrow> (string \<Rightarrow> nat \<Rightarrow> string) \<Rightarrow> nat \<Rightarrow> nat \<Rightarrow> level \<Rightarrow> string \<Rightarrow> int \<Rightarrow> int \<Rightarrow> nat \<Rightarrow> string \<Rightarrow> string \<Rightarrow>
    log_world \<Rightarrow> (fault + log_world) option" where
  "SYLAR_LOG_LEVEL fuel openable strf now l level file line thread_id fiber_id thread_name message w =
    (if lg_level (loggers w l) \<le> level then
       LogEventWrap_log fuel openable strf now
         ((LogEvent l level file line 0 thread_id fiber_id now thread_name)\<lparr>le_ss := message\<rparr>) w
     else Some (Inr w))"

section \<open>The manager\<close>

definition empty_world :: log_world where
  "empty_world = \<lparr>appenders = \<lambda>_. new_appender StdoutLogAppender,
    loggers = \<lambda>_. \<lparr>lg_name = '''', lg_level = DEBUG, lg_appenders = [], lg_formatter = None, lg_root = None\<rparr>,
    next_appender = 0, next_logger = 0, cout = '''', file_names = Map.empty, file_texts = \<lambda>_. '''', next_file = 0,
    m_loggers = Map.empty, manager_root = 0\<rparr>"

definition LoggerManager :: "log_world \<Rightarrow> log_world" where
  "LoggerManager w =
    (let (r, w1) = Logger_new ''root'' w
     in w1\<lparr>manager_root := r, m_loggers := (m_loggers w1)(lg_name (loggers w1 r) \<mapsto> r)\<rparr>)"

definition LoggerManager_getLogger :: "string \<Rightarrow> log_world \<Rightarrow> nat \<times> log_world" where
  "LoggerManager_getLogger name w =
    (if name = '''' then (manager_root w, w)
     else
       case m_loggers w name of
         Some l \<Rightarrow> (l, w)
       | None \<Rightarrow>
           let (l, w1) = Logger_new name w;
               w2 = set_logger l ((loggers w1 l)\<lparr>lg_root := Some (manager_root w1)\<rparr>) w1
           in (l, w2\<lparr>m_loggers := (m_loggers w2)(name \<mapsto> l)\<rparr>))"

section \<open>Lemmas\<close>

lemma set_appender_sel [simp]:
  "appenders (set_appender i a w) = (appenders w)(i := a)" "loggers (set_appender i a w) = loggers w"
  "next_appender (set_appender i a w) = next_appender w" "next_logger (set_appender i a w) = next_logger w"
  "cout (set_appender i a w) = cout w" "file_names (set_appender i a w) = file_names w"
  "file_texts (set_appender i a w) = file_texts w" "next_file (set_appender i a w) = next_file w"
  "m_loggers (set_appender i a w) = m_loggers w" "manager_root (set_appender i a w) = manager_root w"
  by (simp_all add: set_appender_def)

lemma set_logger_sel [simp]:
  "loggers (set_logger l lg w) = (loggers w)(l := lg)" "appenders (set_logger l lg w) = appenders w"
  "next_appender (set_logger l lg w) = next_appender w" "next_logger (set_logger l lg w) = next_logger w"
  "cout (set_logger l lg w) = cout w" "file_names (set_logger l lg w) = file_names w"
  "file_texts (set_logger l lg w) = file_texts w" "next_file (set_logger l lg w) = next_file w"
  "m_loggers (set_logger l lg w) = m_loggers w" "manager_root (set_logger l lg w) = manager_root w"
  by (simp_all add: set_logger_def)

subsection \<open>Writing to the appenders\<close>

text \<open>What a file of some name contains, and that names stand for different files.\<close>

definition file_content :: "log_world \<Rightarrow> string \<Rightarrow> string" where
  "file_content w f = (case file_names w f of None \<Rightarrow> '''' | Some n \<Rightarrow> file_texts w n)"

definition files_ok :: "log_world \<Rightarrow> bool" where
  "files_ok w \<longleftrightarrow> (\<forall>f n. file_names w f = Some n \<longrightarrow> n < next_file w \<and> (\<forall>g. file_names w g = Some n \<longrightarrow> g = f))"

text \<open>The appender will write to the file its name stands for now.\<close>

definition up_to_date :: "(string \<Rightarrow> bool) \<Rightarrow> nat \<Rightarrow> log_world \<Rightarrow> nat \<Rightarrow> bool" where
  "up_to_date openable now w i \<longleftrightarrow>
    (case ap_kind (appenders w i) of
       StdoutLogAppender \<Rightarrow> True
     | FileLogAppender f \<Rightarrow> openable f \<and>
         (now \<noteq> ap_lastTime (appenders w i) \<or> file_names w f \<noteq> None \<and> ap_filestream (appenders w i) = file_names w f))"

definition takes :: "log_world \<Rightarrow> level \<Rightarrow> appender_kind \<Rightarrow> nat \<Rightarrow> bool" where
  "takes w level kind i \<longleftrightarrow> ap_kind (appenders w i) = kind \<and> ap_level (appenders w i) \<le> level"

definition appender_text :: "(string \<Rightarrow> nat \<Rightarrow> string) \<Rightarrow> log_world \<Rightarrow> level \<Rightarrow> log_event \<Rightarrow> nat \<Rightarrow> string" where
  "appender_text strf w level event i =
    LogFormatter_format strf (logger_names w) (the (ap_formatter (appenders w i))) level event"

text \<open>What logging does not change.\<close>

definition same_setup :: "log_world \<Rightarrow> log_world \<Rightarrow> bool" where
  "same_setup w w' \<longleftrightarrow> loggers w' = loggers w \<and> m_loggers w' = m_loggers w \<and> manager_root w' = manager_root w \<and>
    next_logger w' = next_logger w \<and> next_appender w' = next_appender w \<and>
    (\<forall>i. ap_kind (appenders w' i) = ap_kind (appenders w i) \<and> ap_level (appenders w' i) = ap_level (appenders w i) \<and>
      ap_formatter (appenders w' i) = ap_formatter (appenders w i) \<and> ap_hasFormatter (appenders w' i) = ap_hasFormatter (appenders w i))"

lemma same_setup_refl [simp]: "same_setup w w"
  by (simp add: same_setup_def)

lemma same_setup_trans: "same_setup w w1 \<Longrightarrow> same_setup w1 w2 \<Longrightarrow> same_setup w w2"
  by (simp add: same_setup_def)

lemma same_setup_text:
  "same_setup w w' \<Longrightarrow> appender_text strf w' level event = appender_text strf w level event"
  "same_setup w w' \<Longrightarrow> takes w' level kind = takes w level kind"
  by (auto simp: same_setup_def appender_text_def takes_def logger_names_def [abs_def] fun_eq_iff)

text \<open>The effect of one appender.\<close>

definition wrote ::
  "(string \<Rightarrow> bool) \<Rightarrow> nat \<Rightarrow> log_world \<Rightarrow> log_world \<Rightarrow> (appender_kind \<Rightarrow> string) \<Rightarrow> bool" where
  "wrote openable now w w' out \<longleftrightarrow> same_setup w w' \<and> files_ok w' \<and>
    (\<forall>i. up_to_date openable now w i \<longrightarrow> up_to_date openable now w' i) \<and>
    cout w' = cout w @ out StdoutLogAppender \<and> (\<forall>f. file_content w' f = file_content w f @ out (FileLogAppender f))"

lemma wrote_trans:
  "wrote openable now w w1 out \<Longrightarrow> wrote openable now w1 w2 out' \<Longrightarrow> wrote openable now w w2 (\<lambda>k. out k @ out' k)"
  by (auto simp: wrote_def dest: same_setup_trans)

lemma FileLogAppender_reopen_ok:
  assumes "files_ok w" and "ap_kind (appenders w i) = FileLogAppender f" and "openable f"
    and "FileLogAppender_reopen openable i w = (r, w')"
  shows "r" and "wrote openable now w (set_appender i ((appenders w' i)\<lparr>ap_lastTime := now\<rparr>) w') (\<lambda>_. '''')"
    and "ap_filestream (appenders w' i) = file_names w' f" and "file_names w' f \<noteq> None"
proof -
  show "r" "ap_filestream (appenders w' i) = file_names w' f" "file_names w' f \<noteq> None"
    using assms by (auto simp: FileLogAppender_reopen_def Let_def split: option.splits)
  show "wrote openable now w (set_appender i ((appenders w' i)\<lparr>ap_lastTime := now\<rparr>) w') (\<lambda>_. '''')"
  proof (cases "file_names w f")
    case (Some n)
    then show ?thesis
      using assms by (auto simp: FileLogAppender_reopen_def wrote_def same_setup_def files_ok_def up_to_date_def file_content_def
          split: appender_kind.splits option.splits intro: sym)
  next
    case None
    then have "w' = (set_appender i ((appenders w i)\<lparr>ap_filestream := Some (next_file w)\<rparr>) w)\<lparr>
        file_names := (file_names w)(f \<mapsto> next_file w), file_texts := (file_texts w)(next_file w := ''''), next_file := next_file w + 1\<rparr>"
      using assms(2-4) by (simp add: FileLogAppender_reopen_def Let_def)
    then show ?thesis
      using assms(1-3) None
      by (auto simp: wrote_def same_setup_def files_ok_def up_to_date_def file_content_def less_Suc_eq
          split: appender_kind.splits option.splits)
  qed
qed

text \<open>Appending to the file a name stands for.\<close>

lemma append_file:
  assumes "files_ok w" and "file_names w f = Some n"
  shows "wrote openable now w (w\<lparr>file_texts := (file_texts w)(n := file_texts w n @ text)\<rparr>)
    (\<lambda>k. if k = FileLogAppender f then text else '''')"
  using assms by (auto simp: wrote_def same_setup_def files_ok_def up_to_date_def file_content_def
      split: appender_kind.splits option.splits)

lemma FileLogAppender_log_writes:
  assumes "files_ok w" and "up_to_date openable now w i" and "ap_formatter (appenders w i) \<noteq> None"
    and "ap_kind (appenders w i) = FileLogAppender f"
  shows "\<exists>w'. FileLogAppender_log openable strf now level event i w = Inr w' \<and>
    wrote openable now w w' (\<lambda>k. if takes w level k i then appender_text strf w level event i else '''')"
proof (cases "ap_level (appenders w i) \<le> level")
  case False
  then show ?thesis
    using assms(1) by (simp add: FileLogAppender_log_def takes_def wrote_def)
next
  case True
  have out: "(\<lambda>k. if takes w level k i then t else '''') = (\<lambda>k. if k = FileLogAppender f then t else '''')" for t
    using True assms(4) by (auto simp: takes_def)
  obtain w1 where w1: "wrote openable now w w1 (\<lambda>_. '''')" "ap_filestream (appenders w1 i) = file_names w1 f" "file_names w1 f \<noteq> None"
      "FileLogAppender_log openable strf now level event i w =
        (case ap_formatter (appenders w1 i) of None \<Rightarrow> Inl Null_Deref
         | Some fm \<Rightarrow> (case ap_filestream (appenders w1 i) of None \<Rightarrow> Inr w1
           | Some n \<Rightarrow> Inr (w1\<lparr>file_texts := (file_texts w1)(n :=
               file_texts w1 n @ LogFormatter_format strf (logger_names w1) fm level event)\<rparr>)))"
  proof (cases "now = ap_lastTime (appenders w i)")
    case now: True
    then have "ap_filestream (appenders w i) = file_names w f \<and> file_names w f \<noteq> None"
      using assms(2,4) unfolding up_to_date_def appender_kind.simps assms(4) by metis
    then show ?thesis
      using True now assms(1) by (intro that [of w]) (simp_all add: FileLogAppender_log_def wrote_def)
  next
    case later: False
    obtain r w0 where w0: "FileLogAppender_reopen openable i w = (r, w0)"
      by fastforce
    have "openable f"
      using assms(2,4) by (simp add: up_to_date_def)
    note re = FileLogAppender_reopen_ok [OF assms(1,4) this w0]
    show ?thesis
      using True later re(2)[of now] re(3,4) w0
      by (intro that [of "set_appender i ((appenders w0 i)\<lparr>ap_lastTime := now\<rparr>) w0"]) (simp_all add: FileLogAppender_log_def Let_def)
  qed
  obtain n where n: "file_names w1 f = Some n"
    using w1(3) by blast
  have stp: "same_setup w w1" "files_ok w1"
    using w1(1) by (simp_all add: wrote_def)
  then obtain fm where fm: "ap_formatter (appenders w1 i) = Some fm" "appender_text strf w level event i =
      LogFormatter_format strf (logger_names w1) fm level event"
    using assms(3) same_setup_text(1) [OF stp(1), of strf level event] by (auto simp: same_setup_def appender_text_def logger_names_def [abs_def])
  show ?thesis
    using wrote_trans [OF w1(1) append_file [OF stp(2) n, of openable now "appender_text strf w level event i"]]
    by (simp add: w1(2,4) n fm out)
qed

lemma LogAppender_log_writes:
  assumes "files_ok w" and "up_to_date openable now w i" and "ap_formatter (appenders w i) \<noteq> None"
  shows "\<exists>w'. LogAppender_log openable strf now level event i w = Inr w' \<and>
    wrote openable now w w' (\<lambda>k. if takes w level k i then appender_text strf w level event i else '''')"
proof (cases "ap_kind (appenders w i)")
  case StdoutLogAppender
  with assms show ?thesis
    by (auto simp: LogAppender_log_def StdoutLogAppender_log_def takes_def wrote_def same_setup_def files_ok_def up_to_date_def
        file_content_def appender_text_def split: appender_kind.splits option.splits)
next
  case (FileLogAppender f)
  with FileLogAppender_log_writes [OF assms this, of strf level event] show ?thesis
    by (simp add: LogAppender_log_def)
qed

lemma log_all_writes:
  assumes "files_ok w" and "\<forall>i \<in> set is. up_to_date openable now w i \<and> ap_formatter (appenders w i) \<noteq> None"
  shows "\<exists>w'. log_all (LogAppender_log openable strf now level event) is w = Inr w' \<and>
    wrote openable now w w' (\<lambda>k. concat (map (appender_text strf w level event) (filter (takes w level k) is)))"
  using assms
proof (induction "is" arbitrary: w)
  case Nil
  then show ?case
    by (simp add: wrote_def)
next
  case (Cons i "is")
  obtain w1 where w1: "LogAppender_log openable strf now level event i w = Inr w1"
    "wrote openable now w w1 (\<lambda>k. if takes w level k i then appender_text strf w level event i else '''')"
    using LogAppender_log_writes [OF Cons.prems(1), of openable now i strf level event] Cons.prems(2) by auto
  have stp: "same_setup w w1" "files_ok w1"
    using w1(2) by (simp_all add: wrote_def)
  have "\<forall>j \<in> set is. up_to_date openable now w1 j \<and> ap_formatter (appenders w1 j) \<noteq> None"
    using Cons.prems(2) w1(2) by (auto simp: wrote_def same_setup_def)
  then obtain w' where "log_all (LogAppender_log openable strf now level event) is w1 = Inr w'"
    "wrote openable now w1 w' (\<lambda>k. concat (map (appender_text strf w level event) (filter (takes w level k) is)))"
    using Cons.IH [OF stp(2)] by (auto simp: same_setup_text [OF stp(1)])
  with w1 wrote_trans [OF w1(2) this(2)] show ?case
    by (auto simp: if_distrib [of "\<lambda>x. x @ _"] cong: if_cong elim!: back_subst [of "wrote openable now w w'"])
qed

subsection \<open>The loggers of the manager\<close>

definition log_inv :: "log_world \<Rightarrow> bool" where
  "log_inv w \<longleftrightarrow> manager_root w < next_logger w \<and> lg_root (loggers w (manager_root w)) = None \<and>
    m_loggers w ''root'' = Some (manager_root w) \<and>
    (\<forall>name l. m_loggers w name = Some l \<longrightarrow> l < next_logger w \<and> lg_name (loggers w l) = name) \<and>
    (\<forall>l < next_logger w. lg_formatter (loggers w l) \<noteq> None \<and>
      (l \<noteq> manager_root w \<longrightarrow> lg_root (loggers w l) = Some (manager_root w)) \<and>
      (\<forall>i \<in> set (lg_appenders (loggers w l)). i < next_appender w \<and> ap_formatter (appenders w i) \<noteq> None))"

lemma log_inv_init: "log_inv (LoggerManager empty_world)"
  by (auto simp: LoggerManager_def Logger_new_def StdoutLogAppender_new_def Logger_addAppender_def empty_world_def log_inv_def
      Let_def new_appender_def)

lemma getLogger_inv: "log_inv w \<Longrightarrow> log_inv (snd (LoggerManager_getLogger name w))"
  by (auto simp: LoggerManager_getLogger_def Logger_new_def log_inv_def Let_def less_Suc_eq split: option.splits)

lemma addAppender_inv:
  assumes "log_inv w" and "i < next_appender w" and "l < next_logger w"
  shows "log_inv (Logger_addAppender l i w)"
  using assms by (auto simp: Logger_addAppender_def log_inv_def Let_def)

lemma log_invD:
  assumes "log_inv w"
  shows "l < next_logger w \<Longrightarrow> lg_formatter (loggers w l) \<noteq> None"
    and "l < next_logger w \<Longrightarrow> i \<in> set (lg_appenders (loggers w l)) \<Longrightarrow> i < next_appender w \<and> ap_formatter (appenders w i) \<noteq> None"
    and "l < next_logger w \<Longrightarrow> lg_root (loggers w l) = (if l = manager_root w then None else Some (manager_root w))"
    and "manager_root w < next_logger w" and "m_loggers w name = Some l \<Longrightarrow> l < next_logger w \<and> lg_name (loggers w l) = name"
  using assms by (auto simp: log_inv_def)

lemma set_logger_inv:
  assumes "log_inv w" and "l < next_logger w" and "lg_name lg = lg_name (loggers w l)" and "lg_root lg = lg_root (loggers w l)"
    and "lg_formatter lg \<noteq> None" and "\<forall>i \<in> set (lg_appenders lg). i < next_appender w \<and> ap_formatter (appenders w i) \<noteq> None"
  shows "log_inv (set_logger l lg w)"
  using assms by (auto simp: log_inv_def)

lemma setup_inv:
  assumes "log_inv w" and "l < next_logger w"
  shows "log_inv (Logger_delAppender l i w)" and "log_inv (Logger_clearAppenders l w)" and "log_inv (Logger_setLevel l level w)"
  unfolding Logger_delAppender_def Logger_clearAppenders_def Logger_setLevel_def
  using log_invD(1,2) [OF assms] set_remove1_subset [of i "lg_appenders (loggers w l)"]
  by (intro set_logger_inv [OF assms]; auto)+

lemma inherit_formatter_sel:
  "loggers (inherit_formatter fm is w) = loggers w" "next_logger (inherit_formatter fm is w) = next_logger w"
  "next_appender (inherit_formatter fm is w) = next_appender w" "m_loggers (inherit_formatter fm is w) = m_loggers w"
  "manager_root (inherit_formatter fm is w) = manager_root w" "cout (inherit_formatter fm is w) = cout w"
  "appenders (inherit_formatter fm is w) i =
    (if i \<in> set is \<and> \<not> ap_hasFormatter (appenders w i) then (appenders w i)\<lparr>ap_formatter := fm\<rparr> else appenders w i)"
  by (induction fm "is" w rule: inherit_formatter.induct) auto

lemma setFormatter_inv:
  assumes "log_inv w" and "l < next_logger w"
  shows "log_inv (Logger_setFormatter l (Some fm) w)" and "log_inv (Logger_setFormatter_string l s w)"
proof -
  show *: "log_inv (Logger_setFormatter l (Some fm) w)" for fm
    using assms by (auto simp: Logger_setFormatter_def log_inv_def Let_def inherit_formatter_sel)
  have "log_inv (w\<lparr>cout := c\<rparr>)" for c
    using assms(1) by (simp add: log_inv_def)
  with * show "log_inv (Logger_setFormatter_string l s w)"
    by (simp add: Logger_setFormatter_string_def Let_def)
qed

lemma appender_inv:
  assumes "log_inv w"
  shows "log_inv (LogAppender_setFormatter i (Some fm) w)" and "log_inv (LogAppender_setFormatter_string i s w)"
    and "log_inv (LogAppender_setLevel i level w)" and "log_inv (snd (StdoutLogAppender_new w))"
    and "log_inv (snd (FileLogAppender_new openable f w))"
proof -
  show *: "log_inv (LogAppender_setFormatter i (Some fm) w)" for fm
    using assms by (auto simp: LogAppender_setFormatter_def log_inv_def)
  then show "log_inv (LogAppender_setFormatter_string i s w)"
    using assms by (auto simp: LogAppender_setFormatter_string_def log_inv_def Let_def)
  show "log_inv (LogAppender_setLevel i level w)"
    using assms by (auto simp: LogAppender_setLevel_def log_inv_def)
  have neq: "\<forall>l < next_logger w. \<forall>j \<in> set (lg_appenders (loggers w l)). j \<noteq> next_appender w"
    using assms by (auto simp: log_inv_def)
  then show "log_inv (snd (StdoutLogAppender_new w))"
    using assms by (auto simp: StdoutLogAppender_new_def log_inv_def Let_def less_SucI)
  show "log_inv (snd (FileLogAppender_new openable f w))"
    using assms neq by (auto simp: FileLogAppender_new_def FileLogAppender_reopen_def log_inv_def Let_def less_SucI new_appender_def
        split: option.splits)
qed

lemma same_setup_inv: "same_setup w w' \<Longrightarrow> log_inv w \<Longrightarrow> log_inv w'"
  by (auto simp: same_setup_def log_inv_def)

text \<open>Where an event goes: to the logger's own appenders, or those of the root logger.\<close>

definition log_targets :: "log_world \<Rightarrow> level \<Rightarrow> nat \<Rightarrow> nat list" where
  "log_targets w level l =
    (if level < lg_level (loggers w l) then []
     else if lg_appenders (loggers w l) \<noteq> [] then lg_appenders (loggers w l)
     else case lg_root (loggers w l) of
       None \<Rightarrow> []
     | Some r \<Rightarrow> if level < lg_level (loggers w r) then [] else lg_appenders (loggers w r))"

lemma Logger_log_targets:
  assumes "log_inv w" and "l < next_logger w"
  shows "Logger_log (Suc (Suc fuel)) openable strf now level event l w =
    Some (log_all (LogAppender_log openable strf now level event) (log_targets w level l) w)"
  using assms by (auto simp: log_targets_def log_inv_def not_less split: option.splits)

lemma log_targets_ok:
  assumes "log_inv w" and "l < next_logger w" and "i \<in> set (log_targets w level l)"
  shows "ap_formatter (appenders w i) \<noteq> None"
  using log_invD(2-4) [OF assms(1)] assms(2,3) by (auto simp: log_targets_def split: if_splits option.splits)

subsection \<open>Everything a program can do\<close>

lemma reopen_keeps:
  assumes "files_ok w"
  shows "same_setup w (snd (FileLogAppender_reopen openable i w))" and "files_ok (snd (FileLogAppender_reopen openable i w))"
  using assms by (auto simp: FileLogAppender_reopen_def same_setup_def files_ok_def Let_def less_Suc_eq
      split: appender_kind.splits option.splits)

lemma FileLogAppender_log_keeps:
  assumes "files_ok w" and "FileLogAppender_log openable strf now level event i w = Inr w'"
  shows "same_setup w w' \<and> files_ok w'"
proof -
  let ?w0 = "snd (FileLogAppender_reopen openable i w)"
  let ?w1 = "if now \<noteq> ap_lastTime (appenders w i) then set_appender i ((appenders ?w0 i)\<lparr>ap_lastTime := now\<rparr>) ?w0 else w"
  have 1: "same_setup w ?w1" "files_ok ?w1"
    using reopen_keeps [OF assms(1), of openable i] assms(1) by (simp_all add: same_setup_def files_ok_def)
  have "w' = w \<or> w' = ?w1 \<or> (\<exists>texts. w' = ?w1\<lparr>file_texts := texts\<rparr>)"
    using assms(2) by (auto simp: FileLogAppender_log_def Let_def split: if_splits option.splits)
  then show ?thesis
    using 1 assms(1) by (elim disjE exE) (simp_all add: same_setup_def files_ok_def)
qed

lemma LogAppender_log_keeps:
  assumes "files_ok w" and "LogAppender_log openable strf now level event i w = Inr w'"
  shows "same_setup w w' \<and> files_ok w'"
  using assms FileLogAppender_log_keeps [OF assms(1)]
  by (auto simp: LogAppender_log_def StdoutLogAppender_log_def same_setup_def files_ok_def
      split: appender_kind.splits if_splits option.splits)

lemma log_all_keeps:
  "files_ok w \<Longrightarrow> log_all (LogAppender_log openable strf now level event) is w = Inr w' \<Longrightarrow> same_setup w w' \<and> files_ok w'"
proof (induction "is" arbitrary: w)
  case (Cons i "is")
  then obtain w1 where w1: "LogAppender_log openable strf now level event i w = Inr w1"
      "log_all (LogAppender_log openable strf now level event) is w1 = Inr w'"
    by (auto split: sum.splits)
  from LogAppender_log_keeps [OF Cons.prems(1) w1(1)] Cons.IH [OF _ w1(2)] show ?case
    using same_setup_trans by blast
qed simp

lemma Logger_log_keeps:
  "files_ok w \<Longrightarrow> Logger_log fuel openable strf now level event l w = Some (Inr w') \<Longrightarrow> same_setup w w' \<and> files_ok w'"
  by (induction fuel openable strf now level event l w rule: Logger_log.induct)
    (auto split: if_splits option.splits dest: log_all_keeps)

text \<open>The calls of the API, and the deletion of a log file by somebody else.\<close>

inductive log_step :: "(string \<Rightarrow> bool) \<Rightarrow> (string \<Rightarrow> nat \<Rightarrow> string) \<Rightarrow> log_world \<Rightarrow> log_world \<Rightarrow> bool" for openable strf where
  get: "log_step openable strf w (snd (LoggerManager_getLogger name w))"
| new_stdout: "log_step openable strf w (snd (StdoutLogAppender_new w))"
| new_file: "log_step openable strf w (snd (FileLogAppender_new openable f w))"
| appender_formatter: "log_step openable strf w (LogAppender_setFormatter i (Some fm) w)"
| appender_pattern: "log_step openable strf w (LogAppender_setFormatter_string i s w)"
| appender_level: "log_step openable strf w (LogAppender_setLevel i level w)"
| add: "i < next_appender w \<Longrightarrow> l < next_logger w \<Longrightarrow> log_step openable strf w (Logger_addAppender l i w)"
| del: "l < next_logger w \<Longrightarrow> log_step openable strf w (Logger_delAppender l i w)"
| clear: "l < next_logger w \<Longrightarrow> log_step openable strf w (Logger_clearAppenders l w)"
| level: "l < next_logger w \<Longrightarrow> log_step openable strf w (Logger_setLevel l level w)"
| formatter: "l < next_logger w \<Longrightarrow> log_step openable strf w (Logger_setFormatter l (Some fm) w)"
| pattern: "l < next_logger w \<Longrightarrow> log_step openable strf w (Logger_setFormatter_string l s w)"
| log: "Logger_log fuel openable strf now level event l w = Some (Inr w') \<Longrightarrow> log_step openable strf w w'"
| unlink: "log_step openable strf w (w\<lparr>file_names := (file_names w)(f := None)\<rparr>)"

inductive log_reachable :: "(string \<Rightarrow> bool) \<Rightarrow> (string \<Rightarrow> nat \<Rightarrow> string) \<Rightarrow> log_world \<Rightarrow> bool" for openable strf where
  init: "log_reachable openable strf (LoggerManager empty_world)"
| step: "log_reachable openable strf w \<Longrightarrow> log_step openable strf w w' \<Longrightarrow> log_reachable openable strf w'"

lemma files_ok_same:
  "file_names w' = file_names w \<Longrightarrow> next_file w' = next_file w \<Longrightarrow> files_ok w' = files_ok w"
  by (simp add: files_ok_def)

lemma inherit_formatter_files:
  "file_names (inherit_formatter fm is w) = file_names w" "next_file (inherit_formatter fm is w) = next_file w"
  by (induction fm "is" w rule: inherit_formatter.induct) auto

lemma log_step_files:
  assumes "log_step openable strf w w'" and "files_ok w"
  shows "files_ok w'"
  using assms
proof cases
  case (new_file f)
  have "files_ok (set_appender (next_appender w) (new_appender (FileLogAppender f)) (w\<lparr>next_appender := next_appender w + 1\<rparr>))"
    using assms(2) by (simp add: files_ok_def)
  from reopen_keeps(2) [OF this] new_file show ?thesis
    by (simp add: FileLogAppender_new_def Let_def)
next
  case log
  with assms(2) show ?thesis
    using Logger_log_keeps by blast
next
  case (unlink f)
  with assms(2) show ?thesis
    by (auto simp: files_ok_def)
qed (auto simp: files_ok_def LoggerManager_getLogger_def Logger_new_def StdoutLogAppender_new_def Logger_addAppender_def Let_def
    LogAppender_setFormatter_def LogAppender_setFormatter_string_def LogAppender_setLevel_def Logger_delAppender_def
    Logger_clearAppenders_def Logger_setLevel_def Logger_setFormatter_def Logger_setFormatter_string_def inherit_formatter_files
    split: option.splits)

lemma log_reachable_inv: "log_reachable openable strf w \<Longrightarrow> log_inv w \<and> files_ok w"
proof (induction rule: log_reachable.induct)
  case init
  have "files_ok (LoggerManager empty_world)"
    by (simp add: files_ok_def LoggerManager_def Logger_new_def StdoutLogAppender_new_def Logger_addAppender_def empty_world_def Let_def)
  then show ?case
    by (simp add: log_inv_init)
next
  case (step w w')
  then have inv: "log_inv w" "files_ok w" and "files_ok w'"
    using log_step_files by auto
  from step(2) have "log_inv w'"
  proof cases
    case log
    with inv show ?thesis
      using Logger_log_keeps same_setup_inv by blast
  next
    case unlink
    with inv(1) show ?thesis
      by (simp add: log_inv_def)
  qed (simp_all add: inv getLogger_inv appender_inv addAppender_inv setup_inv setFormatter_inv)
  then show ?case
    using \<open>files_ok w'\<close> by (rule conjI)
qed

section \<open>Properties\<close>



text \<open>The registry of loggers: asking twice for a name gives the same logger, which carries the name,
  and asking for others does not change it; a logger made on demand has no appenders, and logs
  through the root logger whatever is at least \<open>DEBUG\<close>.\<close>

theorem LoggerManager_getLogger_registers:
  assumes "log_reachable openable strf w" and "name \<noteq> ''''" and "LoggerManager_getLogger name w = (l, w1)"
  shows "LoggerManager_getLogger name w1 = (l, w1) \<and> lg_name (loggers w1 l) = name \<and> l < next_logger w1 \<and>
    (\<forall>k < next_logger w. loggers w1 k = loggers w k) \<and>
    (m_loggers w name = None \<and> DEBUG \<le> level \<longrightarrow>
      l = next_logger w \<and> log_targets w1 level l = log_targets w level (manager_root w))"
proof -
  note inv = conjunct1 [OF log_reachable_inv [OF assms(1)]]
  show ?thesis
  proof (cases "m_loggers w name")
    case (Some k)
    then show ?thesis
      using assms(2,3) log_invD(5) [OF inv] by (auto simp: LoggerManager_getLogger_def)
  next
    case None
    then have "name \<noteq> ''root''" "manager_root w < next_logger w" "lg_root (loggers w (manager_root w)) = None"
      using inv by (auto simp: log_inv_def)
    with None show ?thesis
      using assms(2,3) by (auto simp: LoggerManager_getLogger_def Logger_new_def Let_def log_targets_def)
  qed
qed

lemma LoggerManager_getLogger_registers_witness:
  "\<exists>l w1. LoggerManager_getLogger ''system'' (LoggerManager empty_world) = (l, w1) \<and> lg_name (loggers w1 l) = ''system''"
proof -
  obtain l w1 where lw: "LoggerManager_getLogger ''system'' (LoggerManager empty_world) = (l, w1)"
    by fastforce
  from LoggerManager_getLogger_registers [OF log_reachable.init _ lw] lw show ?thesis
    by blast
qed

text \<open>Formats are inherited: a valid pattern given to a logger becomes the format of those of its
  appenders that have none of their own, and of no others; an invalid one changes nothing but the
  message on the standard output. Giving an appender an invalid pattern, though, makes it forget
  that its format is its own, so that the logger's next pattern replaces it.\<close>

theorem Logger_setFormatter_inherits:
  "(let w' = Logger_setFormatter_string l s w
    in if fm_error (LogFormatter s) then appenders w' = appenders w \<and> loggers w' = loggers w
       else lg_formatter (loggers w' l) = Some (LogFormatter s) \<and>
         (\<forall>i. ap_formatter (appenders w' i) =
           (if i \<in> set (lg_appenders (loggers w l)) \<and> \<not> ap_hasFormatter (appenders w i)
            then Some (LogFormatter s) else ap_formatter (appenders w i)))) \<and>
   (i \<in> set (lg_appenders (loggers w l)) \<longrightarrow>
     (if fm_error (LogFormatter s) then
        ap_formatter (appenders (LogAppender_setFormatter_string i s w) i) = ap_formatter (appenders w i) \<and>
        (\<forall>fm. ap_formatter (appenders (Logger_setFormatter l (Some fm) (LogAppender_setFormatter_string i s w)) i) = Some fm)
      else
        (\<forall>fm. ap_formatter (appenders (Logger_setFormatter l (Some fm) (LogAppender_setFormatter_string i s w)) i) = Some (LogFormatter s))))"
  by (auto simp: Logger_setFormatter_string_def Logger_setFormatter_def inherit_formatter_sel Let_def
      LogAppender_setFormatter_string_def LogAppender_setFormatter_def)

lemma Logger_setFormatter_inherits_witness:
  "ap_formatter (appenders (Logger_setFormatter_string 0 ''%m%n'' (LoggerManager empty_world)) 0) = Some (LogFormatter ''%m%n'')"
proof -
  have "parts_ok [Conversion ''m'', Conversion ''n'']" "pattern_of [Conversion ''m'', Conversion ''n''] = ''%m%n''"
    by (simp_all add: pattern_of_def isalpha_def)
  from LogFormatter_parts(1) [OF this(1)] this(2) have "\<not> fm_error (LogFormatter ''%m%n'')"
    by (simp add: part_known_def format_items_def)
  moreover have "0 \<in> set (lg_appenders (loggers (LoggerManager empty_world) 0))" "\<not> ap_hasFormatter (appenders (LoggerManager empty_world) 0)"
    by (simp_all add: LoggerManager_def Logger_new_def StdoutLogAppender_new_def Logger_addAppender_def empty_world_def Let_def new_appender_def)
  ultimately show ?thesis
    using Logger_setFormatter_inherits [of 0 "''%m%n''" "LoggerManager empty_world" 0] by (simp add: Let_def)
qed

end
