(* ===== verification/Config.thy ===== *)
theory Config
  imports Log_Format
begin

text \<open>
  \<open>sylar/config.{h,cpp}\<close>: named variables with listeners, their registry, and loading them from YAML.
  A variable of type \<open>T\<close> has the name of its type, on which \<open>dynamic_pointer_cast\<close> decides, and a
  value in a common type of values; \<open>FromStr\<close> and \<open>ToStr\<close> of the types are arguments, as is yaml-cpp,
  whose nodes are the YAML data model. Listeners are names, and what they are called with is recorded.
\<close>

section \<open>YAML\<close>

datatype yaml = YNull | YScalar string | YSequence "yaml list" | YMapping "(yaml \<times> yaml) list"

text \<open>
  What the sources use of yaml-cpp: \<open>YAML::Load\<close>, which may throw, writing a node to a stream, and
  \<open>as<std::string>\<close>, which may throw for a node that is not a scalar. \<open>yaml_at\<close> is the node that a
  number as key finds in a mapping, if there is one: a node that is not defined is written as nothing.
\<close>

record yaml_lib =
  yaml_load :: "string \<Rightarrow> yaml option"
  yaml_emit :: "yaml \<Rightarrow> string"
  yaml_as_string :: "yaml \<Rightarrow> string option"
  yaml_at :: "(yaml \<times> yaml) list \<Rightarrow> nat \<Rightarrow> yaml option"

definition yaml_laws :: "yaml_lib \<Rightarrow> bool" where
  "yaml_laws Y \<longleftrightarrow> (\<forall>n. yaml_load Y (yaml_emit Y n) = Some n) \<and> (\<forall>s. yaml_as_string Y (YScalar s) = Some s)"

definition yaml_size :: "yaml \<Rightarrow> nat" where
  "yaml_size n = (case n of YSequence xs \<Rightarrow> length xs | YMapping kvs \<Rightarrow> length kvs | _ \<Rightarrow> 0)"

text \<open>The texts of \<open>node[i]\<close> for each number below \<open>node.size()\<close>.\<close>

definition yaml_elements :: "yaml_lib \<Rightarrow> yaml \<Rightarrow> string list" where
  "yaml_elements Y n =
    map (\<lambda>i. case n of YSequence xs \<Rightarrow> yaml_emit Y (xs ! i) | YMapping kvs \<Rightarrow> (case yaml_at Y kvs i of None \<Rightarrow> '''' | Some m \<Rightarrow> yaml_emit Y m)
      | _ \<Rightarrow> '''') [0..<yaml_size n]"

text \<open>
  The pairs that an iterator gives: one over a sequence gives pairs of nodes that do not exist, and
  \<open>Scalar()\<close> of such a node throws.
\<close>

definition yaml_pairs :: "yaml \<Rightarrow> (yaml \<times> yaml) list option" where
  "yaml_pairs n = (case n of YMapping kvs \<Rightarrow> Some kvs | YSequence (_ # _) \<Rightarrow> None | _ \<Rightarrow> Some [])"

section \<open>Conversions of containers\<close>

text \<open>
  \<open>LexicalCast\<close> for containers: each element's text is loaded and pushed onto a node, which is null
  as long as nothing has been pushed, and back, each element is written out and converted. \<open>None\<close> is
  an exception. \<open>list\<close> and the other containers of single elements have the same loops.
\<close>

fun load_all :: "yaml_lib \<Rightarrow> string list \<Rightarrow> yaml list option" where
  "load_all Y [] = Some []"
| "load_all Y (s # ss) =
    (case yaml_load Y s of None \<Rightarrow> None | Some n \<Rightarrow> map_option (\<lambda>ns. n # ns) (load_all Y ss))"

definition sequence_node :: "yaml list \<Rightarrow> yaml" where
  "sequence_node ns = (if ns = [] then YNull else YSequence ns)"

definition vector_to_string :: "yaml_lib \<Rightarrow> ('a \<Rightarrow> string) \<Rightarrow> 'a list \<Rightarrow> string option" where
  "vector_to_string Y to v = map_option (\<lambda>ns. yaml_emit Y (sequence_node ns)) (load_all Y (map to v))"

fun cast_all :: "(string \<Rightarrow> 'a option) \<Rightarrow> string list \<Rightarrow> 'a list option" where
  "cast_all from [] = Some []"
| "cast_all from (s # ss) =
    (case from s of None \<Rightarrow> None | Some x \<Rightarrow> map_option (\<lambda>xs. x # xs) (cast_all from ss))"

definition vector_from_string :: "yaml_lib \<Rightarrow> (string \<Rightarrow> 'a option) \<Rightarrow> string \<Rightarrow> 'a list option" where
  "vector_from_string Y from v =
    (case yaml_load Y v of None \<Rightarrow> None | Some node \<Rightarrow> cast_all from (yaml_elements Y node))"

definition list_to_string :: "yaml_lib \<Rightarrow> ('a \<Rightarrow> string) \<Rightarrow> 'a list \<Rightarrow> string option" where
  "list_to_string Y to v = map_option (\<lambda>ns. yaml_emit Y (sequence_node ns)) (load_all Y (map to v))"

definition list_from_string :: "yaml_lib \<Rightarrow> (string \<Rightarrow> 'a option) \<Rightarrow> string \<Rightarrow> 'a list option" where
  "list_from_string Y from v =
    (case yaml_load Y v of None \<Rightarrow> None | Some node \<Rightarrow> cast_all from (yaml_elements Y node))"

text \<open>
  A \<open>std::set\<close> is its elements in ascending order; \<open>insert\<close> keeps an element that is there. The
  type's \<open>operator<\<close> compares keys.
\<close>

definition set_from_string :: "yaml_lib \<Rightarrow> ('a \<Rightarrow> 'k::linorder) \<Rightarrow> (string \<Rightarrow> 'a option) \<Rightarrow> string \<Rightarrow> 'a list option" where
  "set_from_string Y key from v = map_option (\<lambda>xs. foldl (\<lambda>s x. insort_insert_key key x s) [] xs)
    (case yaml_load Y v of None \<Rightarrow> None | Some node \<Rightarrow> cast_all from (yaml_elements Y node))"

definition set_to_string :: "yaml_lib \<Rightarrow> ('a \<Rightarrow> string) \<Rightarrow> 'a list \<Rightarrow> string option" where
  "set_to_string Y to v = map_option (\<lambda>ns. yaml_emit Y (sequence_node ns)) (load_all Y (map to v))"

text \<open>A \<open>std::unordered_set\<close> is its elements in the order in which it iterates, of which nothing is known.\<close>

definition unordered_set_from_string :: "yaml_lib \<Rightarrow> (string \<Rightarrow> 'a option) \<Rightarrow> string \<Rightarrow> 'a set option" where
  "unordered_set_from_string Y from v = map_option (\<lambda>xs. foldl (\<lambda>s x. insert x s) {} xs)
    (case yaml_load Y v of None \<Rightarrow> None | Some node \<Rightarrow> cast_all from (yaml_elements Y node))"

definition unordered_set_to_string :: "yaml_lib \<Rightarrow> ('a \<Rightarrow> string) \<Rightarrow> 'a list \<Rightarrow> string option" where
  "unordered_set_to_string Y to v = map_option (\<lambda>ns. yaml_emit Y (sequence_node ns)) (load_all Y (map to v))"

text \<open>A \<open>std::map\<close> from strings is its entries; assigning to a key of a node replaces or appends.\<close>

fun mapping_set :: "string \<Rightarrow> yaml \<Rightarrow> (yaml \<times> yaml) list \<Rightarrow> (yaml \<times> yaml) list" where
  "mapping_set k n [] = [(YScalar k, n)]"
| "mapping_set k n ((k', n') # kvs) = (if k' = YScalar k then (k', n) # kvs else (k', n') # mapping_set k n kvs)"

fun map_to_node :: "yaml_lib \<Rightarrow> ('a \<Rightarrow> string) \<Rightarrow> (string \<times> 'a) list \<Rightarrow> (yaml \<times> yaml) list \<Rightarrow> (yaml \<times> yaml) list option" where
  "map_to_node Y to [] kvs = Some kvs"
| "map_to_node Y to ((k, x) # m) kvs =
    (case yaml_load Y (to x) of None \<Rightarrow> None | Some n \<Rightarrow> map_to_node Y to m (mapping_set k n kvs))"

definition mapping_node :: "(yaml \<times> yaml) list \<Rightarrow> yaml" where
  "mapping_node kvs = (if kvs = [] then YNull else YMapping kvs)"

definition map_to_string :: "yaml_lib \<Rightarrow> ('a \<Rightarrow> string) \<Rightarrow> (string \<times> 'a) list \<Rightarrow> string option" where
  "map_to_string Y to m = map_option (\<lambda>kvs. yaml_emit Y (mapping_node kvs)) (map_to_node Y to m [])"

text \<open>\<open>Scalar()\<close> of a key that is no scalar is the empty string; \<open>insert\<close> ignores a key that is there.\<close>

definition yaml_scalar :: "yaml \<Rightarrow> string" where
  "yaml_scalar n = (case n of YScalar s \<Rightarrow> s | _ \<Rightarrow> '''')"

definition entries_insert :: "string \<Rightarrow> 'a \<Rightarrow> (string \<times> 'a) list \<Rightarrow> (string \<times> 'a) list" where
  "entries_insert k x m = (if k \<in> fst ` set m then m else m @ [(k, x)])"

fun map_of_pairs :: "yaml_lib \<Rightarrow> (string \<Rightarrow> 'a option) \<Rightarrow> (yaml \<times> yaml) list \<Rightarrow> (string \<times> 'a) list \<Rightarrow> (string \<times> 'a) list option" where
  "map_of_pairs Y from [] m = Some m"
| "map_of_pairs Y from ((k, n) # kvs) m =
    (case from (yaml_emit Y n) of None \<Rightarrow> None | Some x \<Rightarrow> map_of_pairs Y from kvs (entries_insert (yaml_scalar k) x m))"

definition map_from_string :: "yaml_lib \<Rightarrow> (string \<Rightarrow> 'a option) \<Rightarrow> string \<Rightarrow> (string \<times> 'a) list option" where
  "map_from_string Y from v =
    (case yaml_load Y v of
       None \<Rightarrow> None
     | Some node \<Rightarrow> (case yaml_pairs node of None \<Rightarrow> None | Some kvs \<Rightarrow> map_of_pairs Y from kvs []))"

text \<open>A \<open>std::unordered_map\<close> as a function, and its entries in the order in which it iterates.\<close>

definition unordered_map_from_string :: "yaml_lib \<Rightarrow> (string \<Rightarrow> 'a option) \<Rightarrow> string \<Rightarrow> (string \<Rightarrow> 'a option) option" where
  "unordered_map_from_string Y from v =
    (case yaml_load Y v of
       None \<Rightarrow> None
     | Some node \<Rightarrow> (case yaml_pairs node of None \<Rightarrow> None | Some kvs \<Rightarrow> map_option map_of (map_of_pairs Y from kvs [])))"

definition unordered_map_to_string :: "yaml_lib \<Rightarrow> ('a \<Rightarrow> string) \<Rightarrow> (string \<times> 'a) list \<Rightarrow> string option" where
  "unordered_map_to_string Y to m = map_option (\<lambda>kvs. yaml_emit Y (mapping_node kvs)) (map_to_node Y to m [])"

section \<open>Variables\<close>

definition tolower :: "char \<Rightarrow> char" where
  "tolower c = (let n = of_char c :: nat in if 65 \<le> n \<and> n \<le> 90 then char_of (n + 32) else c)"

record 'v config_var =
  cv_name :: string
  cv_description :: string
  cv_type :: string
  cv_val :: 'v
  cv_cbs :: "(nat \<times> nat) list"

definition ConfigVar :: "string \<Rightarrow> string \<Rightarrow> 'v \<Rightarrow> string \<Rightarrow> 'v config_var" where
  "ConfigVar ty name default_value description =
    \<lparr>cv_name = map tolower name, cv_description = description, cv_type = ty, cv_val = default_value, cv_cbs = []\<rparr>"

text \<open>The registry, the counter of listener ids of each type, and the calls of listeners so far.\<close>

record 'v config =
  datas :: "string \<Rightarrow> nat option"
  config_vars :: "nat \<Rightarrow> 'v config_var"
  next_var :: nat
  fun_ids :: "string \<Rightarrow> nat"
  calls :: "(nat \<times> 'v \<times> 'v) list"

definition set_var :: "nat \<Rightarrow> 'v config_var \<Rightarrow> 'v config \<Rightarrow> 'v config" where
  "set_var x cv c = c\<lparr>config_vars := (config_vars c)(x := cv)\<rparr>"

text \<open>
  \<open>setValue\<close> is two locked sections: the listeners are called under the read lock, in the order of
  their ids, and the value is stored under the write lock. The first answers whether to go on.
\<close>

definition setValue_notify :: "nat \<Rightarrow> 'v \<Rightarrow> 'v config \<Rightarrow> bool \<times> 'v config" where
  "setValue_notify x v c =
    (let cv = config_vars c x
     in if v = cv_val cv then (False, c)
        else (True, c\<lparr>calls := calls c @ map (\<lambda>(_, cb). (cb, cv_val cv, v)) (cv_cbs cv)\<rparr>))"

definition setValue_store :: "nat \<Rightarrow> 'v \<Rightarrow> 'v config \<Rightarrow> 'v config" where
  "setValue_store x v c = set_var x ((config_vars c x)\<lparr>cv_val := v\<rparr>) c"

definition ConfigVar_setValue :: "nat \<Rightarrow> 'v \<Rightarrow> 'v config \<Rightarrow> 'v config" where
  "ConfigVar_setValue x v c =
    (let (changed, c1) = setValue_notify x v c in if changed then setValue_store x v c1 else c1)"

text \<open>The map of listeners is sorted by id, and ids only grow, so that a new one comes last.\<close>

definition ConfigVar_addListener :: "nat \<Rightarrow> nat \<Rightarrow> 'v config \<Rightarrow> nat \<times> 'v config" where
  "ConfigVar_addListener x cb c =
    (let ty = cv_type (config_vars c x); s_fun_id = fun_ids c ty + 1
     in (s_fun_id, set_var x ((config_vars c x)\<lparr>cv_cbs := cv_cbs (config_vars c x) @ [(s_fun_id, cb)]\<rparr>)
           (c\<lparr>fun_ids := (fun_ids c)(ty := s_fun_id)\<rparr>)))"

definition ConfigVar_delListener :: "nat \<Rightarrow> nat \<Rightarrow> 'v config \<Rightarrow> 'v config" where
  "ConfigVar_delListener x key c =
    set_var x ((config_vars c x)\<lparr>cv_cbs := filter (\<lambda>(k, _). k \<noteq> key) (cv_cbs (config_vars c x))\<rparr>) c"

definition ConfigVar_getListener :: "nat \<Rightarrow> nat \<Rightarrow> 'v config \<Rightarrow> nat option" where
  "ConfigVar_getListener x key c = map_of (cv_cbs (config_vars c x)) key"

definition ConfigVar_clearListener :: "nat \<Rightarrow> 'v config \<Rightarrow> 'v config" where
  "ConfigVar_clearListener x c = set_var x ((config_vars c x)\<lparr>cv_cbs := []\<rparr>) c"

text \<open>\<open>from\<close> and \<open>to\<close> are \<open>FromStr\<close> and \<open>ToStr\<close> of each type; \<open>None\<close> is an exception, which is caught.\<close>

definition ConfigVar_fromString :: "(string \<Rightarrow> string \<Rightarrow> 'v option) \<Rightarrow> nat \<Rightarrow> string \<Rightarrow> 'v config \<Rightarrow> bool \<times> 'v config" where
  "ConfigVar_fromString from x val c =
    (case from (cv_type (config_vars c x)) val of
       None \<Rightarrow> (False, c)
     | Some v \<Rightarrow> (True, ConfigVar_setValue x v c))"

definition ConfigVar_toString :: "(string \<Rightarrow> 'v \<Rightarrow> string option) \<Rightarrow> nat \<Rightarrow> 'v config \<Rightarrow> string" where
  "ConfigVar_toString to x c =
    (case to (cv_type (config_vars c x)) (cv_val (config_vars c x)) of None \<Rightarrow> '''' | Some s \<Rightarrow> s)"

section \<open>The registry\<close>

definition name_chars :: string where
  "name_chars = ''abcdefghijkmlnopkrstuvwxyz._0123456789''"

definition valid_name :: "string \<Rightarrow> bool" where
  "valid_name name \<longleftrightarrow> set name \<subseteq> set name_chars"

definition Config_Lookup :: "string \<Rightarrow> string \<Rightarrow> 'v \<Rightarrow> string \<Rightarrow> ('v config, nat option) action" where
  "Config_Lookup ty name default_value description c =
    (case datas c (map tolower name) of
       Some x \<Rightarrow> if cv_type (config_vars c x) = ty then (Inr (Some x), c) else (Inr None, c)
     | None \<Rightarrow>
         if \<not> valid_name name then (Inl (Exn (Invalid_Argument name)), c)
         else
           let x = next_var c
           in (Inr (Some x), (set_var x (ConfigVar ty name default_value description) c)\<lparr>
                next_var := x + 1, datas := (datas c)(name \<mapsto> x)\<rparr>))"

definition Config_find :: "string \<Rightarrow> string \<Rightarrow> 'v config \<Rightarrow> nat option" where
  "Config_find ty name c =
    (case datas c (map tolower name) of
       None \<Rightarrow> None
     | Some x \<Rightarrow> if cv_type (config_vars c x) = ty then Some x else None)"

definition Config_LookupBase :: "string \<Rightarrow> 'v config \<Rightarrow> nat option" where
  "Config_LookupBase name c = datas c name"

section \<open>Loading YAML\<close>

text \<open>\<open>ListAllMember\<close>: \<open>None\<close> is the exception that \<open>as<std::string>\<close> throws for a key.\<close>

fun ListAllMember :: "(yaml \<Rightarrow> string option) \<Rightarrow> string \<Rightarrow> yaml \<Rightarrow> (string \<times> yaml) list option"
  and list_members :: "(yaml \<Rightarrow> string option) \<Rightarrow> string \<Rightarrow> (yaml \<times> yaml) list \<Rightarrow> (string \<times> yaml) list option" where
  "ListAllMember as prefix node =
    (if \<not> valid_name prefix then Some []
     else
       map_option (\<lambda>out. (prefix, node) # out)
         (case node of YMapping kvs \<Rightarrow> list_members as prefix kvs | _ \<Rightarrow> Some []))"
| "list_members as prefix [] = Some []"
| "list_members as prefix ((k, n) # kvs) =
    (case as k of
       None \<Rightarrow> None
     | Some key \<Rightarrow>
         (case ListAllMember as (if prefix = '''' then key else prefix @ ''.'' @ key) n of
            None \<Rightarrow> None
          | Some out \<Rightarrow> map_option (\<lambda>rest. out @ rest) (list_members as prefix kvs)))"

definition yaml_text :: "yaml_lib \<Rightarrow> yaml \<Rightarrow> string" where
  "yaml_text Y n = (case n of YScalar s \<Rightarrow> s | _ \<Rightarrow> yaml_emit Y n)"

fun load_nodes :: "yaml_lib \<Rightarrow> (string \<Rightarrow> string \<Rightarrow> 'v option) \<Rightarrow> (string \<times> yaml) list \<Rightarrow> 'v config \<Rightarrow> 'v config" where
  "load_nodes Y from [] c = c"
| "load_nodes Y from ((key, n) # rest) c =
    load_nodes Y from rest
      (if key = '''' then c
       else
         case Config_LookupBase (map tolower key) c of
           None \<Rightarrow> c
         | Some var \<Rightarrow> snd (ConfigVar_fromString from var (yaml_text Y n) c))"

definition Config_LoadFromYaml ::
  "yaml_lib \<Rightarrow> (string \<Rightarrow> string \<Rightarrow> 'v option) \<Rightarrow> yaml \<Rightarrow> 'v config \<Rightarrow> 'v config option" where
  "Config_LoadFromYaml Y from root c =
    map_option (\<lambda>nodes. load_nodes Y from nodes c) (ListAllMember (yaml_as_string Y) '''' root)"

text \<open>\<open>Visit\<close> calls back for the variables in the order of their names, of which \<open>names\<close> is the list.\<close>

definition Config_Visit :: "string list \<Rightarrow> (nat \<Rightarrow> 'a \<Rightarrow> 'a) \<Rightarrow> 'v config \<Rightarrow> 'a \<Rightarrow> 'a" where
  "Config_Visit names cb c a = foldl (\<lambda>b name. case datas c name of None \<Rightarrow> b | Some x \<Rightarrow> cb x b) a names"

definition empty_config :: "'v \<Rightarrow> 'v config" where
  "empty_config d = \<lparr>datas = Map.empty, config_vars = \<lambda>_. ConfigVar '''' '''' d '''', next_var = 0, fun_ids = \<lambda>_. 0, calls = []\<rparr>"

section \<open>Lemmas\<close>

subsection \<open>Containers\<close>

text \<open>
  The conversions of the elements in a set fit together through YAML: the text of such an element
  can be loaded, and the text of the node it makes is converted back to the element.
\<close>

definition cast_ok :: "yaml_lib \<Rightarrow> 'a set \<Rightarrow> ('a \<Rightarrow> string) \<Rightarrow> (string \<Rightarrow> 'a option) \<Rightarrow> bool" where
  "cast_ok Y A to from \<longleftrightarrow> (\<forall>x \<in> A. \<exists>n. yaml_load Y (to x) = Some n \<and> from (yaml_emit Y n) = Some x)"

definition loaded :: "yaml_lib \<Rightarrow> ('a \<Rightarrow> string) \<Rightarrow> 'a \<Rightarrow> yaml" where
  "loaded Y to x = the (yaml_load Y (to x))"

lemma cast_okD:
  "cast_ok Y A to from \<Longrightarrow> x \<in> A \<Longrightarrow> yaml_load Y (to x) = Some (loaded Y to x)"
  "cast_ok Y A to from \<Longrightarrow> x \<in> A \<Longrightarrow> from (yaml_emit Y (loaded Y to x)) = Some x"
  by (fastforce simp: cast_ok_def loaded_def)+

lemma load_all_loaded:
  assumes "cast_ok Y A to from"
  shows "set v \<subseteq> A \<Longrightarrow> load_all Y (map to v) = Some (map (loaded Y to) v)"
  by (induction v) (simp_all add: cast_okD(1) [OF assms])

lemma cast_all_loaded:
  assumes "cast_ok Y A to from"
  shows "set v \<subseteq> A \<Longrightarrow> cast_all from (map (\<lambda>x. yaml_emit Y (loaded Y to x)) v) = Some v"
  by (induction v) (simp_all add: cast_okD(2) [OF assms])

lemma yaml_elements_sequence [simp]: "yaml_elements Y (sequence_node ns) = map (yaml_emit Y) ns"
  by (auto simp: sequence_node_def yaml_elements_def yaml_size_def intro: nth_equalityI)

lemma yaml_pairs_mapping [simp]: "yaml_pairs (mapping_node kvs) = Some kvs"
  by (simp add: mapping_node_def yaml_pairs_def)

text \<open>The containers of single elements differ from a vector only in how they insert.\<close>

lemma container_eqs:
  "list_to_string Y to v = vector_to_string Y to v" "list_from_string Y from s = vector_from_string Y from s"
  "set_to_string Y to v = vector_to_string Y to v"
  "set_from_string Y key frm s = map_option (\<lambda>xs. foldl (\<lambda>s x. insort_insert_key key x s) [] xs) (vector_from_string Y frm s)"
  "unordered_set_to_string Y to v = vector_to_string Y to v"
  "unordered_set_from_string Y from s = map_option (\<lambda>xs. foldl (\<lambda>s x. insert x s) {} xs) (vector_from_string Y from s)"
  "unordered_map_to_string Y to m = map_to_string Y to m"
  "unordered_map_from_string Y from s = map_option map_of (map_from_string Y from s)"
  by (simp_all add: list_to_string_def list_from_string_def set_to_string_def set_from_string_def unordered_set_to_string_def
      unordered_set_from_string_def unordered_map_to_string_def unordered_map_from_string_def
      vector_to_string_def vector_from_string_def map_to_string_def map_from_string_def split: option.split)

lemma vector_roundtrip:
  assumes "yaml_laws Y" and "cast_ok Y A to from" and "set v \<subseteq> A"
  shows "vector_to_string Y to v = Some (yaml_emit Y (sequence_node (map (loaded Y to) v)))"
    and "vector_from_string Y from (yaml_emit Y (sequence_node (map (loaded Y to) v))) = Some v"
  using assms(1) cast_all_loaded [OF assms(2,3)] load_all_loaded [OF assms(2,3)]
  by (simp_all add: vector_to_string_def vector_from_string_def yaml_laws_def comp_def)

lemma set_insert_all:
  "sorted (map key xs) \<Longrightarrow> distinct (map key xs) \<Longrightarrow> foldl (\<lambda>s x. insort_insert_key key x s) [] xs = xs"
proof (induction xs rule: rev_induct)
  case (snoc x xs)
  have "insort_key key x xs = xs @ [x]" if "\<forall>y \<in> set xs. key y \<le> key x" "key x \<notin> key ` set xs" for xs
    using that by (induction xs) auto
  with snoc show ?case
    by (simp add: sorted_append insort_insert_key_def)
qed simp

lemma insert_all: "foldl (\<lambda>s x. insert x s) A xs = A \<union> set xs"
  by (induction xs arbitrary: A) auto

lemma mapping_set_new: "YScalar k \<notin> fst ` set kvs \<Longrightarrow> mapping_set k n kvs = kvs @ [(YScalar k, n)]"
  by (induction k n kvs rule: mapping_set.induct) auto

lemma map_to_node_loaded:
  assumes "cast_ok Y A to from"
  shows "snd ` set m \<subseteq> A \<Longrightarrow> distinct (map fst m) \<Longrightarrow> fst ` set kvs \<inter> YScalar ` fst ` set m = {} \<Longrightarrow>
    map_to_node Y to m kvs = Some (kvs @ map (\<lambda>(k, x). (YScalar k, loaded Y to x)) m)"
proof (induction m arbitrary: kvs)
  case (Cons e m)
  obtain k x where e: "e = (k, x)"
    by fastforce
  have "YScalar k \<notin> fst ` set kvs"
    using Cons.prems(3) by (auto simp: e)
  moreover have "map_to_node Y to m (kvs @ [(YScalar k, loaded Y to x)]) =
      Some ((kvs @ [(YScalar k, loaded Y to x)]) @ map (\<lambda>(k, x). (YScalar k, loaded Y to x)) m)"
    using Cons.prems by (intro Cons.IH) (auto simp: e image_iff)
  ultimately show ?case
    using Cons.prems(1) by (simp add: e cast_okD(1) [OF assms] mapping_set_new)
qed simp

lemma map_of_pairs_loaded:
  assumes "cast_ok Y A to from"
  shows "snd ` set m \<subseteq> A \<Longrightarrow> distinct (map fst (acc @ m)) \<Longrightarrow> map_of_pairs Y from (map (\<lambda>(k, x). (YScalar k, loaded Y to x)) m) acc = Some (acc @ m)"
proof (induction m arbitrary: acc)
  case (Cons e m)
  obtain k x where "e = (k, x)"
    by fastforce
  with Cons.IH [of "acc @ [(k, x)]"] Cons.prems cast_okD [OF assms, of x] show ?case
    by (auto simp: entries_insert_def yaml_scalar_def)
qed simp

lemma map_roundtrip:
  assumes "yaml_laws Y" and "cast_ok Y A to from" and "snd ` set m \<subseteq> A" and "distinct (map fst m)"
  shows "\<exists>s. map_to_string Y to m = Some s \<and> map_from_string Y from s = Some m"
  using map_to_node_loaded [OF assms(2,3,4), of "[]"] map_of_pairs_loaded [OF assms(2,3), of "[]"] assms(1,4)
  by (simp add: map_to_string_def map_from_string_def yaml_laws_def)

subsection \<open>A YAML library to compute with\<close>

text \<open>
  An instance of the laws: each node has a marker, and the characters of a scalar are marked too.
\<close>

fun mark_chars :: "string \<Rightarrow> string" where
  "mark_chars [] = ''.''"
| "mark_chars (c # cs) = CHR ''c'' # c # mark_chars cs"

fun marked :: "yaml \<Rightarrow> string" where
  "marked YNull = ''~''"
| "marked (YScalar s) = CHR ''s'' # mark_chars s"
| "marked (YSequence xs) = CHR ''['' # concat (map marked xs) @ '']''"
| "marked (YMapping kvs) = CHR ''{'' # concat (map (\<lambda>(k, v). marked k @ marked v) kvs) @ ''}''"

fun unmark_chars :: "string \<Rightarrow> string \<times> string" where
  "unmark_chars (m # c # cs) =
    (if m = CHR ''c'' then let (s, rest) = unmark_chars cs in (c # s, rest) else ('''', c # cs))"
| "unmark_chars (m # []) = ('''', [])"
| "unmark_chars [] = ('''', [])"

fun unmark :: "nat \<Rightarrow> string \<Rightarrow> (yaml \<times> string) option"
  and unmark_list :: "nat \<Rightarrow> string \<Rightarrow> (yaml list \<times> string) option" where
  "unmark (Suc f) (m # cs) =
    (if m = CHR ''~'' then Some (YNull, cs)
     else if m = CHR ''s'' then let (s, rest) = unmark_chars cs in Some (YScalar s, rest)
     else if m = CHR ''['' then map_option (\<lambda>(xs, rest). (YSequence xs, rest)) (unmark_list f cs)
     else map_option (\<lambda>(xs, rest). (YMapping (zip (map (\<lambda>i. xs ! (2 * i)) [0..<length xs div 2])
       (map (\<lambda>i. xs ! (2 * i + 1)) [0..<length xs div 2])), rest)) (unmark_list f cs))"
| "unmark _ _ = None"
| "unmark_list (Suc f) (m # cs) =
    (if m = CHR '']'' \<or> m = CHR ''}'' then Some ([], cs)
     else case unmark f (m # cs) of
       None \<Rightarrow> None
     | Some (n, rest) \<Rightarrow> map_option (\<lambda>(ns, rest). (n # ns, rest)) (unmark_list f rest))"
| "unmark_list _ _ = None"

definition marked_yaml :: yaml_lib where
  "marked_yaml = \<lparr>yaml_load = (\<lambda>s. case unmark (length s) s of Some (n, '''') \<Rightarrow> Some n | _ \<Rightarrow> None),
    yaml_emit = marked, yaml_as_string = (\<lambda>n. case n of YScalar s \<Rightarrow> Some s | _ \<Rightarrow> None),
    yaml_at = (\<lambda>kvs i. map_of kvs (YScalar (dec i)))\<rparr>"

lemma unmark_mark_chars: "unmark_chars (mark_chars s @ rest) = (s, rest)"
  by (induction s) (auto simp: Let_def neq_Nil_conv, (cases rest; simp)+)

lemma marked_starts: "\<exists>m cs. marked n = m # cs \<and> m \<noteq> CHR '']'' \<and> m \<noteq> CHR ''}''"
  by (cases n) auto

lemma unmark_list_marked:
  assumes "\<And>n f rest. n \<in> set ns \<Longrightarrow> length (marked n) \<le> f \<Longrightarrow> unmark f (marked n @ rest) = Some (n, rest)"
    and "m = CHR '']'' \<or> m = CHR ''}''" and "length (concat (map marked ns)) + 1 \<le> f"
  shows "unmark_list f (concat (map marked ns) @ m # rest) = Some (ns, rest)"
  using assms(1,3)
proof (induction ns arbitrary: f)
  case Nil
  with assms(2) show ?case
    by (cases f) auto
next
  case (Cons n ns)
  obtain c cs where n: "marked n = c # cs" "c \<noteq> CHR '']''" "c \<noteq> CHR ''}''"
    using marked_starts by blast
  obtain f' where f: "f = Suc f'"
    using Cons.prems(2) by (cases f) auto
  have "unmark f' (marked n @ concat (map marked ns) @ m # rest) = Some (n, concat (map marked ns) @ m # rest)"
    using Cons.prems f n(1) by (intro Cons.prems(1)) simp_all
  moreover have "unmark_list f' (concat (map marked ns) @ m # rest) = Some (ns, rest)"
    using Cons.prems f n(1) by (intro Cons.IH) simp_all
  ultimately show ?case
    by (simp add: f n)
qed

text \<open>The list of the keys and values of a mapping, in turn.\<close>

fun flat :: "('a \<times> 'a) list \<Rightarrow> 'a list" where
  "flat [] = []"
| "flat ((k, v) # kvs) = k # v # flat kvs"

lemma length_flat [simp]: "length (flat kvs) = 2 * length kvs"
  by (induction kvs rule: flat.induct) auto

lemma flat_nth: "i < length kvs \<Longrightarrow> flat kvs ! (2 * i) = fst (kvs ! i) \<and> flat kvs ! (2 * i + 1) = snd (kvs ! i)"
proof (induction kvs arbitrary: i rule: flat.induct)
  case (2 k v kvs)
  then show ?case
    by (cases i) auto
qed simp

lemma unflat: "zip (map (\<lambda>i. flat kvs ! (2 * i)) [0..<length (flat kvs) div 2])
    (map (\<lambda>i. flat kvs ! (2 * i + 1)) [0..<length (flat kvs) div 2]) = kvs"
  by (rule nth_equalityI) (use flat_nth [of _ kvs] in auto)

lemma flat_set: "set (flat kvs) = fst ` set kvs \<union> snd ` set kvs"
  by (induction kvs rule: flat.induct) auto

lemma concat_flat: "concat (map (\<lambda>(k, v). f k @ f v) kvs) = concat (map f (flat kvs))"
  by (induction kvs rule: flat.induct) auto

lemma unmark_marked: "length (marked n) \<le> f \<Longrightarrow> unmark f (marked n @ rest) = Some (n, rest)"
proof (induction n arbitrary: f rest)
  case (YSequence ns)
  then show ?case
    using unmark_list_marked [of ns "CHR '']''" "f - 1" rest] by (cases f) auto
next
  case (YMapping kvs)
  have IH: "unmark g (marked n @ r) = Some (n, r)" if n: "n \<in> set (flat kvs)" and g: "length (marked n) \<le> g" for n g r
  proof -
    obtain p where "p \<in> set kvs" "n \<in> Basic_BNFs.fsts p \<or> n \<in> Basic_BNFs.snds p"
      using n by (auto simp: flat_set fsts.simps snds.simps)
    with YMapping.IH g show ?thesis
      by blast
  qed
  show ?case
    using unmark_list_marked [OF IH, where m = "CHR ''}''" and f = "f - 1" and rest = rest] YMapping.prems unflat [of kvs]
    by (cases f) (auto simp: concat_flat)
next
  case YNull
  then show ?case
    by (cases f) auto
next
  case (YScalar s)
  then show ?case
    by (cases f) (auto simp: unmark_mark_chars)
qed

lemma marked_yaml_laws: "yaml_laws marked_yaml"
  using unmark_marked [of _ _ "''''"] by (simp add: yaml_laws_def marked_yaml_def)

text \<open>Strings are converted as they are.\<close>

definition string_to_text :: "string \<Rightarrow> string" where
  "string_to_text s = marked (YScalar s)"

definition string_of_text :: "string \<Rightarrow> string option" where
  "string_of_text s = (case yaml_load marked_yaml s of Some (YScalar t) \<Rightarrow> Some t | _ \<Rightarrow> None)"

lemma string_cast_ok: "cast_ok marked_yaml A string_to_text string_of_text"
proof -
  have e: "yaml_emit marked_yaml = marked"
    by (simp add: marked_yaml_def)
  have l: "yaml_load marked_yaml (marked n) = Some n" for n
    using marked_yaml_laws by (metis e yaml_laws_def)
  show ?thesis
    unfolding cast_ok_def string_to_text_def string_of_text_def e
    by (intro ballI exI [of _ "YScalar _"]) (simp add: l del: marked.simps)
qed

subsection \<open>The registry\<close>

lemma valid_name_lower: "valid_name name \<Longrightarrow> map tolower name = name"
proof -
  have "list_all (\<lambda>c. tolower c = c) name_chars"
    by code_simp
  then show "valid_name name \<Longrightarrow> ?thesis"
    by (auto simp: valid_name_def list_all_iff intro: map_idI)
qed

definition conf_inv :: "'v config \<Rightarrow> bool" where
  "conf_inv c \<longleftrightarrow> (\<forall>k x. datas c k = Some x \<longrightarrow> x < next_var c \<and> cv_name (config_vars c x) = k \<and> valid_name k)"

lemma conf_inv_inj: "conf_inv c \<Longrightarrow> datas c k = Some x \<Longrightarrow> datas c k' = Some x \<Longrightarrow> k = k'"
  by (auto simp: conf_inv_def)

lemma set_var_sel [simp]:
  "datas (set_var x cv c) = datas c" "config_vars (set_var x cv c) = (config_vars c)(x := cv)" "next_var (set_var x cv c) = next_var c"
  "fun_ids (set_var x cv c) = fun_ids c" "calls (set_var x cv c) = calls c"
  by (simp_all add: set_var_def)

text \<open>What operations on values leave alone.\<close>

definition same_vars :: "'v config \<Rightarrow> 'v config \<Rightarrow> bool" where
  "same_vars c c' \<longleftrightarrow> datas c' = datas c \<and> next_var c' = next_var c \<and>
    (\<forall>x. cv_name (config_vars c' x) = cv_name (config_vars c x) \<and> cv_type (config_vars c' x) = cv_type (config_vars c x))"

lemma same_vars_inv: "same_vars c c' \<Longrightarrow> conf_inv c \<Longrightarrow> conf_inv c'"
  by (simp add: same_vars_def conf_inv_def)

lemma same_vars_refl [simp]: "same_vars c c"
  by (simp add: same_vars_def)

lemma same_vars_trans: "same_vars c c1 \<Longrightarrow> same_vars c1 c2 \<Longrightarrow> same_vars c c2"
  by (simp add: same_vars_def)

lemma setValue_sel:
  "config_vars (ConfigVar_setValue x v c) = (config_vars c)(x := (config_vars c x)\<lparr>cv_val := v\<rparr>)"
  "datas (ConfigVar_setValue x v c) = datas c"
  "calls (ConfigVar_setValue x v c) = calls c @
    (if v = cv_val (config_vars c x) then [] else map (\<lambda>(_, cb). (cb, cv_val (config_vars c x), v)) (cv_cbs (config_vars c x)))"
  by (auto simp: ConfigVar_setValue_def setValue_notify_def setValue_store_def Let_def fun_eq_iff)

lemma setValue_same: "same_vars c (ConfigVar_setValue x v c)" "same_vars c (setValue_store x v c)" "same_vars c (snd (setValue_notify x v c))"
  by (auto simp: same_vars_def ConfigVar_setValue_def setValue_notify_def setValue_store_def Let_def)

lemma fromString_same: "same_vars c (snd (ConfigVar_fromString frm x s c))"
  by (auto simp: ConfigVar_fromString_def setValue_same split: option.split)

lemma listeners_same:
  "same_vars c (snd (ConfigVar_addListener x cb c))" "same_vars c (ConfigVar_delListener x k c)" "same_vars c (ConfigVar_clearListener x c)"
  by (auto simp: same_vars_def ConfigVar_addListener_def ConfigVar_delListener_def ConfigVar_clearListener_def Let_def)

lemma load_nodes_same: "same_vars c (load_nodes Y from nodes c)"
proof (induction nodes arbitrary: c)
  case (Cons kn nodes)
  obtain k n where kn: "kn = (k, n)"
    by fastforce
  show ?case
    using Cons.IH fromString_same [of c] same_vars_trans
    by (auto simp: kn split: option.split) blast+
qed simp

inductive conf_step :: "(string \<Rightarrow> string \<Rightarrow> 'v option) \<Rightarrow> yaml_lib \<Rightarrow> 'v config \<Rightarrow> 'v config \<Rightarrow> bool" for frm Y where
  lookup: "Config_Lookup ty name d desc c = (r, c') \<Longrightarrow> conf_step frm Y c c'"
| notify: "conf_step frm Y c (snd (setValue_notify x v c))"
| store: "conf_step frm Y c (setValue_store x v c)"
| add: "conf_step frm Y c (snd (ConfigVar_addListener x cb c))"
| del: "conf_step frm Y c (ConfigVar_delListener x k c)"
| clear: "conf_step frm Y c (ConfigVar_clearListener x c)"
| parsed: "conf_step frm Y c (snd (ConfigVar_fromString frm x s c))"
| load: "Config_LoadFromYaml Y frm root c = Some c' \<Longrightarrow> conf_step frm Y c c'"

inductive conf_reachable :: "(string \<Rightarrow> string \<Rightarrow> 'v option) \<Rightarrow> yaml_lib \<Rightarrow> 'v config \<Rightarrow> bool" for frm Y where
  init: "conf_reachable frm Y (empty_config d)"
| step: "conf_reachable frm Y c \<Longrightarrow> conf_step frm Y c c' \<Longrightarrow> conf_reachable frm Y c'"

lemma Lookup_inv: "conf_inv c \<Longrightarrow> Config_Lookup ty name d desc c = (r, c') \<Longrightarrow> conf_inv c'"
  by (auto simp: Config_Lookup_def conf_inv_def Let_def ConfigVar_def valid_name_lower less_Suc_eq split: option.splits if_splits)
    (metis less_irrefl)

lemma conf_reachable_inv: "conf_reachable frm Y c \<Longrightarrow> conf_inv c"
proof (induction rule: conf_reachable.induct)
  case (init d)
  then show ?case
    by (simp add: conf_inv_def empty_config_def)
next
  case (step c c')
  from step(2,3) show ?case
    by cases (auto simp: Config_LoadFromYaml_def intro: Lookup_inv same_vars_inv [rotated] setValue_same fromString_same listeners_same load_nodes_same)
qed

subsection \<open>Paths in a YAML node\<close>

text \<open>The node that a list of keys leads to, and the dotted name of the list.\<close>

inductive path :: "(yaml \<Rightarrow> string option) \<Rightarrow> yaml \<Rightarrow> string list \<Rightarrow> yaml \<Rightarrow> bool" for as where
  here: "path as n [] n"
| down: "(k, m) \<in> set kvs \<Longrightarrow> as k = Some key \<Longrightarrow> path as m ks n \<Longrightarrow> path as (YMapping kvs) (key # ks) n"

inductive_simps path_Nil [simp]: "path as n [] m"
inductive_simps path_Cons: "path as n (key # ks) m"

definition extend :: "string \<Rightarrow> string \<Rightarrow> string" where
  "extend prefix key = (if prefix = '''' then key else prefix @ ''.'' @ key)"

definition dotted :: "string \<Rightarrow> string list \<Rightarrow> string" where
  "dotted prefix ks = foldl extend prefix ks"

lemma valid_dotted: "valid_name (dotted prefix ks) \<Longrightarrow> valid_name prefix"
proof (induction ks arbitrary: prefix)
  case (Cons k ks)
  then have "valid_name (extend prefix k)"
    by (simp add: dotted_def)
  then show ?case
    by (auto simp: extend_def valid_name_def split: if_splits)
qed (simp add: dotted_def)

lemma ex_list: "(\<exists>ks. P ks) \<longleftrightarrow> P [] \<or> (\<exists>k ks. P (k # ks))"
  by (metis neq_Nil_conv)

lemma ListAllMember_path:
  "ListAllMember as prefix node = Some out \<Longrightarrow>
    (p, n) \<in> set out \<longleftrightarrow> (\<exists>ks. path as node ks n \<and> p = dotted prefix ks \<and> valid_name p)"
  "list_members as prefix kvs = Some out \<Longrightarrow> valid_name prefix \<Longrightarrow>
    (p, n) \<in> set out \<longleftrightarrow> (\<exists>key ks. path as (YMapping kvs) (key # ks) n \<and> p = dotted prefix (key # ks) \<and> valid_name p)"
proof (induction as prefix node and as prefix kvs arbitrary: out and out rule: ListAllMember_list_members.induct)
  case (1 as prefix node)
  show ?case
  proof (cases "valid_name prefix")
    case False
    with 1 show ?thesis
      using valid_dotted by force
  next
    case True
    show ?thesis
    proof (cases "\<exists>kvs. node = YMapping kvs")
      case True
      then obtain kvs where node: "node = YMapping kvs" by blast
      with 1 \<open>valid_name prefix\<close> obtain rest where "list_members as prefix kvs = Some rest" "out = (prefix, node) # rest"
        by auto
      with 1(1) [OF _ node this(1)] \<open>valid_name prefix\<close> show ?thesis
        by (subst ex_list) (auto simp: node dotted_def)
    next
      case False
      with 1(2) \<open>valid_name prefix\<close> have "out = [(prefix, node)]"
        by (cases node) auto
      moreover have "path as node ks n \<longleftrightarrow> ks = [] \<and> n = node" for ks
        using False by (cases ks) (auto simp: path_Cons)
      ultimately show ?thesis
        using \<open>valid_name prefix\<close> by (auto simp: dotted_def)
    qed
  qed
next
  case (2 as prefix)
  then show ?case
    by (auto simp: path_Cons)
next
  case (3 as prefix k m kvs)
  then obtain key a rest where parts: "as k = Some key" "ListAllMember as (extend prefix key) m = Some a"
      "list_members as prefix kvs = Some rest" "out = a @ rest"
    by (auto simp: extend_def split: option.splits)
  have "(p, n) \<in> set a \<longleftrightarrow> (\<exists>ks. path as m ks n \<and> p = dotted (extend prefix key) ks \<and> valid_name p)"
    using 3(1) parts by (auto simp: extend_def)
  moreover have "(p, n) \<in> set rest \<longleftrightarrow> (\<exists>key ks. path as (YMapping kvs) (key # ks) n \<and> p = dotted prefix (key # ks) \<and> valid_name p)"
    using 3(2) [OF parts(1) _ parts(3)] parts(2) 3(4) by (auto simp: extend_def)
  ultimately show ?case
    using parts by (auto simp: path_Cons dotted_def) (blast | metis)+
qed

subsection \<open>Values over time\<close>

lemma load_nodes_var:
  assumes "conf_inv c" and "datas c k = Some x"
  shows "config_vars (load_nodes Y frm nodes c) x = (config_vars c x)\<lparr>cv_val :=
    foldl (\<lambda>v n. case frm (cv_type (config_vars c x)) (yaml_text Y n) of None \<Rightarrow> v | Some v' \<Rightarrow> v')
      (cv_val (config_vars c x)) (map snd (filter (\<lambda>(p, _). p \<noteq> '''' \<and> map tolower p = k) nodes))\<rparr>"
  using assms
proof (induction nodes arbitrary: c)
  case (Cons pn nodes)
  obtain p n where pn: "pn = (p, n)"
    by fastforce
  let ?c = "if p = '''' then c else case Config_LookupBase (map tolower p) c of None \<Rightarrow> c
    | Some var \<Rightarrow> snd (ConfigVar_fromString frm var (yaml_text Y n) c)"
  have same: "same_vars c ?c"
    using fromString_same by (auto split: option.split)
  then have ty: "datas ?c k = Some x" "cv_type (config_vars ?c x) = cv_type (config_vars c x)"
    using Cons.prems(2) unfolding same_vars_def by metis+
  note IH = Cons.IH [OF same_vars_inv [OF same Cons.prems(1)] ty(1)]
  have "x \<noteq> y" if "datas c (map tolower p) = Some y" "map tolower p \<noteq> k" for y
    using that Cons.prems conf_inv_inj by metis
  then have step: "config_vars ?c x = (if p \<noteq> '''' \<and> map tolower p = k then
      (config_vars c x)\<lparr>cv_val := case frm (cv_type (config_vars c x)) (yaml_text Y n) of
        None \<Rightarrow> cv_val (config_vars c x) | Some v' \<Rightarrow> v'\<rparr> else config_vars c x)"
    using Cons.prems(2) by (auto simp: Config_LookupBase_def ConfigVar_fromString_def setValue_sel split: option.splits)
  show ?case
    using IH ty(2) by (simp add: pn step)
qed simp

text \<open>The changes that a sequence of values makes.\<close>

fun value_changes :: "'v \<Rightarrow> 'v list \<Rightarrow> ('v \<times> 'v) list" where
  "value_changes v [] = []"
| "value_changes v (w # ws) = (if w = v then value_changes v ws else (v, w) # value_changes w ws)"

lemma setValue_all:
  "let c' = foldl (\<lambda>c v. ConfigVar_setValue x v c) c vs
   in cv_val (config_vars c' x) = last (cv_val (config_vars c x) # vs) \<and> cv_cbs (config_vars c' x) = cv_cbs (config_vars c x) \<and>
     calls c' = calls c @ concat (map (\<lambda>(old, new). map (\<lambda>(_, cb). (cb, old, new)) (cv_cbs (config_vars c x)))
       (value_changes (cv_val (config_vars c x)) vs))"
proof (induction vs arbitrary: c)
  case (Cons v vs)
  from Cons.IH [of "ConfigVar_setValue x v c"] show ?case
    by (auto simp: setValue_sel Let_def)
qed simp

section \<open>Properties\<close>

text \<open>C31: the conversions of containers lose nothing: if the conversions of the elements in \<open>A\<close> fit
  together through YAML, then so do those of vectors, lists, sets and maps of such elements, ordered
  or not, the empty ones included; those of vectors are of that kind again, so that containers nest.\<close>

theorem LexicalCast_containers:
  assumes "yaml_laws Y" and "cast_ok Y A to frm" and "set v \<subseteq> A" and "snd ` set m \<subseteq> A"
  shows "(\<exists>s. vector_to_string Y to v = Some s \<and> vector_from_string Y frm s = Some v) \<and>
    cast_ok Y (lists A) (\<lambda>v. the (vector_to_string Y to v)) (vector_from_string Y frm) \<and>
    (\<exists>s. list_to_string Y to v = Some s \<and> list_from_string Y frm s = Some v) \<and>
    (sorted (map key v) \<and> distinct (map key v) \<longrightarrow>
      (\<exists>s. set_to_string Y to v = Some s \<and> set_from_string Y key frm s = Some v)) \<and>
    (\<exists>s. unordered_set_to_string Y to v = Some s \<and> unordered_set_from_string Y frm s = Some (set v)) \<and>
    (distinct (map fst m) \<longrightarrow> (\<exists>s. map_to_string Y to m = Some s \<and> map_from_string Y frm s = Some m) \<and>
      (\<exists>s. unordered_map_to_string Y to m = Some s \<and> unordered_map_from_string Y frm s = Some (map_of m)))"
proof -
  have nested: "cast_ok Y (lists A) (\<lambda>v. the (vector_to_string Y to v)) (vector_from_string Y frm)"
    using vector_roundtrip [OF assms(1,2)] assms(1) by (auto simp: cast_ok_def yaml_laws_def lists_eq_set)
  have maps: "(\<exists>s. map_to_string Y to m = Some s \<and> map_from_string Y frm s = Some m) \<and>
      (\<exists>s. unordered_map_to_string Y to m = Some s \<and> unordered_map_from_string Y frm s = Some (map_of m))" if "distinct (map fst m)"
  proof -
    obtain s where "map_to_string Y to m = Some s" "map_from_string Y frm s = Some m"
      using map_roundtrip [OF assms(1,2,4)] \<open>distinct (map fst m)\<close> by blast
    then show ?thesis
      by (simp add: container_eqs)
  qed
  have vector: "\<exists>s. vector_to_string Y to v = Some s \<and> vector_from_string Y frm s = Some v"
    using vector_roundtrip [OF assms(1-3)] by blast
  then have list: "\<exists>s. list_to_string Y to v = Some s \<and> list_from_string Y frm s = Some v"
    by (simp only: container_eqs)
  have uset: "\<exists>s. unordered_set_to_string Y to v = Some s \<and> unordered_set_from_string Y frm s = Some (set v)"
    using vector_roundtrip [OF assms(1-3)] by (simp add: container_eqs(5,6) insert_all)
  have sset: "\<exists>s. set_to_string Y to v = Some s \<and> set_from_string Y key frm s = Some v" if "sorted (map key v)" "distinct (map key v)"
    using vector_roundtrip [OF assms(1-3)] that by (simp add: container_eqs(3,4) set_insert_all)
  from vector nested list sset uset maps show ?thesis
    by blast
qed

lemma LexicalCast_containers_witness:
  "\<exists>s. vector_to_string marked_yaml string_to_text [''a'', ''b''] = Some s \<and>
     vector_from_string marked_yaml string_of_text s = Some [''a'', ''b'']"
proof -
  have "\<exists>n. yaml_load marked_yaml (string_to_text (dec k)) = Some n \<and> map_option (number 10) (string_of_text (yaml_emit marked_yaml n)) = Some k" for k
  proof -
    obtain n where "yaml_load marked_yaml (string_to_text (dec k)) = Some n" "string_of_text (yaml_emit marked_yaml n) = Some (dec k)"
      using string_cast_ok [of UNIV] unfolding cast_ok_def by blast
    then show ?thesis
      by simp
  qed
  then have "cast_ok marked_yaml UNIV (\<lambda>n :: nat. string_to_text (dec n)) (\<lambda>s. map_option (number 10) (string_of_text s))"
    by (simp add: cast_ok_def)
  from LexicalCast_containers [OF marked_yaml_laws this, of "[1, 2]" "[]" id]
  have "\<exists>s. set_from_string marked_yaml id (\<lambda>s. map_option (number 10) (string_of_text s)) s = Some [1, 2 :: nat]"
    by auto
  then show ?thesis
    using vector_roundtrip [OF marked_yaml_laws string_cast_ok [of UNIV]] by blast
qed

text \<open>\<open>ListAllMember\<close> lists exactly the nodes that the document's keys lead to, each under the
  dotted name of its path, as far as the names consist of the admitted characters.\<close>

theorem ListAllMember_lists_paths:
  assumes "ListAllMember as '''' root = Some out"
  shows "(p, n) \<in> set out \<longleftrightarrow> (\<exists>ks. path as root ks n \<and> p = dotted '''' ks \<and> valid_name p)"
  using ListAllMember_path(1) [OF assms] .

lemma ListAllMember_lists_paths_witness:
  "\<exists>out. ListAllMember (yaml_as_string marked_yaml) '''' (YMapping [(YScalar ''a'', YMapping [(YScalar ''b'', YScalar ''1'')])]) = Some out \<and>
    (''a.b'', YScalar ''1'') \<in> set out"
proof -
  let ?root = "YMapping [(YScalar ''a'', YMapping [(YScalar ''b'', YScalar ''1'')])]"
  obtain out where out: "ListAllMember (yaml_as_string marked_yaml) '''' ?root = Some out"
    by (simp add: marked_yaml_def valid_name_def name_chars_def)
  have "path (yaml_as_string marked_yaml) ?root [''a'', ''b''] (YScalar ''1'')"
    by (simp add: path_Cons marked_yaml_def)
  moreover have "dotted '''' [''a'', ''b''] = ''a.b''" "valid_name ''a.b''"
    by (simp_all add: dotted_def extend_def valid_name_def name_chars_def)
  ultimately show ?thesis
    using ListAllMember_lists_paths [OF out, of "''a.b''" "YScalar ''1''"] out by metis
qed



lemma Lookup_keeps:
  "conf_inv c \<Longrightarrow> Config_Lookup ty name d desc c = (r, c') \<Longrightarrow> datas c k = Some x \<Longrightarrow>
    datas c' k = Some x \<and> cv_type (config_vars c' x) = cv_type (config_vars c x)"
  by (auto simp: Config_Lookup_def conf_inv_def Let_def valid_name_lower split: option.splits if_splits) (metis less_irrefl)

lemma conf_step_keeps:
  assumes "conf_step frm Y c c'" and "conf_inv c" and "datas c k = Some x"
  shows "conf_inv c' \<and> datas c' k = Some x \<and> cv_type (config_vars c' x) = cv_type (config_vars c x)"
proof -
  have "?thesis" if "same_vars c c'"
    using that same_vars_inv [OF that assms(2)] assms(3) by (simp add: same_vars_def)
  moreover from assms(1) have "same_vars c c' \<or> (\<exists>ty name d desc r. Config_Lookup ty name d desc c = (r, c'))"
    by cases (auto simp: Config_LoadFromYaml_def intro: setValue_same fromString_same listeners_same load_nodes_same)
  ultimately show ?thesis
    using Lookup_inv [OF assms(2)] Lookup_keeps [OF assms(2) _ assms(3)] by blast
qed

lemma conf_steps_keep:
  "(conf_step frm Y)\<^sup>*\<^sup>* c c' \<Longrightarrow> conf_inv c \<Longrightarrow> datas c k = Some x \<Longrightarrow>
    conf_inv c' \<and> datas c' k = Some x \<and> cv_type (config_vars c' x) = cv_type (config_vars c x)"
  by (induction rule: rtranclp_induct) (auto dest: conf_step_keeps)

lemma Lookup_found:
  "conf_inv c \<Longrightarrow> Config_Lookup ty name d desc c = (Inr (Some x), c1) \<Longrightarrow>
    datas c1 (map tolower name) = Some x \<and> cv_type (config_vars c1 x) = ty"
  by (auto simp: Config_Lookup_def Let_def ConfigVar_def valid_name_lower split: option.splits if_splits)

lemma Lookup_again:
  assumes "conf_inv c" and "datas c k = Some x"
  shows "Config_Lookup ty name d desc c = (Inr (Some x), c) \<longleftrightarrow> map tolower name = k \<and> ty = cv_type (config_vars c x)"
    and "Config_find ty name c = Some x \<longleftrightarrow> map tolower name = k \<and> ty = cv_type (config_vars c x)"
proof -
  have new: "next_var c \<noteq> x"
    using assms by (auto simp: conf_inv_def)
  have "datas c (map tolower name) \<noteq> Some x" if "map tolower name \<noteq> k"
    using that assms conf_inv_inj by metis
  with new show "Config_Lookup ty name d desc c = (Inr (Some x), c) \<longleftrightarrow> map tolower name = k \<and> ty = cv_type (config_vars c x)"
      "Config_find ty name c = Some x \<longleftrightarrow> map tolower name = k \<and> ty = cv_type (config_vars c x)"
    using assms(2) by (cases "map tolower name = k"; auto simp: Config_Lookup_def Config_find_def Let_def split: option.splits if_splits)+
qed

text \<open>C32: a variable is registered once: after a lookup has returned it, and whatever is done with the
  registry then, a lookup returns the same variable exactly if its name is the same up to upper and
  lower case and its type is the same, and then changes nothing.\<close>

theorem Config_Lookup_once:
  assumes "conf_reachable frm Y c" and "Config_Lookup ty name d desc c = (Inr (Some x), c1)" and "(conf_step frm Y)\<^sup>*\<^sup>* c1 c2"
  shows "(Config_Lookup ty' name' d' desc' c2 = (Inr (Some x), c2) \<longleftrightarrow> map tolower name' = map tolower name \<and> ty' = ty) \<and>
    (Config_find ty' name' c2 = Some x \<longleftrightarrow> map tolower name' = map tolower name \<and> ty' = ty)"
proof -
  note inv = conf_reachable_inv [OF assms(1)]
  note found = Lookup_found [OF inv assms(2)]
  from conf_steps_keep [OF assms(3) Lookup_inv [OF inv assms(2)]] found
  have "conf_inv c2" "datas c2 (map tolower name) = Some x" "cv_type (config_vars c2 x) = ty"
    by auto
  with Lookup_again [OF this(1,2)] show ?thesis
    by simp
qed

lemma Config_Lookup_once_witness:
  "let c1 = snd (Config_Lookup ''int'' ''a.b'' (5 :: nat) '''' (empty_config 0)); c2 = ConfigVar_setValue 0 7 c1
   in Config_Lookup ''int'' ''A.B'' 9 '''' c2 = (Inr (Some 0), c2) \<and> Config_find ''string'' ''A.B'' c2 \<noteq> Some 0"
proof -
  define c1 :: "nat config" where "c1 = snd (Config_Lookup ''int'' ''a.b'' 5 '''' (empty_config 0))"
  have c1: "Config_Lookup ''int'' ''a.b'' (5 :: nat) '''' (empty_config 0) = (Inr (Some 0), c1)"
    by (simp add: c1_def Config_Lookup_def empty_config_def valid_name_def name_chars_def tolower_def Let_def)
  have "cv_val (config_vars c1 0) = 5"
    by (simp add: c1_def Config_Lookup_def empty_config_def valid_name_def name_chars_def tolower_def ConfigVar_def Let_def)
  then have eq: "ConfigVar_setValue 0 7 c1 = setValue_store 0 7 (snd (setValue_notify 0 7 c1))"
    by (auto simp: ConfigVar_setValue_def setValue_notify_def setValue_store_def set_var_def Let_def)
  have steps: "(conf_step (\<lambda>_ _. None) marked_yaml)\<^sup>*\<^sup>* c1 (ConfigVar_setValue 0 7 c1)"
    unfolding eq by (meson conf_step.notify conf_step.store converse_rtranclp_into_rtranclp rtranclp.rtrancl_refl)
  have "map tolower ''A.B'' = map tolower ''a.b''"
    by code_simp
  with Config_Lookup_once [OF conf_reachable.init c1 steps] show ?thesis
    by (auto simp: Let_def c1_def [symmetric])
qed

text \<open>The changes of a value from \<open>v\<close> to \<open>w\<close>: each starts from what the one before it ended with.\<close>

fun changes_chain :: "'v \<Rightarrow> ('v \<times> 'v) list \<Rightarrow> 'v \<Rightarrow> bool" where
  "changes_chain v [] w \<longleftrightarrow> v = w"
| "changes_chain v ((a, b) # ch) w \<longleftrightarrow> a = v \<and> b \<noteq> a \<and> changes_chain b ch w"

lemma value_changes_chain: "changes_chain v (value_changes v ws) (last (v # ws))"
  by (induction v ws rule: value_changes.induct) auto

text \<open>When values are set one after the other, the listeners of a variable are called in the order
  they were added, once for each change, with an old value that is the new value of the call before;
  the last call reports the value that the variable has in the end.\<close>

theorem setValue_listeners_follow:
  "let c' = foldl (\<lambda>c v. ConfigVar_setValue x v c) c vs
   in \<exists>ch. calls c' = calls c @ concat (map (\<lambda>(old, new). map (\<lambda>(_, cb). (cb, old, new)) (cv_cbs (config_vars c x))) ch) \<and>
     changes_chain (cv_val (config_vars c x)) ch (cv_val (config_vars c' x)) \<and> cv_val (config_vars c' x) = last (cv_val (config_vars c x) # vs)"
  using setValue_all [of x c vs] value_changes_chain [of "cv_val (config_vars c x)" vs] unfolding Let_def by metis

text \<open>\<open>setValue\<close> releases the read lock before it takes the write lock: when two threads set different
  new values, the listeners may hear of one of them last while the other is the one that stays, and
  both calls report the same old value.\<close>

theorem setValue_race:
  assumes "v \<noteq> w" and "v \<noteq> cv_val (config_vars c x)" and "w \<noteq> cv_val (config_vars c x)" and "cv_cbs (config_vars c x) = [(k, cb)]"
  shows "let c1 = snd (setValue_notify x v c); c2 = snd (setValue_notify x w c1); c3 = setValue_store x w c2; c4 = setValue_store x v c3
    in calls c4 = calls c @ [(cb, cv_val (config_vars c x), v), (cb, cv_val (config_vars c x), w)] \<and> cv_val (config_vars c4 x) = v \<and>
      (\<nexists>ch. calls c4 = calls c @ map (\<lambda>(old, new). (cb, old, new)) ch \<and> changes_chain (cv_val (config_vars c x)) ch v)"
proof -
  have "ch = [(a, v), (a, w)]" if "[(cb, a, v), (cb, a, w)] = map (\<lambda>(old, new). (cb, old, new)) ch" for ch and a :: 'a
    using that by (auto simp: Cons_eq_map_conv split: prod.splits)
  then show ?thesis
    using assms by (fastforce simp: setValue_notify_def setValue_store_def Let_def)
qed

lemma setValue_race_witness:
  "let c = snd (ConfigVar_addListener 0 9 (empty_config (0 :: nat)));
       c4 = setValue_store 0 1 (setValue_store 0 2 (snd (setValue_notify 0 2 (snd (setValue_notify 0 1 c)))))
   in calls c4 = [(9, 0, 1), (9, 0, 2)] \<and> cv_val (config_vars c4 0) = 1"
proof -
  define c where "c = snd (ConfigVar_addListener 0 9 (empty_config (0 :: nat)))"
  have "cv_cbs (config_vars c 0) = [(1, 9)]" "cv_val (config_vars c 0) = 0" "calls c = []"
    by (simp_all add: c_def ConfigVar_addListener_def empty_config_def ConfigVar_def Let_def)
  with setValue_race [of 1 2 c 0 1 9] show ?thesis
    by (simp add: Let_def c_def [symmetric])
qed

end
