(* ===== verification/Log_Config.thy ===== *)
theory Log_Config
  imports Logger Config "HOL-Library.Monad_Syntax" "HOL-Library.List_Lexorder" "HOL-Library.Char_ord"
begin

text \<open>
  The last part of \<open>sylar/log.cpp\<close>: the loggers as YAML text, the definitions of loggers that the
  configuration variable \<open>logs\<close> holds, their conversion from and to YAML, and the listener of that
  variable, which sets up the loggers when it changes.
\<close>

section \<open>Loggers as YAML\<close>

text \<open>The text of each node is written out and loaded again; \<open>None\<close> is an exception of \<open>YAML::Load\<close>.\<close>

definition own_pattern :: "appender \<Rightarrow> (yaml \<times> yaml) list" where
  "own_pattern a =
    (case ap_formatter a of
       Some fm \<Rightarrow> if ap_hasFormatter a then [(YScalar ''formatter'', YScalar (fm_pattern fm))] else []
     | None \<Rightarrow> [])"

definition level_entry :: "level \<Rightarrow> (yaml \<times> yaml) list" where
  "level_entry l = (if l \<noteq> UNKNOWN then [(YScalar ''level'', YScalar (LogLevel_ToString l))] else [])"

definition FileLogAppender_toYamlString :: "yaml_lib \<Rightarrow> string \<Rightarrow> appender \<Rightarrow> string" where
  "FileLogAppender_toYamlString Y filename a =
    yaml_emit Y (YMapping ([(YScalar ''type'', YScalar ''FileLogAppender''), (YScalar ''file'', YScalar filename)] @
      level_entry (ap_level a) @ own_pattern a))"

definition StdoutLogAppender_toYamlString :: "yaml_lib \<Rightarrow> appender \<Rightarrow> string" where
  "StdoutLogAppender_toYamlString Y a =
    yaml_emit Y (YMapping ([(YScalar ''type'', YScalar ''StdoutLogAppender'')] @ level_entry (ap_level a) @ own_pattern a))"

definition LogAppender_toYamlString :: "yaml_lib \<Rightarrow> appender \<Rightarrow> string" where
  "LogAppender_toYamlString Y a =
    (case ap_kind a of
       StdoutLogAppender \<Rightarrow> StdoutLogAppender_toYamlString Y a
     | FileLogAppender filename \<Rightarrow> FileLogAppender_toYamlString Y filename a)"

definition Logger_toYamlString :: "yaml_lib \<Rightarrow> log_world \<Rightarrow> nat \<Rightarrow> string option" where
  "Logger_toYamlString Y w l =
    (let lg = loggers w l
     in map_option (\<lambda>ns. yaml_emit Y (YMapping ([(YScalar ''name'', YScalar (lg_name lg))] @ level_entry (lg_level lg) @
            (case lg_formatter lg of Some fm \<Rightarrow> [(YScalar ''formatter'', YScalar (fm_pattern fm))] | None \<Rightarrow> []) @
            (if ns \<noteq> [] then [(YScalar ''appenders'', YSequence ns)] else []))))
          (load_all Y (map (\<lambda>i. LogAppender_toYamlString Y (appenders w i)) (lg_appenders lg))))"

text \<open>\<open>names\<close> are the names of the loggers in ascending order.\<close>

definition LoggerManager_toYamlString :: "yaml_lib \<Rightarrow> string list \<Rightarrow> log_world \<Rightarrow> string option" where
  "LoggerManager_toYamlString Y names w = do {
     texts \<leftarrow> cast_all (\<lambda>name. Option.bind (m_loggers w name) (Logger_toYamlString Y w)) names;
     ns \<leftarrow> load_all Y texts;
     Some (yaml_emit Y (sequence_node ns))
   }"

section \<open>Definitions of loggers\<close>

record log_appender_define =
  lad_type :: int
  lad_level :: level
  lad_formatter :: string
  lad_file :: string

record log_define =
  ld_name :: string
  ld_level :: level
  ld_formatter :: string
  ld_appenders :: "log_appender_define list"

definition new_LogAppenderDefine :: log_appender_define where
  "new_LogAppenderDefine = \<lparr>lad_type = 0, lad_level = UNKNOWN, lad_formatter = '''', lad_file = ''''\<rparr>"

definition new_LogDefine :: log_define where
  "new_LogDefine = \<lparr>ld_name = '''', ld_level = UNKNOWN, ld_formatter = '''', ld_appenders = []\<rparr>"

text \<open>
  \<open>node[key]\<close> of a node that may not be defined, for a string as key: a scalar throws, everything
  else becomes a mapping, and what is not found is not defined.
\<close>

definition yaml_member :: "yaml option \<Rightarrow> string \<Rightarrow> yaml option option" where
  "yaml_member n key =
    (case n of
       Some (YScalar _) \<Rightarrow> None
     | Some (YMapping kvs) \<Rightarrow> Some (map_of kvs (YScalar key))
     | _ \<Rightarrow> Some None)"

text \<open>\<open>node[x]\<close> for each number below the size of the node.\<close>

definition yaml_members :: "yaml_lib \<Rightarrow> yaml \<Rightarrow> yaml option list" where
  "yaml_members Y n =
    map (\<lambda>x. case n of YSequence xs \<Rightarrow> Some (xs ! x) | YMapping kvs \<Rightarrow> yaml_at Y kvs x | _ \<Rightarrow> None) [0..<yaml_size n]"

text \<open>\<open>as<std::string>\<close> of a member, or a default if the member is not defined.\<close>

definition member_text :: "yaml_lib \<Rightarrow> yaml option \<Rightarrow> string \<Rightarrow> string \<Rightarrow> string option" where
  "member_text Y n key d = do {
     m \<leftarrow> yaml_member n key;
     case m of None \<Rightarrow> Some d | Some v \<Rightarrow> yaml_as_string Y v
   }"

text \<open>An appender: what is pushed, which is nothing if the definition is not complete.\<close>

definition appender_level_formatter :: "yaml_lib \<Rightarrow> yaml option \<Rightarrow> log_appender_define \<Rightarrow> log_appender_define list option" where
  "appender_level_formatter Y a lad = do {
     level \<leftarrow> yaml_member a ''level'';
     lv \<leftarrow> (case level of None \<Rightarrow> Some (lad_level lad) | Some v \<Rightarrow> map_option (\<lambda>s. LogLevel_FromString (c_str s)) (yaml_as_string Y v));
     fmt \<leftarrow> member_text Y a ''formatter'' (lad_formatter lad);
     Some [lad\<lparr>lad_level := lv, lad_formatter := fmt\<rparr>]
   }"

definition appender_from_node :: "yaml_lib \<Rightarrow> yaml option \<Rightarrow> log_appender_define list option" where
  "appender_from_node Y a = do {
     t \<leftarrow> yaml_member a ''type'';
     case t of
       None \<Rightarrow> Some []
     | Some v \<Rightarrow> do {
         type \<leftarrow> yaml_as_string Y v;
         if type = ''FileLogAppender'' then do {
           f \<leftarrow> yaml_member a ''file'';
           case f of
             None \<Rightarrow> Some []
           | Some fv \<Rightarrow> do {
               file \<leftarrow> yaml_as_string Y fv;
               appender_level_formatter Y a (new_LogAppenderDefine\<lparr>lad_type := 1, lad_file := file\<rparr>)
             }
         }
         else if type = ''StdoutLogAppender'' then appender_level_formatter Y a (new_LogAppenderDefine\<lparr>lad_type := 2\<rparr>)
         else Some []
       }
   }"

fun appenders_from_nodes :: "yaml_lib \<Rightarrow> yaml option list \<Rightarrow> log_appender_define list option" where
  "appenders_from_nodes Y [] = Some []"
| "appenders_from_nodes Y (a # as) = do {
     lads \<leftarrow> appender_from_node Y a;
     rest \<leftarrow> appenders_from_nodes Y as;
     Some (lads @ rest)
   }"

definition LogDefine_from_string :: "yaml_lib \<Rightarrow> string \<Rightarrow> log_define option" where
  "LogDefine_from_string Y v = do {
     node \<leftarrow> yaml_load Y v;
     name \<leftarrow> yaml_member (Some node) ''name'';
     case name of
       Some (YScalar s) \<Rightarrow> do {
         name \<leftarrow> yaml_as_string Y (YScalar s);
         level \<leftarrow> member_text Y (Some node) ''level'' '''';
         fmt \<leftarrow> member_text Y (Some node) ''formatter'' '''';
         as \<leftarrow> yaml_member (Some node) ''appenders'';
         lads \<leftarrow> (case as of None \<Rightarrow> Some [] | Some n \<Rightarrow> appenders_from_nodes Y (yaml_members Y n));
         Some \<lparr>ld_name = name, ld_level = LogLevel_FromString (c_str level), ld_formatter = fmt, ld_appenders = lads\<rparr>
       }
     | _ \<Rightarrow> Some new_LogDefine
   }"

definition appender_to_node :: "log_appender_define \<Rightarrow> yaml" where
  "appender_to_node a =
    YMapping (
      (if lad_type a = 1 then [(YScalar ''type'', YScalar ''FileLogAppender''), (YScalar ''file'', YScalar (lad_file a))]
       else if lad_type a = 2 then [(YScalar ''type'', YScalar ''StdoutLogAppender'')]
       else []) @
      [(YScalar ''level'', YScalar (LogLevel_ToString (lad_level a))), (YScalar ''formatter'', YScalar (lad_formatter a))])"

definition LogDefine_to_string :: "yaml_lib \<Rightarrow> log_define \<Rightarrow> string" where
  "LogDefine_to_string Y ld =
    yaml_emit Y (YMapping (
      [(YScalar ''name'', YScalar (ld_name ld)), (YScalar ''level'', YScalar (LogLevel_ToString (ld_level ld))),
       (YScalar ''formatter'', YScalar (ld_formatter ld))] @
      (if ld_appenders ld \<noteq> [] then [(YScalar ''appenders'', YSequence (map appender_to_node (ld_appenders ld)))] else [])))"

section \<open>The listener\<close>

text \<open>
  An appender that is neither of the two kinds stays a null pointer. The result of the listener is
  \<open>None\<close> if the fuel of logging was not enough.
\<close>

definition configure_appender :: "(string \<Rightarrow> bool) \<Rightarrow> nat \<Rightarrow> log_appender_define \<Rightarrow> log_world \<Rightarrow> fault + log_world" where
  "configure_appender openable l a w =
    (if lad_type a \<noteq> 1 \<and> lad_type a \<noteq> 2 then Inl Null_Deref
     else
       let (ap, w1) = (if lad_type a = 1 then FileLogAppender_new openable (lad_file a) w else StdoutLogAppender_new w);
           w2 = LogAppender_setLevel ap (lad_level a) w1;
           w3 = (if lad_formatter a \<noteq> '''' then LogAppender_setFormatter_string ap (lad_formatter a) w2 else w2)
       in Inr (Logger_addAppender l ap w3))"

fun configure_appenders :: "(string \<Rightarrow> bool) \<Rightarrow> nat \<Rightarrow> log_appender_define list \<Rightarrow> log_world \<Rightarrow> fault + log_world" where
  "configure_appenders openable l [] w = Inr w"
| "configure_appenders openable l (a # as) w =
    (case configure_appender openable l a w of Inl e \<Rightarrow> Inl e | Inr w1 \<Rightarrow> configure_appenders openable l as w1)"

definition configure_logger :: "(string \<Rightarrow> bool) \<Rightarrow> log_define \<Rightarrow> log_world \<Rightarrow> fault + log_world" where
  "configure_logger openable i w =
    (let (l, w1) = LoggerManager_getLogger (ld_name i) w;
         w2 = Logger_setLevel l (ld_level i) w1;
         w3 = (if ld_formatter i \<noteq> '''' then Logger_setFormatter_string l (ld_formatter i) w2 else w2)
     in configure_appenders openable l (ld_appenders i) (Logger_clearAppenders l w3))"

fun configure_loggers :: "(string \<Rightarrow> bool) \<Rightarrow> log_define list \<Rightarrow> log_world \<Rightarrow> fault + log_world" where
  "configure_loggers openable [] w = Inr w"
| "configure_loggers openable (i # is) w =
    (case configure_logger openable i w of Inl e \<Rightarrow> Inl e | Inr w1 \<Rightarrow> configure_loggers openable is w1)"

definition drop_logger :: "log_define list \<Rightarrow> log_define \<Rightarrow> log_world \<Rightarrow> log_world" where
  "drop_logger new_value i w =
    (if ld_name i \<in> ld_name ` set new_value then w
     else let (l, w1) = LoggerManager_getLogger (ld_name i) w in Logger_clearAppenders l (Logger_setLevel l 100 w1))"

definition on_logger_conf_changed ::
  "nat \<Rightarrow> (string \<Rightarrow> bool) \<Rightarrow> (string \<Rightarrow> nat \<Rightarrow> string) \<Rightarrow> nat \<Rightarrow> string \<Rightarrow> int \<Rightarrow> int \<Rightarrow> nat \<Rightarrow> string \<Rightarrow>
    log_define list \<Rightarrow> log_define list \<Rightarrow> log_world \<Rightarrow> (fault + log_world) option" where
  "on_logger_conf_changed fuel openable strf now file line thread_id fiber_id thread_name old_value new_value w =
    (case SYLAR_LOG_LEVEL fuel openable strf now (manager_root w) INFO file line thread_id fiber_id thread_name
         ''on_logger_conf_changed'' w of
       None \<Rightarrow> None
     | Some (Inl e) \<Rightarrow> Some (Inl e)
     | Some (Inr w0) \<Rightarrow>
         Some (case configure_loggers openable new_value w0 of
           Inl e \<Rightarrow> Inl e
         | Inr w1 \<Rightarrow> Inr (foldl (\<lambda>w i. drop_logger new_value i w) w1 old_value)))"

section \<open>Lemmas\<close>

subsection \<open>Appenders\<close>

lemma reopen_sel:
  "loggers (snd (FileLogAppender_reopen openable i w)) = loggers w"
  "next_appender (snd (FileLogAppender_reopen openable i w)) = next_appender w"
  "next_logger (snd (FileLogAppender_reopen openable i w)) = next_logger w"
  "m_loggers (snd (FileLogAppender_reopen openable i w)) = m_loggers w"
  "manager_root (snd (FileLogAppender_reopen openable i w)) = manager_root w"
  "j \<noteq> i \<Longrightarrow> appenders (snd (FileLogAppender_reopen openable i w)) j = appenders w j"
  "ap_kind (appenders (snd (FileLogAppender_reopen openable i w)) j) = ap_kind (appenders w j)"
  "ap_level (appenders (snd (FileLogAppender_reopen openable i w)) j) = ap_level (appenders w j)"
  "ap_formatter (appenders (snd (FileLogAppender_reopen openable i w)) j) = ap_formatter (appenders w j)"
  by (auto simp: FileLogAppender_reopen_def Let_def split: appender_kind.split option.split)

definition own_format :: "string \<Rightarrow> formatter option \<Rightarrow> formatter option" where
  "own_format s d = (if s \<noteq> '''' \<and> \<not> fm_error (LogFormatter s) then Some (LogFormatter s) else d)"

definition define_kind :: "log_appender_define \<Rightarrow> appender_kind" where
  "define_kind a = (if lad_type a = 1 then FileLogAppender (lad_file a) else StdoutLogAppender)"

text \<open>An appender as its definition asks for, in a logger with a given formatter.\<close>

definition appender_as :: "formatter option \<Rightarrow> log_appender_define \<Rightarrow> appender \<Rightarrow> bool" where
  "appender_as fm a ap \<longleftrightarrow> ap_kind ap = define_kind a \<and> ap_level ap = lad_level a \<and> ap_formatter ap = own_format (lad_formatter a) fm"

lemma configure_appender_spec:
  assumes "lad_type a = 1 \<or> lad_type a = 2"
  obtains w' where "configure_appender openable l a w = Inr w'"
    and "loggers w' = (loggers w)(l := (loggers w l)\<lparr>lg_appenders := lg_appenders (loggers w l) @ [next_appender w]\<rparr>)"
    and "next_appender w' = Suc (next_appender w)" and "next_logger w' = next_logger w"
    and "m_loggers w' = m_loggers w" and "manager_root w' = manager_root w"
    and "\<forall>i. i \<noteq> next_appender w \<longrightarrow> appenders w' i = appenders w i"
    and "appender_as (lg_formatter (loggers w l)) a (appenders w' (next_appender w))"
proof -
  let ?w' = "projr (configure_appender openable l a w)"
  have "configure_appender openable l a w = Inr ?w'"
    using assms by (auto simp: configure_appender_def Let_def split: prod.split)
  moreover have "loggers ?w' = (loggers w)(l := (loggers w l)\<lparr>lg_appenders := lg_appenders (loggers w l) @ [next_appender w]\<rparr>) \<and>
      next_appender ?w' = Suc (next_appender w) \<and> next_logger ?w' = next_logger w \<and> m_loggers ?w' = m_loggers w \<and>
      manager_root ?w' = manager_root w \<and> (\<forall>i. i \<noteq> next_appender w \<longrightarrow> appenders ?w' i = appenders w i) \<and>
      appender_as (lg_formatter (loggers w l)) a (appenders ?w' (next_appender w))"
    using assms by (auto simp: configure_appender_def Let_def FileLogAppender_new_def StdoutLogAppender_new_def LogAppender_setLevel_def
        LogAppender_setFormatter_string_def LogAppender_setFormatter_def Logger_addAppender_def reopen_sel appender_as_def
        define_kind_def own_format_def new_appender_def)
  ultimately show ?thesis
    using that by blast
qed

lemma configure_appenders_spec:
  assumes "\<forall>a \<in> set as. lad_type a = 1 \<or> lad_type a = 2"
  shows "\<exists>w'. configure_appenders openable l as w = Inr w' \<and>
    loggers w' = (loggers w)(l := (loggers w l)\<lparr>lg_appenders := lg_appenders (loggers w l) @ [next_appender w..<next_appender w + length as]\<rparr>) \<and>
    next_appender w' = next_appender w + length as \<and> next_logger w' = next_logger w \<and>
    m_loggers w' = m_loggers w \<and> manager_root w' = manager_root w \<and>
    (\<forall>i < next_appender w. appenders w' i = appenders w i) \<and>
    (\<forall>j < length as. appender_as (lg_formatter (loggers w l)) (as ! j) (appenders w' (next_appender w + j)))"
  using assms
proof (induction as arbitrary: w)
  case (Cons a as)
  from Cons.prems have "lad_type a = 1 \<or> lad_type a = 2"
    by simp
  from configure_appender_spec [OF this, of openable l w] obtain w1 where w1: "configure_appender openable l a w = Inr w1"
    "loggers w1 = (loggers w)(l := (loggers w l)\<lparr>lg_appenders := lg_appenders (loggers w l) @ [next_appender w]\<rparr>)"
    "next_appender w1 = Suc (next_appender w)" "next_logger w1 = next_logger w" "m_loggers w1 = m_loggers w"
    "manager_root w1 = manager_root w" "\<forall>i. i \<noteq> next_appender w \<longrightarrow> appenders w1 i = appenders w i"
    "appender_as (lg_formatter (loggers w l)) a (appenders w1 (next_appender w))"
    by blast
  from Cons.prems have "\<forall>a \<in> set as. lad_type a = 1 \<or> lad_type a = 2"
    by simp
  from Cons.IH [OF this, of w1] obtain w2 where w2: "configure_appenders openable l as w1 = Inr w2"
    "loggers w2 = (loggers w1)(l := (loggers w1 l)\<lparr>lg_appenders := lg_appenders (loggers w1 l) @ [next_appender w1..<next_appender w1 + length as]\<rparr>)"
    "next_appender w2 = next_appender w1 + length as" "next_logger w2 = next_logger w1" "m_loggers w2 = m_loggers w1"
    "manager_root w2 = manager_root w1" "\<forall>i < next_appender w1. appenders w2 i = appenders w1 i"
    "\<forall>j < length as. appender_as (lg_formatter (loggers w1 l)) (as ! j) (appenders w2 (next_appender w1 + j))"
    by blast
  have "appender_as (lg_formatter (loggers w l)) ((a # as) ! j) (appenders w2 (next_appender w + j))" if "j < length (a # as)" for j
    using that w1 w2(7,8) by (cases j) simp_all
  moreover have "next_appender w # [Suc (next_appender w)..<Suc (next_appender w + length as)] = [next_appender w..<Suc (next_appender w + length as)]"
    by (simp add: upt_conv_Cons del: upt_Suc)
  ultimately show ?case
    using w1 w2 by (simp add: fun_eq_iff del: upt_Suc)
qed simp

subsection \<open>Loggers\<close>

text \<open>The logger of a name, made if there is none.\<close>

lemma getLogger_sel:
  assumes "log_inv w" and "name \<noteq> ''''" and "LoggerManager_getLogger name w = (l, w1)"
  shows "m_loggers w1 name = Some l" and "l < next_logger w1" and "log_inv w1" and "appenders w1 = appenders w"
    and "next_appender w1 = next_appender w" and "manager_root w1 = manager_root w"
    and "n \<noteq> name \<Longrightarrow> m_loggers w1 n = m_loggers w n" and "k < next_logger w \<Longrightarrow> loggers w1 k = loggers w k"
    and "next_logger w \<le> next_logger w1" and "m_loggers w name = Some k \<Longrightarrow> w1 = w \<and> l = k"
    and "m_loggers w name = None \<Longrightarrow> lg_formatter (loggers w1 l) = Some (LogFormatter default_pattern) \<and> lg_appenders (loggers w1 l) = []"
proof -
  note eq = assms(2,3)
  show inv: "log_inv w1"
    using getLogger_inv [OF assms(1), of name] eq by simp
  have "name \<noteq> ''root''" if "m_loggers w name = None"
    using that assms(1) by (auto simp: log_inv_def)
  then show "m_loggers w1 name = Some l" "appenders w1 = appenders w" "next_appender w1 = next_appender w" "manager_root w1 = manager_root w"
    "n \<noteq> name \<Longrightarrow> m_loggers w1 n = m_loggers w n" "k < next_logger w \<Longrightarrow> loggers w1 k = loggers w k" "next_logger w \<le> next_logger w1"
    "m_loggers w name = Some k \<Longrightarrow> w1 = w \<and> l = k"
    "m_loggers w name = None \<Longrightarrow> lg_formatter (loggers w1 l) = Some (LogFormatter default_pattern) \<and> lg_appenders (loggers w1 l) = []"
    using eq by (auto simp: LoggerManager_getLogger_def Logger_new_def Let_def split: option.splits)
  then show "l < next_logger w1"
    using log_invD(5) [OF inv] by blast
qed

definition formatter_before :: "log_world \<Rightarrow> string \<Rightarrow> formatter option" where
  "formatter_before w name = (case m_loggers w name of None \<Rightarrow> Some (LogFormatter default_pattern) | Some l \<Rightarrow> lg_formatter (loggers w l))"

text \<open>
  A logger as its definition asks for: \<open>fm\<close> is the formatter it had, and its appenders, which have
  numbers from \<open>n\<close> on, are as defined, in order.
\<close>

definition configured :: "nat \<Rightarrow> formatter option \<Rightarrow> log_world \<Rightarrow> log_define \<Rightarrow> bool" where
  "configured n fm w ld \<longleftrightarrow> (\<exists>l. m_loggers w (ld_name ld) = Some l \<and> lg_level (loggers w l) = ld_level ld \<and>
    lg_formatter (loggers w l) = own_format (ld_formatter ld) fm \<and> (\<forall>i \<in> set (lg_appenders (loggers w l)). n \<le> i \<and> i < next_appender w) \<and>
    list_all2 (\<lambda>a i. appender_as (own_format (ld_formatter ld) fm) a (appenders w i)) (ld_appenders ld) (lg_appenders (loggers w l)))"

definition define_ok :: "log_define \<Rightarrow> bool" where
  "define_ok ld \<longleftrightarrow> ld_name ld \<noteq> '''' \<and> (\<forall>a \<in> set (ld_appenders ld). lad_type a = 1 \<or> lad_type a = 2)"

text \<open>What happens to the loggers with other names, and to appenders that are not the logger's own.\<close>

definition others_same :: "log_world \<Rightarrow> log_world \<Rightarrow> string set \<Rightarrow> bool" where
  "others_same w w' names \<longleftrightarrow> next_appender w \<le> next_appender w' \<and> next_logger w \<le> next_logger w' \<and> manager_root w' = manager_root w \<and>
    (\<forall>n. n \<notin> names \<longrightarrow> m_loggers w' n = m_loggers w n \<and> (\<forall>l. m_loggers w n = Some l \<longrightarrow> loggers w' l = loggers w l))"

lemma others_same_trans: "others_same w w1 A \<Longrightarrow> others_same w1 w2 B \<Longrightarrow> others_same w w2 (A \<union> B)"
  by (auto simp: others_same_def)

lemma setFormatter_string_sel:
  "loggers (Logger_setFormatter_string l s w) =
    (if fm_error (LogFormatter s) then loggers w else (loggers w)(l := (loggers w l)\<lparr>lg_formatter := Some (LogFormatter s)\<rparr>))"
  "next_appender (Logger_setFormatter_string l s w) = next_appender w" "next_logger (Logger_setFormatter_string l s w) = next_logger w"
  "m_loggers (Logger_setFormatter_string l s w) = m_loggers w" "manager_root (Logger_setFormatter_string l s w) = manager_root w"
  "i \<notin> set (lg_appenders (loggers w l)) \<Longrightarrow> appenders (Logger_setFormatter_string l s w) i = appenders w i"
  by (auto simp: Logger_setFormatter_string_def Logger_setFormatter_def inherit_formatter_sel Let_def)

lemma configure_appender_inv:
  assumes "log_inv w" and "l < next_logger w" and "configure_appender openable l a w = Inr w'"
  shows "log_inv w' \<and> next_logger w' = next_logger w"
proof -
  define ap1 where "ap1 = (if lad_type a = 1 then FileLogAppender_new openable (lad_file a) w else StdoutLogAppender_new w)"
  define w3 where "w3 = (let w2 = LogAppender_setLevel (fst ap1) (lad_level a) (snd ap1)
    in if lad_formatter a \<noteq> '''' then LogAppender_setFormatter_string (fst ap1) (lad_formatter a) w2 else w2)"
  have "log_inv (snd ap1)"
    using appender_inv(4,5) [OF assms(1)] by (simp add: ap1_def)
  then have "log_inv w3"
    using appender_inv(2,3) by (simp add: w3_def Let_def)
  moreover have "fst ap1 < next_appender w3" "next_logger w3 = next_logger w"
    by (simp_all add: w3_def ap1_def FileLogAppender_new_def StdoutLogAppender_new_def Let_def reopen_sel LogAppender_setLevel_def
        LogAppender_setFormatter_string_def LogAppender_setFormatter_def)
  moreover have "w' = Logger_addAppender l (fst ap1) w3"
    using assms(3) by (simp add: configure_appender_def w3_def ap1_def case_prod_beta Let_def split: if_splits)
  moreover have "next_logger (Logger_addAppender l (fst ap1) w3) = next_logger w3"
    by (simp add: Logger_addAppender_def Let_def)
  ultimately show ?thesis
    using addAppender_inv assms(2) by simp
qed

lemma configure_appenders_inv:
  "log_inv w \<Longrightarrow> l < next_logger w \<Longrightarrow> configure_appenders openable l as w = Inr w' \<Longrightarrow> log_inv w'"
  by (induction openable l as w rule: configure_appenders.induct) (auto split: sum.splits dest: configure_appender_inv)

lemma configure_logger_spec:
  assumes "log_inv w" and "define_ok ld"
  shows "\<exists>w'. configure_logger openable ld w = Inr w' \<and> log_inv w' \<and> others_same w w' {ld_name ld} \<and>
    configured (next_appender w) (formatter_before w (ld_name ld)) w' ld \<and>
    (\<forall>i < next_appender w. (\<forall>l. m_loggers w (ld_name ld) = Some l \<longrightarrow> i \<notin> set (lg_appenders (loggers w l))) \<longrightarrow> appenders w' i = appenders w i)"
proof -
  obtain l w1 where lw1: "LoggerManager_getLogger (ld_name ld) w = (l, w1)"
    by fastforce
  have name: "ld_name ld \<noteq> ''''" "\<forall>a \<in> set (ld_appenders ld). lad_type a = 1 \<or> lad_type a = 2"
    using assms(2) by (auto simp: define_ok_def)
  note w1 = getLogger_sel [OF assms(1) name(1) lw1]
  define w2 where "w2 = Logger_setLevel l (ld_level ld) w1"
  define w3 where "w3 = (if ld_formatter ld \<noteq> '''' then Logger_setFormatter_string l (ld_formatter ld) w2 else w2)"
  define w4 where "w4 = Logger_clearAppenders l w3"
  have w2: "log_inv w2" "next_logger w2 = next_logger w1"
    using setup_inv(3) [OF w1(3,2)] by (simp_all add: w2_def Logger_setLevel_def)
  have w3: "log_inv w3" "next_logger w3 = next_logger w1"
    using setFormatter_inv(2) [OF w2(1)] w1(2) w2 by (simp_all add: w3_def setFormatter_string_sel)
  have w4: "log_inv w4" "next_logger w4 = next_logger w1"
    using setup_inv(2) [OF w3(1)] w3(2) w1(2) by (simp_all add: w4_def Logger_clearAppenders_def)
  define fm where "fm = own_format (ld_formatter ld) (formatter_before w (ld_name ld))"
  have "lg_formatter (loggers w1 l) = formatter_before w (ld_name ld)"
    using w1(10,11) by (auto simp: formatter_before_def split: option.split)
  then have l4: "loggers w4 = (loggers w1)(l := (loggers w1 l)\<lparr>lg_level := ld_level ld, lg_formatter := fm, lg_appenders := []\<rparr>)"
    by (auto simp: w4_def w3_def w2_def Logger_clearAppenders_def Logger_setLevel_def setFormatter_string_sel fm_def own_format_def)
  have s4: "next_appender w4 = next_appender w" "m_loggers w4 = m_loggers w1" "manager_root w4 = manager_root w"
    using w1(5,6) by (simp_all add: w4_def w3_def w2_def Logger_clearAppenders_def Logger_setLevel_def setFormatter_string_sel)
  have a4: "appenders w4 i = appenders w i" if "i \<notin> set (lg_appenders (loggers w1 l))" for i
    using that w1(4) by (simp add: w4_def w3_def w2_def Logger_clearAppenders_def Logger_setLevel_def setFormatter_string_sel)
  obtain w' where w': "configure_appenders openable l (ld_appenders ld) w4 = Inr w'"
    "loggers w' = (loggers w4)(l := (loggers w4 l)\<lparr>lg_appenders := [next_appender w..<next_appender w + length (ld_appenders ld)]\<rparr>)"
    "next_appender w' = next_appender w + length (ld_appenders ld)" "next_logger w' = next_logger w4"
    "m_loggers w' = m_loggers w4" "manager_root w' = manager_root w4" "\<forall>i < next_appender w. appenders w' i = appenders w4 i"
    "\<forall>j < length (ld_appenders ld). appender_as fm (ld_appenders ld ! j) (appenders w' (next_appender w + j))"
    using configure_appenders_spec [OF name(2), of openable l w4] by (auto simp: s4 l4)
  have "configure_logger openable ld w = Inr w'"
    using w'(1) by (auto simp: configure_logger_def lw1 Let_def w3_def w4_def simp flip: w2_def split: if_splits)
  moreover have "log_inv w'"
    using configure_appenders_inv [OF w4(1) _ w'(1)] w4(2) w1(2) by simp
  moreover have "others_same w w' {ld_name ld}"
    using w' s4 l4 w1(7,8,9) w4(2) log_invD(5) [OF assms(1)] log_invD(5) [OF w1(3)] w1(1)
    by (auto simp: others_same_def) metis
  moreover have "configured (next_appender w) (formatter_before w (ld_name ld)) w' ld"
    using w' s4 l4 w1(1) by (auto simp: configured_def fm_def list_all2_conv_all_nth)
  moreover have "appenders w' i = appenders w i"
    if "i < next_appender w" "\<forall>l. m_loggers w (ld_name ld) = Some l \<longrightarrow> i \<notin> set (lg_appenders (loggers w l))" for i
  proof (cases "m_loggers w (ld_name ld)")
    case None
    with that(1) w'(7) a4 w1(11) show ?thesis
      by simp
  next
    case (Some k)
    with that w'(7) a4 w1(10) show ?thesis
      by auto
  qed
  ultimately show ?thesis
    by blast
qed

lemma configured_frame:
  assumes "configured n fm w ld" and "others_same w w' A" and "ld_name ld \<notin> A"
    and "\<forall>i. n \<le> i \<and> i < next_appender w \<longrightarrow> appenders w' i = appenders w i"
  shows "configured n fm w' ld"
proof -
  from assms(1) obtain l where l: "m_loggers w (ld_name ld) = Some l" "lg_level (loggers w l) = ld_level ld"
    "lg_formatter (loggers w l) = own_format (ld_formatter ld) fm" "\<forall>i \<in> set (lg_appenders (loggers w l)). n \<le> i \<and> i < next_appender w"
    "list_all2 (\<lambda>a i. appender_as (own_format (ld_formatter ld) fm) a (appenders w i)) (ld_appenders ld) (lg_appenders (loggers w l))"
    by (auto simp: configured_def)
  have "list_all2 (\<lambda>a i. appender_as (own_format (ld_formatter ld) fm) a (appenders w' i)) (ld_appenders ld) (lg_appenders (loggers w l))"
    using l(4,5) assms(4) by (auto simp: list_all2_conv_all_nth)
  moreover have "m_loggers w' (ld_name ld) = Some l" "loggers w' l = loggers w l" "next_appender w \<le> next_appender w'"
    using assms(2,3) l(1) by (auto simp: others_same_def)
  ultimately show ?thesis
    using l unfolding configured_def by (intro exI [of _ l]) auto
qed

lemma configured_mono: "n \<le> m \<Longrightarrow> configured m fm w ld \<Longrightarrow> configured n fm w ld"
  unfolding configured_def by (meson order_trans)

definition untouched :: "log_world \<Rightarrow> string set \<Rightarrow> nat \<Rightarrow> bool" where
  "untouched w names i \<longleftrightarrow> (\<forall>n \<in> names. \<forall>l. m_loggers w n = Some l \<longrightarrow> i \<notin> set (lg_appenders (loggers w l)))"

lemma untouched_same: "others_same w w' A \<Longrightarrow> B \<inter> A = {} \<Longrightarrow> untouched w' B i \<longleftrightarrow> untouched w B i"
  unfolding untouched_def others_same_def by (metis disjoint_iff)

lemma untouched_new: "log_inv w \<Longrightarrow> next_appender w \<le> i \<Longrightarrow> untouched w B i"
  using log_invD(2,5) unfolding untouched_def by (meson leD)

lemma formatter_before_same: "others_same w w' A \<Longrightarrow> n \<notin> A \<Longrightarrow> formatter_before w' n = formatter_before w n"
  by (auto simp: others_same_def formatter_before_def split: option.split)

lemma configure_loggers_spec:
  assumes "log_inv w" and "\<forall>ld \<in> set new. define_ok ld" and "distinct (map ld_name new)"
  shows "\<exists>w'. configure_loggers openable new w = Inr w' \<and> log_inv w' \<and> others_same w w' (ld_name ` set new) \<and>
    (\<forall>ld \<in> set new. configured (next_appender w) (formatter_before w (ld_name ld)) w' ld) \<and>
    (\<forall>i < next_appender w. untouched w (ld_name ` set new) i \<longrightarrow> appenders w' i = appenders w i)"
  using assms
proof (induction new arbitrary: w)
  case Nil
  then show ?case
    by (simp add: others_same_def)
next
  case (Cons ld new)
  have disj: "ld_name ` set new \<inter> {ld_name ld} = {}"
    using Cons.prems(3) by auto
  obtain w1 where w1: "configure_logger openable ld w = Inr w1" "log_inv w1" "others_same w w1 {ld_name ld}"
    "configured (next_appender w) (formatter_before w (ld_name ld)) w1 ld"
    "\<forall>i < next_appender w. untouched w {ld_name ld} i \<longrightarrow> appenders w1 i = appenders w i"
    using configure_logger_spec [OF Cons.prems(1), of ld openable] Cons.prems(2) by (auto simp: untouched_def)
  obtain w2 where w2: "configure_loggers openable new w1 = Inr w2" "log_inv w2" "others_same w1 w2 (ld_name ` set new)"
    "\<forall>ld \<in> set new. configured (next_appender w1) (formatter_before w1 (ld_name ld)) w2 ld"
    "\<forall>i < next_appender w1. untouched w1 (ld_name ` set new) i \<longrightarrow> appenders w2 i = appenders w1 i"
    using Cons.IH [OF w1(2)] Cons.prems(2,3) by auto
  have le: "next_appender w \<le> next_appender w1"
    using w1(3) by (simp add: others_same_def)
  note same = untouched_same [OF w1(3) disj]
  have "configured (next_appender w) (formatter_before w (ld_name ld)) w2 ld"
    using w2(5) same untouched_new [OF Cons.prems(1)] disj by (intro configured_frame [OF w1(4) w2(3)]) auto
  moreover have "configured (next_appender w) (formatter_before w (ld_name i)) w2 i" if "i \<in> set new" for i
  proof -
    have "ld_name i \<notin> {ld_name ld}"
      using that disj by blast
    then show ?thesis
      using w2(4) that configured_mono [OF le] formatter_before_same [OF w1(3)] by metis
  qed
  moreover have "appenders w2 i = appenders w i" if "i < next_appender w" "untouched w (ld_name ` set (ld # new)) i" for i
    using that w1(5) w2(5) same le by (simp add: untouched_def)
  moreover have "others_same w w2 (ld_name ` set (ld # new))"
    using others_same_trans [OF w1(3) w2(3)] by simp
  ultimately show ?case
    using w1(1) w2(1,2) by auto
qed

text \<open>A logger that logs nothing, since it has a level above all others and no appenders.\<close>

definition silent :: "log_world \<Rightarrow> string \<Rightarrow> bool" where
  "silent w name \<longleftrightarrow> (\<exists>l. m_loggers w name = Some l \<and> lg_level (loggers w l) = 100 \<and> lg_appenders (loggers w l) = [])"

lemma silent_same: "others_same w w' A \<Longrightarrow> name \<notin> A \<Longrightarrow> silent w name \<Longrightarrow> silent w' name"
  by (auto simp: others_same_def silent_def)

lemma drop_logger_spec:
  assumes "log_inv w" and "ld_name ld \<noteq> ''''"
  shows "log_inv (drop_logger new ld w) \<and> others_same w (drop_logger new ld w) ({ld_name ld} - ld_name ` set new) \<and>
    appenders (drop_logger new ld w) = appenders w \<and> (ld_name ld \<notin> ld_name ` set new \<longrightarrow> silent (drop_logger new ld w) (ld_name ld))"
proof (cases "ld_name ld \<in> ld_name ` set new")
  case True
  with assms show ?thesis
    by (simp add: drop_logger_def others_same_def)
next
  case False
  obtain l w1 where lw1: "LoggerManager_getLogger (ld_name ld) w = (l, w1)"
    by fastforce
  note w1 = getLogger_sel [OF assms lw1]
  have eq: "drop_logger new ld w = Logger_clearAppenders l (Logger_setLevel l 100 w1)"
    using False by (simp add: drop_logger_def lw1)
  have "log_inv (Logger_setLevel l 100 w1)" "l < next_logger (Logger_setLevel l 100 w1)"
    using setup_inv(3) [OF w1(3,2)] w1(2) by (simp_all add: Logger_setLevel_def)
  then have "log_inv (drop_logger new ld w)"
    using setup_inv(2) eq by simp
  moreover have "others_same w (drop_logger new ld w) {ld_name ld}"
    using w1(5-9) log_invD(5) [OF assms(1)] log_invD(5) [OF w1(3)] w1(1)
    by (auto simp: others_same_def eq Logger_clearAppenders_def Logger_setLevel_def) metis
  moreover have "appenders (drop_logger new ld w) = appenders w" "silent (drop_logger new ld w) (ld_name ld)"
    using w1(1,4) by (auto simp: eq silent_def Logger_clearAppenders_def Logger_setLevel_def)
  ultimately show ?thesis
    using False by (simp add: insert_Diff_if)
qed

lemma drop_loggers_spec:
  assumes "log_inv w" and "\<forall>ld \<in> set old. ld_name ld \<noteq> ''''"
  shows "let w' = foldl (\<lambda>w i. drop_logger new i w) w old
    in log_inv w' \<and> others_same w w' (ld_name ` set old - ld_name ` set new) \<and> appenders w' = appenders w \<and>
      (\<forall>n \<in> ld_name ` set old - ld_name ` set new. silent w' n)"
  using assms unfolding Let_def
proof (induction old rule: rev_induct)
  case Nil
  then show ?case
    by (simp add: others_same_def)
next
  case (snoc ld old)
  let ?w = "foldl (\<lambda>w i. drop_logger new i w) w old"
  have IH: "log_inv ?w" "others_same w ?w (ld_name ` set old - ld_name ` set new)" "appenders ?w = appenders w"
    "\<forall>n \<in> ld_name ` set old - ld_name ` set new. silent ?w n"
    using snoc by auto
  from drop_logger_spec [OF IH(1), of ld new] snoc.prems(2)
  have d: "log_inv (drop_logger new ld ?w)" "others_same ?w (drop_logger new ld ?w) ({ld_name ld} - ld_name ` set new)"
    "appenders (drop_logger new ld ?w) = appenders ?w" "ld_name ld \<notin> ld_name ` set new \<longrightarrow> silent (drop_logger new ld ?w) (ld_name ld)"
    by auto
  have "others_same w (drop_logger new ld ?w) (ld_name ` set (old @ [ld]) - ld_name ` set new)"
    using others_same_trans [OF IH(2) d(2)] by (simp add: Un_Diff [symmetric] Un_commute)
  moreover have "silent (drop_logger new ld ?w) n" if "n \<in> ld_name ` set (old @ [ld]) - ld_name ` set new" for n
    using that d(4) IH(4) silent_same [OF d(2)] by (cases "n = ld_name ld") auto
  ultimately show ?case
    using d(1,3) IH(3) by simp
qed

subsection \<open>Logging what happens\<close>

lemma log_all_ok:
  "files_ok w \<Longrightarrow> \<forall>i \<in> set is. ap_formatter (appenders w i) \<noteq> None \<Longrightarrow>
    \<exists>w'. log_all (LogAppender_log openable strf now level event) is w = Inr w'"
proof (induction "is" arbitrary: w)
  case (Cons i "is")
  have "\<exists>w1. LogAppender_log openable strf now level event i w = Inr w1"
    using Cons.prems(2) by (auto simp: LogAppender_log_def StdoutLogAppender_log_def FileLogAppender_log_def Let_def reopen_sel
        split: appender_kind.split option.split)
  then obtain w1 where w1: "LogAppender_log openable strf now level event i w = Inr w1"
    by blast
  from LogAppender_log_keeps [OF Cons.prems(1) this] have "files_ok w1" "\<forall>i \<in> set is. ap_formatter (appenders w1 i) \<noteq> None"
    using Cons.prems(2) by (auto simp: same_setup_def)
  from Cons.IH [OF this] w1 show ?case
    by simp
qed simp

lemma SYLAR_LOG_LEVEL_ok:
  assumes "log_inv w" and "files_ok w" and "l < next_logger w"
  shows "\<exists>w'. SYLAR_LOG_LEVEL (Suc (Suc fuel)) openable strf now l level file line thread_id fiber_id thread_name message w = Some (Inr w') \<and>
    same_setup w w'"
proof (cases "lg_level (loggers w l) \<le> level")
  case True
  obtain event where event: "SYLAR_LOG_LEVEL (Suc (Suc fuel)) openable strf now l level file line thread_id fiber_id thread_name message w =
      Logger_log (Suc (Suc fuel)) openable strf now level event l w"
    using True by (simp add: SYLAR_LOG_LEVEL_def LogEventWrap_log_def LogEvent_def del: Logger_log.simps)
  have "\<exists>w'. log_all (LogAppender_log openable strf now level event) (log_targets w level l) w = Inr w'"
    by (rule log_all_ok [OF assms(2)]) (use log_targets_ok [OF assms(1,3)] in blast)
  then obtain w' where w': "Logger_log (Suc (Suc fuel)) openable strf now level event l w = Some (Inr w')"
    unfolding Logger_log_targets [OF assms(1,3)] by blast
  with Logger_log_keeps [OF assms(2) this] event show ?thesis
    by auto
next
  case False
  then show ?thesis
    by (simp add: SYLAR_LOG_LEVEL_def)
qed

lemma same_setup_configured:
  assumes "same_setup w w'"
  shows "formatter_before w' n = formatter_before w n" and "others_same w w' {}"
  using assms by (auto simp: same_setup_def formatter_before_def others_same_def split: option.split)

section \<open>Properties\<close>



text \<open>A definition without a name, or whose name is no scalar, is not left out: it becomes a
  definition with an empty name, and configuring that sets up the root logger with no appenders,
  so that it and every logger without appenders of its own logs nothing any more.\<close>

theorem nameless_definition_silences_root:
  assumes "log_reachable openable strf w" and "yaml_load Y v = Some node" and "yaml_member (Some node) ''name'' = Some m"
    and "\<forall>s. m \<noteq> Some (YScalar s)"
  shows "LogDefine_from_string Y v = Some new_LogDefine \<and>
    (\<exists>w'. on_logger_conf_changed (Suc (Suc fuel)) openable strf now file line thread_id fiber_id thread_name [] [new_LogDefine] w = Some (Inr w') \<and>
      (\<forall>level l. l < next_logger w \<and> (l = manager_root w \<or> lg_appenders (loggers w l) = []) \<longrightarrow> log_targets w' level l = []))"
proof -
  note inv = log_reachable_inv [OF assms(1)]
  obtain w0 where w0: "SYLAR_LOG_LEVEL (Suc (Suc fuel)) openable strf now (manager_root w) INFO file line thread_id fiber_id thread_name
      ''on_logger_conf_changed'' w = Some (Inr w0)" "same_setup w w0"
    using SYLAR_LOG_LEVEL_ok log_invD(4) inv by blast
  let ?w' = "Logger_clearAppenders (manager_root w) (Logger_setLevel (manager_root w) UNKNOWN w0)"
  have "on_logger_conf_changed (Suc (Suc fuel)) openable strf now file line thread_id fiber_id thread_name [] [new_LogDefine] w = Some (Inr ?w')"
    using w0 by (simp add: on_logger_conf_changed_def configure_logger_def LoggerManager_getLogger_def new_LogDefine_def same_setup_def
        del: Logger_log.simps)
  moreover have "log_targets ?w' level l = []" if "l < next_logger w" "l = manager_root w \<or> lg_appenders (loggers w l) = []" for level l
    using that w0(2) log_invD(3) inv by (auto simp: log_targets_def Logger_clearAppenders_def Logger_setLevel_def same_setup_def)
  moreover have "LogDefine_from_string Y v = Some new_LogDefine"
    using assms(2-4) by (auto simp: LogDefine_from_string_def split: option.split yaml.split)
  ultimately show ?thesis
    by blast
qed

lemma nameless_definition_silences_root_witness:
  "LogDefine_from_string marked_yaml (marked (YMapping [(YScalar ''level'', YScalar ''info'')])) = Some new_LogDefine \<and>
   (\<exists>w'. on_logger_conf_changed 2 (\<lambda>_. True) (\<lambda>_ _. ''now'') 5 ''log.cpp'' 766 7 1 ''main'' [] [new_LogDefine] (LoggerManager empty_world) = Some (Inr w') \<and>
     log_targets w' FATAL 0 = [])"
proof -
  let ?n = "YMapping [(YScalar ''level'', YScalar ''info'')]" and ?w = "LoggerManager empty_world"
  have "yaml_load marked_yaml (marked ?n) = Some ?n"
    using marked_yaml_laws by (simp add: yaml_laws_def marked_yaml_def del: marked.simps)
  moreover have "yaml_member (Some ?n) ''name'' = Some None"
    by (simp add: yaml_member_def)
  moreover have "0 < next_logger ?w" "manager_root ?w = 0"
    by (simp_all add: LoggerManager_def Logger_new_def StdoutLogAppender_new_def Logger_addAppender_def empty_world_def Let_def)
  ultimately show ?thesis
    using nameless_definition_silences_root [OF log_reachable.init [of "\<lambda>_. True" "\<lambda>_ _. ''now''"], of marked_yaml "marked ?n" ?n None
        0 5 "''log.cpp''" 766 7 1 "''main''"] by (fastforce simp: numeral_2_eq_2)
qed

text \<open>A definition that the text can tell: known levels and kinds, and a file only for a file appender.\<close>

definition appender_plain :: "log_appender_define \<Rightarrow> bool" where
  "appender_plain a \<longleftrightarrow> lad_level a \<le> FATAL \<and> (lad_type a = 1 \<or> lad_type a = 2 \<and> lad_file a = '''')"

definition define_plain :: "log_define \<Rightarrow> bool" where
  "define_plain ld \<longleftrightarrow> ld_level ld \<le> FATAL \<and> (\<forall>a \<in> set (ld_appenders ld). appender_plain a)"

lemma level_text: "l \<le> FATAL \<Longrightarrow> LogLevel_FromString (c_str (LogLevel_ToString l)) = l"
proof -
  have "list_all (\<lambda>l. LogLevel_FromString (c_str (LogLevel_ToString l)) = l) [0, 1, 2, 3, 4, 5]"
    by code_simp
  moreover assume "l \<le> FATAL"
  then have "l \<in> set [0, 1, 2, 3, 4, 5]"
    by (auto simp: FATAL_def)
  ultimately show ?thesis
    by (simp only: list_all_iff)
qed

lemma no_level_text: "LogLevel_FromString (c_str '''') = UNKNOWN"
  by (simp add: LogLevel_FromString_def c_str_def)

lemma yaml_laws_scalar [simp]: "yaml_laws Y \<Longrightarrow> yaml_as_string Y (YScalar s) = Some s"
  by (simp add: yaml_laws_def)

lemma appender_from_to_node:
  assumes "yaml_laws Y" and "appender_plain a"
  shows "appender_from_node Y (Some (appender_to_node a)) = Some [a]"
  using assms by (auto simp: appender_from_node_def appender_to_node_def yaml_member_def member_text_def appender_level_formatter_def
      appender_plain_def new_LogAppenderDefine_def level_text)

lemma appenders_from_to_nodes:
  assumes "yaml_laws Y"
  shows "\<forall>a \<in> set as. appender_plain a \<Longrightarrow> appenders_from_nodes Y (map (\<lambda>a. Some (appender_to_node a)) as) = Some as"
  by (induction as) (simp_all add: appender_from_to_node assms)

lemma yaml_members_sequence [simp]: "yaml_members Y (YSequence xs) = map Some xs"
  by (auto simp: yaml_members_def yaml_size_def intro: nth_equalityI)

lemma LogDefine_from_to:
  assumes "yaml_laws Y" and "define_plain ld"
  shows "LogDefine_from_string Y (LogDefine_to_string Y ld) = Some ld"
proof -
  let ?apps = "if ld_appenders ld \<noteq> [] then [(YScalar ''appenders'', YSequence (map appender_to_node (ld_appenders ld)))] else []"
  have "appenders_from_nodes Y (map (Some \<circ> appender_to_node) (ld_appenders ld)) = Some (ld_appenders ld)"
    using appenders_from_to_nodes [OF assms(1)] assms(2) by (simp add: define_plain_def comp_def)
  then show ?thesis
    using assms by (cases "ld_appenders ld = []")
      (auto simp: LogDefine_from_string_def LogDefine_to_string_def yaml_laws_def yaml_member_def member_text_def level_text define_plain_def)
qed

lemma LogDefine_cast_ok: "yaml_laws Y \<Longrightarrow> cast_ok Y {ld. define_plain ld} (LogDefine_to_string Y) (LogDefine_from_string Y)"
proof -
  assume Y: "yaml_laws Y"
  show ?thesis
    unfolding cast_ok_def
  proof
    fix ld
    assume "ld \<in> {ld. define_plain ld}"
    then have "LogDefine_from_string Y (LogDefine_to_string Y ld) = Some ld"
      by (simp add: LogDefine_from_to [OF Y])
    moreover obtain n where "LogDefine_to_string Y ld = yaml_emit Y n"
      by (simp add: LogDefine_to_string_def)
    ultimately show "\<exists>n. yaml_load Y (LogDefine_to_string Y ld) = Some n \<and> LogDefine_from_string Y (yaml_emit Y n) = Some ld"
      using Y by (auto simp: yaml_laws_def)
  qed
qed

text \<open>The value of \<open>logs\<close> survives being written to YAML and read back: every set of definitions
  with known levels and kinds of appender, sorted by the names of their loggers.\<close>

theorem LogDefine_set_roundtrip:
  assumes "yaml_laws Y" and "\<forall>ld \<in> set lds. define_plain ld" and "sorted (map ld_name lds)" and "distinct (map ld_name lds)"
  shows "\<exists>s. set_to_string Y (LogDefine_to_string Y) lds = Some s \<and> set_from_string Y ld_name (LogDefine_from_string Y) s = Some lds"
proof -
  have "set lds \<subseteq> {ld. define_plain ld}"
    using assms(2) by auto
  from vector_roundtrip [OF assms(1) LogDefine_cast_ok [OF assms(1)] this] show ?thesis
    by (simp add: container_eqs(3,4) set_insert_all [OF assms(3,4)])
qed

lemma LogDefine_set_roundtrip_witness:
  "let lds = [\<lparr>ld_name = ''root'', ld_level = INFO, ld_formatter = ''%m%n'', ld_appenders =
        [\<lparr>lad_type = 2, lad_level = UNKNOWN, lad_formatter = '''', lad_file = ''''\<rparr>]\<rparr>, new_LogDefine\<lparr>ld_name := ''system''\<rparr>]
   in \<exists>s. set_to_string marked_yaml (LogDefine_to_string marked_yaml) lds = Some s \<and>
     set_from_string marked_yaml ld_name (LogDefine_from_string marked_yaml) s = Some lds"
proof -
  let ?lds = "[\<lparr>ld_name = ''root'', ld_level = INFO, ld_formatter = ''%m%n'', ld_appenders =
        [\<lparr>lad_type = 2, lad_level = UNKNOWN, lad_formatter = '''', lad_file = ''''\<rparr>]\<rparr>, new_LogDefine\<lparr>ld_name := ''system''\<rparr>]"
  have "''root'' \<le> (''system'' :: string)"
    by (simp add: list_le_def list_less_def less_char_def)
  then show ?thesis
    using LogDefine_set_roundtrip [OF marked_yaml_laws, of ?lds] unfolding Let_def
    by (simp add: define_plain_def appender_plain_def levels new_LogDefine_def)
qed

text \<open>What the YAML text of a logger tells of it, as a definition.\<close>

definition appender_define_of :: "appender \<Rightarrow> log_appender_define" where
  "appender_define_of a =
    \<lparr>lad_type = (case ap_kind a of StdoutLogAppender \<Rightarrow> 2 | FileLogAppender _ \<Rightarrow> 1), lad_level = ap_level a,
     lad_formatter = (case ap_formatter a of Some fm \<Rightarrow> if ap_hasFormatter a then fm_pattern fm else '''' | None \<Rightarrow> ''''),
     lad_file = (case ap_kind a of StdoutLogAppender \<Rightarrow> '''' | FileLogAppender f \<Rightarrow> f)\<rparr>"

definition define_of :: "log_world \<Rightarrow> nat \<Rightarrow> log_define" where
  "define_of w l =
    \<lparr>ld_name = lg_name (loggers w l), ld_level = lg_level (loggers w l),
     ld_formatter = (case lg_formatter (loggers w l) of Some fm \<Rightarrow> fm_pattern fm | None \<Rightarrow> ''''),
     ld_appenders = map (\<lambda>i. appender_define_of (appenders w i)) (lg_appenders (loggers w l))\<rparr>"

definition appender_node :: "appender \<Rightarrow> yaml" where
  "appender_node a =
    YMapping ((case ap_kind a of
        StdoutLogAppender \<Rightarrow> [(YScalar ''type'', YScalar ''StdoutLogAppender'')]
      | FileLogAppender f \<Rightarrow> [(YScalar ''type'', YScalar ''FileLogAppender''), (YScalar ''file'', YScalar f)]) @
      level_entry (ap_level a) @ own_pattern a)"

lemma appender_text_node: "LogAppender_toYamlString Y a = yaml_emit Y (appender_node a)"
  by (auto simp: LogAppender_toYamlString_def StdoutLogAppender_toYamlString_def FileLogAppender_toYamlString_def appender_node_def
      split: appender_kind.split)

lemma appender_from_yaml:
  assumes "yaml_laws Y" and "ap_level a \<le> FATAL"
  shows "appender_from_node Y (Some (appender_node a)) = Some [appender_define_of a]"
  using assms by (auto simp: appender_from_node_def appender_node_def yaml_member_def member_text_def appender_level_formatter_def
      new_LogAppenderDefine_def appender_define_of_def level_entry_def own_pattern_def level_text split: appender_kind.split option.split)

lemma load_emitted: "yaml_laws Y \<Longrightarrow> load_all Y (map (\<lambda>x. yaml_emit Y (f x)) xs) = Some (map f xs)"
  by (induction xs) (simp_all add: yaml_laws_def)

lemma appenders_from_yaml:
  assumes "yaml_laws Y"
  shows "\<forall>i \<in> set is. ap_level (f i) \<le> FATAL \<Longrightarrow>
    appenders_from_nodes Y (map (\<lambda>i. Some (appender_node (f i))) is) = Some (map (\<lambda>i. appender_define_of (f i)) is)"
  by (induction "is") (simp_all add: appender_from_yaml assms)

lemma Logger_from_yaml:
  assumes "yaml_laws Y" and "lg_level (loggers w l) \<le> FATAL" and "\<forall>i \<in> set (lg_appenders (loggers w l)). ap_level (appenders w i) \<le> FATAL"
  shows "\<exists>n. Logger_toYamlString Y w l = Some (yaml_emit Y n) \<and> LogDefine_from_string Y (yaml_emit Y n) = Some (define_of w l)"
proof -
  let ?ns = "map (\<lambda>i. appender_node (appenders w i)) (lg_appenders (loggers w l))"
  let ?n = "YMapping ([(YScalar ''name'', YScalar (lg_name (loggers w l)))] @ level_entry (lg_level (loggers w l)) @
      (case lg_formatter (loggers w l) of Some fm \<Rightarrow> [(YScalar ''formatter'', YScalar (fm_pattern fm))] | None \<Rightarrow> []) @
      (if ?ns \<noteq> [] then [(YScalar ''appenders'', YSequence ?ns)] else []))"
  have "Logger_toYamlString Y w l = Some (yaml_emit Y ?n)"
    by (simp add: Logger_toYamlString_def appender_text_node load_emitted assms(1) Let_def)
  moreover have "LogDefine_from_string Y (yaml_emit Y ?n) = Some (define_of w l)"
    using assms appenders_from_yaml [OF assms(1,3)]
    by (cases "lg_appenders (loggers w l) = []")
      (auto simp: LogDefine_from_string_def yaml_laws_def yaml_member_def member_text_def level_entry_def level_text no_level_text
        define_of_def comp_def split: option.split)
  ultimately show ?thesis
    by blast
qed

text \<open>C33: the YAML text of the manager says how the loggers are set up: read as a value of \<open>logs\<close>, it
  gives the definition of each logger, with its name, level and pattern and the kind, level, file and
  own pattern of each of its appenders, as far as the levels are known ones.\<close>

theorem LoggerManager_toYamlString_tells:
  assumes "log_reachable openable strf w" and "yaml_laws Y" and "sorted names" and "distinct names"
    and "\<forall>n \<in> set names. \<exists>l. m_loggers w n = Some l \<and> lg_level (loggers w l) \<le> FATAL \<and>
      (\<forall>i \<in> set (lg_appenders (loggers w l)). ap_level (appenders w i) \<le> FATAL)"
  shows "\<exists>s. LoggerManager_toYamlString Y names w = Some s \<and>
    set_from_string Y ld_name (LogDefine_from_string Y) s = Some (map (\<lambda>n. define_of w (the (m_loggers w n))) names)"
proof -
  let ?ld = "\<lambda>n. define_of w (the (m_loggers w n))"
  have "\<exists>ns. cast_all (\<lambda>name. Option.bind (m_loggers w name) (Logger_toYamlString Y w)) names = Some (map (yaml_emit Y) ns) \<and>
      cast_all (LogDefine_from_string Y) (map (yaml_emit Y) ns) = Some (map ?ld names)"
    using assms(5)
  proof (induction names)
    case (Cons n names)
    then obtain l ns where l: "m_loggers w n = Some l" "lg_level (loggers w l) \<le> FATAL"
        "\<forall>i \<in> set (lg_appenders (loggers w l)). ap_level (appenders w i) \<le> FATAL"
      and ns: "cast_all (\<lambda>name. Option.bind (m_loggers w name) (Logger_toYamlString Y w)) names = Some (map (yaml_emit Y) ns)"
        "cast_all (LogDefine_from_string Y) (map (yaml_emit Y) ns) = Some (map ?ld names)"
      by auto
    obtain m where "Logger_toYamlString Y w l = Some (yaml_emit Y m)" "LogDefine_from_string Y (yaml_emit Y m) = Some (define_of w l)"
      using Logger_from_yaml [OF assms(2) l(2,3)] by blast
    with l(1) ns show ?case
      by (intro exI [of _ "m # ns"]) simp
  qed simp
  then obtain ns where ns: "cast_all (\<lambda>name. Option.bind (m_loggers w name) (Logger_toYamlString Y w)) names = Some (map (yaml_emit Y) ns)"
    "cast_all (LogDefine_from_string Y) (map (yaml_emit Y) ns) = Some (map ?ld names)"
    by blast
  have "LoggerManager_toYamlString Y names w = Some (yaml_emit Y (sequence_node ns))"
    using load_emitted [OF assms(2), of "\<lambda>n. n" ns] ns(1) by (simp add: LoggerManager_toYamlString_def)
  moreover have "vector_from_string Y (LogDefine_from_string Y) (yaml_emit Y (sequence_node ns)) = Some (map ?ld names)"
    using assms(2) ns(2) by (simp add: vector_from_string_def yaml_laws_def)
  moreover have "map ld_name (map ?ld names) = names"
    using assms(5) log_invD(5) log_reachable_inv [OF assms(1)] by (fastforce simp: define_of_def intro!: map_idI)
  then have "foldl (\<lambda>s x. insort_insert_key ld_name x s) [] (map ?ld names) = map ?ld names"
    using assms(3,4) by (intro set_insert_all) simp_all
  ultimately show ?thesis
    by (simp add: container_eqs(4))
qed

lemma LoggerManager_toYamlString_tells_witness:
  "\<exists>s. LoggerManager_toYamlString marked_yaml [''root''] (LoggerManager empty_world) = Some s \<and>
    set_from_string marked_yaml ld_name (LogDefine_from_string marked_yaml) s =
      Some [\<lparr>ld_name = ''root'', ld_level = DEBUG, ld_formatter = default_pattern, ld_appenders =
        [\<lparr>lad_type = 2, lad_level = DEBUG, lad_formatter = '''', lad_file = ''''\<rparr>]\<rparr>]"
proof -
  let ?w = "LoggerManager empty_world"
  have w: "m_loggers ?w ''root'' = Some 0" "loggers ?w 0 = \<lparr>lg_name = ''root'', lg_level = DEBUG, lg_appenders = [0],
      lg_formatter = Some (LogFormatter default_pattern), lg_root = None\<rparr>" "ap_level (appenders ?w 0) = DEBUG"
      "\<not> ap_hasFormatter (appenders ?w 0)" "ap_kind (appenders ?w 0) = StdoutLogAppender"
    by (simp_all add: LoggerManager_def Logger_new_def StdoutLogAppender_new_def Logger_addAppender_def empty_world_def Let_def new_appender_def)
  have "fm_pattern (LogFormatter default_pattern) = default_pattern"
    by (simp add: LogFormatter_def case_prod_beta Let_def)
  then show ?thesis
    using LoggerManager_toYamlString_tells [OF log_reachable.init marked_yaml_laws, of "[''root'']"] w
    by (auto simp: define_of_def appender_define_of_def levels split: option.split)
qed

end
