(* ===== verification/Log_Macros.thy ===== *)
theory Log_Macros
  imports Logger
begin

text \<open>
  The front of the log library: the singleton of the \<open>LoggerManager\<close> (\<open>sylar/singleton.h\<close>), the macros of
  \<open>sylar/log.h\<close>, and the functions of \<open>Logger\<close> for one level each.
\<close>

section \<open>Singletons\<close>

text \<open>
  A static local variable is constructed by the first call that reaches it, under a lock of the
  compiler; \<open>construct\<close> is the constructor of \<open>T\<close>, or \<open>new T\<close> for \<open>SingletonPtr\<close>.
\<close>

definition Singleton_GetInstance :: "('w \<Rightarrow> 'a \<times> 'w) \<Rightarrow> 'a option \<times> 'w \<Rightarrow> 'a \<times> 'a option \<times> 'w" where
  "Singleton_GetInstance construct = (\<lambda>(v, w).
    (case v of Some a \<Rightarrow> (a, v, w) | None \<Rightarrow> let (a, w1) = construct w in (a, Some a, w1)))"

text \<open>Calls from anywhere, and anything else in between.\<close>

inductive singleton_run :: "('w \<Rightarrow> 'a \<times> 'w) \<Rightarrow> 'a list \<Rightarrow> 'a option \<times> 'w \<Rightarrow> bool" for construct where
  none: "singleton_run construct [] (None, w)"
| get: "singleton_run construct got st \<Longrightarrow> Singleton_GetInstance construct st = (a, st') \<Longrightarrow>
    singleton_run construct (got @ [a]) st'"
| other: "singleton_run construct got (v, w) \<Longrightarrow> singleton_run construct got (v, w')"

lemma singleton_run_once: "singleton_run construct got st \<Longrightarrow> set got = set_option (fst st)"
proof (induction rule: singleton_run.induct)
  case (get got st a st')
  obtain v w where st: "st = (v, w)"
    by (cases st)
  show ?case
  proof (cases v)
    case None
    then have "fst st' = Some a"
      using get.hyps(2) st by (auto simp: Singleton_GetInstance_def split: prod.splits)
    then show ?thesis
      using get.IH st None by simp
  next
    case (Some b)
    then have "a = b" "st' = st"
      using get.hyps(2) st by (auto simp: Singleton_GetInstance_def)
    then show ?thesis
      using get.IH st Some by simp
  qed
qed simp_all

section \<open>The macros\<close>

type_synonym log_library = "unit option \<times> log_world"

definition LoggerMgr_GetInstance :: "log_library \<Rightarrow> log_library" where
  "LoggerMgr_GetInstance st = snd (Singleton_GetInstance (\<lambda>w. ((), LoggerManager w)) st)"

definition SYLAR_LOG_ROOT :: "log_library \<Rightarrow> nat \<times> log_library" where
  "SYLAR_LOG_ROOT st = (let (v, w) = LoggerMgr_GetInstance st in (manager_root w, v, w))"

definition SYLAR_LOG_NAME :: "string \<Rightarrow> log_library \<Rightarrow> nat \<times> log_library" where
  "SYLAR_LOG_NAME name st =
    (let (v, w) = LoggerMgr_GetInstance st; (l, w1) = LoggerManager_getLogger name w in (l, v, w1))"

text \<open>\<open>printed\<close> is what \<open>vasprintf\<close> makes of the format and its arguments.\<close>

definition SYLAR_LOG_FMT_LEVEL ::
  "nat \<Rightarrow> (string \<Rightarrow> bool) \<Rightarrow> (string \<Rightarrow> nat \<Rightarrow> string) \<Rightarrow> nat \<Rightarrow> nat \<Rightarrow> level \<Rightarrow> string \<Rightarrow> int \<Rightarrow> int \<Rightarrow> nat \<Rightarrow> string \<Rightarrow>
    string option \<Rightarrow> log_world \<Rightarrow> (fault + log_world) option" where
  "SYLAR_LOG_FMT_LEVEL fuel openable strf now l level file line thread_id fiber_id thread_name printed w =
    (if lg_level (loggers w l) \<le> level then
       LogEventWrap_log fuel openable strf now
         (LogEvent_format printed (LogEvent l level file line 0 thread_id fiber_id now thread_name)) w
     else Some (Inr w))"

definition Logger_debug where "Logger_debug fuel openable strf now = Logger_log fuel openable strf now DEBUG"
definition Logger_info where "Logger_info fuel openable strf now = Logger_log fuel openable strf now INFO"
definition Logger_warn where "Logger_warn fuel openable strf now = Logger_log fuel openable strf now WARN"
definition Logger_error where "Logger_error fuel openable strf now = Logger_log fuel openable strf now ERROR"
definition Logger_fatal where "Logger_fatal fuel openable strf now = Logger_log fuel openable strf now FATAL"

definition Logger_getFormatter :: "nat \<Rightarrow> log_world \<Rightarrow> formatter option" where
  "Logger_getFormatter l w = lg_formatter (loggers w l)"

definition LogAppender_getFormatter :: "nat \<Rightarrow> log_world \<Rightarrow> formatter option" where
  "LogAppender_getFormatter i w = ap_formatter (appenders w i)"

text \<open>The two ways to give a message are the same when \<open>vasprintf\<close> succeeds; otherwise the message is empty.\<close>

lemma SYLAR_LOG_FMT_LEVEL_message:
  "SYLAR_LOG_FMT_LEVEL fuel openable strf now l level file line thread_id fiber_id thread_name printed w =
    SYLAR_LOG_LEVEL fuel openable strf now l level file line thread_id fiber_id thread_name
      (case printed of None \<Rightarrow> '''' | Some message \<Rightarrow> message) w"
  by (simp add: SYLAR_LOG_FMT_LEVEL_def SYLAR_LOG_LEVEL_def LogEvent_format_def LogEvent_def split: option.split)

section \<open>Static initialisation\<close>

text \<open>
  The files of the library have static loggers, made by \<open>SYLAR_LOG_NAME\<close> in an order that the language
  leaves open.
\<close>

primrec static_loggers :: "string list \<Rightarrow> log_library \<Rightarrow> nat list \<times> log_library" where
  "static_loggers [] st = ([], st)"
| "static_loggers (name # names) st =
    (let (l, st1) = SYLAR_LOG_NAME name st; (ls, st2) = static_loggers names st1 in (l # ls, st2))"

text \<open>The empty name stands for the root logger.\<close>

definition registered_name :: "string \<Rightarrow> string" where
  "registered_name name = (if name = '''' then ''root'' else name)"

definition library_ok :: "log_library \<Rightarrow> bool" where
  "library_ok st \<longleftrightarrow> st = (None, empty_world) \<or> fst st = Some () \<and> log_inv (snd st)"

lemma SYLAR_LOG_NAME_registers:
  assumes "library_ok st" and "SYLAR_LOG_NAME name st = (l, st1)"
  shows "library_ok st1" and "m_loggers (snd st1) (registered_name name) = Some l"
    and "m_loggers (snd st) n = Some k \<Longrightarrow> m_loggers (snd st1) n = Some k"
proof -
  obtain w where w: "LoggerMgr_GetInstance st = (Some (), w)" "log_inv w" "snd st = empty_world \<or> snd st = w"
    using assms(1) log_inv_init
    by (cases st) (auto simp: library_ok_def LoggerMgr_GetInstance_def Singleton_GetInstance_def)
  then obtain w1 where w1: "LoggerManager_getLogger name w = (l, w1)" "st1 = (Some (), w1)"
    using assms(2) by (auto simp: SYLAR_LOG_NAME_def split: prod.splits)
  show "library_ok st1"
    using getLogger_inv [OF w(2), of name] w1 by (simp add: library_ok_def)
  have root: "m_loggers w ''root'' = Some (manager_root w)"
    using w(2) by (simp add: log_inv_def)
  then show "m_loggers (snd st1) (registered_name name) = Some l"
    using w1 by (auto simp: LoggerManager_getLogger_def registered_name_def Let_def split: if_splits option.splits prod.splits)
  have "m_loggers w n = Some k \<Longrightarrow> m_loggers w1 n = Some k"
    using w1(1) root by (cases "name = ''root''") (auto simp: LoggerManager_getLogger_def Logger_new_def Let_def split: if_splits option.splits)
  then show "m_loggers (snd st) n = Some k \<Longrightarrow> m_loggers (snd st1) n = Some k"
    using w(3) w1(2) by (auto simp: empty_world_def)
qed

lemma static_loggers_registered:
  assumes "library_ok st" and "static_loggers names st = (ls, st')"
  shows "library_ok st' \<and> map (\<lambda>name. m_loggers (snd st') (registered_name name)) names = map Some ls \<and>
    (\<forall>n k. m_loggers (snd st) n = Some k \<longrightarrow> m_loggers (snd st') n = Some k)"
  using assms
proof (induction names arbitrary: st ls)
  case (Cons name names)
  obtain l st1 ks where *: "SYLAR_LOG_NAME name st = (l, st1)" "static_loggers names st1 = (ks, st')" "ls = l # ks"
    using Cons.prems(2) by (auto split: prod.splits)
  note R = SYLAR_LOG_NAME_registers [OF Cons.prems(1) *(1)]
  show ?case
    using Cons.IH [OF R(1) *(2)] R(2,3) *(3) by auto
qed simp

text \<open>
  In whatever order the static loggers are made, and however often a name is used, two of them are the
  same logger exactly if their names are the same, the empty name being that of the root logger.
\<close>

theorem static_loggers_by_name:
  assumes "static_loggers names (None, empty_world) = (ls, st)" and "i < length names" and "j < length names"
  shows "ls ! i = ls ! j \<longleftrightarrow> registered_name (names ! i) = registered_name (names ! j)"
proof -
  have reg: "map (\<lambda>name. m_loggers (snd st) (registered_name name)) names = map Some ls" and ok: "library_ok st"
    using static_loggers_registered [OF _ assms(1)] by (simp_all add: library_ok_def)
  have len: "length ls = length names"
    using arg_cong [OF reg, of length] by simp
  have at: "m_loggers (snd st) (registered_name (names ! k)) = Some (ls ! k)" if "k < length names" for k
    using arg_cong [OF reg, of "\<lambda>xs. xs ! k"] that len by simp
  have "m_loggers empty_world = Map.empty"
    by (simp add: empty_world_def)
  then have "log_inv (snd st)"
    using ok at [OF assms(2)] by (auto simp: library_ok_def)
  note name = log_invD(5) [OF this]
  show ?thesis
    using at [OF assms(2)] at [OF assms(3)] name [OF at [OF assms(2)]] name [OF at [OF assms(3)]] by auto
qed

lemma static_loggers_by_name_witness:
  "let (ls, st) = static_loggers [''system'', '''', ''root'', ''system''] (None, empty_world)
   in ls ! 0 = ls ! 3 \<and> ls ! 1 = ls ! 2 \<and> ls ! 0 \<noteq> ls ! 1"
proof -
  obtain ls st where st: "static_loggers [''system'', '''', ''root'', ''system''] (None, empty_world) = (ls, st)"
    by (cases "static_loggers [''system'', '''', ''root'', ''system''] (None, empty_world)") blast
  from static_loggers_by_name [OF st, of 0 3] static_loggers_by_name [OF st, of 1 2] static_loggers_by_name [OF st, of 0 1]
  show ?thesis
    by (simp add: st registered_name_def del: static_loggers.simps)
qed

end
