(* ===== verification/Socket.thy ===== *)
theory Socket
  imports Hook Address_Text
begin

text \<open>
  \<open>sylar/socket.{h,cpp}\<close>: \<open>Socket\<close> over the hooked system calls of \<open>Hook\<close>, the descriptor table and
  addresses. A method works on the socket's members and on what lies behind the calls: the table
  with the kernel, and the thread's \<open>IOManager\<close>. Calls of other descriptors' members by other fibers,
  while a call waits, are part of what that call does to the table.
\<close>

section \<open>The calls\<close>

type_synonym 'k net = "'k fd_manager \<times> io_manager option"

datatype sockopt = Opt_Int s32 | Opt_Timeval s64 s64

text \<open>A data call: with a buffer or several, and with the memory and the length of an address.\<close>

datatype io_request =
    Send "byte list" int
  | Sendto "byte list" int "byte list \<times> nat"
  | Sendmsg "byte list list" "(byte list \<times> nat) option" int
  | Recv nat int
  | Recvfrom nat int "byte list \<times> nat"
  | Recvmsg "nat list" "(byte list \<times> nat) option" int

text \<open>The result, what arrives in the caller's buffers, and the memory of the address afterwards.\<close>

record io_answer =
  io_result :: int
  io_data :: "byte list"
  io_name :: "byte list"

text \<open>
  \<open>nc_hook\<close> is \<open>t_hook_enable\<close>, \<open>nc_epoll_rt\<close> what \<open>epoll_ctl\<close> returns. The waiting calls \<open>nc_accept\<close>
  (the \<open>do_io\<close> in \<open>accept\<close>), \<open>nc_connect\<close> (with a timeout or with the default one) and \<open>nc_io\<close> are run to
  their ends; \<open>nc_getsockname\<close> and \<open>nc_getpeername\<close> fail or give bytes and the address length.
\<close>

record 'k net_calls =
  nc_sys :: "'k syscalls"
  nc_hook :: bool
  nc_epoll_rt :: int
  nc_host :: endian
  nc_accept :: "int \<Rightarrow> 'k net \<Rightarrow> int \<times> 'k net"
  nc_connect :: "int \<Rightarrow> byte list \<times> nat \<Rightarrow> u64 option \<Rightarrow> 'k net \<Rightarrow> int \<times> 'k net"
  nc_io :: "int \<Rightarrow> io_request \<Rightarrow> 'k net \<Rightarrow> io_answer \<times> 'k net"
  nc_bind :: "int \<Rightarrow> byte list \<times> nat \<Rightarrow> 'k \<Rightarrow> int \<times> 'k"
  nc_listen :: "int \<Rightarrow> int \<Rightarrow> 'k \<Rightarrow> int \<times> 'k"
  nc_getsockname :: "int \<Rightarrow> 'k \<Rightarrow> (byte list \<times> nat) option"
  nc_getpeername :: "int \<Rightarrow> 'k \<Rightarrow> (byte list \<times> nat) option"
  nc_setsockopt :: "int \<Rightarrow> int \<Rightarrow> int \<Rightarrow> sockopt \<Rightarrow> 'k \<Rightarrow> int \<times> 'k"
  nc_getsockopt :: "int \<Rightarrow> int \<Rightarrow> int \<Rightarrow> 'k \<Rightarrow> s32 + s32"

section \<open>Sockets\<close>

record socket =
  m_sock :: int
  m_family :: int
  m_type :: int
  m_protocol :: int
  m_isConnected :: bool
  m_localAddress :: "address option"
  m_remoteAddress :: "address option"

type_synonym ('k, 'a) socket_method = "(socket \<times> 'k net, 'a) action"

definition TCP :: int where "TCP = 1"
definition UDP :: int where "UDP = 2"
definition IPv4 :: int where "IPv4 = 2"
definition IPv6 :: int where "IPv6 = 10"
definition UNIX :: int where "UNIX = 1"
definition SO_REUSEADDR :: int where "SO_REUSEADDR = 2"
definition SO_ERROR :: int where "SO_ERROR = 4"
definition IPPROTO_TCP :: int where "IPPROTO_TCP = 6"
definition TCP_NODELAY :: int where "TCP_NODELAY = 1"

definition Socket :: "int \<Rightarrow> int \<Rightarrow> int \<Rightarrow> socket" where
  "Socket family type protocol =
    \<lparr>m_sock = - 1, m_family = family, m_type = type, m_protocol = protocol, m_isConnected = False,
     m_localAddress = None, m_remoteAddress = None\<rparr>"

text \<open>Steps of a method: reading and changing members, and calls behind them.\<close>

definition this :: "('k, socket) socket_method" where
  "this = (\<lambda>(s, n). (Inr s, (s, n)))"

definition update :: "(socket \<Rightarrow> socket) \<Rightarrow> ('k, unit) socket_method" where
  "update f = (\<lambda>(s, n). (Inr (), (f s, n)))"

definition on_net :: "('k net, 'a) action \<Rightarrow> ('k, 'a) socket_method" where
  "on_net op = (\<lambda>(s, n). let (r, n1) = op n in (r, (s, n1)))"

definition on_fds :: "('k fd_manager, 'a) action \<Rightarrow> ('k, 'a) socket_method" where
  "on_fds op = (\<lambda>(s, m, iom). let (r, m1) = op m in (r, (s, m1, iom)))"

definition on_kernel :: "('k \<Rightarrow> 'a \<times> 'k) \<Rightarrow> ('k, 'a) socket_method" where
  "on_kernel op = (\<lambda>(s, m, iom). let (a, k1) = op (kernel m) in (Inr a, (s, m\<lparr>kernel := k1\<rparr>, iom)))"

definition isValid :: "socket \<Rightarrow> bool" where
  "isValid s \<longleftrightarrow> m_sock s \<noteq> - 1"

subsection \<open>Options\<close>

text \<open>
  The hook reads the value of a timeout as a \<open>timeval\<close>, which an \<open>int\<close> is too short for.
\<close>

definition Socket_setOption :: "'k net_calls \<Rightarrow> int \<Rightarrow> int \<Rightarrow> sockopt \<Rightarrow> ('k, bool) socket_method" where
  "Socket_setOption c level option v =
    seq this (\<lambda>s.
    seq (on_fds (case v of
        Opt_Timeval sec usec \<Rightarrow> hook_setsockopt (nc_sys c) (nc_hook c) (m_sock s) level option (sec, usec)
      | Opt_Int _ \<Rightarrow>
          if nc_hook c \<and> level = SOL_SOCKET \<and> (option = SO_RCVTIMEO \<or> option = SO_SNDTIMEO) then
            seq (FdManager_get (nc_sys c) (m_sock s) False) (\<lambda>ctx. if ctx = None then ret () else throw Out_Of_Bounds)
          else ret ())) (\<lambda>_.
    seq (on_kernel (nc_setsockopt c (m_sock s) level option v)) (\<lambda>rt. ret (rt = 0))))"

definition Socket_getOption :: "'k net_calls \<Rightarrow> int \<Rightarrow> int \<Rightarrow> ('k, s32 + s32) socket_method" where
  "Socket_getOption c level option =
    seq this (\<lambda>s. on_kernel (\<lambda>k. (nc_getsockopt c (m_sock s) level option k, k)))"

definition Socket_getError :: "'k net_calls \<Rightarrow> ('k, s32) socket_method" where
  "Socket_getError c =
    seq (Socket_getOption c SOL_SOCKET SO_ERROR) (\<lambda>r. ret (case r of Inl errno \<Rightarrow> errno | Inr error \<Rightarrow> error))"

text \<open>\<open>timeval{int(v / 1000), int(v % 1000 * 1000)}\<close>: the casts keep the low 32 bits.\<close>

definition timeval_of :: "s64 \<Rightarrow> s64 \<times> s64" where
  "timeval_of v = (scast (word_of_int (sint v sdiv 1000) :: s32), scast (word_of_int (sint v smod 1000 * 1000) :: s32))"

definition Socket_setTimeout :: "'k net_calls \<Rightarrow> int \<Rightarrow> s64 \<Rightarrow> ('k, bool) socket_method" where
  "Socket_setTimeout c so v = Socket_setOption c SOL_SOCKET so (Opt_Timeval (fst (timeval_of v)) (snd (timeval_of v)))"

definition Socket_getTimeout :: "'k net_calls \<Rightarrow> int \<Rightarrow> ('k, s64) socket_method" where
  "Socket_getTimeout c so =
    seq this (\<lambda>s.
    seq (on_fds (FdManager_get (nc_sys c) (m_sock s) False)) (\<lambda>ctx.
    ret (case ctx of None \<Rightarrow> - 1 | Some x \<Rightarrow> FdCtx_getTimeout so x)))"

definition Socket_setSendTimeout :: "'k net_calls \<Rightarrow> s64 \<Rightarrow> ('k, unit) socket_method" where
  "Socket_setSendTimeout c v = seq (Socket_setTimeout c SO_SNDTIMEO v) (\<lambda>_. ret ())"

definition Socket_getSendTimeout :: "'k net_calls \<Rightarrow> ('k, s64) socket_method" where
  "Socket_getSendTimeout c = Socket_getTimeout c SO_SNDTIMEO"

definition Socket_setRecvTimeout :: "'k net_calls \<Rightarrow> s64 \<Rightarrow> ('k, unit) socket_method" where
  "Socket_setRecvTimeout c v = seq (Socket_setTimeout c SO_RCVTIMEO v) (\<lambda>_. ret ())"

definition Socket_getRecvTimeout :: "'k net_calls \<Rightarrow> ('k, s64) socket_method" where
  "Socket_getRecvTimeout c = Socket_getTimeout c SO_RCVTIMEO"

subsection \<open>Making and closing the descriptor\<close>

definition Socket_initSock :: "'k net_calls \<Rightarrow> ('k, unit) socket_method" where
  "Socket_initSock c =
    seq (Socket_setOption c SOL_SOCKET SO_REUSEADDR (Opt_Int 1)) (\<lambda>_.
    seq this (\<lambda>s.
    if m_type s = TCP then seq (Socket_setOption c IPPROTO_TCP TCP_NODELAY (Opt_Int 1)) (\<lambda>_. ret ()) else ret ()))"

definition Socket_newSock :: "'k net_calls \<Rightarrow> ('k, unit) socket_method" where
  "Socket_newSock c =
    seq this (\<lambda>s.
    seq (on_fds (hook_socket (nc_sys c) (nc_hook c) (m_family s) (m_type s) (m_protocol s))) (\<lambda>fd.
    seq (update (\<lambda>s. s\<lparr>m_sock := fd\<rparr>)) (\<lambda>_.
    if fd \<noteq> - 1 then Socket_initSock c else ret ())))"

text \<open>\<open>newSock\<close> unless there is a descriptor: whether there is one then.\<close>

definition Socket_ensureSock :: "'k net_calls \<Rightarrow> ('k, bool) socket_method" where
  "Socket_ensureSock c =
    seq this (\<lambda>s.
    if \<not> isValid s then seq (Socket_newSock c) (\<lambda>_. seq this (\<lambda>s. ret (isValid s))) else ret True)"

definition Socket_close :: "'k net_calls \<Rightarrow> ('k, bool) socket_method" where
  "Socket_close c =
    seq this (\<lambda>s.
    if \<not> m_isConnected s \<and> m_sock s = - 1 then ret True
    else
      seq (update (\<lambda>s. s\<lparr>m_isConnected := False\<rparr>)) (\<lambda>_.
      if m_sock s \<noteq> - 1 then
        seq (on_net (hook_close (nc_sys c) (nc_hook c) (nc_epoll_rt c) (m_sock s))) (\<lambda>_.
        seq (update (\<lambda>s. s\<lparr>m_sock := - 1\<rparr>)) (\<lambda>_. ret False))
      else ret False))"

subsection \<open>Addresses\<close>

definition empty_address :: "endian \<Rightarrow> int \<Rightarrow> address" where
  "empty_address host family =
    (if family = uint AF_INET then IPv4Address (new_IPv4Address host 0 0)
     else if family = uint AF_INET6 then IPv6Address new_IPv6Address
     else if family = uint AF_UNIX then new_UnixAddress
     else UnknownAddress (UnknownAddress_of (word_of_int family)))"

text \<open>
  An address after a call has written to its memory: at most as many bytes as the address is long.
\<close>

definition written_address :: "endian \<Rightarrow> byte list \<Rightarrow> address \<Rightarrow> address" where
  "written_address host bs a =
    (let mem = splice 0 (take (getAddrLen a) bs) (getAddr host a)
     in case a of
          IPv4Address _ \<Rightarrow> IPv4Address (read_sockaddr_in host mem)
        | IPv6Address _ \<Rightarrow> IPv6Address (read_sockaddr_in6 host mem)
        | UnixAddress _ len \<Rightarrow> UnixAddress \<lparr>sun_family = of_bytes_in host (part 0 2 mem), sun_path = part 2 108 mem\<rparr> len
        | UnknownAddress _ \<Rightarrow> UnknownAddress \<lparr>sa_family = of_bytes_in host (part 0 2 mem), sa_data = part 2 14 mem\<rparr>)"

definition named_address :: "endian \<Rightarrow> int \<Rightarrow> byte list \<times> nat \<Rightarrow> address" where
  "named_address host family name =
    (let result = written_address host (fst name) (empty_address host family)
     in if family = uint AF_UNIX then UnixAddress_setAddrLen (snd name) result else result)"

definition Socket_getRemoteAddress :: "'k net_calls \<Rightarrow> ('k, address) socket_method" where
  "Socket_getRemoteAddress c =
    seq this (\<lambda>s.
    case m_remoteAddress s of
      Some a \<Rightarrow> ret a
    | None \<Rightarrow>
        seq (on_kernel (\<lambda>k. (nc_getpeername c (m_sock s) k, k))) (\<lambda>name.
        case name of
          None \<Rightarrow> ret (UnknownAddress (UnknownAddress_of (word_of_int (m_family s))))
        | Some x \<Rightarrow>
            let a = named_address (nc_host c) (m_family s) x
            in seq (update (\<lambda>s. s\<lparr>m_remoteAddress := Some a\<rparr>)) (\<lambda>_. ret a)))"

definition Socket_getLocalAddress :: "'k net_calls \<Rightarrow> ('k, address) socket_method" where
  "Socket_getLocalAddress c =
    seq this (\<lambda>s.
    case m_localAddress s of
      Some a \<Rightarrow> ret a
    | None \<Rightarrow>
        seq (on_kernel (\<lambda>k. (nc_getsockname c (m_sock s) k, k))) (\<lambda>name.
        case name of
          None \<Rightarrow> ret (UnknownAddress (UnknownAddress_of (word_of_int (m_family s))))
        | Some x \<Rightarrow>
            let a = named_address (nc_host c) (m_family s) x
            in seq (update (\<lambda>s. s\<lparr>m_localAddress := Some a\<rparr>)) (\<lambda>_. ret a)))"

subsection \<open>Connections\<close>

definition addr_arg :: "'k net_calls \<Rightarrow> address \<Rightarrow> byte list \<times> nat" where
  "addr_arg c a = (getAddr (nc_host c) a, getAddrLen a)"

definition Socket_connect :: "'k net_calls \<Rightarrow> address \<Rightarrow> u64 \<Rightarrow> ('k, bool) socket_method" where
  "Socket_connect c addr timeout_ms =
    seq (update (\<lambda>s. s\<lparr>m_remoteAddress := Some addr\<rparr>)) (\<lambda>_.
    seq (Socket_ensureSock c) (\<lambda>valid.
    if \<not> valid then ret False
    else
      seq this (\<lambda>s.
      if uint (getFamily addr) \<noteq> m_family s then ret False
      else
        seq (on_net (\<lambda>n. let (rt, n1) = nc_connect c (m_sock s) (addr_arg c addr) (if timeout_ms = - 1 then None else Some timeout_ms) n
                         in (Inr rt, n1))) (\<lambda>rt.
        if rt \<noteq> 0 then seq (Socket_close c) (\<lambda>_. ret False)
        else
          seq (update (\<lambda>s. s\<lparr>m_isConnected := True\<rparr>)) (\<lambda>_.
          seq (Socket_getRemoteAddress c) (\<lambda>_.
          seq (Socket_getLocalAddress c) (\<lambda>_. ret True)))))))"

definition Socket_reconnect :: "'k net_calls \<Rightarrow> u64 \<Rightarrow> ('k, bool) socket_method" where
  "Socket_reconnect c timeout_ms =
    seq this (\<lambda>s.
    case m_remoteAddress s of
      None \<Rightarrow> ret False
    | Some a \<Rightarrow> seq (update (\<lambda>s. s\<lparr>m_localAddress := None\<rparr>)) (\<lambda>_. Socket_connect c a timeout_ms))"

text \<open>A method of another socket, which has a scope of its own and is closed at its end.\<close>

definition with_socket :: "'k net_calls \<Rightarrow> socket \<Rightarrow> ('k, 'a) socket_method \<Rightarrow> ('k, 'a) socket_method" where
  "with_socket c s' op = (\<lambda>(s, n).
    let (r, (_, n1)) = seq op (\<lambda>a. seq (Socket_close c) (\<lambda>_. ret a)) (s', n) in (r, (s, n1)))"

definition Socket_bind :: "'k net_calls \<Rightarrow> address \<Rightarrow> ('k, bool) socket_method" where
  "Socket_bind c addr =
    seq (Socket_ensureSock c) (\<lambda>valid.
    if \<not> valid then ret False
    else
      seq this (\<lambda>s.
      if uint (getFamily addr) \<noteq> m_family s then ret False
      else
        seq (case addr of
            UnixAddress _ _ \<Rightarrow> with_socket c (Socket UNIX TCP 0) (Socket_connect c addr (- 1))
          | _ \<Rightarrow> ret False) (\<lambda>in_use.
        if in_use then ret False
        else
          seq (on_kernel (nc_bind c (m_sock s) (addr_arg c addr))) (\<lambda>rt.
          if rt \<noteq> 0 then ret False else seq (Socket_getLocalAddress c) (\<lambda>_. ret True)))))"

definition Socket_listen :: "'k net_calls \<Rightarrow> int \<Rightarrow> ('k, bool) socket_method" where
  "Socket_listen c backlog =
    seq this (\<lambda>s.
    if \<not> isValid s then ret False
    else seq (on_kernel (nc_listen c (m_sock s) backlog)) (\<lambda>rt. ret (rt = 0)))"

definition Socket_init :: "'k net_calls \<Rightarrow> int \<Rightarrow> ('k, bool) socket_method" where
  "Socket_init c sock =
    seq (on_fds (FdManager_get (nc_sys c) sock False)) (\<lambda>ctx.
    if untracked ctx then ret False
    else
      seq (update (\<lambda>s. s\<lparr>m_sock := sock, m_isConnected := True\<rparr>)) (\<lambda>_.
      seq (Socket_initSock c) (\<lambda>_.
      seq (Socket_getLocalAddress c) (\<lambda>_.
      seq (Socket_getRemoteAddress c) (\<lambda>_. ret True)))))"

text \<open>\<open>accept\<close> gives a new socket, or none.\<close>

definition Socket_accept :: "'k net_calls \<Rightarrow> ('k, socket option) socket_method" where
  "Socket_accept c =
    seq this (\<lambda>s.
    seq (on_net (\<lambda>n. let (fd, n1) = nc_accept c (m_sock s) n in (Inr fd, n1))) (\<lambda>fd.
    seq (on_fds (hook_accepted (nc_sys c) fd)) (\<lambda>newsock.
    if newsock = - 1 then ret None
    else (\<lambda>(s0, n).
      case Socket_init c newsock (Socket (m_family s) (m_type s) (m_protocol s), n) of
        (Inl e, (_, n1)) \<Rightarrow> (Inl e, (s0, n1))
      | (Inr ok, (cli_sock, n1)) \<Rightarrow> (Inr (if ok then Some cli_sock else None), (s0, n1))))))"

subsection \<open>Factories\<close>

definition Socket_CreateTCP :: "address \<Rightarrow> socket" where
  "Socket_CreateTCP a = Socket (uint (getFamily a)) TCP 0"

definition Socket_CreateTCPSocket :: socket where "Socket_CreateTCPSocket = Socket IPv4 TCP 0"
definition Socket_CreateTCPSocket6 :: socket where "Socket_CreateTCPSocket6 = Socket IPv6 TCP 0"
definition Socket_CreateUnixTCPSocket :: socket where "Socket_CreateUnixTCPSocket = Socket UNIX TCP 0"
definition Socket_CreateUnixUDPSocket :: socket where "Socket_CreateUnixUDPSocket = Socket UNIX UDP 0"

text \<open>These make the descriptor at once and count as connected, whether or not that succeeds.\<close>

definition opened :: "'k net_calls \<Rightarrow> socket \<Rightarrow> 'k net \<Rightarrow> (fault + unit) \<times> (socket \<times> 'k net)" where
  "opened c s n = seq (Socket_newSock c) (\<lambda>_. update (\<lambda>s. s\<lparr>m_isConnected := True\<rparr>)) (s, n)"

definition Socket_CreateUDP :: "'k net_calls \<Rightarrow> address \<Rightarrow> 'k net \<Rightarrow> (fault + unit) \<times> (socket \<times> 'k net)" where
  "Socket_CreateUDP c a = opened c (Socket (uint (getFamily a)) UDP 0)"

definition Socket_CreateUDPSocket :: "'k net_calls \<Rightarrow> 'k net \<Rightarrow> (fault + unit) \<times> (socket \<times> 'k net)" where
  "Socket_CreateUDPSocket c = opened c (Socket IPv4 UDP 0)"

definition Socket_CreateUDPSocket6 :: "'k net_calls \<Rightarrow> 'k net \<Rightarrow> (fault + unit) \<times> (socket \<times> 'k net)" where
  "Socket_CreateUDPSocket6 c = opened c (Socket IPv6 UDP 0)"

subsection \<open>Data\<close>

text \<open>Each of these makes its call if the socket is connected, and answers \<open>- 1\<close> otherwise.\<close>

definition if_connected :: "'k net_calls \<Rightarrow> io_request \<Rightarrow> ('k, io_answer) socket_method" where
  "if_connected c req =
    seq this (\<lambda>s.
    if m_isConnected s then on_net (\<lambda>n. let (r, n1) = nc_io c (m_sock s) req n in (Inr r, n1))
    else ret \<lparr>io_result = - 1, io_data = [], io_name = []\<rparr>)"

definition Socket_send :: "'k net_calls \<Rightarrow> byte list \<Rightarrow> int \<Rightarrow> ('k, io_answer) socket_method" where
  "Socket_send c buffer flags = if_connected c (Send buffer flags)"

definition Socket_send_iov :: "'k net_calls \<Rightarrow> byte list list \<Rightarrow> int \<Rightarrow> ('k, io_answer) socket_method" where
  "Socket_send_iov c buffers flags = if_connected c (Sendmsg buffers None flags)"

definition Socket_sendTo :: "'k net_calls \<Rightarrow> byte list \<Rightarrow> address \<Rightarrow> int \<Rightarrow> ('k, io_answer) socket_method" where
  "Socket_sendTo c buffer to flags = if_connected c (Sendto buffer flags (addr_arg c to))"

definition Socket_sendTo_iov :: "'k net_calls \<Rightarrow> byte list list \<Rightarrow> address \<Rightarrow> int \<Rightarrow> ('k, io_answer) socket_method" where
  "Socket_sendTo_iov c buffers to flags = if_connected c (Sendmsg buffers (Some (addr_arg c to)) flags)"

definition Socket_recv :: "'k net_calls \<Rightarrow> nat \<Rightarrow> int \<Rightarrow> ('k, io_answer) socket_method" where
  "Socket_recv c len flags = if_connected c (Recv len flags)"

definition Socket_recv_iov :: "'k net_calls \<Rightarrow> nat list \<Rightarrow> int \<Rightarrow> ('k, io_answer) socket_method" where
  "Socket_recv_iov c lens flags = if_connected c (Recvmsg lens None flags)"

text \<open>The sender's address is written to the memory of \<open>from\<close>; its length is not.\<close>

definition Socket_recvFrom :: "'k net_calls \<Rightarrow> nat \<Rightarrow> address \<Rightarrow> int \<Rightarrow> ('k, io_answer \<times> address) socket_method" where
  "Socket_recvFrom c len from flags =
    seq (if_connected c (Recvfrom len flags (addr_arg c from))) (\<lambda>r. ret (r, written_address (nc_host c) (io_name r) from))"

definition Socket_recvFrom_iov :: "'k net_calls \<Rightarrow> nat list \<Rightarrow> address \<Rightarrow> int \<Rightarrow> ('k, io_answer \<times> address) socket_method" where
  "Socket_recvFrom_iov c lens from flags =
    seq (if_connected c (Recvmsg lens (Some (addr_arg c from)) flags)) (\<lambda>r. ret (r, written_address (nc_host c) (io_name r) from))"

subsection \<open>Cancelling\<close>

text \<open>A thread without an \<open>IOManager\<close> has a null pointer for it.\<close>

definition on_iom :: "bool io_method \<Rightarrow> ('k, bool) socket_method" where
  "on_iom op = (\<lambda>(s, m, iom). case iom of None \<Rightarrow> (Inl Null_Deref, (s, m, iom))
    | Some io \<Rightarrow> let (r, io1) = op io in (r, (s, m, Some io1)))"

definition Socket_cancelRead :: "'k net_calls \<Rightarrow> ('k, bool) socket_method" where
  "Socket_cancelRead c = seq this (\<lambda>s. on_iom (cancelEvent (nc_epoll_rt c) (m_sock s) READ))"

definition Socket_cancelWrite :: "'k net_calls \<Rightarrow> ('k, bool) socket_method" where
  "Socket_cancelWrite c = seq this (\<lambda>s. on_iom (cancelEvent (nc_epoll_rt c) (m_sock s) WRITE))"

definition Socket_cancelAccept :: "'k net_calls \<Rightarrow> ('k, bool) socket_method" where
  "Socket_cancelAccept c = seq this (\<lambda>s. on_iom (cancelEvent (nc_epoll_rt c) (m_sock s) READ))"

definition Socket_cancelAll :: "'k net_calls \<Rightarrow> ('k, bool) socket_method" where
  "Socket_cancelAll c = seq this (\<lambda>s. on_iom (cancelAll (nc_epoll_rt c) (m_sock s)))"

subsection \<open>Text\<close>

definition address_suffix :: "endian \<Rightarrow> string \<Rightarrow> address option \<Rightarrow> fault + string" where
  "address_suffix host label a =
    (case a of None \<Rightarrow> Inr '''' | Some x \<Rightarrow> map_sum id (\<lambda>t. label @ t) (Address_toString host x))"

definition Socket_toString :: "endian \<Rightarrow> socket \<Rightarrow> fault + string" where
  "Socket_toString host s =
    (case address_suffix host '' local_address='' (m_localAddress s) of
       Inl e \<Rightarrow> Inl e
     | Inr l \<Rightarrow>
         map_sum id (\<lambda>r. ''[Socket sock='' @ dec_int (m_sock s) @ '' is_connected='' @ (if m_isConnected s then ''1'' else ''0'') @
             '' family='' @ dec_int (m_family s) @ '' type='' @ dec_int (m_type s) @ '' protocol='' @ dec_int (m_protocol s) @
             l @ r @ '']'')
           (address_suffix host '' remote_address='' (m_remoteAddress s)))"

section \<open>Lemmas\<close>

lemmas sock_simps = seq_def ret_def throw_def this_def update_def on_net_def on_fds_def on_kernel_def

lemma SO_timeo: "SO_REUSEADDR \<noteq> SO_RCVTIMEO" "SO_REUSEADDR \<noteq> SO_SNDTIMEO" "IPPROTO_TCP \<noteq> SOL_SOCKET"
  by (simp_all add: SO_REUSEADDR_def SO_RCVTIMEO_def SO_SNDTIMEO_def IPPROTO_TCP_def SOL_SOCKET_def)

text \<open>Setting the options of a new descriptor touches the kernel only.\<close>

lemma initSock_ok: "\<exists>k. Socket_initSock c (s, m, iom) = (Inr (), (s, m\<lparr>kernel := k\<rparr>, iom))"
  by (auto simp: Socket_initSock_def Socket_setOption_def sock_simps SO_timeo case_prod_beta)

lemma fd_map_kernel [simp]: "fd_map (m\<lparr>kernel := k\<rparr>) = fd_map m" "fd_inv (m\<lparr>kernel := k\<rparr>) = fd_inv m"
  by (simp_all add: fd_map_def fd_inv_def fun_eq_iff)

lemma hook_socket_ok:
  assumes "fd_inv m" and "sys_socket sys family type protocol (kernel m) = (int fd, k)"
  shows "\<exists>ctx m'. hook_socket sys True family type protocol m = (Inr (int fd), m') \<and> fd_inv m' \<and> fd_map m' fd = Some ctx"
proof (cases "fd_map m fd")
  case None
  then show ?thesis
    using FdManager_get_absent [of "m\<lparr>kernel := k\<rparr>" fd sys] assms by (auto simp: hook_socket_def seq_def ret_def)
next
  case (Some ctx)
  then show ?thesis
    using FdManager_get_present [of "m\<lparr>kernel := k\<rparr>" fd ctx sys True] assms by (auto simp: hook_socket_def seq_def ret_def)
qed

lemma ensureSock_ok:
  assumes "fd_inv m" and "nc_hook c" and "m_sock s = - 1"
    and "sys_socket (nc_sys c) (m_family s) (m_type s) (m_protocol s) (kernel m) = (fd, k)" and "- 1 \<le> fd"
  shows "\<exists>m'. Socket_ensureSock c (s, m, iom) = (Inr (fd \<noteq> - 1), (s\<lparr>m_sock := fd\<rparr>, m', iom)) \<and> fd_inv m' \<and>
    (fd \<noteq> - 1 \<longrightarrow> fd_map m' (nat fd) \<noteq> None)"
proof (cases "fd = - 1")
  case True
  have "s\<lparr>m_sock := - 1\<rparr> = s"
    using assms(3) by simp
  with True assms show ?thesis
    by (simp add: Socket_ensureSock_def Socket_newSock_def sock_simps isValid_def hook_socket_def)
next
  case False
  then have fd: "fd = int (nat fd)"
    using assms(5) by simp
  obtain ctx m1 where m1: "hook_socket (nc_sys c) True (m_family s) (m_type s) (m_protocol s) m = (Inr fd, m1)" "fd_inv m1"
      "fd_map m1 (nat fd) = Some ctx"
    using hook_socket_ok [OF assms(1), of "nc_sys c" "m_family s" "m_type s" "m_protocol s" "nat fd" k] assms(4) fd by metis
  obtain k' where "Socket_initSock c (s\<lparr>m_sock := fd\<rparr>, m1, iom) = (Inr (), (s\<lparr>m_sock := fd\<rparr>, m1\<lparr>kernel := k'\<rparr>, iom))"
    using initSock_ok [of c "s\<lparr>m_sock := fd\<rparr>" m1 iom] by blast
  with m1 False assms(2,3) show ?thesis
    by (auto simp: Socket_ensureSock_def Socket_newSock_def sock_simps isValid_def)
qed

lemma close_ok:
  assumes "fd_inv m" and "nc_hook c" and "m_sock s = int fd"
  shows "\<exists>m'. Socket_close c (s, m, None) = (Inr False, (s\<lparr>m_isConnected := False, m_sock := - 1\<rparr>, m', None)) \<and> fd_map m' fd = None"
  using close_forgets [OF assms(1), of "nc_sys c" "nc_epoll_rt c" fd] assms(2,3) by (auto simp: Socket_close_def sock_simps)

text \<open>The address that \<open>getLocalAddress\<close> leaves in the socket.\<close>

definition local_after :: "'k net_calls \<Rightarrow> socket \<Rightarrow> 'k \<Rightarrow> address option" where
  "local_after c s k =
    (case m_localAddress s of
       Some a \<Rightarrow> Some a
     | None \<Rightarrow> map_option (named_address (nc_host c) (m_family s)) (nc_getsockname c (m_sock s) k))"

lemma getLocalAddress_ok:
  "\<exists>a. Socket_getLocalAddress c (s, m, iom) = (Inr a, (s\<lparr>m_localAddress := local_after c s (kernel m)\<rparr>, m, iom))"
  by (cases "m_localAddress s"; cases "nc_getsockname c (m_sock s) (kernel m)")
    (simp_all add: Socket_getLocalAddress_def local_after_def sock_simps Let_def)

section \<open>Properties\<close>

text \<open>
  What is relied on of the calls: the hooks are on, \<open>socket\<close> answers \<open>- 1\<close> or a descriptor, and
  whatever happens while \<open>connect\<close> waits, the table of descriptors remains one.
\<close>

definition net_laws :: "'k net_calls \<Rightarrow> bool" where
  "net_laws c \<longleftrightarrow> nc_hook c \<and> (\<forall>f t p k. - 1 \<le> fst (sys_socket (nc_sys c) f t p k)) \<and>
    (\<forall>fd a t m. fd_inv m \<longrightarrow> (\<exists>m'. snd (nc_connect c fd a t (m, None)) = (m', None) \<and> fd_inv m'))"


text \<open>Calls to compute with: a kernel with one descriptor, whose \<open>connect\<close> is refused or succeeds.\<close>

definition example_calls :: "int \<Rightarrow> (int \<Rightarrow> s32) net_calls" where
  "example_calls rt = \<lparr>nc_sys = example_sys, nc_hook = True, nc_epoll_rt = 0, nc_host = SYLAR_LITTLE_ENDIAN,
    nc_accept = (\<lambda>_ n. (- 1, n)), nc_connect = (\<lambda>_ _ _ n. (rt, n)),
    nc_io = (\<lambda>_ _ n. (\<lparr>io_result = 0, io_data = [], io_name = []\<rparr>, n)),
    nc_bind = (\<lambda>_ _ k. (0, k)), nc_listen = (\<lambda>_ _ k. (0, k)),
    nc_getsockname = (\<lambda>_ _. None), nc_getpeername = (\<lambda>_ _. None),
    nc_setsockopt = (\<lambda>_ _ _ _ k. (0, k)), nc_getsockopt = (\<lambda>_ _ _ _. Inr 0)\<rparr>"

lemma example_net_laws: "net_laws (example_calls rt)"
  by (simp add: net_laws_def example_calls_def example_sys_def)


section \<open>Timeouts\<close>

text \<open>The milliseconds that a timeout set in milliseconds becomes: the seconds are cut to 32 bits.\<close>

definition kept_ms :: "s64 \<Rightarrow> s64" where
  "kept_ms v = scast (word_of_int (sint v sdiv 1000) :: s32) * 1000 + word_of_int (sint v smod 1000)"

lemma sint_small: "- (2 ^ 31) \<le> i \<Longrightarrow> i < 2 ^ 31 \<Longrightarrow> sint (scast (word_of_int i :: s32) :: s64) = i"
  by (simp add: signed_scast_eq signed_of_int signed_take_bit_int_eq_self)

lemma timeval_kept: "timeval_ms (fst (timeval_of v)) (snd (timeval_of v)) = kept_ms v"
proof -
  have "\<bar>sint v smod 1000\<bar> < 1000"
    using smod_int_range [of 1000 "sint v"] by auto
  then have "sint (scast (word_of_int (sint v smod 1000 * 1000) :: s32) :: s64) = sint v smod 1000 * 1000"
    by (intro sint_small) auto
  moreover have "(a * 1000) sdiv 1000 = a" for a :: int
    by (cases "a < 0") (auto simp: signed_divide_int_def sgn_if)
  ultimately show ?thesis
    by (simp add: timeval_ms_def timeval_of_def kept_ms_def del: of_int_mult)
qed

lemma kept_ms_exact:
  assumes "- (2 ^ 31) \<le> sint v sdiv 1000" and "sint v sdiv 1000 < 2 ^ 31"
  shows "kept_ms v = v"
proof -
  have "scast (word_of_int (sint v sdiv 1000) :: s32) = (word_of_int (sint v sdiv 1000) :: s64)"
    using sint_small [OF assms] by (metis of_int_sint scast_id)
  then have "kept_ms v = word_of_int (sint v sdiv 1000 * 1000 + sint v smod 1000)"
    by (simp add: kept_ms_def)
  then show ?thesis
    by (simp only: sdiv_mult_smod_eq of_int_sint scast_id)
qed

lemma setTimeout_ok:
  assumes "nc_hook c" and "m_sock s = int fd" and "so = SO_RCVTIMEO \<or> so = SO_SNDTIMEO"
  shows "\<exists>b m'. Socket_setTimeout c so v (s, m, iom) = (Inr b, (s, m', iom)) \<and>
    fd_map m' = (fd_map m)(fd := map_option (FdCtx_setTimeout so (kept_ms v)) (fd_map m fd))"
proof (cases "fd_map m fd")
  case None
  then have "(fd_map m)(fd := None) = fd_map m"
    by auto
  with None assms show ?thesis
    by (auto simp: Socket_setTimeout_def Socket_setOption_def hook_setsockopt_def sock_simps FdManager_get_lookup case_prod_beta)
next
  case (Some x)
  with assms show ?thesis
    by (auto simp: Socket_setTimeout_def Socket_setOption_def hook_setsockopt_def sock_simps FdManager_get_lookup case_prod_beta timeval_kept set_ctx_map)
qed

lemma getTimeout_ok:
  "m_sock s = int fd \<Longrightarrow>
    Socket_getTimeout c so (s, m, iom) = (Inr (case fd_map m fd of None \<Rightarrow> - 1 | Some x \<Rightarrow> FdCtx_getTimeout so x), (s, m, iom))"
  by (simp add: Socket_getTimeout_def sock_simps FdManager_get_lookup)

text \<open>The timeouts of a socket. What \<open>setRecvTimeout\<close> and then \<open>setSendTimeout\<close> set is what
  \<open>getRecvTimeout\<close> and \<open>getSendTimeout\<close> report, if the table knows the descriptor: the two do not
  interfere, the milliseconds come back exactly, negative ones and those below a second included,
  as long as the seconds fit 32 bits, and the timeouts of other descriptors stay. If the table does
  not know the descriptor, \<open>- 1\<close> is reported. A socket that has no descriptor yet reads the table in
  front of its first entry.
\<close>

theorem Socket_timeout_roundtrip:
  assumes "nc_hook c"
  shows "(\<forall>fd. m_sock s = int fd \<longrightarrow>
      (\<exists>m'. seq (Socket_setRecvTimeout c v) (\<lambda>_. Socket_setSendTimeout c w) (s, m, iom) = (Inr (), (s, m', iom)) \<and>
        Socket_getRecvTimeout c (s, m', iom) = (Inr (if fd_map m fd = None then - 1 else kept_ms v), (s, m', iom)) \<and>
        Socket_getSendTimeout c (s, m', iom) = (Inr (if fd_map m fd = None then - 1 else kept_ms w), (s, m', iom)) \<and>
        (\<forall>fd'. fd' \<noteq> fd \<longrightarrow> fd_map m' fd' = fd_map m fd'))) \<and>
    (- (2 ^ 31) \<le> sint v sdiv 1000 \<longrightarrow> sint v sdiv 1000 < 2 ^ 31 \<longrightarrow> kept_ms v = v) \<and>
    (m_sock s = - 1 \<longrightarrow> fst (Socket_setRecvTimeout c v (s, m, iom)) = Inl Out_Of_Bounds \<and>
      fst (Socket_getRecvTimeout c (s, m, iom)) = Inl Out_Of_Bounds)"
proof (intro conjI allI impI)
  fix fd assume fd: "m_sock s = int fd"
  note unf = Socket_setRecvTimeout_def Socket_setSendTimeout_def Socket_getRecvTimeout_def Socket_getSendTimeout_def
  obtain b1 m1 where m1: "Socket_setTimeout c SO_RCVTIMEO v (s, m, iom) = (Inr b1, (s, m1, iom))"
      "fd_map m1 = (fd_map m)(fd := map_option (FdCtx_setTimeout SO_RCVTIMEO (kept_ms v)) (fd_map m fd))"
    using setTimeout_ok [OF assms fd] by blast
  obtain b2 m2 where m2: "Socket_setTimeout c SO_SNDTIMEO w (s, m1, iom) = (Inr b2, (s, m2, iom))"
      "fd_map m2 = (fd_map m1)(fd := map_option (FdCtx_setTimeout SO_SNDTIMEO (kept_ms w)) (fd_map m1 fd))"
    using setTimeout_ok [OF assms fd] by blast
  show "\<exists>m'. seq (Socket_setRecvTimeout c v) (\<lambda>_. Socket_setSendTimeout c w) (s, m, iom) = (Inr (), (s, m', iom)) \<and>
      Socket_getRecvTimeout c (s, m', iom) = (Inr (if fd_map m fd = None then - 1 else kept_ms v), (s, m', iom)) \<and>
      Socket_getSendTimeout c (s, m', iom) = (Inr (if fd_map m fd = None then - 1 else kept_ms w), (s, m', iom)) \<and>
      (\<forall>fd'. fd' \<noteq> fd \<longrightarrow> fd_map m' fd' = fd_map m fd')"
    using m1 m2 by (intro exI [of _ m2])
      (auto simp: unf seq_def ret_def getTimeout_ok [OF fd] FdCtx_setTimeout_def FdCtx_getTimeout_def SO_RCVTIMEO_def SO_SNDTIMEO_def split: option.split)
next
  assume "- (2 ^ 31) \<le> sint v sdiv 1000" and "sint v sdiv 1000 < 2 ^ 31"
  then show "kept_ms v = v"
    by (rule kept_ms_exact)
next
  assume "m_sock s = - 1"
  then show "fst (Socket_setRecvTimeout c v (s, m, iom)) = Inl Out_Of_Bounds"
    using assms by (simp add: Socket_setRecvTimeout_def Socket_setTimeout_def Socket_setOption_def hook_setsockopt_def sock_simps FdManager_get_def)
next
  assume "m_sock s = - 1"
  then show "fst (Socket_getRecvTimeout c (s, m, iom)) = Inl Out_Of_Bounds"
    by (simp add: Socket_getRecvTimeout_def Socket_getTimeout_def sock_simps FdManager_get_def)
qed

lemma Socket_timeout_roundtrip_witness:
  "let m = FdManager (\<lambda>_. 2); m5 = m\<lparr>m_datas := (m_datas m)[5 := Some (fst (FdCtx example_sys 5 (\<lambda>_ :: int. 2 :: s32)))]\<rparr>; s = (Socket IPv4 TCP 0)\<lparr>m_sock := 5\<rparr>
   in \<exists>m'. seq (Socket_setRecvTimeout (example_calls 0) 1500) (\<lambda>_. Socket_setSendTimeout (example_calls 0) (- 7)) (s, m5, None) = (Inr (), (s, m', None)) \<and>
     Socket_getRecvTimeout (example_calls 0) (s, m', None) = (Inr 1500, (s, m', None)) \<and>
     Socket_getSendTimeout (example_calls 0) (s, m', None) = (Inr (- 7), (s, m', None))"
proof -
  let ?m = "FdManager (\<lambda>_ :: int. 2 :: s32)" and ?c = "example_calls 0" and ?s = "(Socket IPv4 TCP 0)\<lparr>m_sock := 5\<rparr>"
  let ?m5 = "?m\<lparr>m_datas := (m_datas ?m)[5 := Some (fst (FdCtx example_sys 5 (\<lambda>_ :: int. 2 :: s32)))]\<rparr>"
  have "nc_hook ?c" "m_sock ?s = int 5" "fd_map ?m5 5 \<noteq> None"
    by (simp_all add: example_calls_def FdManager_def fd_map_def)
  moreover have "kept_ms 1500 = 1500" "kept_ms (- 7) = - 7"
    by (simp_all add: kept_ms_def signed_divide_int_def smod_int_alt_def)
  ultimately show ?thesis
    using Socket_timeout_roundtrip [of ?c ?s 1500 "- 7" ?m5 None, THEN conjunct1, THEN spec, of 5] unfolding Let_def by auto
qed

end
