(* ===== verification/Socket_Run.thy ===== *)
theory Socket_Run
  imports Socket
begin

text \<open>
  The life of a stream socket: every sequence of method calls on it, with other fibers at work
  between and during them, and of the sockets it accepts.
\<close>

section \<open>Runs\<close>

inductive socket_step :: "'k net_calls \<Rightarrow> socket \<times> 'k net \<Rightarrow> socket \<times> 'k net \<Rightarrow> bool" for c where
  connect: "Socket_connect c addr t sn = (r, sn') \<Longrightarrow> socket_step c sn sn'"
| reconnect: "Socket_reconnect c t sn = (r, sn') \<Longrightarrow> socket_step c sn sn'"
| bind: "Socket_bind c addr sn = (r, sn') \<Longrightarrow> socket_step c sn sn'"
| listen: "Socket_listen c backlog sn = (r, sn') \<Longrightarrow> socket_step c sn sn'"
| close: "Socket_close c sn = (r, sn') \<Longrightarrow> socket_step c sn sn'"
| getLocal: "Socket_getLocalAddress c sn = (r, sn') \<Longrightarrow> socket_step c sn sn'"
| getRemote: "Socket_getRemoteAddress c sn = (r, sn') \<Longrightarrow> socket_step c sn sn'"
| setOption: "Socket_setOption c level option v sn = (r, sn') \<Longrightarrow> socket_step c sn sn'"
| recvTimeout: "Socket_setRecvTimeout c v sn = (r, sn') \<Longrightarrow> socket_step c sn sn'"
| sendTimeout: "Socket_setSendTimeout c v sn = (r, sn') \<Longrightarrow> socket_step c sn sn'"
| io: "if_connected c req sn = (r, sn') \<Longrightarrow> socket_step c sn sn'"
| listener: "Socket_accept c sn = (r, sn') \<Longrightarrow> socket_step c sn sn'"
| accepted: "Socket_accept c (s, n) = (Inr (Some s'), (s1, n')) \<Longrightarrow> socket_step c (s, n) (s', n')"
| cancel: "Socket_cancelRead c sn = (r, sn') \<or> Socket_cancelWrite c sn = (r, sn') \<or> Socket_cancelAll c sn = (r, sn') \<Longrightarrow>
    socket_step c sn sn'"
| others: "socket_step c (s, n) (s, n')"

section \<open>Conditions that methods keep\<close>

text \<open>
  If the socket satisfies \<open>P\<close> before a method, it satisfies \<open>Q\<close> of the result after it, or \<open>E\<close> if the
  method ends in a fault, whatever the method finds behind the calls.
\<close>

definition socket_triple :: "(socket \<Rightarrow> bool) \<Rightarrow> (socket \<Rightarrow> bool) \<Rightarrow> ('k, 'a) socket_method \<Rightarrow> ('a \<Rightarrow> socket \<Rightarrow> bool) \<Rightarrow> bool" where
  "socket_triple E P op Q \<longleftrightarrow>
    (\<forall>s n r s' n'. P s \<longrightarrow> op (s, n) = (r, (s', n')) \<longrightarrow> (case r of Inl _ \<Rightarrow> E s' | Inr a \<Rightarrow> Q a s'))"

lemma tripleI:
  assumes "\<And>s n e s' n'. P s \<Longrightarrow> op (s, n) = (Inl e, (s', n')) \<Longrightarrow> E s'"
    and "\<And>s n a s' n'. P s \<Longrightarrow> op (s, n) = (Inr a, (s', n')) \<Longrightarrow> Q a s'"
  shows "socket_triple E P op Q"
  using assms unfolding socket_triple_def by (metis (no_types, lifting) sum.case sum.exhaust)

lemma tripleD:
  "socket_triple E P op Q \<Longrightarrow> P s \<Longrightarrow> op (s, n) = (Inl e, (s', n')) \<Longrightarrow> E s'"
  "socket_triple E P op Q \<Longrightarrow> P s \<Longrightarrow> op (s, n) = (Inr a, (s', n')) \<Longrightarrow> Q a s'"
  unfolding socket_triple_def by fastforce+

named_theorems triples \<open>rules for the methods of a socket\<close>

lemma triple_seq:
  assumes "socket_triple E P op Q" and "\<And>a. socket_triple E (Q a) (f a) R"
  shows "socket_triple E P (seq op f) R"
proof (rule tripleI)
  fix s n e s' n' assume "P s" and run: "seq op f (s, n) = (Inl e, (s', n'))"
  obtain r s1 n1 where op: "op (s, n) = (r, (s1, n1))"
    by (metis prod.collapse)
  show "E s'"
  proof (cases r)
    case (Inl e1)
    with run op tripleD(1) [OF assms(1) \<open>P s\<close>, of n e1 s1 n1] show ?thesis
      by (simp add: seq_def)
  next
    case (Inr a)
    with run op tripleD(2) [OF assms(1) \<open>P s\<close>, of n a s1 n1] tripleD(1) [OF assms(2), of a s1 n1 e s' n'] show ?thesis
      by (simp add: seq_def)
  qed
next
  fix s n b s' n' assume "P s" and run: "seq op f (s, n) = (Inr b, (s', n'))"
  obtain r s1 n1 where op: "op (s, n) = (r, (s1, n1))"
    by (metis prod.collapse)
  then obtain a where "r = Inr a"
    using run by (cases r) (auto simp: seq_def)
  with run op tripleD(2) [OF assms(1) \<open>P s\<close>, of n a s1 n1] tripleD(2) [OF assms(2), of a s1 n1 b s' n'] show "R b s'"
    by (simp add: seq_def)
qed

lemma triple_this [triples]: "socket_triple E P this (\<lambda>a s. a = s \<and> P s)"
  by (simp add: socket_triple_def this_def)

lemma triple_ret [triples]: "(\<And>s. P s \<Longrightarrow> Q a s) \<Longrightarrow> socket_triple E P (ret a) Q"
  by (simp add: socket_triple_def ret_def)

lemma triple_update [triples]: "(\<And>s. P s \<Longrightarrow> Q () (f s)) \<Longrightarrow> socket_triple E P (update f) Q"
  by (simp add: socket_triple_def update_def)

lemma triple_if [triples]:
  assumes "b \<Longrightarrow> socket_triple E P op Q" and "\<not> b \<Longrightarrow> socket_triple E P op' Q"
  shows "socket_triple E P (if b then op else op') Q"
  using assms by simp

lemma triple_conseq:
  assumes "socket_triple E P op Q" and "\<And>s. P' s \<Longrightarrow> P s" and "\<And>a s. Q a s \<Longrightarrow> Q' a s"
  shows "socket_triple E P' op Q'"
  using assms(2,3) tripleD [OF assms(1)] by (intro tripleI) blast+

section \<open>The invariant\<close>

text \<open>A socket keeps what it was made for, and one that counts as connected has a descriptor.\<close>

definition socket_inv :: "int \<Rightarrow> int \<Rightarrow> socket \<Rightarrow> bool" where
  "socket_inv family type s \<longleftrightarrow> m_family s = family \<and> m_type s = type \<and> (m_isConnected s \<longrightarrow> m_sock s \<noteq> - 1)"

abbreviation keeps :: "int \<Rightarrow> int \<Rightarrow> ('k, 'a) socket_method \<Rightarrow> bool" where
  "keeps family type op \<equiv> socket_triple (socket_inv family type) (socket_inv family type) op (\<lambda>_. socket_inv family type)"

text \<open>A method that leaves the members alone.\<close>

definition reads_only :: "('k, 'a) socket_method \<Rightarrow> bool" where
  "reads_only op \<longleftrightarrow> (\<forall>s n r s' n'. op (s, n) = (r, (s', n')) \<longrightarrow> s' = s)"

lemma reads_only_triple: "reads_only op \<Longrightarrow> (\<And>s. P s \<Longrightarrow> E s) \<Longrightarrow> socket_triple E P op (\<lambda>_. P)"
  unfolding reads_only_def by (intro tripleI) blast+

lemma reads_only_seq:
  assumes "reads_only op" and "\<And>a. reads_only (f a)"
  shows "reads_only (seq op f)"
  unfolding reads_only_def
proof (intro allI impI)
  fix s n r s' n' assume run: "seq op f (s, n) = (r, (s', n'))"
  obtain r1 s1 n1 where op: "op (s, n) = (r1, (s1, n1))"
    by (metis prod.collapse)
  with assms(1) have s1: "s1 = s"
    unfolding reads_only_def by blast
  show "s' = s"
  proof (cases r1)
    case (Inl e)
    with run op s1 show ?thesis
      by (simp add: seq_def)
  next
    case (Inr a)
    with run op have "f a (s1, n1) = (r, (s', n'))"
      by (simp add: seq_def)
    with assms(2) s1 show ?thesis
      unfolding reads_only_def by blast
  qed
qed

lemma reads_only_basic: "reads_only this" "reads_only (ret a)" "reads_only (on_net op)" "reads_only (on_fds op')" "reads_only (on_kernel op'')"
    "reads_only (on_iom op''')"
  by (auto simp: reads_only_def this_def ret_def on_net_def on_fds_def on_kernel_def on_iom_def Let_def split: prod.splits option.splits)

lemma reads_only_cases:
  "reads_only op \<Longrightarrow> reads_only op' \<Longrightarrow> reads_only (if b then op else op')"
  "reads_only op \<Longrightarrow> (\<And>x. reads_only (f x)) \<Longrightarrow> reads_only (case a of None \<Rightarrow> op | Some x \<Rightarrow> f x)"
  by (simp_all split: option.split)

lemmas reads_only_intros = reads_only_seq reads_only_basic reads_only_cases

lemma reads_only_methods:
  "reads_only (Socket_setOption c level option v)" "reads_only (Socket_setRecvTimeout c t)" "reads_only (Socket_setSendTimeout c t)"
  "reads_only (Socket_initSock c)" "reads_only (Socket_listen c backlog)" "reads_only (if_connected c req)"
  "reads_only (Socket_cancelRead c)" "reads_only (Socket_cancelWrite c)" "reads_only (Socket_cancelAll c)"
  unfolding Socket_setRecvTimeout_def Socket_setSendTimeout_def Socket_setTimeout_def Socket_initSock_def Socket_setOption_def
    Socket_listen_def if_connected_def Socket_cancelRead_def Socket_cancelWrite_def Socket_cancelAll_def
  by (intro reads_only_intros)+

text \<open>A step that only reads, in front of others; and the value of the members themselves.\<close>

lemma triple_reads:
  assumes "reads_only op" and "\<And>s. P s \<Longrightarrow> E s" and "\<And>a. socket_triple E P (f a) R"
  shows "socket_triple E P (seq op f) R"
  using triple_seq [OF reads_only_triple] assms by blast

lemma triple_with_this:
  assumes "\<And>t. P t \<Longrightarrow> socket_triple E (\<lambda>s. s = t) (f t) R"
  shows "socket_triple E P (seq this f) R"
  using assms by (auto simp: socket_triple_def seq_def this_def)

lemma triple_then_update:
  assumes "socket_triple E (\<lambda>s. \<exists>t. P t \<and> s = g t) (f ()) R"
  shows "socket_triple E P (seq (update g) f) R"
  using assms by (force simp: socket_triple_def seq_def update_def)

lemma triple_last:
  assumes "reads_only op" and "\<And>s. P s \<Longrightarrow> E s" and "\<And>a s. P s \<Longrightarrow> Q a s"
  shows "socket_triple E P op Q"
  using triple_conseq [OF reads_only_triple [OF assms(1)]] assms(2,3) by blast

lemma triple_option:
  assumes "a = None \<Longrightarrow> socket_triple E P op Q" and "\<And>x. a = Some x \<Longrightarrow> socket_triple E P (f x) Q"
  shows "socket_triple E P (case a of None \<Rightarrow> op | Some x \<Rightarrow> f x) Q"
  using assms by (simp split: option.split)

lemma newSock_keeps:
  "socket_inv family type t \<Longrightarrow> m_sock t = - 1 \<Longrightarrow>
    socket_triple (socket_inv family type) (\<lambda>s. s = t) (Socket_newSock c) (\<lambda>_. socket_inv family type)"
  unfolding Socket_newSock_def
  by (intro triple_with_this triple_reads triple_then_update triple_if triple_ret triple_option triple_last reads_only_basic reads_only_methods)
    (auto simp: socket_inv_def)

lemma ensureSock_keeps:
  "socket_triple (socket_inv family type) (socket_inv family type) (Socket_ensureSock c) (\<lambda>v s. socket_inv family type s \<and> (v \<longrightarrow> m_sock s \<noteq> - 1))"
  unfolding Socket_ensureSock_def
  by (intro triple_with_this triple_seq [OF newSock_keeps] triple_if triple_ret triple_option triple_last reads_only_basic)
    (auto simp: socket_inv_def isValid_def)

lemma close_keeps: "keeps family type (Socket_close c)"
  unfolding Socket_close_def
  by (intro triple_with_this triple_reads triple_then_update triple_if triple_ret triple_option triple_last reads_only_basic)
    (auto simp: socket_inv_def)

lemma getRemoteAddress_keeps: "keeps family type (Socket_getRemoteAddress c)"
  unfolding Socket_getRemoteAddress_def Let_def
  by (intro triple_with_this triple_reads triple_then_update triple_if triple_ret triple_option triple_last reads_only_basic)
    (auto simp: socket_inv_def)

lemma getLocalAddress_keeps: "keeps family type (Socket_getLocalAddress c)"
  unfolding Socket_getLocalAddress_def Let_def
  by (intro triple_with_this triple_reads triple_then_update triple_if triple_ret triple_option triple_last reads_only_basic)
    (auto simp: socket_inv_def)

lemma keeps_from: "keeps family type op \<Longrightarrow> socket_inv family type t \<Longrightarrow> socket_triple (socket_inv family type) (\<lambda>s. s = t) op (\<lambda>_. socket_inv family type)"
  by (rule triple_conseq, assumption) auto

lemma triple_exists: "(\<And>t. P t \<Longrightarrow> socket_triple E (\<lambda>s. s = t) op Q) \<Longrightarrow> socket_triple E P op Q"
  by (auto simp: socket_triple_def)

lemma connect_keeps: "keeps family type (Socket_connect c addr t)"
proof -
  have tail: "socket_triple (socket_inv family type) (\<lambda>s. socket_inv family type s \<and> m_sock s \<noteq> - 1)
      (seq (update (\<lambda>s. s\<lparr>m_isConnected := True\<rparr>)) (\<lambda>_. seq (Socket_getRemoteAddress c) (\<lambda>_. seq (Socket_getLocalAddress c) (\<lambda>_. ret True))))
      (\<lambda>_. socket_inv family type)"
    by (rule triple_then_update, rule triple_exists, rule triple_seq [OF keeps_from [OF getRemoteAddress_keeps]],
        force simp: socket_inv_def, rule triple_seq [OF getLocalAddress_keeps], rule triple_ret)
  have call: "socket_triple (socket_inv family type) (\<lambda>s. s = u)
      (seq (on_net op) (\<lambda>rt. if rt \<noteq> 0 then seq (Socket_close c) (\<lambda>_. ret False)
        else seq (update (\<lambda>s. s\<lparr>m_isConnected := True\<rparr>)) (\<lambda>_. seq (Socket_getRemoteAddress c) (\<lambda>_. seq (Socket_getLocalAddress c) (\<lambda>_. ret True)))))
      (\<lambda>_. socket_inv family type)" if "socket_inv family type u" "m_sock u \<noteq> - 1" for u op
    using that
    by (intro triple_reads triple_if triple_seq [OF keeps_from [OF close_keeps]] triple_conseq [OF tail])
      (auto intro: reads_only_basic triple_ret)
  have ensure: "socket_triple (socket_inv family type) (\<lambda>s. s = u) (Socket_ensureSock c) (\<lambda>v s. socket_inv family type s \<and> (v \<longrightarrow> m_sock s \<noteq> - 1))"
    if "socket_inv family type u" for u
    using that by (intro triple_conseq [OF ensureSock_keeps]) auto
  show ?thesis
    unfolding Socket_connect_def
    by (rule triple_then_update, rule triple_exists, rule triple_seq [OF ensure], force simp: socket_inv_def,
        rule triple_if, rule triple_ret, simp, rule triple_with_this, rule triple_if, rule triple_ret, simp, rule call) simp_all
qed

lemma reconnect_keeps: "keeps family type (Socket_reconnect c t)"
  unfolding Socket_reconnect_def
  by (rule triple_with_this, rule triple_option, rule triple_ret, simp, rule triple_then_update, rule triple_conseq [OF connect_keeps])
    (auto simp: socket_inv_def)

lemma with_socket_reads: "reads_only (with_socket c s' op)"
  by (auto simp: reads_only_def with_socket_def Let_def split: prod.splits)

lemma bind_keeps: "keeps family type (Socket_bind c addr)"
proof -
  have probe: "reads_only (case addr of UnixAddress _ _ \<Rightarrow> with_socket c (Socket UNIX TCP 0) (Socket_connect c addr (- 1)) | _ \<Rightarrow> ret False)"
    by (simp add: with_socket_reads reads_only_basic split: address.split)
  show ?thesis
    unfolding Socket_bind_def
    by (rule triple_seq [OF ensureSock_keeps], rule triple_if, rule triple_ret, simp, rule triple_with_this, rule triple_if, rule triple_ret, simp,
        rule triple_reads [OF probe], simp, rule triple_if, rule triple_ret, simp, rule triple_reads [OF reads_only_basic(5)], simp,
        rule triple_if, rule triple_ret, simp, rule triple_seq [OF keeps_from [OF getLocalAddress_keeps]], simp, rule triple_ret, simp)
qed

lemma init_keeps:
  assumes "sock \<noteq> - 1"
  shows "keeps family type (Socket_init c sock)"
  unfolding Socket_init_def
  by (rule triple_reads [OF reads_only_basic(4)], simp, rule triple_if, rule triple_ret, simp, rule triple_then_update, rule triple_exists,
      rule triple_reads [OF reads_only_methods(4)], force simp: socket_inv_def assms,
      rule triple_seq [OF keeps_from [OF getLocalAddress_keeps]], force simp: socket_inv_def assms,
      rule triple_seq [OF getRemoteAddress_keeps], rule triple_ret)

text \<open>\<open>accept\<close> leaves the listening socket alone, and the new one is of the same kind.\<close>

lemma accept_reads: "reads_only (Socket_accept c)"
proof -
  have "reads_only (\<lambda>(s0, n).
      case Socket_init c newsock (Socket (m_family s) (m_type s) (m_protocol s), n) of
        (Inl e, (_, n1)) \<Rightarrow> (Inl e, (s0, n1))
      | (Inr ok, (cli_sock, n1)) \<Rightarrow> (Inr (if ok then Some cli_sock else None), (s0, n1)))" for s newsock
    by (auto simp: reads_only_def split: prod.splits sum.splits)
  then show ?thesis
    unfolding Socket_accept_def by (intro reads_only_intros)
qed

lemma accept_makes:
  assumes "socket_inv family type s" and "Socket_accept c (s, n) = (Inr (Some s'), (s1, n'))"
  shows "socket_inv family type s'"
proof -
  let ?new = "Socket (m_family s) (m_type s) (m_protocol s)"
  obtain newsock n1 n2 where "newsock \<noteq> - 1" and "Socket_init c newsock (?new, n1) = (Inr True, (s', n2))"
    using assms(2) by (auto simp: Socket_accept_def sock_simps Let_def split: prod.splits sum.splits if_splits)
  moreover have "socket_inv family type ?new"
    using assms(1) by (simp add: socket_inv_def Socket_def)
  ultimately show ?thesis
    using tripleD(2) [OF init_keeps] by blast
qed

section \<open>Properties\<close>

lemma socket_step_inv:
  assumes "socket_step c (s, n) (s', n')" and "socket_inv family type s"
  shows "socket_inv family type s'"
proof -
  have keep: "socket_inv family type s'" if "keeps family type op" "op (s, n) = (r, (s', n'))" for op :: "('a, 'b) socket_method" and r
    using tripleD [OF that(1) assms(2)] that(2) by (cases r) auto
  have same: "socket_inv family type s'" if "reads_only op" "op (s, n) = (r, (s', n'))" for op :: "('a, 'b) socket_method" and r
    using that assms(2) unfolding reads_only_def by blast
  from assms(1) show ?thesis
    by (cases rule: socket_step.cases)
      (auto intro: keep [OF connect_keeps] keep [OF reconnect_keeps] keep [OF bind_keeps] keep [OF close_keeps] keep [OF getLocalAddress_keeps]
        keep [OF getRemoteAddress_keeps] same [OF accept_reads] same [OF reads_only_methods(1)] same [OF reads_only_methods(2)]
        same [OF reads_only_methods(3)] same [OF reads_only_methods(5)] same [OF reads_only_methods(6)] same [OF reads_only_methods(7)]
        same [OF reads_only_methods(8)] same [OF reads_only_methods(9)] accept_makes [OF assms(2)] assms(2))
qed

lemma socket_run_inv:
  assumes "(socket_step c)\<^sup>*\<^sup>* sn sn'" and "socket_inv family type (fst sn)"
  shows "socket_inv family type (fst sn')"
  using assms by (induction rule: rtranclp_induct) (metis prod.collapse socket_step_inv)+

text \<open>C35: whatever is called on a stream socket, in any order, on it and on the sockets it accepts, with
  any results of the system calls and any work of other fibers in between, the socket keeps its
  family and type, and one that counts as connected has a descriptor: data calls are made on no
  other, and answer \<open>- 1\<close> without a call if the socket is not connected. A datagram socket from its
  factory counts as connected even if no descriptor could be made.
\<close>

theorem Socket_connected_has_descriptor:
  assumes "(socket_step c)\<^sup>*\<^sup>* (Socket_CreateTCP a, n) (s, n')" and "nc_hook c"
  shows "m_family s = uint (getFamily a) \<and> m_type s = TCP \<and> (m_isConnected s \<longrightarrow> isValid s) \<and>
    (\<not> m_isConnected s \<longrightarrow> if_connected c req (s, n') = (Inr \<lparr>io_result = - 1, io_data = [], io_name = []\<rparr>, (s, n'))) \<and>
    (\<forall>k. sys_socket (nc_sys c) (uint (getFamily a)) UDP 0 (kernel (fst n)) = (- 1, k) \<longrightarrow>
      (\<exists>s' n1. Socket_CreateUDP c a n = (Inr (), (s', n1)) \<and> m_isConnected s' \<and> \<not> isValid s'))"
proof -
  have "socket_inv (uint (getFamily a)) TCP (fst (Socket_CreateTCP a, n))"
    by (simp add: socket_inv_def Socket_CreateTCP_def Socket_def)
  from socket_run_inv [OF assms(1) this] have "socket_inv (uint (getFamily a)) TCP s"
    by simp
  moreover obtain m iom where "n = (m, iom)"
    by (cases n)
  ultimately show ?thesis
    by (auto simp: socket_inv_def isValid_def if_connected_def sock_simps Socket_CreateUDP_def opened_def Socket_newSock_def
        hook_socket_def Socket_def assms(2))
qed

lemma example_connect:
  assumes "uint (getFamily a) = 2"
  shows "\<exists>s' n'. Socket_connect (example_calls 0) a (- 1) (Socket_CreateTCP a, (FdManager (\<lambda>_ :: int. 2 :: s32), None)) = (Inr True, (s', n')) \<and> m_isConnected s'"
  by (simp add: Socket_connect_def Socket_CreateTCP_def Socket_def Socket_ensureSock_def isValid_def Socket_newSock_def Socket_initSock_def
      Socket_setOption_def sock_simps SO_timeo hook_socket_def example_calls_def example_sys_def FdManager_def FdManager_get_def
      FdManager_create_def FdCtx_def FdCtx_init_def Socket_getRemoteAddress_def Socket_getLocalAddress_def assms Let_def TCP_def)

lemma Socket_connected_has_descriptor_witness:
  "let a = IPv4Address (new_IPv4Address SYLAR_LITTLE_ENDIAN 0x7f000001 80); c = example_calls 0; n = (FdManager (\<lambda>_. 2), None)
   in \<exists>s' n'. Socket_connect c a (- 1) (Socket_CreateTCP a, n) = (Inr True, (s', n')) \<and> m_isConnected s' \<and> isValid s'"
proof -
  let ?a = "IPv4Address (new_IPv4Address SYLAR_LITTLE_ENDIAN 0x7f000001 80)" and ?n = "(FdManager (\<lambda>_ :: int. 2 :: s32), None)" and ?c = "example_calls 0"
  have fam: "uint (getFamily ?a) = 2"
    by (simp add: new_IPv4Address_def AF_INET_def)
  obtain s' n' where run: "Socket_connect ?c ?a (- 1) (Socket_CreateTCP ?a, ?n) = (Inr True, (s', n'))" and conn: "m_isConnected s'"
    using example_connect [OF fam] by blast
  have "socket_step ?c (Socket_CreateTCP ?a, ?n) (s', n')"
    using run by (rule socket_step.connect)
  then have "isValid s'"
    using conn Socket_connected_has_descriptor [of ?c ?a ?n s' n'] by (auto simp: example_calls_def)
  with run conn show ?thesis
    unfolding Let_def by blast
qed

end
