(* ===== verification/Ssl_Socket.thy ===== *)
theory Ssl_Socket
  imports Socket_Run
begin

text \<open>
  \<open>SSLSocket\<close> of \<open>sylar/socket.{h,cpp}\<close>: a socket whose data calls go through OpenSSL. The calls of
  OpenSSL are arguments; its contexts and connections are the numbers that its pointers stand for.
\<close>

section \<open>The calls\<close>

text \<open>
  \<open>sl_ctx_new\<close> makes a context for the client or the server, \<open>sl_new\<close> a connection of a context that may
  be null; both answer \<open>None\<close> for a null pointer. The buffers of \<open>sl_read\<close> are given by their sizes.
\<close>

record 'k ssl_calls =
  sl_ctx_new :: "bool \<Rightarrow> 'k \<Rightarrow> nat option \<times> 'k"
  sl_use_chain :: "nat option \<Rightarrow> string \<Rightarrow> 'k \<Rightarrow> int \<times> 'k"
  sl_use_key :: "nat option \<Rightarrow> string \<Rightarrow> 'k \<Rightarrow> int \<times> 'k"
  sl_check_key :: "nat option \<Rightarrow> 'k \<Rightarrow> int \<times> 'k"
  sl_new :: "nat option \<Rightarrow> 'k \<Rightarrow> nat option \<times> 'k"
  sl_set_fd :: "nat \<Rightarrow> int \<Rightarrow> 'k \<Rightarrow> 'k"
  sl_connect :: "nat \<Rightarrow> 'k net \<Rightarrow> int \<times> 'k net"
  sl_accept :: "nat \<Rightarrow> 'k net \<Rightarrow> int \<times> 'k net"
  sl_write :: "nat \<Rightarrow> int \<Rightarrow> byte list \<Rightarrow> 'k net \<Rightarrow> int \<times> 'k net"
  sl_read :: "nat \<Rightarrow> int \<Rightarrow> 'k net \<Rightarrow> (int \<times> byte list) \<times> 'k net"

section \<open>Sockets\<close>

record ssl_socket =
  base :: socket
  m_ctx :: "nat option"
  m_ssl :: "nat option"

type_synonym ('k, 'a) ssl_method = "(ssl_socket \<times> 'k net, 'a) action"

definition on_base :: "('k, 'a) socket_method \<Rightarrow> ('k, 'a) ssl_method" where
  "on_base op = (\<lambda>(s, n). let (r, (b, n1)) = op (base s, n) in (r, (s\<lparr>base := b\<rparr>, n1)))"

definition ssl_this :: "('k, ssl_socket) ssl_method" where
  "ssl_this = (\<lambda>(s, n). (Inr s, (s, n)))"

definition ssl_update :: "(ssl_socket \<Rightarrow> ssl_socket) \<Rightarrow> ('k, unit) ssl_method" where
  "ssl_update f = (\<lambda>(s, n). (Inr (), (f s, n)))"

definition on_ssl :: "('k net \<Rightarrow> 'a \<times> 'k net) \<Rightarrow> ('k, 'a) ssl_method" where
  "on_ssl op = (\<lambda>(s, n). let (a, n1) = op n in (Inr a, (s, n1)))"

text \<open>\<open>size_t\<close> to \<open>int\<close>.\<close>

definition int_of_size :: "nat \<Rightarrow> int" where
  "int_of_size n = sint (word_of_int (int n) :: s32)"

definition SSLSocket :: "int \<Rightarrow> int \<Rightarrow> int \<Rightarrow> ssl_socket" where
  "SSLSocket family type protocol = \<lparr>base = Socket family type protocol, m_ctx = None, m_ssl = None\<rparr>"

definition SSLSocket_CreateTCP :: "address \<Rightarrow> ssl_socket" where "SSLSocket_CreateTCP a = SSLSocket (uint (getFamily a)) TCP 0"
definition SSLSocket_CreateTCPSocket :: ssl_socket where "SSLSocket_CreateTCPSocket = SSLSocket IPv4 TCP 0"
definition SSLSocket_CreateTCPSocket6 :: ssl_socket where "SSLSocket_CreateTCPSocket6 = SSLSocket IPv6 TCP 0"

definition SSLSocket_bind :: "'k net_calls \<Rightarrow> address \<Rightarrow> ('k, bool) ssl_method" where
  "SSLSocket_bind c addr = on_base (Socket_bind c addr)"

definition SSLSocket_listen :: "'k net_calls \<Rightarrow> int \<Rightarrow> ('k, bool) ssl_method" where
  "SSLSocket_listen c backlog = on_base (Socket_listen c backlog)"

definition SSLSocket_close :: "'k net_calls \<Rightarrow> ('k, bool) ssl_method" where
  "SSLSocket_close c = on_base (Socket_close c)"

text \<open>
  A new connection of the context, on the socket's descriptor, and its handshake; a null connection
  is dereferenced by \<open>SSL_set_fd\<close>.
\<close>

definition ssl_handshake :: "'k ssl_calls \<Rightarrow> (nat \<Rightarrow> 'k net \<Rightarrow> int \<times> 'k net) \<Rightarrow> ('k, bool) ssl_method" where
  "ssl_handshake ops shake =
    seq ssl_this (\<lambda>s.
    seq (on_base (on_kernel (sl_new ops (m_ctx s)))) (\<lambda>ssl.
    seq (ssl_update (\<lambda>s. s\<lparr>m_ssl := ssl\<rparr>)) (\<lambda>_.
    case ssl of
      None \<Rightarrow> throw Null_Deref
    | Some h \<Rightarrow>
        seq (on_base (on_kernel (\<lambda>k. ((), sl_set_fd ops h (m_sock (base s)) k)))) (\<lambda>_.
        seq (on_ssl (shake h)) (\<lambda>rt. ret (rt = 1))))))"

definition SSLSocket_connect :: "'k net_calls \<Rightarrow> 'k ssl_calls \<Rightarrow> address \<Rightarrow> u64 \<Rightarrow> ('k, bool) ssl_method" where
  "SSLSocket_connect c ops addr timeout_ms =
    seq (on_base (Socket_connect c addr timeout_ms)) (\<lambda>v.
    if v then
      seq (on_base (on_kernel (sl_ctx_new ops True))) (\<lambda>ctx.
      seq (ssl_update (\<lambda>s. s\<lparr>m_ctx := ctx\<rparr>)) (\<lambda>_. ssl_handshake ops (sl_connect ops)))
    else ret v)"

text \<open>\<open>reconnect\<close> is inherited and calls the \<open>connect\<close> above.\<close>

definition SSLSocket_reconnect :: "'k net_calls \<Rightarrow> 'k ssl_calls \<Rightarrow> u64 \<Rightarrow> ('k, bool) ssl_method" where
  "SSLSocket_reconnect c ops timeout_ms =
    seq ssl_this (\<lambda>s.
    case m_remoteAddress (base s) of
      None \<Rightarrow> ret False
    | Some a \<Rightarrow> seq (on_base (update (\<lambda>s. s\<lparr>m_localAddress := None\<rparr>))) (\<lambda>_. SSLSocket_connect c ops a timeout_ms))"

definition SSLSocket_init :: "'k net_calls \<Rightarrow> 'k ssl_calls \<Rightarrow> int \<Rightarrow> ('k, bool) ssl_method" where
  "SSLSocket_init c ops sock =
    seq (on_base (Socket_init c sock)) (\<lambda>v.
    if v then ssl_handshake ops (sl_accept ops) else ret v)"

text \<open>A new socket whose \<open>init\<close> answers no is destroyed, which closes it.\<close>

definition SSLSocket_accept :: "'k net_calls \<Rightarrow> 'k ssl_calls \<Rightarrow> ('k, ssl_socket option) ssl_method" where
  "SSLSocket_accept c ops =
    seq ssl_this (\<lambda>s.
    seq (on_base (on_net (\<lambda>n. let (fd, n1) = nc_accept c (m_sock (base s)) n in (Inr fd, n1)))) (\<lambda>fd.
    seq (on_base (on_fds (hook_accepted (nc_sys c) fd))) (\<lambda>newsock.
    if newsock = - 1 then ret None
    else (\<lambda>(s0, n).
      let new = (SSLSocket (m_family (base s)) (m_type (base s)) (m_protocol (base s)))\<lparr>m_ctx := m_ctx s\<rparr>;
          (r, (sock, n1)) = seq (SSLSocket_init c ops newsock) (\<lambda>ok. if ok then ret True else seq (on_base (Socket_close c)) (\<lambda>_. ret False)) (new, n)
      in case r of
           Inl e \<Rightarrow> (Inl e, (s0, n1))
         | Inr ok \<Rightarrow> (Inr (if ok then Some sock else None), (s0, n1))))))"

section \<open>Data\<close>

definition SSLSocket_send :: "'k ssl_calls \<Rightarrow> byte list \<Rightarrow> int \<Rightarrow> ('k, int) ssl_method" where
  "SSLSocket_send ops buffer flags =
    seq ssl_this (\<lambda>s.
    case m_ssl s of
      Some h \<Rightarrow> on_ssl (sl_write ops h (int_of_size (length buffer)) buffer)
    | None \<Rightarrow> ret (- 1))"

text \<open>The sum is an \<open>int\<close>, whose overflow is undefined.\<close>

fun ssl_send_loop :: "'k ssl_calls \<Rightarrow> nat \<Rightarrow> byte list list \<Rightarrow> int \<Rightarrow> 'k net \<Rightarrow> (fault + int) \<times> 'k net" where
  "ssl_send_loop ops h [] tot n = (Inr tot, n)"
| "ssl_send_loop ops h (buffer # buffers) tot n =
    (let (tmp, n1) = sl_write ops h (int_of_size (length buffer)) buffer n
     in if tmp \<le> 0 then (Inr tmp, n1)
        else if 2 ^ 31 \<le> tot + tmp then (Inl Bad_Arith, n1)
        else if tmp \<noteq> int_of_size (length buffer) then (Inr (tot + tmp), n1)
        else ssl_send_loop ops h buffers (tot + tmp) n1)"

definition SSLSocket_send_iov :: "'k ssl_calls \<Rightarrow> byte list list \<Rightarrow> int \<Rightarrow> ('k, int) ssl_method" where
  "SSLSocket_send_iov ops buffers flags =
    seq ssl_this (\<lambda>s.
    case m_ssl s of
      None \<Rightarrow> ret (- 1)
    | Some h \<Rightarrow> on_base (on_net (ssl_send_loop ops h buffers 0)))"

definition SSLSocket_recv :: "'k ssl_calls \<Rightarrow> nat \<Rightarrow> int \<Rightarrow> ('k, int \<times> byte list) ssl_method" where
  "SSLSocket_recv ops len flags =
    seq ssl_this (\<lambda>s.
    case m_ssl s of
      Some h \<Rightarrow> on_ssl (sl_read ops h (int_of_size len))
    | None \<Rightarrow> ret (- 1, []))"

text \<open>With what each buffer gets.\<close>

fun ssl_recv_loop :: "'k ssl_calls \<Rightarrow> nat \<Rightarrow> nat list \<Rightarrow> int \<Rightarrow> byte list list \<Rightarrow> 'k net \<Rightarrow> (fault + int \<times> byte list list) \<times> 'k net" where
  "ssl_recv_loop ops h [] tot got n = (Inr (tot, got), n)"
| "ssl_recv_loop ops h (len # lens) tot got n =
    (let ((tmp, bs), n1) = sl_read ops h (int_of_size len) n; got1 = got @ [bs]
     in if tmp \<le> 0 then (Inr (tmp, got1), n1)
        else if 2 ^ 31 \<le> tot + tmp then (Inl Bad_Arith, n1)
        else if tmp \<noteq> int_of_size len then (Inr (tot + tmp, got1), n1)
        else ssl_recv_loop ops h lens (tot + tmp) got1 n1)"

definition SSLSocket_recv_iov :: "'k ssl_calls \<Rightarrow> nat list \<Rightarrow> int \<Rightarrow> ('k, int \<times> byte list list) ssl_method" where
  "SSLSocket_recv_iov ops lens flags =
    seq ssl_this (\<lambda>s.
    case m_ssl s of
      None \<Rightarrow> ret (- 1, [])
    | Some h \<Rightarrow> on_base (on_net (ssl_recv_loop ops h lens 0 [])))"

definition SSLSocket_sendTo :: "byte list \<Rightarrow> address \<Rightarrow> int \<Rightarrow> ('k, int) ssl_method" where
  "SSLSocket_sendTo buffer to flags = throw (Assertion ''false'')"

definition SSLSocket_sendTo_iov :: "byte list list \<Rightarrow> address \<Rightarrow> int \<Rightarrow> ('k, int) ssl_method" where
  "SSLSocket_sendTo_iov buffers to flags = throw (Assertion ''false'')"

definition SSLSocket_recvFrom :: "nat \<Rightarrow> address \<Rightarrow> int \<Rightarrow> ('k, int) ssl_method" where
  "SSLSocket_recvFrom len from flags = throw (Assertion ''false'')"

definition SSLSocket_recvFrom_iov :: "nat list \<Rightarrow> address \<Rightarrow> int \<Rightarrow> ('k, int) ssl_method" where
  "SSLSocket_recvFrom_iov lens from flags = throw (Assertion ''false'')"

section \<open>Certificates and text\<close>

definition SSLSocket_loadCertificates :: "'k ssl_calls \<Rightarrow> string \<Rightarrow> string \<Rightarrow> ('k, bool) ssl_method" where
  "SSLSocket_loadCertificates ops cert_file key_file =
    seq (on_base (on_kernel (sl_ctx_new ops False))) (\<lambda>ctx.
    seq (ssl_update (\<lambda>s. s\<lparr>m_ctx := ctx\<rparr>)) (\<lambda>_.
    seq (on_base (on_kernel (sl_use_chain ops ctx (c_str cert_file)))) (\<lambda>rt.
    if rt \<noteq> 1 then ret False
    else seq (on_base (on_kernel (sl_use_key ops ctx (c_str key_file)))) (\<lambda>rt.
    if rt \<noteq> 1 then ret False
    else seq (on_base (on_kernel (sl_check_key ops ctx))) (\<lambda>rt. ret (rt = 1))))))"

definition SSLSocket_toString :: "endian \<Rightarrow> ssl_socket \<Rightarrow> fault + string" where
  "SSLSocket_toString host x =
    (let s = base x
     in case address_suffix host '' local_address='' (m_localAddress s) of
       Inl e \<Rightarrow> Inl e
     | Inr l \<Rightarrow>
         map_sum id (\<lambda>r. ''[SSLSocket sock='' @ dec_int (m_sock s) @ '' is_connected='' @ (if m_isConnected s then ''1'' else ''0'') @
             '' family='' @ dec_int (m_family s) @ '' type='' @ dec_int (m_type s) @ '' protocol='' @ dec_int (m_protocol s) @
             l @ r @ '']'')
           (address_suffix host '' remote_address='' (m_remoteAddress s)))"

section \<open>Properties\<close>

text \<open>What is relied on of \<open>SSL_write\<close>: it takes a first part of the buffer, as much as it answers.\<close>

definition write_law :: "'k ssl_calls \<Rightarrow> ('k net \<Rightarrow> nat \<Rightarrow> byte list) \<Rightarrow> bool" where
  "write_law ops sent \<longleftrightarrow> (\<forall>h num bs n. 0 \<le> num \<longrightarrow>
    fst (sl_write ops h num bs n) \<le> num \<and> sent (snd (sl_write ops h num bs n)) h = sent n h @ take (nat (fst (sl_write ops h num bs n))) bs)"

lemma int_of_size_small: "k < 2 ^ 31 \<Longrightarrow> int_of_size k = int k"
  unfolding int_of_size_def by (subst signed_of_int) (simp add: signed_take_bit_int_eq_self)

lemma send_loop_prefix:
  assumes "write_law ops sent" and "0 \<le> tot" and "tot + int (length (concat buffers)) < 2 ^ 31"
  shows "\<exists>r k n'. ssl_send_loop ops h buffers tot n = (Inr r, n') \<and> k \<le> length (concat buffers) \<and>
    sent n' h = sent n h @ take k (concat buffers) \<and>
    (r = tot + int k \<or> r \<le> 0 \<and> (\<exists>j < length buffers. k = length (concat (take j buffers))))"
  using assms(2,3)
proof (induction buffers arbitrary: tot n)
  case Nil
  then show ?case
    by simp
next
  case (Cons buffer buffers)
  obtain tmp n1 where w: "sl_write ops h (int (length buffer)) buffer n = (tmp, n1)"
    by (rule prod.exhaust)
  then have tmp: "tmp \<le> int (length buffer)" "sent n1 h = sent n h @ take (nat tmp) buffer"
    using assms(1) unfolding write_law_def by (metis fst_conv of_nat_0_le_iff, metis fst_conv of_nat_0_le_iff snd_conv)
  have size: "int_of_size (length buffer) = int (length buffer)"
    using Cons.prems by (intro int_of_size_small) simp
  note loop = ssl_send_loop.simps(2) [of ops h buffer buffers tot n, unfolded size w]
  consider (failed) "tmp \<le> 0" | (short) "0 < tmp" "tmp < int (length buffer)" | (whole) "0 < tmp" "tmp = int (length buffer)"
    using tmp(1) by linarith
  then show ?case
  proof cases
    case failed
    then have "ssl_send_loop ops h (buffer # buffers) tot n = (Inr tmp, n1)" "sent n1 h = sent n h @ take 0 (concat (buffer # buffers))"
      using loop tmp(2) by simp_all
    moreover have "0 = length (concat (take 0 (buffer # buffers)))"
      by simp
    ultimately show ?thesis
      using failed by (intro exI [of _ tmp] exI [of _ 0] exI [of _ n1]) auto
  next
    case short
    then have "ssl_send_loop ops h (buffer # buffers) tot n = (Inr (tot + tmp), n1)"
      using loop Cons.prems by simp
    with short tmp(2) show ?thesis
      by (intro exI [of _ "tot + tmp"] exI [of _ "nat tmp"] exI [of _ n1]) auto
  next
    case whole
    then have eq: "ssl_send_loop ops h (buffer # buffers) tot n = ssl_send_loop ops h buffers (tot + tmp) n1"
      using loop Cons.prems by simp
    obtain r k n' where r: "ssl_send_loop ops h buffers (tot + tmp) n1 = (Inr r, n')" "k \<le> length (concat buffers)"
        "sent n' h = sent n1 h @ take k (concat buffers)"
        "r = tot + tmp + int k \<or> r \<le> 0 \<and> (\<exists>j < length buffers. k = length (concat (take j buffers)))"
    proof -
      have "0 \<le> tot + tmp" "tot + tmp + int (length (concat buffers)) < 2 ^ 31"
        using Cons.prems whole by auto
      from Cons.IH [OF this, of n1] show ?thesis
        using that by blast
    qed
    have "r = tot + int (length buffer + k) \<or>
        r \<le> 0 \<and> (\<exists>j < length (buffer # buffers). length buffer + k = length (concat (take j (buffer # buffers))))"
      using r(4) whole by (auto intro!: exI [of _ "Suc _"])
    with r(1-3) eq tmp(2) whole show ?thesis
      by (intro exI [of _ r] exI [of _ "length buffer + k"] exI [of _ n']) auto
  qed
qed

text \<open>C36: what \<open>send\<close> of several buffers on an SSL socket transmits, for sizes below 2 GiB: the first \<open>k\<close>
  bytes of the buffers put together, for some \<open>k\<close>. If it answers a positive number, that is \<open>k\<close>. But if
  \<open>SSL_write\<close> fails for a later buffer, it answers the failure although all buffers before have been
  sent, and the caller cannot tell how many.\<close>

theorem SSLSocket_send_iov_prefix:
  assumes "write_law ops sent" and "m_ssl s = Some h" and "length (concat buffers) < 2 ^ 31"
  shows "\<exists>r k n'. SSLSocket_send_iov ops buffers flags (s, n) = (Inr r, (s, n')) \<and> k \<le> length (concat buffers) \<and>
    sent n' h = sent n h @ take k (concat buffers) \<and>
    (r = int k \<or> r \<le> 0 \<and> (\<exists>j < length buffers. k = length (concat (take j buffers))))"
proof -
  have "int (length (concat buffers)) < 2 ^ 31"
    using assms(3) by simp
  then obtain r k n' where
      "ssl_send_loop ops h buffers 0 n = (Inr r, n')" "k \<le> length (concat buffers)" "sent n' h = sent n h @ take k (concat buffers)"
      "r = int k \<or> r \<le> 0 \<and> (\<exists>j < length buffers. k = length (concat (take j buffers)))"
    using send_loop_prefix [OF assms(1), of 0 buffers h n] unfolding add_0 by blast
  then show ?thesis
    using assms(2) by (auto simp: SSLSocket_send_iov_def ssl_this_def on_base_def on_net_def seq_def)
qed

definition example_ssl :: "byte list ssl_calls" where
  "example_ssl = \<lparr>sl_ctx_new = (\<lambda>_ k. (Some 1, k)), sl_use_chain = (\<lambda>_ _ k. (1, k)), sl_use_key = (\<lambda>_ _ k. (1, k)),
    sl_check_key = (\<lambda>_ k. (1, k)), sl_new = (\<lambda>_ k. (Some 2, k)), sl_set_fd = (\<lambda>_ _ k. k),
    sl_connect = (\<lambda>_ n. (1, n)), sl_accept = (\<lambda>_ n. (1, n)),
    sl_write = (\<lambda>_ num bs (m, iom). if bs = [2] then (- 1, (m, iom)) else (num, (m\<lparr>kernel := kernel m @ take (nat num) bs\<rparr>, iom))),
    sl_read = (\<lambda>_ _ n. ((0, []), n))\<rparr>"

lemma example_write_law: "write_law example_ssl (\<lambda>n _. kernel (fst n))"
  by (auto simp: write_law_def example_ssl_def)

lemma SSLSocket_send_iov_prefix_witness:
  "\<exists>n'. SSLSocket_send_iov example_ssl [[1], [2]] 0 (SSLSocket_CreateTCPSocket\<lparr>m_ssl := Some 2\<rparr>, (FdManager [], None)) =
      (Inr (- 1), (SSLSocket_CreateTCPSocket\<lparr>m_ssl := Some 2\<rparr>, n')) \<and> kernel (fst n') = [1]"
proof -
  let ?s = "SSLSocket_CreateTCPSocket\<lparr>m_ssl := Some 2\<rparr>" and ?n = "(FdManager [], None) :: byte list net"
  have run: "\<exists>n'. SSLSocket_send_iov example_ssl [[1], [2]] 0 (?s, ?n) = (Inr (- 1), (?s, n')) \<and> length (kernel (fst n')) = 1"
    by (simp add: SSLSocket_send_iov_def ssl_this_def on_base_def on_net_def seq_def example_ssl_def int_of_size_small [of 1, simplified] FdManager_def)
  have "kernel (fst ?n) = []"
    by (simp add: FdManager_def)
  then show ?thesis
    using SSLSocket_send_iov_prefix [OF example_write_law, of ?s 2 "[[1], [2]]" 0 ?n] run by (auto simp: take_Cons' split: if_splits)
qed

text \<open>A socket that \<open>connect\<close> answers yes for is connected.\<close>

lemma triple_any: "socket_triple (\<lambda>_. True) P op (\<lambda>_ _. True)"
  by (simp add: socket_triple_def split: sum.split)

lemma addresses_keep_connected:
  "socket_triple (\<lambda>_. True) m_isConnected (Socket_getRemoteAddress c) (\<lambda>_. m_isConnected)"
  "socket_triple (\<lambda>_. True) m_isConnected (Socket_getLocalAddress c) (\<lambda>_. m_isConnected)"
  unfolding Socket_getRemoteAddress_def Socket_getLocalAddress_def Let_def
  by (intro triple_with_this triple_reads triple_then_update triple_if triple_ret triple_option triple_last reads_only_basic; force)+

lemma connect_connects: "socket_triple (\<lambda>_. True) (\<lambda>_. True) (Socket_connect c addr t) (\<lambda>v s. v \<longrightarrow> m_isConnected s)"
proof -
  have connected: "socket_triple (\<lambda>_. True) (\<lambda>_. True)
      (seq (update (\<lambda>s. s\<lparr>m_isConnected := True\<rparr>)) (\<lambda>_. seq (Socket_getRemoteAddress c) (\<lambda>_. seq (Socket_getLocalAddress c) (\<lambda>_. ret True))))
      (\<lambda>v s. v \<longrightarrow> m_isConnected s)"
    by (rule triple_then_update, rule triple_seq [OF triple_conseq [OF addresses_keep_connected(1)]], force, assumption,
        rule triple_seq [OF addresses_keep_connected(2)], rule triple_ret, simp)
  show ?thesis
    unfolding Socket_connect_def
    by (rule triple_seq [OF triple_any], rule triple_seq [OF triple_any], rule triple_if, rule triple_ret, simp,
        rule triple_seq [OF triple_any], rule triple_if, rule triple_ret, simp, rule triple_seq [OF triple_any], rule triple_if,
        rule triple_seq [OF triple_any], rule triple_ret, simp, rule connected)
qed

text \<open>C37: an SSL socket keeps its connection object when the handshake fails and when it is closed. A
  \<open>connect\<close> whose handshake fails answers no, but leaves the socket connected, with its descriptor;
  and after \<open>close\<close> data is still written to the old connection, and so to whatever has its descriptor
  number by then.\<close>

theorem SSLSocket_keeps_connection:
  assumes "Socket_connect c addr t (base s, n) = (Inr True, (b, (m, iom)))"
    and "sl_ctx_new ops True (kernel m) = (ctx, k1)" and "sl_new ops ctx k1 = (Some h, k2)"
    and "sl_connect ops h (m\<lparr>kernel := sl_set_fd ops h (m_sock b) k2\<rparr>, iom) = (rt, n2)"
  shows "\<exists>s'. SSLSocket_connect c ops addr t (s, n) = (Inr (rt = 1), (s', n2)) \<and> m_isConnected (base s') \<and> base s' = b \<and>
    (\<forall>r s'' n3. SSLSocket_close c (s', n2) = (r, (s'', n3)) \<longrightarrow>
      (\<forall>buffer tmp n4. sl_write ops h (int_of_size (length buffer)) buffer n3 = (tmp, n4) \<longrightarrow>
        SSLSocket_send ops buffer flags (s'', n3) = (Inr tmp, (s'', n4))))"
proof -
  let ?s' = "s\<lparr>base := b, m_ctx := ctx, m_ssl := Some h\<rparr>"
  have "SSLSocket_connect c ops addr t (s, n) = (Inr (rt = 1), (?s', n2))"
    using assms by (simp add: SSLSocket_connect_def ssl_handshake_def ssl_this_def ssl_update_def on_base_def on_ssl_def on_kernel_def seq_def ret_def)
  moreover have "m_isConnected b"
    using tripleD(2) [OF connect_connects _ assms(1)] by simp
  moreover have "m_ssl s'' = Some h" if "SSLSocket_close c (?s', n2) = (r, (s'', n3))" for r s'' n3
    using that by (auto simp: SSLSocket_close_def on_base_def Let_def split: prod.splits)
  ultimately show ?thesis
    by (intro exI [of _ ?s']) (auto simp: SSLSocket_send_def ssl_this_def on_ssl_def seq_def)
qed

lemma SSLSocket_keeps_connection_witness:
  "let c = example_calls 0; a = IPv4Address (new_IPv4Address SYLAR_LITTLE_ENDIAN 0x7f000001 80);
     ops = \<lparr>sl_ctx_new = \<lambda>_ k. (Some 1, k), sl_use_chain = \<lambda>_ _ k. (1, k), sl_use_key = \<lambda>_ _ k. (1, k),
       sl_check_key = \<lambda>_ k. (1, k), sl_new = \<lambda>_ k. (Some 2, k), sl_set_fd = \<lambda>_ _ k. k, sl_connect = \<lambda>_ n. (- 1, n), sl_accept = \<lambda>_ n. (1, n),
       sl_write = \<lambda>_ num _ n. (num, n), sl_read = \<lambda>_ _ n. ((0, []), n)\<rparr>
   in \<exists>s' n2. SSLSocket_connect c ops a (- 1) (SSLSocket_CreateTCP a, (FdManager (\<lambda>_. 2), None)) = (Inr False, (s', n2)) \<and>
     m_isConnected (base s')"
proof -
  let ?a = "IPv4Address (new_IPv4Address SYLAR_LITTLE_ENDIAN 0x7f000001 80)" and ?c = "example_calls 0"
  let ?n = "(FdManager (\<lambda>_ :: int. 2 :: s32), None)"
  let ?ops = "\<lparr>sl_ctx_new = \<lambda>_ k. (Some 1, k), sl_use_chain = \<lambda>_ _ k. (1, k), sl_use_key = \<lambda>_ _ k. (1, k),
       sl_check_key = \<lambda>_ k. (1, k), sl_new = \<lambda>_ k. (Some 2, k), sl_set_fd = \<lambda>_ _ k. k, sl_connect = \<lambda>_ n. (- 1, n), sl_accept = \<lambda>_ n. (1, n),
       sl_write = \<lambda>_ num _ n. (num, n), sl_read = \<lambda>_ _ n. ((0, []), n)\<rparr> :: (int \<Rightarrow> s32) ssl_calls"
  have fam: "uint (getFamily ?a) = 2"
    by (simp add: new_IPv4Address_def AF_INET_def)
  have base: "base (SSLSocket_CreateTCP ?a) = Socket_CreateTCP ?a"
    by (simp only: SSLSocket_CreateTCP_def SSLSocket_def Socket_CreateTCP_def ssl_socket.simps)
  obtain b m iom where "Socket_connect ?c ?a (- 1) (base (SSLSocket_CreateTCP ?a), ?n) = (Inr True, (b, (m, iom)))"
    unfolding base using example_connect [OF fam] by (metis prod.collapse)
  from SSLSocket_keeps_connection [OF this, of ?ops "Some 1" "kernel m" 2 "kernel m" "- 1" "(m\<lparr>kernel := kernel m\<rparr>, iom)" 0]
  show ?thesis
    unfolding Let_def by auto
qed

end
