(* ===== verification/Scheduler_Queue.thy ===== *)
theory Scheduler_Queue
  imports Scheduler
begin

text \<open>
  How long a task waits in the queue of a \<open>Scheduler\<close> (\<open>sylar/scheduler.{h,cpp}\<close>): every step of the
  scheduler, its clients and its workers, seen from one queued task.
\<close>

section \<open>What a step does to the queue\<close>

text \<open>A worker takes the first task that it may, the one between \<open>xs\<close> and \<open>ys\<close>.\<close>

definition takes :: "nat \<Rightarrow> scheduler \<Rightarrow> scheduler \<Rightarrow> task list \<Rightarrow> task \<Rightarrow> task list \<Rightarrow> bool" where
  "takes w s s' xs x ys \<longleftrightarrow> w < length (workers s) \<and> pc (workers s ! w) = At_Loop \<and> run_pick w s = (Inr (), s') \<and>
    m_fibers s = xs @ x # ys \<and> m_fibers s' = xs @ ys \<and> (\<exists>tickle_me. pc (workers s' ! w) = Got x True tickle_me) \<and>
    \<not> foreign (int w) x \<and> \<not> executing (state_of s) x \<and> (\<forall>y \<in> set xs. foreign (int w) y \<or> executing (state_of s) y)"

definition may_take :: "nat \<Rightarrow> scheduler \<Rightarrow> task \<Rightarrow> bool" where
  "may_take w s x \<longleftrightarrow> \<not> foreign (int w) x \<and> \<not> executing (state_of s) x"

lemma run_pick_cases:
  assumes "w < length (workers s)" and "pc (workers s ! w) = At_Loop" and "run_pick w s = (Inr (), s')"
  shows "(m_fibers s' = m_fibers s \<and> (\<forall>x \<in> set (m_fibers s). \<not> may_take w s x)) \<or> (\<exists>xs x ys. takes w s s' xs x ys)"
proof -
  obtain r rest tm where p: "pick (state_of s) (int w) (m_fibers s) = Inr (r, rest, tm)"
    using assms(3) by (cases "pick (state_of s) (int w) (m_fibers s)") (auto simp: run_pick_def)
  show ?thesis
  proof (cases r)
    case None
    then show ?thesis
      using assms(3) p pick_None [of "state_of s" "int w" "m_fibers s" rest tm] by (auto simp: run_pick_def goto_def may_take_def)
  next
    case (Some x)
    then obtain xs ys where "m_fibers s = xs @ x # ys" "rest = xs @ ys" "\<not> foreign (int w) x" "\<not> executing (state_of s) x"
        "\<forall>y \<in> set xs. foreign (int w) y \<or> executing (state_of s) y"
      using pick_Some [of "state_of s" "int w" "m_fibers s" x rest tm] p by blast
    then have "takes w s s' xs x ys"
      using assms p Some by (auto simp: takes_def run_pick_def goto_def)
    then show ?thesis
      by blast
  qed
qed

lemma fibers_sel [simp]:
  "m_fibers (goto w p s) = m_fibers s" "m_fibers (drop_cb_fiber w s) = m_fibers s" "m_fibers (tickle_times n s) = m_fibers s"
  by (simp add: goto_def, simp add: drop_cb_fiber_def, induction n arbitrary: s) simp_all

lemma fiber_op_fibers: "fiber_op op s = (r, s') \<Longrightarrow> m_fibers s' = m_fibers s"
  by (auto simp: fiber_op_def Let_def split: prod.splits)

lemma load_cb_fibers: "load_cb default_stack addr w cb s = (r, s') \<Longrightarrow> m_fibers s' = m_fibers s"
  by (auto simp: load_cb_def seq_def ret_def split: option.splits prod.splits sum.splits dest: fiber_op_fibers)

lemma schedule_fibers: "\<exists>zs. m_fibers (Scheduler_schedule f cb thread s) = m_fibers s @ zs"
  by (auto simp: Scheduler_schedule_def scheduleNoLock_def Let_def Scheduler_tickle_def)

text \<open>Every step but a successful pick only appends.\<close>

lemma sched_step_queue:
  assumes "sched_step s s'"
  shows "(\<exists>zs. m_fibers s' = m_fibers s @ zs) \<or> (\<exists>w xs x ys. takes w s s' xs x ys)"
  using assms
proof cases
  case (schedule f cb thread)
  then show ?thesis
    using schedule_fibers by blast
next
  case (schedule_range items)
  then show ?thesis
    by (simp add: Scheduler_schedule_range_def schedule_loop_tasks Scheduler_tickle_def)
next
  case (stop here)
  then show ?thesis
    by (simp add: Scheduler_stop_def Let_def)
next
  case (pick w)
  then show ?thesis
    using run_pick_cases by fastforce
next
  case (dispatch w ft is_active tickle_me default_stack addr)
  then have "m_fibers s' = m_fibers s"
    by (auto simp: run_dispatch_def Let_def seq_def split: if_splits option.splits prod.splits sum.splits dest!: fiber_op_fibers load_cb_fibers)
  then show ?thesis
    by simp
next
  case (fiber_left w f)
  then show ?thesis
    using schedule_fibers [of "Some f" None "- 1" s] by (auto simp: after_fiber_def)
next
  case (cb_left w f)
  then show ?thesis
    using schedule_fibers [of "Some f" None "- 1" s]
    by (auto simp: after_cb_def seq_def split: if_splits prod.splits sum.splits dest!: fiber_op_fibers)
next
  case (back_from_idle w)
  then show ?thesis
    by (simp add: after_idle_def Let_def)
qed (simp_all add: task_left_def)

section \<open>Waiting in the queue\<close>

text \<open>
  A run from a state in which the task \<open>ft\<close> has \<open>n\<close> tasks ahead, up to a state in which it is still
  queued: \<open>p\<close> tasks are ahead of it now, and \<open>k\<close> times a worker that could have taken it took another.
\<close>

inductive wait_run :: "task \<Rightarrow> nat \<Rightarrow> nat \<Rightarrow> scheduler \<Rightarrow> nat \<Rightarrow> bool" for ft n where
  queued: "n < length (m_fibers s) \<Longrightarrow> m_fibers s ! n = ft \<Longrightarrow> wait_run ft n 0 s n"
| appended: "wait_run ft n k s p \<Longrightarrow> sched_step s s' \<Longrightarrow> m_fibers s' = m_fibers s @ zs \<Longrightarrow> wait_run ft n k s' p"
| passed: "wait_run ft n k s p \<Longrightarrow> takes w s s' xs x ys \<Longrightarrow> length xs \<noteq> p \<Longrightarrow>
    wait_run ft n (if may_take w s ft then Suc k else k) s' (if length xs < p then p - 1 else p)"

lemma takes_first:
  assumes "takes w s s' xs x ys" and "may_take w s ft" and "p < length (m_fibers s)" and "m_fibers s ! p = ft"
  shows "length xs \<le> p"
proof (rule ccontr)
  assume "\<not> length xs \<le> p"
  then have "ft \<in> set xs"
    using assms(1,4) by (auto simp: takes_def nth_append)
  then show False
    using assms(1,2) by (auto simp: takes_def may_take_def)
qed

lemma wait_run_inv: "wait_run ft n k s p \<Longrightarrow> k + p \<le> n \<and> p < length (m_fibers s) \<and> m_fibers s ! p = ft"
proof (induction rule: wait_run.induct)
  case (appended k s p s' zs)
  then show ?case
    by (simp add: nth_append)
next
  case (passed k s p w s' xs x ys)
  then have q: "m_fibers s = xs @ x # ys" "m_fibers s' = xs @ ys"
    by (auto simp: takes_def)
  show ?case
  proof (cases "length xs < p")
    case True
    then obtain j where "p = Suc (length xs + j)"
      using less_imp_Suc_add by blast
    with passed.IH q True show ?thesis
      by (auto simp: nth_append)
  next
    case False
    then have "\<not> may_take w s ft"
      using takes_first [OF passed.hyps(2)] passed.IH passed.hyps(3) by fastforce
    with False passed.IH passed.hyps(3) q show ?thesis
      by (auto simp: nth_append)
  qed
qed auto

text \<open>C13: no task starves. A queued task with \<open>n\<close> tasks ahead is passed over at most \<open>n\<close> times by workers
  that could have taken it, whatever else is scheduled, runs and yields meanwhile: along every run
  the number of times that has happened and the number of tasks still ahead add up to at most \<open>n\<close>.
  Each step leaves the task queued, or a worker takes just it; and whenever a worker looks for a
  task while it may take this one, it takes it or has passed it over once more.\<close>

theorem queued_task_bounded_wait:
  assumes "wait_run ft n k s p"
  shows "k + p \<le> n \<and> m_fibers s ! p = ft \<and>
    (\<forall>s'. sched_step s s' \<longrightarrow> (\<exists>k' p'. wait_run ft n k' s' p') \<or>
      (\<exists>w tickle_me. pc (workers s' ! w) = Got ft True tickle_me \<and> m_fibers s' = take p (m_fibers s) @ drop (Suc p) (m_fibers s))) \<and>
    (\<forall>w s'. w < length (workers s) \<and> pc (workers s ! w) = At_Loop \<and> run_pick w s = (Inr (), s') \<and> may_take w s ft \<longrightarrow>
      (\<exists>p'. wait_run ft n (Suc k) s' p') \<or>
      (\<exists>tickle_me. pc (workers s' ! w) = Got ft True tickle_me \<and> m_fibers s' = take p (m_fibers s) @ drop (Suc p) (m_fibers s)))"
proof -
  note inv = wait_run_inv [OF assms]
  have taken: "(\<exists>tickle_me. pc (workers s' ! w) = Got ft True tickle_me) \<and> m_fibers s' = take p (m_fibers s) @ drop (Suc p) (m_fibers s)"
    if "takes w s s' xs x ys" "length xs = p" for w s' xs x ys
    using that inv by (auto simp: takes_def)
  have step: "(\<exists>k' p'. wait_run ft n k' s' p') \<or>
      (\<exists>w tickle_me. pc (workers s' ! w) = Got ft True tickle_me \<and> m_fibers s' = take p (m_fibers s) @ drop (Suc p) (m_fibers s))"
    if "sched_step s s'" for s'
    using sched_step_queue [OF that] wait_run.appended [OF assms that] wait_run.passed [OF assms] taken by meson
  have pick: "(\<exists>p'. wait_run ft n (Suc k) s' p') \<or>
      (\<exists>tickle_me. pc (workers s' ! w) = Got ft True tickle_me \<and> m_fibers s' = take p (m_fibers s) @ drop (Suc p) (m_fibers s))"
    if run: "w < length (workers s)" "pc (workers s ! w) = At_Loop" "run_pick w s = (Inr (), s')" and may: "may_take w s ft" for w s'
  proof -
    have "ft \<in> set (m_fibers s)"
      using inv nth_mem by blast
    then obtain xs x ys where t: "takes w s s' xs x ys"
      using run_pick_cases [OF run] may by blast
    show ?thesis
      using wait_run.passed [OF assms t] may taken [OF t] by (cases "length xs = p") auto
  qed
  show ?thesis
    using inv step pick by blast
qed

lemma queued_task_bounded_wait_witness:
  "let s = Scheduler_schedule None (Some 8) (- 1) (Scheduler_schedule None (Some 7) (- 1) example_scheduler);
     ft = \<lparr>task_fiber = None, task_cb = Some 8, task_thread = - 1\<rparr>
   in wait_run ft 1 0 s 1 \<and> (\<forall>s'. run_pick 0 s = (Inr (), s') \<longrightarrow> (\<exists>p'. wait_run ft 1 (Suc 0) s' p') \<or>
     m_fibers s' = [\<lparr>task_fiber = None, task_cb = Some 7, task_thread = - 1\<rparr>])"
proof -
  let ?s = "Scheduler_schedule None (Some 8) (- 1) (Scheduler_schedule None (Some 7) (- 1) example_scheduler)"
  let ?ft = "\<lparr>task_fiber = None, task_cb = Some 8, task_thread = - 1\<rparr>"
  have q: "m_fibers ?s = [\<lparr>task_fiber = None, task_cb = Some 7, task_thread = - 1\<rparr>, ?ft]"
      "0 < length (workers ?s)" "pc (workers ?s ! 0) = At_Loop"
    by (simp_all add: example_scheduler_def Scheduler_schedule_def scheduleNoLock_def Scheduler_tickle_def)
  have run: "wait_run ?ft 1 0 ?s 1"
    by (rule wait_run.queued) (simp_all add: q)
  have may: "may_take 0 ?s ?ft"
    by (simp add: may_take_def foreign_def executing_def)
  note law = queued_task_bounded_wait [OF run, THEN conjunct2, THEN conjunct2, THEN conjunct2, THEN spec [of _ 0], THEN spec]
  have "(\<exists>p'. wait_run ?ft 1 (Suc 0) s' p') \<or> m_fibers s' = [\<lparr>task_fiber = None, task_cb = Some 7, task_thread = - 1\<rparr>]"
    if "run_pick 0 ?s = (Inr (), s')" for s'
    using law [of s'] that may q by simp blast
  with run show ?thesis
    unfolding Let_def by blast
qed

end
