(* ===== verification/Scheduler_Drain.thy ===== *)
theory Scheduler_Drain
  imports Scheduler
begin

text \<open>
  The life of a \<open>Scheduler\<close> (\<open>sylar/scheduler.cpp\<close>) from its start to the joining of its threads: how a
  thread enters \<open>run\<close>, what its idle fiber does, how \<open>stop\<close> runs the loop on the calling thread, and the
  destructor. After \<open>stop\<close> has been called only tasks schedule further tasks; the threads then leave
  \<open>run\<close> when everything is done, and not before.
\<close>

section \<open>Entering and leaving the loop\<close>

text \<open>
  The beginning of \<open>run\<close> on the thread \<open>w\<close>: its scheduling fiber, except on the thread that made the
  scheduler, and its idle fiber, at \<open>idle\<close> with the callback \<open>cb\<close>. \<open>main\<close> is the address of a main fiber
  that the thread may need.
\<close>

definition run_begin :: "nat \<Rightarrow> nat \<Rightarrow> nat \<Rightarrow> nat \<Rightarrow> nat \<Rightarrow> unit sched_method" where
  "run_begin default_stack main idle cb w =
    seq (\<lambda>s. if int w \<noteq> m_rootThread s
             then fiber_op (seq (Fiber_GetThis w main) (\<lambda>f fs. (Inr (), fs\<lparr>t_scheduler_fiber := (t_scheduler_fiber fs)(w \<mapsto> f)\<rparr>))) s
             else (Inr (), s))
      (\<lambda>_ s. (Inr (), s\<lparr>fs := Fiber_new default_stack idle (Some cb) 0 False (fs s),
                workers := (workers s)[w := new_worker idle]\<rparr>))"

text \<open>
  The loop of \<open>idle\<close> asks \<open>stopping()\<close> first. By its answer the fiber yields or returns to \<open>MainFunc\<close>; either
  way the thread goes on behind the \<open>swapIn\<close> in \<open>run\<close>.
\<close>

definition idle_leave :: "bool \<Rightarrow> nat \<Rightarrow> nat \<Rightarrow> unit sched_method" where
  "idle_leave stopping addr w =
    seq (fiber_op (if stopping then Fiber_MainFunc False w addr else Fiber_YieldToHold w addr))
      (\<lambda>_ s. (Inr (), after_idle w s))"

text \<open>\<open>m_rootFiber->call()\<close> in \<open>stop\<close>: the calling thread becomes the last worker.\<close>

definition stop_call :: "nat \<Rightarrow> unit sched_method" where
  "stop_call w s =
    (case m_rootFiber s of
       None \<Rightarrow> (Inr (), s)
     | Some f \<Rightarrow> seq (fiber_op (Fiber_call w f)) (\<lambda>_ s. (Inr (), s\<lparr>workers := workers s @ [new_worker f]\<rparr>)) s)"

text \<open>\<open>stop\<close> returns when the threads have left \<open>run\<close>.\<close>

definition joined :: "scheduler \<Rightarrow> bool" where
  "joined s \<longleftrightarrow> (\<forall>x \<in> set (workers s). pc x = Finished)"

text \<open>The destructor, with \<open>t_scheduler\<close> of its thread.\<close>

definition Scheduler_destroy :: "nat \<Rightarrow> nat option \<Rightarrow> scheduler \<Rightarrow> fault + nat option" where
  "Scheduler_destroy this t_scheduler s =
    (if \<not> m_stopping s then Inl (Assertion ''m_stopping'') else Inr (if t_scheduler = Some this then None else t_scheduler))"

section \<open>Steps\<close>

text \<open>
  Beside its program counter, a thread has yet to begin, or is in the loop; and its idle fiber may
  hold an answer of \<open>stopping()\<close> that it has not acted on. \<open>yields\<close> says whether tasks may call
  \<open>YieldToReady\<close>.
\<close>

datatype phase = Starting | Ready | Checked bool

record life =
  sched :: scheduler
  phases :: "nat \<Rightarrow> phase"

definition moved :: "nat \<Rightarrow> phase \<Rightarrow> scheduler \<Rightarrow> life \<Rightarrow> life" where
  "moved w ph s d = \<lparr>sched = s, phases = (phases d)(w := ph)\<rparr>"

definition at :: "nat \<Rightarrow> phase \<Rightarrow> worker_pc \<Rightarrow> life \<Rightarrow> bool" where
  "at w ph p d \<longleftrightarrow> w < length (workers (sched d)) \<and> phases d w = ph \<and> pc (workers (sched d) ! w) = p"

inductive worker_step :: "nat \<Rightarrow> life \<Rightarrow> life \<Rightarrow> bool" for w d where
  begins: "at w Starting At_Loop d \<Longrightarrow> fibers (fs (sched d)) main = None \<Longrightarrow> fibers (fs (sched d)) idle = None \<Longrightarrow>
    main \<noteq> idle \<Longrightarrow> run_begin default_stack main idle cb w (sched d) = (Inr (), s') \<Longrightarrow>
    worker_step w d (moved w Ready s' d)"
| pick: "at w Ready At_Loop d \<Longrightarrow> run_pick w (sched d) = (Inr (), s') \<Longrightarrow> worker_step w d (moved w Ready s' d)"
| dispatch: "at w Ready (Got ft is_active tickle_me) d \<Longrightarrow>
    run_dispatch default_stack addr w ft is_active tickle_me (sched d) = (Inr (), s') \<Longrightarrow>
    worker_step w d (moved w Ready s' d)"
| back_from_fiber: "at w Ready (In_Fiber f) d \<Longrightarrow>
    worker_step w d (moved w Ready (task_left w (Left_Fiber f) (sched d)) d)"
| back_from_cb: "at w Ready (In_Cb f) d \<Longrightarrow>
    worker_step w d (moved w Ready (task_left w (Left_Cb f) (sched d)) d)"
| fiber_left: "at w Ready (Left_Fiber f) d \<Longrightarrow> worker_step w d (moved w Ready (after_fiber w f (sched d)) d)"
| cb_left: "at w Ready (Left_Cb f) d \<Longrightarrow> after_cb w f (sched d) = (Inr (), s') \<Longrightarrow> worker_step w d (moved w Ready s' d)"
| idle_asks: "at w Ready In_Idle d \<Longrightarrow> worker_step w d (moved w (Checked (Scheduler_stopping (sched d))) (sched d) d)"
| idle_leaves: "at w (Checked b) In_Idle d \<Longrightarrow> idle_leave b addr w (sched d) = (Inr (), s') \<Longrightarrow>
    worker_step w d (moved w Ready s' d)"

text \<open>
  What the code of tasks may do to the fibers: anything, except that it ends no idle fiber, and makes
  no fiber \<open>READY\<close> unless tasks may call \<open>YieldToReady\<close>.
\<close>

definition no_ready :: "fiber_system \<Rightarrow> bool" where
  "no_ready F \<longleftrightarrow> (\<forall>f fb. fibers F f = Some fb \<longrightarrow> m_state fb \<noteq> READY)"

definition tasks_may :: "bool \<Rightarrow> life \<Rightarrow> fiber_system \<Rightarrow> bool" where
  "tasks_may yields d F \<longleftrightarrow> (yields \<or> no_ready F) \<and>
    (\<forall>w < length (workers (sched d)). phases d w \<noteq> Starting \<longrightarrow>
      (let i = idle_fiber (workers (sched d) ! w)
       in state_of ((sched d)\<lparr>fs := F\<rparr>) i = TERM' \<longrightarrow> state_of (sched d) i = TERM'))"

definition in_task :: "scheduler \<Rightarrow> bool" where
  "in_task s \<longleftrightarrow> (\<exists>x \<in> set (workers s). \<exists>f. pc x = In_Fiber f \<or> pc x = In_Cb f)"

text \<open>
  Anyone schedules before \<open>stop\<close> is called; afterwards only tasks do. \<open>stop\<close> may run the root fiber at any
  time after it has set its flag, also when its check of \<open>stopping()\<close> would have kept it from that.
\<close>

inductive life_step :: "bool \<Rightarrow> life \<Rightarrow> life \<Rightarrow> bool" for yields d where
  start: "\<not> m_autoStop (sched d) \<Longrightarrow> m_stopping (sched d) \<Longrightarrow> Scheduler_start addrs (sched d) = (Inr (), s') \<Longrightarrow>
    life_step yields d \<lparr>sched = s', phases = \<lambda>_. Starting\<rparr>"
| schedule: "\<not> m_autoStop (sched d) \<or> in_task (sched d) \<Longrightarrow>
    life_step yields d (d\<lparr>sched := Scheduler_schedule f cb thread (sched d)\<rparr>)"
| schedule_range: "\<not> m_autoStop (sched d) \<or> in_task (sched d) \<Longrightarrow>
    life_step yields d (d\<lparr>sched := Scheduler_schedule_range items (sched d)\<rparr>)"
| task_code: "in_task (sched d) \<Longrightarrow> tasks_may yields d fsys \<Longrightarrow> life_step yields d (d\<lparr>sched := (sched d)\<lparr>fs := fsys\<rparr>\<rparr>)"
| stop: "Scheduler_stop here (sched d) = (Inr r, s') \<Longrightarrow> life_step yields d (d\<lparr>sched := s'\<rparr>)"
| stop_calls: "m_autoStop (sched d) \<Longrightarrow> m_rootFiber (sched d) \<noteq> None \<Longrightarrow>
    stop_call (length (workers (sched d))) (sched d) = (Inr (), s') \<Longrightarrow>
    life_step yields d (moved (length (workers (sched d))) Starting s' d)"
| worker: "worker_step w d d' \<Longrightarrow> life_step yields d d'"

inductive life_reachable :: "bool \<Rightarrow> life \<Rightarrow> bool" for yields where
  made: "Scheduler threads use_caller here other root fsys = Inr s \<Longrightarrow> yields \<or> no_ready fsys \<Longrightarrow>
    life_reachable yields \<lparr>sched = s, phases = \<lambda>_. Starting\<rparr>"
| step: "life_reachable yields d \<Longrightarrow> life_step yields d d' \<Longrightarrow> life_reachable yields d'"

inductive worker_run :: "nat \<Rightarrow> life \<Rightarrow> life \<Rightarrow> bool" where
  none: "worker_run 0 d d"
| more: "worker_run k d d' \<Longrightarrow> worker_step w d' d'' \<Longrightarrow> worker_run (Suc k) d d''"

section \<open>What run itself does to the states of fibers\<close>

definition st :: "fiber_system \<Rightarrow> nat \<Rightarrow> fiber_state" where
  "st F f = (case fibers F f of None \<Rightarrow> TERM' | Some fb \<Rightarrow> m_state fb)"

lemma state_of_st: "state_of s f = st (fs s) f"
  by (simp add: state_of_def st_def)

text \<open>Steps by which no fiber comes to a state of \<open>S\<close>.\<close>

definition spares :: "fiber_state set \<Rightarrow> fiber_system \<Rightarrow> fiber_system \<Rightarrow> bool" where
  "spares S F F' \<longleftrightarrow> (\<forall>f. st F' f \<in> S \<longrightarrow> st F f = st F' f)"

definition mild :: "fiber_state set \<Rightarrow> 'a fiber_method \<Rightarrow> bool" where
  "mild S op \<longleftrightarrow> (\<forall>F. spares S F (snd (op F)))"

named_theorems mild

lemma spares_refl [mild]: "spares S F F"
  by (simp add: spares_def)

lemma spares_trans: "spares S F F' \<Longrightarrow> spares S F' F'' \<Longrightarrow> spares S F F''"
  by (simp add: spares_def)

lemma spares_fibers: "fibers F' = fibers F \<Longrightarrow> spares S F F'"
  by (simp add: spares_def st_def)

lemma mild_seq [mild]: "mild S op \<Longrightarrow> (\<And>a. mild S (g a)) \<Longrightarrow> mild S (seq op g)"
  unfolding mild_def seq_def by (auto simp: split_beta split: sum.split intro: spares_trans)

lemma mild_the_fiber [mild]: "mild S (the_fiber p)"
  by (auto simp: mild_def the_fiber_def spares_refl split: option.split)

lemma mild_assert [mild]: "mild S (SYLAR_ASSERT b what)"
  by (simp add: mild_def SYLAR_ASSERT_def spares_refl)

lemma mild_pure [mild]: "mild S (\<lambda>F. (r, F))"
  by (simp add: mild_def spares_refl)

lemma set_state_spares [mild]: "x \<notin> S \<Longrightarrow> spares S F (set_state f x F)"
  by (auto simp: spares_def st_def set_state_def split: option.split)

lemma SetThis_spares: "spares S F (Fiber_SetThis t f F)"
  by (simp add: spares_fibers Fiber_SetThis_def)

lemma swapcontext_mild [mild]: "mild S (swapcontext t a b)"
  by (auto simp: mild_def swapcontext_def seq_def the_fiber_def spares_def st_def split: option.splits)

lemma mild_after: "mild S op \<Longrightarrow> spares S F F1 \<Longrightarrow> spares S F (snd (op F1))"
  unfolding mild_def using spares_trans by blast

lemma swapIn_mild [mild]:
  assumes "EXEC \<notin> S"
  shows "mild S (Fiber_swapIn t f)"
proof -
  have "mild S (\<lambda>F. let F1 = set_state f EXEC F in swapcontext t (t_scheduler_fiber F1 t) (Some f) F1)"
    unfolding mild_def Let_def using assms by (intro allI mild_after [OF swapcontext_mild set_state_spares])
  then have "mild S (seq (the_fiber (Some f)) (\<lambda>(_, fb). seq (SYLAR_ASSERT (m_state fb \<noteq> EXEC) ''m_state != EXEC'')
      (\<lambda>_ F. let F1 = set_state f EXEC F in swapcontext t (t_scheduler_fiber F1 t) (Some f) F1)))"
    by (auto intro!: mild split: prod.split)
  then show ?thesis
    unfolding mild_def [of _ "Fiber_swapIn t f"] Fiber_swapIn_def by (intro allI mild_after [OF _ SetThis_spares])
qed

lemma swapOut_mild [mild]: "mild S (Fiber_swapOut t f)"
  unfolding mild_def Fiber_swapOut_def Let_def by (intro allI mild_after [OF swapcontext_mild SetThis_spares])

lemma back_mild [mild]: "mild S (Fiber_back t f)"
  unfolding mild_def Fiber_back_def Let_def by (intro allI mild_after [OF swapcontext_mild SetThis_spares])

lemma call_mild [mild]: "EXEC \<notin> S \<Longrightarrow> mild S (Fiber_call t f)"
  unfolding mild_def Fiber_call_def Let_def
  by (intro allI mild_after [OF swapcontext_mild spares_trans [OF SetThis_spares set_state_spares]])

lemma GetThis_mild [mild]: "EXEC \<notin> S \<Longrightarrow> mild S (Fiber_GetThis t addr)"
  by (auto simp: mild_def Fiber_GetThis_def Fiber_main_def Fiber_SetThis_def Let_def spares_def st_def split: option.splits)

lemma reset_mild [mild]: "INIT \<notin> S \<Longrightarrow> mild S (Fiber_reset f cb use_caller)"
  by (auto simp: mild_def Fiber_reset_def seq_def the_fiber_def SYLAR_ASSERT_def spares_def st_def split: option.splits)

lemma new_spares [mild]: "INIT \<notin> S \<Longrightarrow> spares S F (Fiber_new default_stack addr cb stacksize use_caller F)"
  by (auto simp: Fiber_new_def Let_def spares_def st_def)

lemma YieldToHold_mild [mild]: "S \<inter> {EXEC, HOLD} = {} \<Longrightarrow> mild S (Fiber_YieldToHold t addr)"
proof -
  assume S: "S \<inter> {EXEC, HOLD} = {}"
  have "mild S (\<lambda>F. (Inr cur, set_state cur HOLD F))" for cur
    using S by (auto simp: mild_def intro!: mild)
  then show ?thesis
    using S unfolding Fiber_YieldToHold_def yield_mark_def yield_switch_def by (auto intro!: mild split: prod.split)
qed

lemma MainFunc_mild [mild]: "S \<inter> {EXEC, TERM'} = {} \<Longrightarrow> mild S (Fiber_MainFunc False t addr)"
proof -
  assume S: "S \<inter> {EXEC, TERM'} = {}"
  have "mild S (\<lambda>F. (Inr (), set_fiber cur (MainFunc_outcome False fb) F))" for cur fb
    using S by (auto simp: mild_def spares_def st_def MainFunc_outcome_def)
  then show ?thesis
    using S unfolding Fiber_MainFunc_def by (auto intro!: mild split: prod.split)
qed

text \<open>The same in the scheduler's state.\<close>

lemma fiber_op_mild: "mild S op \<Longrightarrow> fiber_op op s = (r, s') \<Longrightarrow> spares S (fs s) (fs s')"
  by (auto simp: fiber_op_def mild_def split: prod.splits dest: spec [of _ "fs s"])

lemma goto_fs [simp]: "fs (goto w p s) = fs s"
  by (simp add: goto_def)

lemma load_cb_spares:
  assumes "load_cb default_stack addr w cb s = (Inr f, s')" and "INIT \<notin> S"
  shows "spares S (fs s) (fs s')"
  using assms by (auto simp: load_cb_def ret_apply split: option.splits intro: new_spares [OF assms(2)] elim!: seq_InrE
      dest!: fiber_op_mild [OF reset_mild [OF assms(2)]])

lemma run_dispatch_spares:
  assumes "run_dispatch default_stack addr w ft is_active tickle_me s = (Inr (), s')" and "S \<inter> {EXEC, INIT} = {}"
  shows "spares S (fs s) (fs s')"
proof -
  have S: "EXEC \<notin> S" "INIT \<notin> S"
    using assms(2) by auto
  note op = fiber_op_mild [OF swapIn_mild [OF S(1)]]
  define s1 where "s1 = (if tickle_me then Scheduler_tickle s else s)"
  have [simp]: "fs s1 = fs s"
    by (simp add: s1_def)
  show ?thesis
    using assms(1) unfolding run_dispatch_def Let_def s1_def [symmetric]
    by (auto simp: spares_refl split: if_splits option.splits elim!: seq_InrE dest!: op load_cb_spares [OF _ S(2)]
        intro: spares_trans)
qed

section \<open>What a worker's step leaves alone\<close>

text \<open>Flags, the other workers' places, and every worker's idle fiber.\<close>

definition frame :: "nat \<Rightarrow> scheduler \<Rightarrow> scheduler \<Rightarrow> bool" where
  "frame w s s' \<longleftrightarrow> m_autoStop s' = m_autoStop s \<and> m_stopping s' = m_stopping s \<and> length (workers s') = length (workers s) \<and>
    (\<forall>v. v \<noteq> w \<longrightarrow> workers s' ! v = workers s ! v) \<and> idle_fiber (workers s' ! w) = idle_fiber (workers s ! w) \<and>
    m_rootThread s' = m_rootThread s"

lemma frame_refl: "frame w s s"
  by (simp add: frame_def)

lemma frame_trans: "frame w s s' \<Longrightarrow> frame w s' s'' \<Longrightarrow> frame w s s''"
  by (simp add: frame_def)

lemma frame_goto: "frame w s s' \<Longrightarrow> frame w s (goto w p s')"
  by (cases "w < length (workers s')") (simp_all add: frame_def goto_def list_update_beyond)

lemma frame_drop_cb: "frame w s s' \<Longrightarrow> frame w s (drop_cb_fiber w s')"
  by (cases "w < length (workers s')") (simp_all add: frame_def drop_cb_fiber_def list_update_beyond)

lemma frame_fiber_op: "fiber_op op s = (r, s') \<Longrightarrow> frame w s s'"
  by (auto simp: fiber_op_def frame_def split: prod.splits)

lemma frame_plain:
  "frame w s (s\<lparr>m_fibers := q\<rparr>)" "frame w s (s\<lparr>m_fibers := q, m_activeThreadCount := n\<rparr>)"
  "frame w s (s\<lparr>m_activeThreadCount := n\<rparr>)" "frame w s (s\<lparr>m_idleThreadCount := n\<rparr>)" "frame w s (s\<lparr>fs := F\<rparr>)"
  "frame w s (Scheduler_tickle s)" "frame w s (Scheduler_schedule f cb thread s)"
  by (simp_all add: frame_def Scheduler_tickle_def Scheduler_schedule_def scheduleNoLock_def Let_def)

lemma frame_load_cb: "load_cb default_stack addr w cb s = (Inr f, s') \<Longrightarrow> frame w s s'"
  by (cases "w < length (workers s)")
    (auto simp: load_cb_def ret_apply frame_def list_update_beyond fiber_op_def split: option.splits prod.splits elim!: seq_InrE)

lemma run_pick_frame: "run_pick w s = (Inr (), s') \<Longrightarrow> frame w s s'"
  by (auto simp: run_pick_def split: sum.splits option.splits intro!: frame_goto frame_plain)

lemma run_dispatch_frame:
  assumes "run_dispatch default_stack addr w ft is_active tickle_me s = (Inr (), s')"
  shows "frame w s s'"
proof -
  define s1 where "s1 = (if tickle_me then Scheduler_tickle s else s)"
  have "frame w s s1"
    by (simp add: s1_def frame_refl frame_plain)
  moreover have "frame w s1 s'"
    using assms unfolding run_dispatch_def Let_def s1_def [symmetric]
    by (auto split: if_splits option.splits elim!: seq_InrE intro!: frame_goto frame_plain frame_refl
        intro: frame_trans frame_plain dest!: frame_fiber_op [of _ _ _ _ w] frame_load_cb)
  ultimately show ?thesis
    by (rule frame_trans)
qed

lemma task_left_frame: "frame w s (task_left w p s)"
  by (simp add: task_left_def frame_goto frame_plain)

lemma after_fiber_frame: "frame w s (after_fiber w f s)"
  by (simp add: after_fiber_def frame_goto frame_plain frame_refl)

lemma after_cb_frame: "after_cb w f s = (Inr (), s') \<Longrightarrow> frame w s s'"
  by (auto simp: after_cb_def split: if_splits elim!: seq_InrE intro!: frame_goto frame_drop_cb frame_plain
      dest!: frame_fiber_op [of _ _ _ _ w])

lemma after_idle_frame: "frame w s (after_idle w s)"
  by (auto simp: after_idle_def Let_def intro!: frame_goto frame_plain frame_trans [OF frame_plain(4) frame_plain(5)])

lemma idle_leave_frame: "idle_leave b addr w s = (Inr (), s') \<Longrightarrow> frame w s s'"
  by (auto simp: idle_leave_def elim!: seq_InrE dest!: frame_fiber_op [of _ _ _ _ w] intro: frame_trans after_idle_frame)

section \<open>Once stopping() holds it goes on holding\<close>

lemma stopping_sel [simp]:
  "Scheduler_stopping (goto w p s) = Scheduler_stopping s" "Scheduler_stopping (Scheduler_tickle s) = Scheduler_stopping s"
  "Scheduler_stopping (drop_cb_fiber w s) = Scheduler_stopping s" "Scheduler_stopping (s\<lparr>fs := F\<rparr>) = Scheduler_stopping s"
  "Scheduler_stopping (s\<lparr>m_idleThreadCount := n\<rparr>) = Scheduler_stopping s"
  "Scheduler_stopping (s\<lparr>workers := ws\<rparr>) = Scheduler_stopping s"
  by (simp_all add: Scheduler_stopping_def goto_def Scheduler_tickle_def drop_cb_fiber_def)

lemma fiber_op_stopping: "fiber_op op s = (r, s') \<Longrightarrow> Scheduler_stopping s' = Scheduler_stopping s"
  by (auto simp: fiber_op_def split: prod.splits)

lemma no_ready_state: "no_ready (fs s) \<Longrightarrow> state_of s f \<noteq> READY"
  by (auto simp: no_ready_def state_of_def split: option.split)

lemma after_idle_stopping [simp]: "Scheduler_stopping (after_idle w s) = Scheduler_stopping s"
  by (simp add: after_idle_def Let_def)

lemma run_begin_stopping: "run_begin default_stack main idle cb w s = (Inr (), s') \<Longrightarrow> Scheduler_stopping s' = Scheduler_stopping s"
  by (auto simp: run_begin_def split: if_splits elim!: seq_InrE dest!: fiber_op_stopping)

lemma no_work:
  assumes "sched_inv s" and "Scheduler_stopping s" and "w < length (workers s)"
  shows "\<not> has_work (pc (workers s ! w))"
  using active_positive [OF assms(1,3)] assms(2) by (auto simp: Scheduler_stopping_def)

lemma worker_step_stopping:
  assumes step: "worker_step w d d'" and inv: "sched_inv (sched d)" and unready: "no_ready (fs (sched d))"
    and stop: "Scheduler_stopping (sched d)"
  shows "Scheduler_stopping (sched d')"
  using step
proof cases
  case (begins main idle default_stack cb s')
  then show ?thesis
    using stop by (simp add: moved_def run_begin_stopping)
next
  case (pick s')
  then show ?thesis
    using stop by (auto simp: run_pick_def moved_def Scheduler_stopping_def goto_def)
next
  case (dispatch ft is_active tickle_me default_stack addr s')
  then have "\<not> is_active" "task_fiber ft = None" "task_cb ft = None"
    using no_work [OF inv stop, of w] inv by (auto simp: at_def sched_inv_def task_ok_def)
  then show ?thesis
    using dispatch stop
    by (auto simp: run_dispatch_def Let_def moved_def split: if_splits elim!: seq_InrE dest!: fiber_op_stopping)
next
  case (fiber_left f)
  then show ?thesis
    using stop no_ready_state [OF unready] by (simp add: after_fiber_def moved_def)
next
  case (cb_left f s')
  then show ?thesis
    using stop no_ready_state [OF unready]
    by (auto simp: after_cb_def moved_def split: if_splits elim!: seq_InrE dest!: fiber_op_stopping)
next
  case (idle_leaves b addr s')
  then show ?thesis
    using stop by (auto simp: idle_leave_def moved_def elim!: seq_InrE dest!: fiber_op_stopping)
qed (use no_work [OF inv stop, of w] stop in \<open>auto simp: at_def moved_def\<close>)

lemma not_in_task:
  assumes "sched_inv s" and "Scheduler_stopping s"
  shows "\<not> in_task s"
proof
  assume "in_task s"
  then obtain x f where x: "x \<in> set (workers s)" "pc x = In_Fiber f \<or> pc x = In_Cb f"
    unfolding in_task_def by blast
  then obtain w where "w < length (workers s)" "workers s ! w = x"
    by (meson in_set_conv_nth)
  then show False
    using no_work [OF assms, of w] x(2) by auto
qed

lemma stop_stopping:
  assumes "Scheduler_stop here s = (Inr r, s')" and "Scheduler_stopping s"
  shows "Scheduler_stopping s'"
proof -
  have "m_fibers (tickle_times n x) = m_fibers x \<and> m_activeThreadCount (tickle_times n x) = m_activeThreadCount x \<and>
    m_stopping (tickle_times n x) = m_stopping x \<and> m_autoStop (tickle_times n x) = m_autoStop x" for n x
    by (induction n arbitrary: x) (simp_all add: Scheduler_tickle_def)
  then show ?thesis
    using assms by (auto simp: Scheduler_stop_def Let_def Scheduler_stopping_def Scheduler_tickle_def split: if_splits)
qed

lemma life_step_stopping:
  assumes step: "life_step False d d'" and inv: "sched_inv (sched d)" and unready: "no_ready (fs (sched d))"
    and stop: "Scheduler_stopping (sched d)"
  shows "Scheduler_stopping (sched d')"
  using step
proof cases
  case (stop here r s')
  then show ?thesis
    using stop_stopping \<open>Scheduler_stopping (sched d)\<close> by simp
next
  case (stop_calls s')
  then show ?thesis
    using stop by (auto simp: stop_call_def moved_def split: option.splits elim!: seq_InrE dest!: fiber_op_stopping)
next
  case (worker w)
  then show ?thesis
    using worker_step_stopping inv unready stop by blast
qed (use stop not_in_task [OF inv stop] in \<open>auto simp: Scheduler_stopping_def\<close>)

section \<open>The invariant\<close>

lemma sched_inv_pcs:
  assumes "map pc (workers s') = map pc (workers s)" and "m_activeThreadCount s' = m_activeThreadCount s"
    and "m_idleThreadCount s' = m_idleThreadCount s"
  shows "sched_inv s' = sched_inv s"
proof -
  have len: "length (workers s') = length (workers s)"
    by (rule map_eq_imp_length_eq [OF assms(1)])
  have pcs: "w < length (workers s) \<Longrightarrow> pc (workers s' ! w) = pc (workers s ! w)" for w
    using arg_cong [OF assms(1), of "\<lambda>xs. xs ! w"] len by simp
  have count: "count_pc P (workers s') = count_pc P (workers s)" for P
    using arg_cong [OF assms(1), of "\<lambda>ps. length (filter P ps)"] by (simp add: count_pc_def filter_map comp_def)
  show ?thesis
    using assms(2,3) len pcs count by (auto simp: sched_inv_def)
qed

lemma run_begin_eq:
  assumes "run_begin default_stack main idle cb w s = (Inr (), s')"
  shows "s' = s\<lparr>fs := fs s', workers := (workers s)[w := new_worker idle]\<rparr>"
  using assms by (auto simp: run_begin_def fiber_op_def split: if_splits prod.splits elim!: seq_InrE)

lemma run_begin_inv:
  assumes "run_begin default_stack main idle cb w s = (Inr (), s')" and "pc (workers s ! w) = At_Loop" and "sched_inv s"
  shows "sched_inv s'"
proof -
  have "map pc ((workers s)[w := new_worker idle]) = map pc (workers s)"
    using assms(2) by (simp add: map_update new_worker_def) (metis assms(2) list_update_id map_update)
  then have "sched_inv (s\<lparr>fs := fs s', workers := (workers s)[w := new_worker idle]\<rparr>)"
    using assms(3) by (simp add: sched_inv_pcs [of "s\<lparr>fs := fs s', workers := (workers s)[w := new_worker idle]\<rparr>" s])
  then show ?thesis
    using run_begin_eq [OF assms(1)] by metis
qed

lemma stop_call_inv:
  assumes "stop_call w s = (Inr (), s')" and "sched_inv s"
  shows "sched_inv s'"
  using assms fiber_op_InrD
  by (fastforce simp: stop_call_def sched_inv_def count_pc_def nth_append new_worker_def task_ok_def split: option.splits elim!: seq_InrE)

lemma worker_step_inv:
  assumes "worker_step w d d'" and inv: "sched_inv (sched d)"
  shows "sched_inv (sched d')"
  using assms(1)
proof cases
  case (begins main idle default_stack cb s')
  then show ?thesis
    using run_begin_inv inv by (auto simp: at_def moved_def)
next
  case (idle_leaves b addr s')
  then obtain s1 a where s1: "fiber_op (if b then Fiber_MainFunc False w addr else Fiber_YieldToHold w addr) (sched d) = (Inr a, s1)"
      "s' = after_idle w s1"
    by (auto simp: idle_leave_def elim!: seq_InrE)
  have "sched_inv s1"
    using inv fiber_op_InrD [OF s1(1)] sched_inv_pcs [of s1 "sched d"] by simp
  then show ?thesis
    using idle_leaves s1(2) fiber_op_InrD(1) [OF s1(1)] by (auto simp: at_def moved_def intro: after_idle_inv)
qed (use inv in \<open>auto simp: at_def moved_def intro: run_pick_inv run_dispatch_inv task_left_inv after_fiber_inv after_cb_inv\<close>)

lemma life_step_inv:
  assumes "life_step yields d d'" and inv: "sched_inv (sched d)"
  shows "sched_inv (sched d')"
  using assms(1)
proof cases
  case (start addrs s')
  then have "s' = (sched d)\<lparr>m_stopping := False, workers := map (\<lambda>i. new_worker (addrs i)) [0..<m_threadCount (sched d)]\<rparr>"
      "workers (sched d) = []"
    by (auto simp: Scheduler_start_def split: if_splits)
  then show ?thesis
    using inv start by (auto simp: sched_inv_def count_pc_def filter_empty_conv new_worker_def task_ok_def)
next
  case (stop here r s')
  then show ?thesis
    using sched_step_inv [OF sched_step.stop inv, of here] by simp
next
  case (stop_calls s')
  then show ?thesis
    using stop_call_inv inv by (simp add: moved_def)
next
  case (worker w)
  then show ?thesis
    using worker_step_inv inv by blast
qed (use inv sched_step_inv sched_step.intros in \<open>auto intro: sched_step_inv sched_step.intros\<close>)

lemma no_ready_st: "no_ready F \<longleftrightarrow> (\<forall>f. st F f \<noteq> READY)"
  by (auto simp: no_ready_def st_def split: option.split)

lemma run_begin_spares:
  assumes "run_begin default_stack main idle cb w s = (Inr (), s')" and "S \<inter> {EXEC, INIT} = {}"
  shows "spares S (fs s) (fs s')"
proof -
  have S: "EXEC \<notin> S" "INIT \<notin> S"
    using assms(2) by auto
  have "mild S (seq (Fiber_GetThis w main) (\<lambda>f F. (Inr (), F\<lparr>t_scheduler_fiber := (t_scheduler_fiber F)(w \<mapsto> f)\<rparr>)))"
    using S by (auto intro!: mild) (simp add: mild_def spares_fibers)
  note op = fiber_op_mild [OF this]
  show ?thesis
  proof (cases "int w = m_rootThread s")
    case True
    then have "fs s' = Fiber_new default_stack idle (Some cb) 0 False (fs s)"
      using assms(1) by (auto simp: run_begin_def elim!: seq_InrE)
    then show ?thesis
      using new_spares [OF S(2)] by simp
  next
    case False
    from assms(1) [unfolded run_begin_def] show ?thesis
    proof (rule seq_InrE)
      fix r s1
      assume "(if int w \<noteq> m_rootThread s
          then fiber_op (seq (Fiber_GetThis w main) (\<lambda>f fs. (Inr (), fs\<lparr>t_scheduler_fiber := (t_scheduler_fiber fs)(w \<mapsto> f)\<rparr>))) s
          else (Inr (), s)) = (Inr r, s1)"
        and s': "(Inr (), s1\<lparr>fs := Fiber_new default_stack idle (Some cb) 0 False (fs s1),
          workers := (workers s1)[w := new_worker idle]\<rparr>) = (Inr (), s')"
      then have "spares S (fs s) (fs s1)"
        using False op by simp
      then show "spares S (fs s) (fs s')"
        using spares_trans [OF _ new_spares [OF S(2)]] s' by auto
    qed
  qed
qed

lemma after_idle_spares: "HOLD \<notin> S \<Longrightarrow> spares S (fs s) (fs (after_idle w s))"
  by (simp add: after_idle_def Let_def spares_refl set_state_spares)

lemma after_cb_spares:
  assumes "after_cb w f s = (Inr (), s')" and "S \<inter> {HOLD, INIT} = {}"
  shows "spares S (fs s) (fs s')"
proof -
  have S: "HOLD \<notin> S" "INIT \<notin> S"
    using assms(2) by auto
  have "fs (drop_cb_fiber w x) = fs x" for x
    by (simp add: drop_cb_fiber_def)
  then show ?thesis
    using assms(1) fiber_op_mild [OF reset_mild [OF S(2)]] S unfolding after_cb_def
    by (auto simp: spares_refl set_state_spares split: if_splits elim!: seq_InrE)
qed

text \<open>Only an idle fiber that has been told to stop ends in a step of a worker.\<close>

lemma worker_step_spares:
  assumes "worker_step w d d'" and "S = (if phases d w = Checked True then {READY} else {READY, TERM'})"
  shows "spares S (fs (sched d)) (fs (sched d'))"
proof -
  have S: "S \<inter> {EXEC, INIT} = {}" "S \<inter> {HOLD, INIT} = {}" "S \<inter> {EXEC, HOLD} = {}" "HOLD \<notin> S"
    using assms(2) by (auto split: if_splits)
  from assms(1) show ?thesis
  proof cases
    case (begins main idle default_stack cb s')
    then show ?thesis
      using run_begin_spares S(1) by (simp add: moved_def)
  next
    case (pick s')
    then show ?thesis
      by (auto simp: run_pick_def moved_def spares_refl split: sum.splits option.splits)
  next
    case (dispatch ft is_active tickle_me default_stack addr s')
    then show ?thesis
      using run_dispatch_spares S(1) by (simp add: moved_def)
  next
    case (cb_left f s')
    then show ?thesis
      using after_cb_spares S(2) by (simp add: moved_def)
  next
    case (idle_leaves b addr s')
    have "mild S (if b then Fiber_MainFunc False w addr else Fiber_YieldToHold w addr)"
      using idle_leaves assms(2) MainFunc_mild [of "{READY}" w addr] YieldToHold_mild [OF S(3)] by (auto simp: at_def)
    note op = fiber_op_mild [OF this]
    obtain s1 a where s1: "fiber_op (if b then Fiber_MainFunc False w addr else Fiber_YieldToHold w addr) (sched d) = (Inr a, s1)"
        "s' = after_idle w s1"
      using idle_leaves by (auto simp: idle_leave_def elim!: seq_InrE)
    show ?thesis
      using spares_trans [OF op [OF s1(1)] after_idle_spares [OF S(4)]] idle_leaves(1) s1(2) by (simp add: moved_def)
  qed (use S(4) in \<open>simp_all add: moved_def task_left_def after_fiber_def spares_refl set_state_spares\<close>)
qed

lemma worker_step_frame:
  assumes "worker_step w d d'"
  shows "(phases d w = Starting \<or> frame w (sched d) (sched d')) \<and> length (workers (sched d')) = length (workers (sched d)) \<and>
    (\<forall>v. v \<noteq> w \<longrightarrow> phases d' v = phases d v \<and> workers (sched d') ! v = workers (sched d) ! v)"
proof -
  have "phases d w = Starting \<and> (\<exists>idle. workers (sched d') = (workers (sched d))[w := new_worker idle]) \<or> frame w (sched d) (sched d')"
    using assms
  proof cases
    case (begins main idle default_stack cb s')
    have "workers s' = (workers (sched d))[w := new_worker idle]"
      by (subst run_begin_eq [OF begins(6)]) simp
    then show ?thesis
      using begins by (auto simp: at_def moved_def)
  qed (auto simp: moved_def intro: run_pick_frame run_dispatch_frame task_left_frame after_fiber_frame after_cb_frame
      frame_refl idle_leave_frame)
  moreover have "\<forall>v. v \<noteq> w \<longrightarrow> phases d' v = phases d v"
    using assms by cases (auto simp: moved_def)
  ultimately show ?thesis
    by (auto simp: frame_def)
qed

text \<open>A thread that has left \<open>run\<close>, or whose idle fiber has ended or is about to.\<close>

definition leaving_run :: "life \<Rightarrow> nat \<Rightarrow> bool" where
  "leaving_run d w \<longleftrightarrow> w < length (workers (sched d)) \<and> phases d w \<noteq> Starting \<and>
    (state_of (sched d) (idle_fiber (workers (sched d) ! w)) = TERM' \<or> pc (workers (sched d) ! w) = Finished \<or>
     phases d w = Checked True)"

lemma worker_step_leaving:
  assumes step: "worker_step w d d'" and none: "\<And>v. \<not> leaving_run d v" and leaving: "leaving_run d' v"
  shows "Scheduler_stopping (sched d')"
proof -
  note frame = worker_step_frame [OF step]
  have w: "w < length (workers (sched d))"
    using step by cases (simp_all add: at_def)
  have not_told: "phases d w \<noteq> Checked True"
    using none [of w] w by (auto simp: leaving_run_def)
  then have ended: "state_of (sched d') f = TERM' \<Longrightarrow> state_of (sched d) f = TERM'" for f
    using worker_step_spares [OF step refl] by (auto simp: state_of_st spares_def)
  show ?thesis
  proof (cases "v = w")
    case False
    then show ?thesis
      using leaving none [of v] frame ended by (auto simp: leaving_run_def)
  next
    case True
    have begun: "state_of (sched d') (idle_fiber (workers (sched d') ! w)) \<noteq> TERM'" if "phases d w \<noteq> Starting"
      using that frame ended none [of w] w by (auto simp: leaving_run_def frame_def)
    show ?thesis
      using step
    proof cases
      case (begins main idle default_stack cb s')
      then have "state_of s' idle = INIT"
        by (auto simp: run_begin_def state_of_def Fiber_new_def Let_def elim!: seq_InrE)
      moreover have "workers s' ! w = new_worker idle"
        using w by (subst run_begin_eq [OF begins(6)]) simp
      ultimately show ?thesis
        using True leaving begins(1) by (simp add: leaving_run_def moved_def new_worker_def)
    next
      case (dispatch ft is_active tickle_me default_stack addr s')
      then have "state_of (sched d) (idle_fiber (workers (sched d) ! w)) \<noteq> TERM'"
        using none [of w] by (auto simp: leaving_run_def at_def)
      moreover have "state_of (Scheduler_tickle x) = state_of x" for x
        by (simp add: state_of_def fun_eq_iff)
      ultimately have "pc (workers s' ! w) \<noteq> Finished"
        using dispatch by (auto simp: run_dispatch_def Let_def at_def goto_def split: if_splits option.splits
            elim!: seq_InrE dest!: fiber_op_InrD(1) load_cb_InrD)
      then show ?thesis
        using True leaving begun dispatch by (simp add: leaving_run_def moved_def at_def)
    next
      case (cb_left f s')
      then have "pc (workers s' ! w) \<noteq> Finished"
        by (auto simp: after_cb_def at_def goto_def drop_cb_fiber_def split: if_splits elim!: seq_InrE dest!: fiber_op_InrD(1))
      then show ?thesis
        using True leaving begun cb_left by (simp add: leaving_run_def moved_def at_def)
    next
      case (pick s')
      then have "pc (workers s' ! w) \<noteq> Finished"
        by (auto simp: run_pick_def at_def goto_def split: sum.splits option.splits)
      then show ?thesis
        using True leaving begun pick by (simp add: leaving_run_def moved_def at_def)
    next
      case (idle_leaves b addr s')
      then have "pc (workers s' ! w) \<noteq> Finished"
        by (auto simp: idle_leave_def after_idle_def Let_def at_def goto_def elim!: seq_InrE dest!: fiber_op_InrD(1))
      then show ?thesis
        using True leaving begun idle_leaves by (simp add: leaving_run_def moved_def at_def)
    qed (use True leaving begun in \<open>auto simp: leaving_run_def moved_def at_def task_left_def after_fiber_def goto_def\<close>)
  qed
qed

lemma stop_fs: "fs (snd (Scheduler_stop here s)) = fs s"
proof -
  have "fs (tickle_times n x) = fs x" for n x
    by (induction n arbitrary: x) simp_all
  then show ?thesis
    by (simp add: Scheduler_stop_def Let_def)
qed

lemma stop_call_eq:
  assumes "stop_call w s = (Inr (), s')" and "m_rootFiber s \<noteq> None" and "EXEC \<notin> S"
  shows "(\<exists>f. workers s' = workers s @ [new_worker f]) \<and> spares S (fs s) (fs s')"
proof -
  obtain f s1 where s1: "fiber_op (Fiber_call w f) s = (Inr (), s1)" "s' = s1\<lparr>workers := workers s1 @ [new_worker f]\<rparr>"
    using assms(1,2) by (auto simp: stop_call_def elim!: seq_InrE)
  then show ?thesis
    using fiber_op_mild [OF call_mild [OF assms(3)] s1(1)] fiber_op_InrD(1) [OF s1(1)] by auto
qed

lemma life_step_leaving:
  assumes step: "life_step False d d'" and none: "\<And>v. \<not> leaving_run d v" and leaving: "leaving_run d' v"
  shows "Scheduler_stopping (sched d')"
  using step
proof cases
  case (task_code F)
  then show ?thesis
    using leaving none [of v] by (auto simp: leaving_run_def tasks_may_def Let_def)
next
  case (schedule_range items)
  have "workers (sched d') = workers (sched d)" "fs (sched d') = fs (sched d)"
    by (simp_all add: schedule_range Scheduler_schedule_range_def schedule_loop_tasks Scheduler_tickle_def)
  then show ?thesis
    using leaving none [of v] schedule_range by (simp add: leaving_run_def state_of_def)
next
  case (stop here r s')
  have "fs s' = fs (sched d)"
    using stop_fs [of here "sched d"] stop(2) by simp
  moreover have "workers s' = workers (sched d)"
    using stop_sel [of here "sched d"] stop(2) by simp
  ultimately show ?thesis
    using leaving none [of v] stop(1) by (simp add: leaving_run_def state_of_def)
next
  case (stop_calls s')
  obtain f where "workers s' = workers (sched d) @ [new_worker f]" "spares {TERM'} (fs (sched d)) (fs s')"
    using stop_call_eq [OF stop_calls(4,3), of "{TERM'}"] by auto
  then show ?thesis
    using leaving none [of v] stop_calls(1)
    by (auto simp: leaving_run_def moved_def state_of_st spares_def nth_append split: if_splits)
next
  case (worker w)
  then show ?thesis
    using worker_step_leaving none leaving by blast
qed (use leaving none [of v] in \<open>auto simp: leaving_run_def state_of_def\<close>)

definition life_inv :: "life \<Rightarrow> bool" where
  "life_inv d \<longleftrightarrow> sched_inv (sched d) \<and> no_ready (fs (sched d)) \<and>
    ((\<exists>w. leaving_run d w) \<longrightarrow> Scheduler_stopping (sched d))"

lemma life_step_no_ready:
  assumes step: "life_step False d d'" and unready: "no_ready (fs (sched d))"
  shows "no_ready (fs (sched d'))"
proof -
  have keep: "spares S (fs (sched d)) (fs (sched d')) \<Longrightarrow> READY \<in> S \<Longrightarrow> no_ready (fs (sched d'))" for S
    using unready unfolding no_ready_st spares_def by metis
  show ?thesis
    using step
  proof cases
    case (start addrs s')
    then show ?thesis
      using unready by (auto simp: Scheduler_start_def split: if_splits)
  next
    case (task_code F)
    then show ?thesis
      by (simp add: tasks_may_def)
  next
    case (schedule_range items)
    then show ?thesis
      using unready by (simp add: Scheduler_schedule_range_def schedule_loop_tasks Scheduler_tickle_def)
  next
    case (stop here r s')
    then show ?thesis
      using unready stop_fs [of here "sched d"] by simp
  next
    case (stop_calls s')
    then show ?thesis
      using keep [of "{READY}"] stop_call_eq [OF stop_calls(4,3), of "{READY}"] by (simp add: moved_def)
  next
    case (worker w)
    then show ?thesis
      using keep [OF worker_step_spares [OF worker refl]] by simp
  qed (use unready in simp_all)
qed

lemma life_inv: "life_reachable False d \<Longrightarrow> life_inv d"
proof (induction rule: life_reachable.induct)
  case (made threads use_caller here other root fsys s)
  then have "workers s = []" "m_activeThreadCount s = 0" "m_idleThreadCount s = 0" "fs s = fsys"
    by (auto simp: Scheduler_def split: if_splits)
  then show ?case
    using made by (simp add: life_inv_def sched_inv_def count_pc_def leaving_run_def)
next
  case (step d d')
  then have inv: "sched_inv (sched d)" "no_ready (fs (sched d))"
    by (simp_all add: life_inv_def)
  have "Scheduler_stopping (sched d')" if "leaving_run d' v" for v
    using life_step_stopping [OF step.hyps(2) inv] life_step_leaving [OF step.hyps(2) _ that] step.IH
    by (auto simp: life_inv_def)
  then show ?case
    using life_step_inv [OF step.hyps(2) inv(1)] life_step_no_ready [OF step.hyps(2) inv(2)] by (auto simp: life_inv_def)
qed

end
