(* ===== verification/Scheduler_Join.thy ===== *)
theory Scheduler_Join
  imports Scheduler_Drain
begin

text \<open>
  Once \<open>stopping()\<close> holds, every thread of a \<open>Scheduler\<close> leaves \<open>run\<close> after a few steps of its own, so that
  \<open>stop\<close> (\<open>sylar/scheduler.cpp\<close>) gets through its joins.
\<close>

section \<open>Threads in order\<close>

text \<open>A thread in the loop executes its scheduling fiber; one in \<open>idle\<close> executes its idle fiber.\<close>

definition looping :: "fiber_system \<Rightarrow> nat \<Rightarrow> nat \<Rightarrow> bool" where
  "looping F w i \<longleftrightarrow> (\<exists>m fb. t_scheduler_fiber F w = Some m \<and> running F w = Some m \<and> fibers F i = Some fb \<and>
    m_state fb \<noteq> EXEC \<and> \<not> m_use_caller fb)"

definition idling :: "fiber_system \<Rightarrow> nat \<Rightarrow> nat \<Rightarrow> bool" where
  "idling F w i \<longleftrightarrow> (\<exists>m mb fb. t_scheduler_fiber F w = Some m \<and> running F w = Some i \<and> m \<noteq> i \<and>
    fibers F m = Some mb \<and> m_ctx mb \<noteq> Live \<and> m_state mb = EXEC \<and> fibers F i = Some fb \<and> \<not> m_use_caller fb)"

text \<open>The fiber that a worker has just left is nobody else's.\<close>

definition parked :: "fiber_system \<Rightarrow> nat \<Rightarrow> nat \<Rightarrow> nat \<Rightarrow> bool" where
  "parked F w i f \<longleftrightarrow> f \<noteq> i \<and> t_scheduler_fiber F w \<noteq> Some f \<and> (\<exists>fb. fibers F f = Some fb \<and> m_ctx fb \<noteq> Live \<and> m_stack fb)"

definition left_fiber :: "worker_pc \<Rightarrow> nat option" where
  "left_fiber p = (case p of Left_Fiber f \<Rightarrow> Some f | Left_Cb f \<Rightarrow> Some f | _ \<Rightarrow> None)"

definition worker_ok :: "life \<Rightarrow> nat \<Rightarrow> bool" where
  "worker_ok d w \<longleftrightarrow>
    (let F = fs (sched d); x = workers (sched d) ! w; i = idle_fiber x
     in case phases d w of
          Starting \<Rightarrow> pc x = At_Loop \<and>
            (int w = m_rootThread (sched d) \<longrightarrow> running F w \<noteq> None \<and> t_scheduler_fiber F w = running F w)
        | Checked _ \<Rightarrow> pc x = In_Idle \<and> idling F w i
        | Ready \<Rightarrow> pc x = Finished \<or> (if pc x = In_Idle then idling F w i
            else looping F w i \<and> (\<forall>f. left_fiber (pc x) = Some f \<longrightarrow> parked F w i f)))"

text \<open>The fibers a thread relies on.\<close>

definition own :: "life \<Rightarrow> nat \<Rightarrow> nat set" where
  "own d w =
    (let F = fs (sched d); x = workers (sched d) ! w
     in if phases d w = Starting then set_option (running F w)
        else if pc x = Finished then {}
        else {idle_fiber x} \<union> set_option (t_scheduler_fiber F w) \<union> set_option (left_fiber (pc x)))"

definition threads_ok :: "life \<Rightarrow> bool" where
  "threads_ok d \<longleftrightarrow> fs_inv (fs (sched d)) \<and> (\<forall>w < length (workers (sched d)). worker_ok d w) \<and>
    (\<forall>v < length (workers (sched d)). \<forall>w < length (workers (sched d)). v \<noteq> w \<longrightarrow> own d v \<inter> own d w = {})"

text \<open>An upper bound of the steps that a thread takes to leave, once \<open>stopping()\<close> holds.\<close>

definition rank :: "life \<Rightarrow> nat \<Rightarrow> nat" where
  "rank d w =
    (let x = workers (sched d) ! w; ended = (state_of (sched d) (idle_fiber x) = TERM')
     in case phases d w of
          Starting \<Rightarrow> 8
        | Checked b \<Rightarrow> (if b then 3 else 7)
        | Ready \<Rightarrow> (case pc x of
              Finished \<Rightarrow> 0
            | Got _ _ _ \<Rightarrow> if ended then 1 else 5
            | At_Loop \<Rightarrow> if ended then 2 else 6
            | In_Idle \<Rightarrow> 4
            | _ \<Rightarrow> if ended then 3 else 7))"

definition total_rank :: "life \<Rightarrow> nat" where
  "total_rank d = (\<Sum>w < length (workers (sched d)). rank d w)"

lemma total_rank_bound: "total_rank d \<le> 8 * length (workers (sched d))"
proof -
  have "rank d w \<le> 8" for w
    by (simp add: rank_def Let_def split: phase.split worker_pc.split)
  then show ?thesis
    using sum_bounded_above [of "{..<length (workers (sched d))}" "rank d" 8] by (simp add: total_rank_def)
qed

lemma own_exists:
  assumes "fs_inv (fs (sched d))" and "worker_ok d w" and "f \<in> own d w"
  shows "fibers (fs (sched d)) f \<noteq> None"
proof -
  have run: "running (fs (sched d)) w = Some g \<Longrightarrow> \<exists>gb. fibers (fs (sched d)) g = Some gb" for g
    using fs_invD(2) [OF assms(1)] by blast
  show ?thesis
    using assms(2,3) run
    by (auto simp: worker_ok_def own_def Let_def looping_def idling_def parked_def left_fiber_def
        split: phase.splits worker_pc.splits if_splits)
qed

text \<open>What another thread's step does to a worker: nothing, when it leaves its fibers alone.\<close>

lemma worker_frame:
  assumes "workers (sched d') ! v = workers (sched d) ! v" and "phases d' v = phases d v"
    and "m_rootThread (sched d') = m_rootThread (sched d)"
    and "running (fs (sched d')) v = running (fs (sched d)) v"
    and "t_scheduler_fiber (fs (sched d')) v = t_scheduler_fiber (fs (sched d)) v"
    and "\<forall>f \<in> own d v. fibers (fs (sched d')) f = fibers (fs (sched d)) f"
  shows "own d' v = own d v" and "worker_ok d v \<Longrightarrow> worker_ok d' v" and "rank d' v = rank d v"
proof -
  show "rank d' v = rank d v"
    using assms(1,2,6) by (auto simp: rank_def Let_def own_def state_of_def split: phase.split worker_pc.split)
  show "own d' v = own d v"
    using assms(1,2,4,5) by (simp add: own_def Let_def)
  show "worker_ok d v \<Longrightarrow> worker_ok d' v"
    using assms
    by (auto simp: worker_ok_def own_def Let_def looping_def idling_def parked_def left_fiber_def
        split: phase.splits worker_pc.splits if_splits)
qed

lemma threads_ok_local:
  assumes ok: "threads_ok d" and w: "w < length (workers (sched d))" and inv: "fs_inv (fs (sched d'))"
    and len: "length (workers (sched d')) = length (workers (sched d))"
    and other: "\<And>v. v \<noteq> w \<Longrightarrow> workers (sched d') ! v = workers (sched d) ! v \<and> phases d' v = phases d v \<and>
      running (fs (sched d')) v = running (fs (sched d)) v \<and>
      t_scheduler_fiber (fs (sched d')) v = t_scheduler_fiber (fs (sched d)) v"
    and root: "m_rootThread (sched d') = m_rootThread (sched d)"
    and fibers: "\<And>f. f \<notin> own d w \<Longrightarrow> fibers (fs (sched d)) f \<noteq> None \<Longrightarrow>
      fibers (fs (sched d')) f = fibers (fs (sched d)) f"
    and self: "worker_ok d' w" and grown: "\<And>f. f \<in> own d' w \<Longrightarrow> f \<in> own d w \<or> fibers (fs (sched d)) f = None"
    and less: "rank d' w < rank d w"
  shows "threads_ok d' \<and> total_rank d' < total_rank d"
proof -
  have ex: "fibers (fs (sched d)) f \<noteq> None" if "v < length (workers (sched d))" "f \<in> own d v" for v f
    using own_exists that ok by (auto simp: threads_ok_def)
  have same: "own d' v = own d v \<and> worker_ok d' v \<and> rank d' v = rank d v" if v: "v < length (workers (sched d))" "v \<noteq> w" for v
  proof -
    have "\<forall>f \<in> own d v. fibers (fs (sched d')) f = fibers (fs (sched d)) f"
      using fibers ex ok v w by (fastforce simp: threads_ok_def)
    then show ?thesis
      using worker_frame [of d' v d] other [OF v(2)] root ok v(1) by (simp add: threads_ok_def)
  qed
  have "own d' v \<inter> own d' w = {}" if v: "v < length (workers (sched d))" "v \<noteq> w" for v
    using same [OF v] grown ex [OF v(1)] ok v w by (fastforce simp: threads_ok_def)
  then have "threads_ok d'"
    using ok inv len same self w unfolding threads_ok_def by (metis Int_commute)
  moreover have "total_rank d' < total_rank d"
    unfolding total_rank_def len using same less w by (intro sum_strict_mono_ex1) (auto intro: less_imp_le, metis order_refl less_imp_le)
  ultimately show ?thesis
    by simp
qed

section \<open>Fibers in order\<close>

lemma fs_inv_cong: "t_fiber F' = t_fiber F \<Longrightarrow> running F' = running F \<Longrightarrow> fibers F' = fibers F \<Longrightarrow> fs_inv F' = fs_inv F"
  by (simp add: fs_inv_def)

lemma fs_inv_put:
  assumes inv: "fs_inv F" and old: "\<And>fb. fibers F f = Some fb \<Longrightarrow> m_ctx fb \<noteq> Live" and new: "m_ctx fb' \<noteq> Live"
  shows "fs_inv (set_fiber f fb' F)"
proof -
  have "running F t \<noteq> Some f" for t
    using fs_invD(2) [OF inv] old by blast
  then show ?thesis
    using inv new unfolding fs_inv_def by (auto split: if_splits)
qed

lemma Fiber_new_ok:
  assumes "fs_inv F" and "fibers F a = None"
  shows "fs_inv (Fiber_new default_stack a cb n use_caller F)"
proof -
  have put: "fs_inv (set_fiber a fb' F)" if "m_ctx fb' \<noteq> Live" for fb'
    using fs_inv_put [OF assms(1) _ that, of a] assms(2) by simp
  show ?thesis
    using put [of "the (fibers (Fiber_new default_stack a cb n use_caller F) a)"]
    by (subst fs_inv_cong [of _ "set_fiber a (the (fibers (Fiber_new default_stack a cb n use_caller F) a)) F"])
      (simp_all add: Fiber_new_def Let_def)
qed

lemma Fiber_main_ok:
  assumes inv: "fs_inv F" and a: "fibers F a = None" and t: "running F t = None"
  shows "fs_inv (Fiber_main t a F)"
proof -
  have "running F t' \<noteq> Some a" for t'
    using fs_invD(2) [OF inv] a by fastforce
  then show ?thesis
    using inv a t unfolding fs_inv_def Fiber_main_def Fiber_SetThis_def Let_def
    by (simp split: if_splits) (metis option.distinct(1))
qed

section \<open>The turns of a worker\<close>

text \<open>Where a worker stands, spelt out.\<close>

lemma worker_ok_at:
  assumes "threads_ok d" and "at w ph p d"
  shows "w < length (workers (sched d))" and "worker_ok d w" and "fs_inv (fs (sched d))" and "phases d w = ph"
    and "pc (workers (sched d) ! w) = p"
  using assms by (auto simp: threads_ok_def at_def)

lemma begins_turn:
  assumes ok: "threads_ok d" and at: "at w Starting At_Loop d"
    and fresh: "fibers (fs (sched d)) main = None" "fibers (fs (sched d)) idle = None" "main \<noteq> idle"
  shows "\<exists>s'. run_begin default_stack main idle cb w (sched d) = (Inr (), s') \<and>
    threads_ok (moved w Ready s' d) \<and> total_rank (moved w Ready s' d) < total_rank d"
proof -
  let ?s = "sched d" and ?F = "fs (sched d)"
  note W = worker_ok_at [OF ok at]
  have t: "t_fiber ?F = running ?F"
    by (rule fs_invD(1) [OF W(3)])
  obtain m F1 where F1: "t_scheduler_fiber F1 w = Some m" "running F1 w = Some m" "fs_inv F1" "fibers F1 idle = None"
      "\<And>v. v \<noteq> w \<Longrightarrow> running F1 v = running ?F v \<and> t_scheduler_fiber F1 v = t_scheduler_fiber ?F v"
      "\<And>f. f \<noteq> main \<Longrightarrow> fibers F1 f = fibers ?F f" "running ?F w = Some m \<or> m = main"
      "run_begin default_stack main idle cb w ?s = (Inr (), ?s\<lparr>fs := Fiber_new default_stack idle (Some cb) 0 False F1,
        workers := (workers ?s)[w := new_worker idle]\<rparr>)"
  proof (cases "int w = m_rootThread ?s")
    case True
    then obtain m where "running ?F w = Some m" "t_scheduler_fiber ?F w = Some m"
      using W(2,4) by (auto simp: worker_ok_def Let_def)
    then show ?thesis
      using that [of ?F m] True W(3) fresh by (simp add: run_begin_def seq_def)
  next
    case False
    show ?thesis
    proof (cases "running ?F w")
      case (Some m)
      let ?F1 = "?F\<lparr>t_scheduler_fiber := (t_scheduler_fiber ?F)(w \<mapsto> m)\<rparr>"
      have "Fiber_GetThis w main ?F = (Inr m, ?F)"
        using Some t by (simp add: Fiber_GetThis_def)
      then show ?thesis
        using that [of ?F1 m] False Some W(3) fresh fs_inv_cong [of ?F1 ?F]
        by (simp add: run_begin_def seq_def fiber_op_def)
    next
      case None
      let ?made = "Fiber_main w main ?F"
      let ?F1 = "?made\<lparr>t_threadFiber := (t_threadFiber ?made)(w \<mapsto> main), t_scheduler_fiber := (t_scheduler_fiber ?made)(w \<mapsto> main)\<rparr>"
      have "Fiber_GetThis w main ?F = (Inr main, ?made\<lparr>t_threadFiber := (t_threadFiber ?made)(w \<mapsto> main)\<rparr>)"
        using None t by (simp add: Fiber_GetThis_def Let_def)
      then show ?thesis
        using that [of ?F1 main] False fresh Fiber_main_ok [OF W(3) fresh(1) None] fs_inv_cong [of ?F1 ?made]
        by (simp add: run_begin_def seq_def fiber_op_def Fiber_main_def Fiber_SetThis_def Let_def)
    qed
  qed
  let ?F2 = "Fiber_new default_stack idle (Some cb) 0 False F1"
  let ?d' = "moved w Ready (?s\<lparr>fs := ?F2, workers := (workers ?s)[w := new_worker idle]\<rparr>) d"
  have F2: "running ?F2 = running F1" "t_scheduler_fiber ?F2 = t_scheduler_fiber F1"
      "f \<noteq> idle \<Longrightarrow> fibers ?F2 f = fibers F1 f" for f
    by (simp_all add: Fiber_new_def Let_def)
  have new: "\<exists>fb. fibers ?F2 idle = Some fb \<and> m_state fb = INIT \<and> \<not> m_use_caller fb"
    by (simp add: Fiber_new_def Let_def)
  have "threads_ok ?d' \<and> total_rank ?d' < total_rank d"
  proof (rule threads_ok_local [OF ok W(1)])
    show "fs_inv (fs (sched ?d'))"
      using Fiber_new_ok [OF F1(3,4)] by (simp add: moved_def)
    show "fibers (fs (sched ?d')) f = fibers ?F f" if "f \<notin> own d w" "fibers ?F f \<noteq> None" for f
      using that fresh F1(6) F2(3) by (cases "f = main"; cases "f = idle") (auto simp: moved_def)
    show "worker_ok ?d' w"
      using W(1) F1(1,2) F2 new by (auto simp: worker_ok_def moved_def new_worker_def looping_def left_fiber_def)
    show "f \<in> own d w \<or> fibers ?F f = None" if "f \<in> own ?d' w" for f
      using that W(1,4) F1(1,7) F2(2) fresh by (auto simp: own_def moved_def new_worker_def left_fiber_def)
    show "rank ?d' w < rank d w"
      using W(1,4) by (simp add: rank_def moved_def new_worker_def)
  qed (use F1(5) F2 in \<open>auto simp: moved_def\<close>)
  then show ?thesis
    using F1(8) by blast
qed

lemma goto_moved [simp]:
  "w < length (workers s) \<Longrightarrow> workers (goto w p s) ! w = (workers s ! w)\<lparr>pc := p\<rparr>"
  "v \<noteq> w \<Longrightarrow> workers (goto w p s) ! v = workers s ! v" "length (workers (goto w p s)) = length (workers s)"
  "m_rootThread (goto w p s) = m_rootThread s"
  by (simp_all add: goto_def)

text \<open>A turn that ends at the place \<open>p\<close> and touches no fiber.\<close>

lemma quiet_turn:
  assumes ok: "threads_ok d" and w: "w < length (workers (sched d))" and "phases d w = Ready"
    and pc: "pc (workers (sched d) ! w) \<notin> {In_Idle, Finished}" "p \<noteq> In_Idle" "left_fiber p = None"
    and s: "workers s = workers (sched d)" "fs s = fs (sched d)" "m_rootThread s = m_rootThread (sched d)"
    and less: "rank (moved w Ready (goto w p s) d) w < rank d w"
  shows "threads_ok (moved w Ready (goto w p s) d) \<and> total_rank (moved w Ready (goto w p s) d) < total_rank d"
proof (rule threads_ok_local [OF ok w])
  show "worker_ok (moved w Ready (goto w p s) d) w"
    using ok w assms(3) pc s by (auto simp: threads_ok_def worker_ok_def moved_def Let_def)
  show "f \<in> own d w \<or> fibers (fs (sched d)) f = None" if "f \<in> own (moved w Ready (goto w p s) d) w" for f
    using that w assms(3) pc s by (auto simp: own_def moved_def Let_def split: if_splits)
qed (use ok w s less in \<open>auto simp: threads_ok_def moved_def\<close>)

lemma pick_turn:
  assumes ok: "threads_ok d" and stop: "Scheduler_stopping (sched d)" and at: "at w Ready At_Loop d"
  shows "\<exists>s'. run_pick w (sched d) = (Inr (), s') \<and> threads_ok (moved w Ready s' d) \<and> total_rank (moved w Ready s' d) < total_rank d"
proof -
  let ?s = "(sched d)\<lparr>m_fibers := []\<rparr>"
  note W = worker_ok_at [OF ok at]
  have "run_pick w (sched d) = (Inr (), goto w (Got no_task False False) ?s)"
    using stop by (simp add: run_pick_def Scheduler_stopping_def)
  moreover have "rank (moved w Ready (goto w (Got no_task False False) ?s) d) w < rank d w"
    using W(1,4,5) by (simp add: rank_def moved_def Let_def state_of_def)
  ultimately show ?thesis
    using quiet_turn [OF ok W(1,4), of "Got no_task False False" ?s] W(5) by (simp add: left_fiber_def)
qed

lemma asks_turn:
  assumes ok: "threads_ok d" and stop: "Scheduler_stopping (sched d)" and at: "at w Ready In_Idle d"
  shows "threads_ok (moved w (Checked True) (sched d) d) \<and> total_rank (moved w (Checked True) (sched d) d) < total_rank d"
proof (rule threads_ok_local [OF ok worker_ok_at(1) [OF ok at]])
  note W = worker_ok_at [OF ok at]
  show "worker_ok (moved w (Checked True) (sched d) d) w"
    using W(2,4,5) by (simp add: worker_ok_def moved_def Let_def)
  show "f \<in> own d w \<or> fibers (fs (sched d)) f = None" if "f \<in> own (moved w (Checked True) (sched d) d) w" for f
    using that W(4,5) by (simp add: own_def moved_def Let_def)
  show "rank (moved w (Checked True) (sched d) d) w < rank d w"
    using W(4,5) by (simp add: rank_def moved_def Let_def)
  show "fs_inv (fs (sched (moved w (Checked True) (sched d) d)))"
    using W(3) by (simp add: moved_def)
qed (simp_all add: moved_def)

lemma dispatch_turn:
  assumes ok: "threads_ok d" and inv: "sched_inv (sched d)" and stop: "Scheduler_stopping (sched d)"
    and at: "at w Ready (Got ft is_active tickle_me) d"
  shows "\<exists>s'. run_dispatch default_stack addr w ft is_active tickle_me (sched d) = (Inr (), s') \<and>
    threads_ok (moved w Ready s' d) \<and> total_rank (moved w Ready s' d) < total_rank d"
proof -
  let ?F = "fs (sched d)" and ?i = "idle_fiber (workers (sched d) ! w)"
  note W = worker_ok_at [OF ok at]
  define s1 where "s1 = (if tickle_me then Scheduler_tickle (sched d) else sched d)"
  have s1: "workers s1 = workers (sched d)" "fs s1 = ?F" "m_rootThread s1 = m_rootThread (sched d)"
    by (simp_all add: s1_def Scheduler_tickle_def)
  have none: "\<not> is_active" "task_fiber ft = None" "task_cb ft = None"
    using no_work [OF inv stop W(1)] W(1,5) inv by (auto simp: sched_inv_def task_ok_def)
  have state: "state_of s1 = state_of (sched d)"
    by (simp add: fun_eq_iff state_of_def s1(2))
  show ?thesis
  proof (cases "state_of (sched d) ?i = TERM'")
    case True
    have "rank (moved w Ready (goto w Finished s1) d) w < rank d w"
      using True W(1,4,5) s1 by (simp add: rank_def moved_def Let_def)
    then have "threads_ok (moved w Ready (goto w Finished s1) d) \<and> total_rank (moved w Ready (goto w Finished s1) d) < total_rank d"
      using quiet_turn [OF ok W(1,4), of Finished s1] W(5) s1 by (simp add: left_fiber_def)
    moreover have "run_dispatch default_stack addr w ft is_active tickle_me (sched d) = (Inr (), goto w Finished s1)"
      using none True by (simp add: run_dispatch_def Let_def s1_def [symmetric] s1 state)
    ultimately show ?thesis
      by blast
  next
    case False
    obtain m fb where m: "t_scheduler_fiber ?F w = Some m" "running ?F w = Some m" "fibers ?F ?i = Some fb"
        "m_state fb \<noteq> EXEC" "\<not> m_use_caller fb"
      using W(2,4,5) by (auto simp: worker_ok_def Let_def looping_def)
    obtain mb where mb: "fibers ?F m = Some mb" "m_ctx mb = Live" "m_state mb = EXEC"
      using fs_invD(2) [OF W(3) m(2)] by blast
    have mi: "?i \<noteq> m"
      using m mb by auto
    let ?F1 = "switched_in w m mb ?i fb ?F"
    have swap: "Fiber_swapIn w ?i ?F = (Inr (), ?F1)"
      using swapIn_ok [OF m(1,2) mb(1) m(3) mi m(4)] live_is_running [OF W(3) m(3)] m(4) by blast
    let ?s' = "goto w In_Idle (s1\<lparr>m_idleThreadCount := m_idleThreadCount s1 + 1, fs := ?F1\<rparr>)"
    let ?d' = "moved w Ready ?s' d"
    have "run_dispatch default_stack addr w ft is_active tickle_me (sched d) = (Inr (), ?s')"
      using none False swap by (simp add: run_dispatch_def Let_def s1_def [symmetric] s1 state seq_def fiber_op_def)
    moreover have "threads_ok ?d' \<and> total_rank ?d' < total_rank d"
    proof (rule threads_ok_local [OF ok W(1)])
      show "fs_inv (fs (sched ?d'))"
        using switched_in_inv [OF W(3) m(2,3,4)] by (simp add: moved_def)
      show "worker_ok ?d' w"
        using W(1) s1 m mb mi by (simp add: worker_ok_def moved_def idling_def switched_in_def)
      show "f \<in> own d w \<or> fibers ?F f = None" if "f \<in> own ?d' w" for f
        using that W(1,4,5) s1 m(1) by (simp add: own_def moved_def switched_in_def left_fiber_def)
      show "fibers (fs (sched ?d')) f = fibers ?F f" if "f \<notin> own d w" for f
        using that W(4,5) m(1) by (simp add: own_def moved_def switched_in_def)
      show "rank ?d' w < rank d w"
        using False W(1,4,5) s1 by (simp add: rank_def moved_def Let_def)
    qed (simp_all add: moved_def s1 switched_in_def)
    ultimately show ?thesis
      by blast
  qed
qed

lemma leaves_turn:
  assumes ok: "threads_ok d" and at: "at w (Checked b) In_Idle d"
  shows "\<exists>s'. idle_leave b addr w (sched d) = (Inr (), s') \<and> threads_ok (moved w Ready s' d) \<and>
    total_rank (moved w Ready s' d) < total_rank d"
proof -
  let ?F = "fs (sched d)" and ?i = "idle_fiber (workers (sched d) ! w)"
  note W = worker_ok_at [OF ok at]
  obtain m mb fb where m: "t_scheduler_fiber ?F w = Some m" "running ?F w = Some ?i" "m \<noteq> ?i"
      "fibers ?F m = Some mb" "m_ctx mb \<noteq> Live" "m_state mb = EXEC" "fibers ?F ?i = Some fb" "\<not> m_use_caller fb"
    using W(2,4) by (auto simp: worker_ok_def Let_def idling_def)
  have fb: "m_state fb = EXEC"
    using fs_invD(2) [OF W(3) m(2)] m(7) by auto
  define l where "l = (if b then Returned else To_Hold)"
  define F1 where "F1 = ?F\<lparr>t_fiber := (t_fiber ?F)(w \<mapsto> m), running := (running ?F)(w \<mapsto> m),
    fibers := (fibers ?F)(?i \<mapsto> left_behind l fb, m \<mapsto> mb\<lparr>m_ctx := Live\<rparr>)\<rparr>"
  have "t_fiber ?F w = Some ?i"
    using fs_invD(1) [OF W(3)] m(2) by simp
  from leave_ok [OF this m(1,2,4,7) m(3) [symmetric] m(5) fb m(8), of l addr]
  have leave: "(if b then Fiber_MainFunc False w addr else Fiber_YieldToHold w addr) ?F = (Inr (), F1)"
    by (cases b) (simp_all add: l_def F1_def)
  have F1: "fs_inv F1" "t_scheduler_fiber F1 = t_scheduler_fiber ?F" "running F1 = (running ?F)(w \<mapsto> m)"
      "fibers F1 ?i = Some (left_behind l fb)" "f \<noteq> ?i \<Longrightarrow> f \<noteq> m \<Longrightarrow> fibers F1 f = fibers ?F f" for f
    using left_inv [OF W(3) m(2,4,5,6), of l fb] m(3) by (auto simp: F1_def)
  have held: "\<not> b \<Longrightarrow> set_state ?i HOLD F1 = F1"
    using m(3) by (cases fb) (auto simp: set_state_def F1_def l_def fun_eq_iff)
  let ?s' = "goto w At_Loop ((sched d)\<lparr>fs := F1, m_idleThreadCount := size_sub (m_idleThreadCount (sched d)) 1\<rparr>)"
  let ?d' = "moved w Ready ?s' d"
  have order: "x\<lparr>m_idleThreadCount := n, fs := F\<rparr> = x\<lparr>fs := F, m_idleThreadCount := n\<rparr>" for x :: scheduler and n F
    by (cases x) simp
  have "idle_leave b addr w (sched d) = (Inr (), ?s')"
    using leave held F1(4)
    by (cases b) (simp_all add: idle_leave_def seq_def fiber_op_def after_idle_def Let_def state_of_def l_def order [symmetric])
  moreover have "threads_ok ?d' \<and> total_rank ?d' < total_rank d"
  proof (rule threads_ok_local [OF ok W(1)])
    show "fs_inv (fs (sched ?d'))"
      using F1(1) by (simp add: moved_def)
    show "worker_ok ?d' w"
      using W(1) F1 m(1,8) by (cases b) (simp_all add: worker_ok_def moved_def looping_def left_fiber_def l_def)
    show "f \<in> own d w \<or> fibers ?F f = None" if "f \<in> own ?d' w" for f
      using that W(1,4,5) F1(2) by (simp add: own_def moved_def left_fiber_def)
    show "fibers (fs (sched ?d')) f = fibers ?F f" if "f \<notin> own d w" for f
      using that W(4,5) m(1) F1(5) by (simp add: own_def moved_def)
    show "rank ?d' w < rank d w"
      using W(1,4,5) F1(4) by (cases b) (simp_all add: rank_def moved_def Let_def state_of_def l_def)
  qed (simp_all add: moved_def F1)
  ultimately show ?thesis
    by blast
qed

text \<open>A worker deals with the fiber it has left.\<close>

lemma left_turn:
  assumes ok: "threads_ok d" and at: "at w Ready p d" and p: "left_fiber p = Some f"
    and s: "workers s ! w = (workers (sched d) ! w)\<lparr>cb_fiber := c\<rparr>" "\<And>v. v \<noteq> w \<Longrightarrow> workers s ! v = workers (sched d) ! v"
      "length (workers s) = length (workers (sched d))" "m_rootThread s = m_rootThread (sched d)"
    and F: "fs s = fs (sched d) \<or> (\<exists>fb. fibers (fs s) f = Some fb \<and> m_ctx fb \<noteq> Live \<and> fs s = set_fiber f fb (fs (sched d)))"
  shows "threads_ok (moved w Ready (goto w At_Loop s) d) \<and> total_rank (moved w Ready (goto w At_Loop s) d) < total_rank d"
proof -
  let ?F = "fs (sched d)" and ?i = "idle_fiber (workers (sched d) ! w)" and ?d' = "moved w Ready (goto w At_Loop s) d"
  note W = worker_ok_at [OF ok at]
  have park: "looping ?F w ?i" "parked ?F w ?i f"
    using W(2,4,5) p by (auto simp: worker_ok_def Let_def left_fiber_def split: worker_pc.splits)
  then obtain gb where g: "f \<noteq> ?i" "t_scheduler_fiber ?F w \<noteq> Some f" "fibers ?F f = Some gb" "m_ctx gb \<noteq> Live"
    by (auto simp: parked_def)
  have fs: "fs_inv (fs s)" "t_scheduler_fiber (fs s) = t_scheduler_fiber ?F" "running (fs s) = running ?F"
    "x \<noteq> f \<Longrightarrow> fibers (fs s) x = fibers ?F x" for x
    using F fs_inv_put [OF W(3), of f] g(3,4) W(3) by auto
  have pc: "p \<noteq> Finished" "f \<in> own d w"
    using p W(4,5) by (auto simp: own_def Let_def left_fiber_def split: worker_pc.splits)
  show ?thesis
  proof (rule threads_ok_local [OF ok W(1)])
    show "worker_ok ?d' w"
      using park(1) g W(1) s fs by (simp add: worker_ok_def moved_def looping_def left_fiber_def)
    show "x \<in> own d w \<or> fibers ?F x = None" if "x \<in> own ?d' w" for x
      using that W(1,4,5) s fs pc by (auto simp: own_def moved_def left_fiber_def Let_def)
    show "fibers (fs (sched ?d')) x = fibers ?F x" if "x \<notin> own d w" for x
      using that pc(2) fs(4) [of x] by (cases "x = f") (auto simp: moved_def)
    show "rank ?d' w < rank d w"
      using W(1,4,5) s fs(4) g(1) p
      by (auto simp: rank_def moved_def Let_def state_of_def left_fiber_def split: worker_pc.splits)
  qed (use fs s in \<open>simp_all add: moved_def\<close>)
qed

lemma fiber_left_turn:
  assumes ok: "threads_ok d" and unready: "no_ready (fs (sched d))" and at: "at w Ready (Left_Fiber f) d"
  shows "threads_ok (moved w Ready (after_fiber w f (sched d)) d) \<and>
    total_rank (moved w Ready (after_fiber w f (sched d)) d) < total_rank d"
proof -
  let ?x = "workers (sched d) ! w"
  note W = worker_ok_at [OF ok at]
  obtain gb where g: "fibers (fs (sched d)) f = Some gb" "m_ctx gb \<noteq> Live"
    using W(2,4,5) by (auto simp: worker_ok_def Let_def left_fiber_def parked_def)
  have same: "?x = ?x\<lparr>cb_fiber := cb_fiber ?x\<rparr>"
    by simp
  have turn: "threads_ok (moved w Ready (goto w At_Loop s) d) \<and> total_rank (moved w Ready (goto w At_Loop s) d) < total_rank d"
    if "s = sched d \<or> s = (sched d)\<lparr>fs := set_state f HOLD (fs (sched d))\<rparr>" for s
    by (rule left_turn [OF ok at, of f s "cb_fiber ?x"]) (use that g in \<open>auto simp: left_fiber_def set_state_def\<close>)
  show ?thesis
    unfolding after_fiber_def using turn no_ready_state [OF unready, of f] by simp
qed

lemma cb_left_turn:
  assumes ok: "threads_ok d" and unready: "no_ready (fs (sched d))" and at: "at w Ready (Left_Cb f) d"
  shows "\<exists>s'. after_cb w f (sched d) = (Inr (), s') \<and> threads_ok (moved w Ready s' d) \<and> total_rank (moved w Ready s' d) < total_rank d"
proof -
  let ?x = "workers (sched d) ! w" and ?F = "fs (sched d)"
  note W = worker_ok_at [OF ok at]
  obtain gb where g: "fibers ?F f = Some gb" "m_ctx gb \<noteq> Live" "m_stack gb"
    using W(2,4,5) by (auto simp: worker_ok_def Let_def left_fiber_def parked_def)
  show ?thesis
  proof (cases "state_of (sched d) f = EXCEPT \<or> state_of (sched d) f = TERM'")
    case True
    let ?s = "(sched d)\<lparr>fs := set_fiber f (gb\<lparr>fiber_cb := None, m_use_caller := False, m_ctx := Entry False, m_state := INIT\<rparr>) ?F\<rparr>"
    have "m_state gb = EXCEPT \<or> m_state gb = TERM'"
      using True g(1) by (simp add: state_of_def)
    then have "Fiber_reset f None False ?F = (Inr (), fs ?s)"
      using g by (auto simp: Fiber_reset_def method_simps)
    then have "after_cb w f (sched d) = (Inr (), goto w At_Loop ?s)"
      using True by (auto simp: after_cb_def seq_def fiber_op_def)
    moreover have "threads_ok (moved w Ready (goto w At_Loop ?s) d) \<and> total_rank (moved w Ready (goto w At_Loop ?s) d) < total_rank d"
      by (rule left_turn [OF ok at, of f ?s "cb_fiber ?x"]) (auto simp: left_fiber_def)
    ultimately show ?thesis
      by blast
  next
    case False
    let ?s = "drop_cb_fiber w ((sched d)\<lparr>fs := set_state f HOLD ?F\<rparr>)"
    have "after_cb w f (sched d) = (Inr (), goto w At_Loop ?s)"
      using False no_ready_state [OF unready, of f] by (simp add: after_cb_def)
    moreover have "threads_ok (moved w Ready (goto w At_Loop ?s) d) \<and> total_rank (moved w Ready (goto w At_Loop ?s) d) < total_rank d"
      by (rule left_turn [OF ok at, of f ?s None])
        (use g W(1) in \<open>auto simp: left_fiber_def set_state_def drop_cb_fiber_def\<close>)
    ultimately show ?thesis
      by blast
  qed
qed

section \<open>Every step leads on\<close>

definition stopped_ok :: "life \<Rightarrow> bool" where
  "stopped_ok d \<longleftrightarrow> threads_ok d \<and> sched_inv (sched d) \<and> no_ready (fs (sched d)) \<and> Scheduler_stopping (sched d)"

text \<open>Two addresses for the fibers of a thread that begins.\<close>

definition room :: "life \<Rightarrow> bool" where
  "room d \<longleftrightarrow> (\<exists>main idle. main \<noteq> idle \<and> fibers (fs (sched d)) main = None \<and> fibers (fs (sched d)) idle = None)"

lemma stopped_step:
  assumes ok: "stopped_ok d" and step: "worker_step w d d'"
  shows "stopped_ok d' \<and> total_rank d' < total_rank d"
proof -
  have d: "threads_ok d" "sched_inv (sched d)" "no_ready (fs (sched d))" "Scheduler_stopping (sched d)"
    using ok by (simp_all add: stopped_ok_def)
  have "threads_ok d' \<and> total_rank d' < total_rank d"
    using step
  proof cases
    case (begins main idle default_stack cb s')
    then show ?thesis
      using begins_turn [OF d(1) begins(2-5), of default_stack cb] by simp
  next
    case (pick s')
    then show ?thesis
      using pick_turn [OF d(1,4) pick(2)] by simp
  next
    case (dispatch ft is_active tickle_me default_stack addr s')
    then show ?thesis
      using dispatch_turn [OF d(1,2,4) dispatch(2), of default_stack addr] by simp
  next
    case (fiber_left f)
    then show ?thesis
      using fiber_left_turn [OF d(1,3)] by simp
  next
    case (cb_left f s')
    then show ?thesis
      using cb_left_turn [OF d(1,3) cb_left(2)] by simp
  next
    case idle_asks
    then show ?thesis
      using asks_turn [OF d(1,4)] d(4) by simp
  next
    case (idle_leaves b addr s')
    then show ?thesis
      using leaves_turn [OF d(1) idle_leaves(2), of addr] by simp
  qed (use no_work [OF d(2,4), of w] in \<open>auto simp: at_def\<close>)
  moreover have "no_ready (fs (sched d'))"
    by (rule life_step_no_ready [OF life_step.worker [OF step] d(3)])
  ultimately show ?thesis
    using worker_step_inv [OF step d(2)] worker_step_stopping [OF step d(2,3,4)] by (simp add: stopped_ok_def)
qed

lemma stopped_progress:
  assumes ok: "stopped_ok d" and w: "w < length (workers (sched d))" and pc: "pc (workers (sched d) ! w) \<noteq> Finished"
    and begun: "phases d w = Starting \<Longrightarrow> room d"
  shows "\<exists>d'. worker_step w d d'"
proof -
  have d: "threads_ok d" "sched_inv (sched d)" "no_ready (fs (sched d))" "Scheduler_stopping (sched d)"
    using ok by (simp_all add: stopped_ok_def)
  have here: "worker_ok d w"
    using d(1) w by (simp add: threads_ok_def)
  consider (starting) "at w Starting At_Loop d" | (checked) b where "at w (Checked b) In_Idle d"
    | (ready) "phases d w = Ready"
    using here w by (cases "phases d w") (auto simp: worker_ok_def at_def Let_def)
  then show ?thesis
  proof cases
    case starting
    then obtain main idle where "main \<noteq> idle" "fibers (fs (sched d)) main = None" "fibers (fs (sched d)) idle = None"
      using begun by (auto simp: room_def at_def)
    then show ?thesis
      using begins_turn [OF d(1) starting] worker_step.begins [OF starting] by blast
  next
    case (checked b)
    then show ?thesis
      using leaves_turn [OF d(1) checked] worker_step.idle_leaves [OF checked] by blast
  next
    case ready
    note nw = no_work [OF d(2,4) w]
    show ?thesis
    proof (cases "pc (workers (sched d) ! w)")
      case At_Loop
      then have at: "at w Ready At_Loop d"
        using w ready by (simp add: at_def)
      show ?thesis
        using pick_turn [OF d(1,4) at] worker_step.pick [OF at] by blast
    next
      case (Got ft is_active tickle_me)
      then have at: "at w Ready (Got ft is_active tickle_me) d"
        using w ready by (simp add: at_def)
      show ?thesis
        using dispatch_turn [OF d(1,2,4) at] worker_step.dispatch [OF at] by blast
    next
      case (Left_Fiber f)
      then show ?thesis
        using worker_step.fiber_left w ready by (fastforce simp: at_def)
    next
      case (Left_Cb f)
      then have at: "at w Ready (Left_Cb f) d"
        using w ready by (simp add: at_def)
      show ?thesis
        using cb_left_turn [OF d(1,3) at] worker_step.cb_left [OF at] by blast
    next
      case In_Idle
      then show ?thesis
        using worker_step.idle_asks w ready by (fastforce simp: at_def)
    qed (use nw pc in simp_all)
  qed
qed

lemma stopped_run: "worker_run k d d' \<Longrightarrow> stopped_ok d \<Longrightarrow> stopped_ok d' \<and> k + total_rank d' \<le> total_rank d"
proof (induction rule: worker_run.induct)
  case (more k d d' w d'')
  then show ?case
    using stopped_step [OF _ more.hyps(2)] by fastforce
qed simp

lemma worker_run_length: "worker_run k d d' \<Longrightarrow> length (workers (sched d')) = length (workers (sched d))"
  by (induction rule: worker_run.induct) (auto dest: worker_step_frame)

lemma worker_run_before:
  assumes "worker_run k d1 d2" and "worker_step w d d1"
  shows "worker_run (Suc k) d d2"
  using assms
proof (induction rule: worker_run.induct)
  case (none d1)
  then show ?case
    using worker_run.more [OF worker_run.none] by blast
next
  case (more k d1 d' v d'')
  then show ?case
    using worker_run.more by blast
qed

lemma worker_step_begun:
  assumes "worker_step w d d'"
  shows "phases d' w \<noteq> Starting" and "\<forall>v < length (workers (sched d)). phases d v \<noteq> Starting \<Longrightarrow>
    \<forall>v < length (workers (sched d')). phases d' v \<noteq> Starting"
proof -
  show "phases d' w \<noteq> Starting"
    using assms by cases (simp_all add: moved_def)
  then show "\<forall>v < length (workers (sched d')). phases d' v \<noteq> Starting" if "\<forall>v < length (workers (sched d)). phases d v \<noteq> Starting"
    using worker_step_frame [OF assms] that by metis
qed

lemma stopped_joins:
  assumes "stopped_ok d" and "\<forall>w < length (workers (sched d)). phases d w \<noteq> Starting"
  shows "\<exists>k d'. worker_run k d d' \<and> joined (sched d')"
  using assms
proof (induction "total_rank d" arbitrary: d rule: less_induct)
  case less
  show ?case
  proof (cases "joined (sched d)")
    case True
    then show ?thesis
      using worker_run.none by blast
  next
    case False
    then obtain w where w: "w < length (workers (sched d))" "pc (workers (sched d) ! w) \<noteq> Finished"
      by (auto simp: joined_def in_set_conv_nth)
    then obtain d1 where d1: "worker_step w d d1"
      using stopped_progress [OF less.prems(1)] less.prems(2) by blast
    obtain k d' where "worker_run k d1 d'" "joined (sched d')"
      using less.hyps [of d1] stopped_step [OF less.prems(1) d1] worker_step_begun(2) [OF d1 less.prems(2)] by blast
    then show ?thesis
      using worker_run_before d1 by blast
  qed
qed

lemma life_run: "worker_run k d d' \<Longrightarrow> life_reachable yields d \<Longrightarrow> life_reachable yields d'"
  by (induction rule: worker_run.induct) (auto intro: life_reachable.step life_step.worker)

lemma starting_at_loop: "life_reachable yields d \<Longrightarrow> w < length (workers (sched d)) \<Longrightarrow> phases d w = Starting \<Longrightarrow>
  pc (workers (sched d) ! w) = At_Loop"
proof (induction arbitrary: w rule: life_reachable.induct)
  case (made threads use_caller here other root fsys s)
  then show ?case
    by (auto simp: Scheduler_def split: if_splits)
next
  case (step d d')
  from step.hyps(2) show ?case
  proof cases
    case (start addrs s')
    then show ?thesis
      using step.prems by (auto simp: Scheduler_start_def new_worker_def split: if_splits)
  next
    case (schedule_range items)
    have "workers (Scheduler_schedule_range items s) = workers s" for s
      by (simp add: Scheduler_schedule_range_def schedule_loop_tasks Scheduler_tickle_def)
    then show ?thesis
      using step.IH [of w] step.prems schedule_range(1) by simp
  next
    case (stop here r s')
    then show ?thesis
      using step stop_sel [of here "sched d"] by simp
  next
    case (stop_calls s')
    then show ?thesis
      using step stop_call_eq [OF stop_calls(4,3), of "{}"]
      by (auto simp: moved_def nth_append new_worker_def less_Suc_eq split: if_splits)
  next
    case (worker v)
    have "v \<noteq> w"
      using worker_step_begun(1) [OF worker] step.prems(2) by blast
    then show ?thesis
      using worker_step_frame [OF worker] step.IH [of w] step.prems by simp
  qed (use step in simp_all)
qed

section \<open>A concrete life\<close>

text \<open>A scheduler with one thread of its own that is stopped before the thread begins.\<close>

definition no_fibers :: fiber_system where
  "no_fibers = \<lparr>fibers = \<lambda>_. None, t_fiber = \<lambda>_. None, t_threadFiber = \<lambda>_. None, t_scheduler_fiber = \<lambda>_. None,
    running = \<lambda>_. None, s_fiber_id = 0, s_fiber_count = 0\<rparr>"

definition example_stopped :: life where
  "example_stopped = \<lparr>sched = \<lparr>m_fibers = [], m_threadCount = 1, m_activeThreadCount = 0, m_idleThreadCount = 0,
    m_stopping = True, m_autoStop = True, m_rootThread = - 1, m_rootFiber = None, workers = [new_worker 300],
    fs = no_fibers, tickles = 1\<rparr>, phases = \<lambda>_. Starting\<rparr>"

lemma example_stopped_reachable: "life_reachable False example_stopped"
proof -
  let ?s = "(sched example_stopped)\<lparr>m_autoStop := False, tickles := 0, workers := []\<rparr>"
  let ?s1 = "?s\<lparr>m_stopping := False, workers := [new_worker 300]\<rparr>"
  have "life_reachable False \<lparr>sched = ?s, phases = \<lambda>_. Starting\<rparr>"
    by (rule life_reachable.made [of 1 False 9 False 0 no_fibers])
      (simp_all add: Scheduler_def example_stopped_def no_fibers_def no_ready_def)
  then have "life_reachable False \<lparr>sched = ?s1, phases = \<lambda>_. Starting\<rparr>"
    by (rule life_reachable.step) (rule life_step.start [of _ "\<lambda>_. 300"], simp_all add: example_stopped_def Scheduler_start_def)
  then have "life_reachable False (\<lparr>sched = ?s1, phases = \<lambda>_. Starting\<rparr>\<lparr>sched := sched example_stopped\<rparr>)"
    by (rule life_reachable.step)
      (rule life_step.stop [of False _ "Stop_Join False"], simp add: Scheduler_stop_def Let_def example_stopped_def Scheduler_tickle_def)
  then show ?thesis
    by (simp add: example_stopped_def)
qed

lemma example_stopped_ok: "stopped_ok example_stopped" "room example_stopped"
proof -
  have "threads_ok example_stopped"
    by (simp add: threads_ok_def example_stopped_def no_fibers_def fs_inv_def worker_ok_def new_worker_def)
  then show "stopped_ok example_stopped"
    using life_inv [OF example_stopped_reachable]
    by (simp add: stopped_ok_def life_inv_def) (simp add: example_stopped_def Scheduler_stopping_def)
  have "(0::nat) \<noteq> 1"
    by simp
  then show "room example_stopped"
    unfolding room_def by (intro exI [of _ 0] exI [of _ 1]) (simp add: example_stopped_def no_fibers_def)
qed

lemma example_joined: "\<exists>d. life_reachable False d \<and> joined (sched d) \<and> length (workers (sched d)) = 1"
proof -
  have one: "length (workers (sched example_stopped)) = 1"
    by (simp add: example_stopped_def)
  obtain d1 where d1: "worker_step 0 example_stopped d1"
    using stopped_progress [OF example_stopped_ok(1), of 0] example_stopped_ok(2)
    by (auto simp: example_stopped_def new_worker_def)
  then have "\<forall>w < length (workers (sched d1)). phases d1 w \<noteq> Starting"
    using worker_step_frame [OF d1] one worker_step_begun(1) [OF d1] by (simp add: less_Suc_eq)
  then obtain k d' where "worker_run k d1 d'" "joined (sched d')"
    using stopped_joins stopped_step [OF example_stopped_ok(1) d1] by blast
  then show ?thesis
    using life_run [OF worker_run_before [OF _ d1] example_stopped_reachable] worker_run_length worker_run_before [OF _ d1] one
    by metis
qed

section \<open>Properties\<close>





text \<open>
  With \<open>YieldToReady\<close> this fails: \<open>run\<close> takes the counter down before it puts a fiber that has yielded
  into the queue again, and in between \<open>stopping()\<close> answers true to the idle fibers of other threads.
\<close>

lemma stopping_too_early:
  assumes "pc (workers s ! w) = Left_Fiber f" and "state_of s f = READY" and "Scheduler_stopping s"
  shows "m_fibers (after_fiber w f s) = [\<lparr>task_fiber = Some f, task_cb = None, task_thread = - 1\<rparr>] \<and>
    \<not> Scheduler_stopping (after_fiber w f s)"
  using assms by (simp add: after_fiber_def Scheduler_schedule_def scheduleNoLock_def Let_def Scheduler_tickle_def
      Scheduler_stopping_def goto_def)

lemma stopping_too_early_reachable:
  "\<exists>s. sched_reachable s \<and> pc (workers s ! 0) = Left_Fiber 200 \<and> state_of s 200 = READY \<and> Scheduler_stopping s"
proof -
  let ?ft = "\<lparr>task_fiber = Some 200, task_cb = None, task_thread = - 1\<rparr>"
  let ?F = "\<lambda>st. set_fiber 200 \<lparr>m_id = 1, m_stacksize = 1, m_state = st, m_ctx = Saved, m_stack = True, fiber_cb = None,
    m_use_caller = False\<rparr> (no_fibers\<lparr>fibers := [100 \<mapsto> \<lparr>m_id = 0, m_stacksize = 0, m_state = EXEC, m_ctx = Live,
    m_stack = False, fiber_cb = None, m_use_caller = False\<rparr>], running := [0 \<mapsto> 100], t_fiber := [0 \<mapsto> 100],
    t_scheduler_fiber := [0 \<mapsto> 100]\<rparr>)"
  let ?s = "\<lambda>F n p q. example_scheduler\<lparr>fs := F, m_activeThreadCount := n, m_fibers := q, tickles := 1,
    workers := [\<lparr>pc = p, idle_fiber = 300, cb_fiber = None\<rparr>]\<rparr>"
  have to: "sched_reachable s \<Longrightarrow> sched_step s s' \<Longrightarrow> s' = t \<Longrightarrow> sched_reachable t" for s s' t
    using sched_reachable.step by blast
  have "sched_reachable (example_scheduler\<lparr>fs := ?F HOLD\<rparr>)"
    by (rule sched_reachable.step [OF example_sched_reachable sched_step.fiber_code])
  from to [OF this sched_step.schedule, of "Some 200" None "- 1"]
  have "sched_reachable (?s (?F HOLD) 0 At_Loop [?ft])"
    by (simp add: Scheduler_schedule_def scheduleNoLock_def Let_def Scheduler_tickle_def example_scheduler_def)
  from to [OF this sched_step.pick [of 0]]
  have picked: "sched_reachable (?s (?F HOLD) 1 (Got ?ft True False) [])"
    by (simp add: run_pick_def pick_Cons foreign_def executing_def state_of_def goto_def example_scheduler_def)
  obtain F where "Fiber_swapIn 0 200 (?F HOLD) = (Inr (), F)"
    by (simp add: no_fibers_def Fiber_swapIn_def seq_def the_fiber_def SYLAR_ASSERT_def Fiber_SetThis_def set_state_def
        swapcontext_def Let_def)
  then have "run_dispatch 0 0 0 ?ft True False (?s (?F HOLD) 1 (Got ?ft True False) []) = (Inr (), ?s F 1 (In_Fiber 200) [])"
    by (simp add: run_dispatch_def Let_def state_of_def seq_def fiber_op_def) (simp add: goto_def)
  from to [OF picked sched_step.dispatch [OF _ _ this] refl]
  have "sched_reachable (?s F 1 (In_Fiber 200) [])"
    by simp
  from to [OF this sched_step.fiber_code, of "?F READY"]
  have "sched_reachable (?s (?F READY) 1 (In_Fiber 200) [])"
    by (simp add: example_scheduler_def)
  from to [OF this sched_step.back_from_fiber [of 0 _ 200]]
  have "sched_reachable (?s (?F READY) 0 (Left_Fiber 200) [])"
    by (simp add: task_left_def goto_def size_sub_def example_scheduler_def)
  from sched_reachable.step [OF this sched_step.stop, of False] show ?thesis
    by (intro exI conjI, assumption)
      (simp_all add: Scheduler_stop_def Let_def example_scheduler_def Scheduler_tickle_def state_of_def Scheduler_stopping_def)
qed

end
