(* ===== verification/Scheduler_Switch.thy ===== *)
theory Scheduler_Switch
  imports Scheduler Text
begin

text \<open>
  Several schedulers in one program (\<open>sylar/scheduler.{h,cpp}\<close>): the scheduler that each thread works
  for, \<open>switchTo\<close>, by which a fiber moves to another scheduler, and \<open>SchedulerSwitcher\<close>, which does so for
  a scope.
\<close>

section \<open>Schedulers and threads\<close>

text \<open>Schedulers live at addresses; they share the fibers. \<open>t_scheduler\<close> is thread-local.\<close>

record world =
  schedulers :: "nat \<Rightarrow> scheduler option"
  w_fibers :: fiber_system
  t_scheduler :: "nat \<Rightarrow> nat option"

type_synonym 'a world_method = "(world, 'a) action"

definition on_scheduler :: "nat \<Rightarrow> 'a sched_method \<Rightarrow> 'a world_method" where
  "on_scheduler this op w =
    (case schedulers w this of
       None \<Rightarrow> (Inl Null_Deref, w)
     | Some s \<Rightarrow>
         let (r, s1) = op (s\<lparr>fs := w_fibers w\<rparr>)
         in (r, w\<lparr>schedulers := (schedulers w)(this \<mapsto> s1), w_fibers := fs s1\<rparr>))"

definition on_fibers :: "'a fiber_method \<Rightarrow> 'a world_method" where
  "on_fibers op w = (let (r, F) = op (w_fibers w) in (r, w\<lparr>w_fibers := F\<rparr>))"

definition Scheduler_GetThis :: "nat \<Rightarrow> world \<Rightarrow> nat option" where
  "Scheduler_GetThis t w = t_scheduler w t"

definition Scheduler_setThis :: "nat \<Rightarrow> nat \<Rightarrow> world \<Rightarrow> world" where
  "Scheduler_setThis this t w = w\<lparr>t_scheduler := (t_scheduler w)(t \<mapsto> this)\<rparr>"

definition Scheduler_GetMainFiber :: "nat \<Rightarrow> world \<Rightarrow> nat option" where
  "Scheduler_GetMainFiber t w = t_scheduler_fiber (w_fibers w) t"

text \<open>\<open>switchTo\<close>, called on the thread \<open>t\<close>.\<close>

definition Scheduler_switchTo :: "nat \<Rightarrow> int \<Rightarrow> nat \<Rightarrow> nat \<Rightarrow> unit world_method" where
  "Scheduler_switchTo this thread t addr w =
    (if Scheduler_GetThis t w = None then (Inl (Assertion ''Scheduler::GetThis() != nullptr''), w)
     else seq (on_scheduler this (switchTo_schedule (Scheduler_GetThis t w = Some this) t thread addr)) (\<lambda>moves.
       if moves then on_fibers (Fiber_YieldToHold t addr) else ret ()) w)"

text \<open>The constructor answers \<open>m_caller\<close>; the destructor may run on another thread.\<close>

definition SchedulerSwitcher :: "nat option \<Rightarrow> nat \<Rightarrow> nat \<Rightarrow> nat option world_method" where
  "SchedulerSwitcher target t addr w =
    (let m_caller = Scheduler_GetThis t w
     in case target of
          None \<Rightarrow> (Inr m_caller, w)
        | Some this \<Rightarrow> seq (Scheduler_switchTo this (- 1) t addr) (\<lambda>_. ret m_caller) w)"

definition SchedulerSwitcher_destroy :: "nat option \<Rightarrow> nat \<Rightarrow> nat \<Rightarrow> unit world_method" where
  "SchedulerSwitcher_destroy m_caller t addr =
    (case m_caller of None \<Rightarrow> ret () | Some this \<Rightarrow> Scheduler_switchTo this (- 1) t addr)"

fun dump_ids :: "nat \<Rightarrow> int list \<Rightarrow> string" where
  "dump_ids i [] = []"
| "dump_ids i (x # xs) = (if 0 < i then '', '' else []) @ dec_int x @ dump_ids (Suc i) xs"

definition Scheduler_dump :: "string \<Rightarrow> int list \<Rightarrow> scheduler \<Rightarrow> string" where
  "Scheduler_dump m_name m_threadIds s =
    ''[Scheduler name='' @ m_name @ '' size='' @ dec (m_threadCount s) @ '' active_count='' @ dec (m_activeThreadCount s) @
    '' idle_count='' @ dec (m_idleThreadCount s) @ '' stopping='' @ (if m_stopping s then ''1'' else ''0'') @ '' ]'' @
    [CHR 0x0A] @ ''    '' @ dump_ids 0 m_threadIds"

section \<open>Moving a fiber\<close>

definition fiber_task :: "nat \<Rightarrow> int \<Rightarrow> task" where
  "fiber_task f thread = \<lparr>task_fiber = Some f, task_cb = None, task_thread = thread\<rparr>"

text \<open>The thread \<open>t\<close> executes \<open>f\<close>, a fiber it has been switched to from its scheduling fiber \<open>m\<close>.\<close>

definition executes :: "fiber_system \<Rightarrow> nat \<Rightarrow> nat \<Rightarrow> nat \<Rightarrow> bool" where
  "executes F t m f \<longleftrightarrow> fs_inv F \<and> t_scheduler_fiber F t = Some m \<and> running F t = Some f \<and> f \<noteq> m \<and>
    (\<exists>mb. fibers F m = Some mb \<and> m_ctx mb \<noteq> Live \<and> m_state mb = EXEC) \<and>
    (\<exists>fb. fibers F f = Some fb \<and> \<not> m_use_caller fb)"

lemma YieldToHold_executes:
  assumes "executes F t m f"
  shows "\<exists>F' fb. Fiber_YieldToHold t addr F = (Inr (), F') \<and> fs_inv F' \<and> running F' = (running F)(t \<mapsto> m) \<and>
    t_scheduler_fiber F' = t_scheduler_fiber F \<and> fibers F' f = Some fb \<and> m_state fb = HOLD \<and> m_ctx fb = Saved \<and>
    \<not> m_use_caller fb \<and> (\<forall>g. g \<noteq> f \<and> g \<noteq> m \<longrightarrow> fibers F' g = fibers F g)"
proof -
  obtain mb fb where F: "fs_inv F" "t_scheduler_fiber F t = Some m" "running F t = Some f" "f \<noteq> m"
      "fibers F m = Some mb" "m_ctx mb \<noteq> Live" "m_state mb = EXEC" "fibers F f = Some fb" "\<not> m_use_caller fb"
    using assms by (auto simp: executes_def)
  have "t_fiber F t = Some f" "m_state fb = EXEC"
    using fs_invD(1) [OF F(1)] fs_invD(2) [OF F(1,3)] F(3,8) by auto
  from leave_ok [OF this(1) F(2,3,5,8,4,6) this(2) F(9), of To_Hold addr]
  show ?thesis
    using left_inv [OF F(1,3,5,6,7), of To_Hold fb] F(4,9) by auto
qed

lemma resumes:
  assumes "fs_inv F" and "t_scheduler_fiber F u = Some m" and "running F u = Some m"
    and "fibers F f = Some fb" and "m_state fb = HOLD" and "\<not> m_use_caller fb"
  shows "\<exists>F'. Fiber_swapIn u f F = (Inr (), F') \<and> running F' u = Some f"
  using swapIn_leave [OF assms(1-4) _ assms(6), of To_Hold] assms(5) by auto

definition queues :: "world \<Rightarrow> nat \<Rightarrow> task list option" where
  "queues w a = map_option m_fibers (schedulers w a)"

text \<open>After \<open>f\<close> has left the thread \<open>t\<close> to its scheduling fiber \<open>m\<close>, any thread in its scheduling fiber can resume it.\<close>

definition parted :: "world \<Rightarrow> nat \<Rightarrow> nat \<Rightarrow> nat \<Rightarrow> bool" where
  "parted w t m f \<longleftrightarrow> fs_inv (w_fibers w) \<and> running (w_fibers w) t = Some m \<and> t_scheduler_fiber (w_fibers w) t = Some m \<and>
    (\<forall>u n. running (w_fibers w) u = Some n \<and> t_scheduler_fiber (w_fibers w) u = Some n \<longrightarrow>
      (\<exists>F. Fiber_swapIn u f (w_fibers w) = (Inr (), F) \<and> running F u = Some f))"

lemma switchTo_stays:
  assumes "schedulers w this = Some s" and "t_scheduler w t = Some this" and "thread = - 1 \<or> thread = int t"
  shows "\<exists>w'. Scheduler_switchTo this thread t addr w = (Inr (), w') \<and> queues w' = queues w \<and> w_fibers w' = w_fibers w \<and>
    t_scheduler w' = t_scheduler w"
  using assms by (auto simp: Scheduler_switchTo_def Scheduler_GetThis_def on_scheduler_def switchTo_schedule_def seq_def ret_apply
      queues_def fun_eq_iff)

lemma switchTo_leaves:
  assumes ex: "executes (w_fibers w) t m f" and s: "schedulers w this = Some s" and here: "t_scheduler w t = Some here"
    and other: "\<not> (here = this \<and> (thread = - 1 \<or> thread = int t))"
  shows "\<exists>w'. Scheduler_switchTo this thread t addr w = (Inr (), w') \<and> t_scheduler w' = t_scheduler w \<and> parted w' t m f \<and>
    queues w' = (queues w)(this \<mapsto> m_fibers s @ [fiber_task f thread])"
proof -
  obtain F fb where F: "Fiber_YieldToHold t addr (w_fibers w) = (Inr (), F)" "fs_inv F" "running F = (running (w_fibers w))(t \<mapsto> m)"
      "t_scheduler_fiber F = t_scheduler_fiber (w_fibers w)" "fibers F f = Some fb" "m_state fb = HOLD" "\<not> m_use_caller fb"
    using YieldToHold_executes [OF ex] by blast
  let ?s = "Scheduler_schedule (Some f) None thread (s\<lparr>fs := w_fibers w\<rparr>)"
  let ?w = "w\<lparr>schedulers := (schedulers w)(this \<mapsto> ?s), w_fibers := F\<rparr>"
  have "t_fiber (w_fibers w) t = Some f"
    using ex fs_invD(1) by (auto simp: executes_def)
  then have "switchTo_schedule (Some here = Some this) t thread addr (s\<lparr>fs := w_fibers w\<rparr>) = (Inr True, ?s)"
    using other by (simp add: switchTo_schedule_def seq_def fiber_op_def Fiber_GetThis_def)
  then have "Scheduler_switchTo this thread t addr w = (Inr (), ?w)"
    using here s F(1)
    by (simp add: Scheduler_switchTo_def Scheduler_GetThis_def on_scheduler_def on_fibers_def seq_def)
  moreover have "m_fibers ?s = m_fibers s @ [fiber_task f thread]"
    by (simp add: Scheduler_schedule_def scheduleNoLock_def Let_def Scheduler_tickle_def fiber_task_def)
  then have "queues ?w = (queues w)(this \<mapsto> m_fibers s @ [fiber_task f thread])"
    by (simp add: queues_def fun_eq_iff)
  moreover have "parted ?w t m f"
    using F(2-4) resumes [OF F(2) _ _ F(5-7)] ex by (auto simp: parted_def executes_def)
  ultimately show ?thesis
    by (intro exI [of _ ?w]) simp
qed

section \<open>Properties\<close>

text \<open>A scope with a \<open>SchedulerSwitcher\<close> takes its fiber to another scheduler and back. The constructor
  queues the running fiber there, for any thread, leaves every other queue as it is, gives the
  thread back to its scheduling fiber, and any thread that is in its scheduling fiber can resume the
  fiber; and wherever the scope then ends, on a thread of the other scheduler, the destructor does
  the same towards the scheduler the fiber has come from. A target that the thread works for
  already moves nothing, and a thread without a scheduler fails the assertion.\<close>

theorem SchedulerSwitcher_there_and_back:
  assumes "executes (w_fibers w) t m f" and "schedulers w target = Some s"
  shows "(case t_scheduler w t of
      None \<Rightarrow> fst (SchedulerSwitcher (Some target) t addr w) = Inl (Assertion ''Scheduler::GetThis() != nullptr'')
    | Some here \<Rightarrow>
        \<exists>w1. SchedulerSwitcher (Some target) t addr w = (Inr (Some here), w1) \<and>
          (if here = target then queues w1 = queues w \<and> w_fibers w1 = w_fibers w
           else parted w1 t m f \<and> queues w1 = (queues w)(target \<mapsto> m_fibers s @ [fiber_task f (- 1)]) \<and>
             (\<forall>w2 u n s2. executes (w_fibers w2) u n f \<and> t_scheduler w2 u = Some target \<and> schedulers w2 here = Some s2 \<longrightarrow>
               (\<exists>w3. SchedulerSwitcher_destroy (Some here) u addr w2 = (Inr (), w3) \<and> parted w3 u n f \<and>
                 queues w3 = (queues w2)(here \<mapsto> m_fibers s2 @ [fiber_task f (- 1)])))))"
proof (cases "t_scheduler w t")
  case None
  then show ?thesis
    by (simp add: SchedulerSwitcher_def Scheduler_switchTo_def Scheduler_GetThis_def seq_def)
next
  case (Some here)
  show ?thesis
  proof (cases "here = target")
    case True
    then obtain w1 where "Scheduler_switchTo target (- 1) t addr w = (Inr (), w1)" "queues w1 = queues w" "w_fibers w1 = w_fibers w"
      using switchTo_stays [OF assms(2), of t "- 1"] Some by blast
    then show ?thesis
      using Some True by (auto simp: SchedulerSwitcher_def Scheduler_GetThis_def seq_def ret_apply)
  next
    case False
    then obtain w1 where "Scheduler_switchTo target (- 1) t addr w = (Inr (), w1)" "parted w1 t m f"
        "queues w1 = (queues w)(target \<mapsto> m_fibers s @ [fiber_task f (- 1)])"
      using switchTo_leaves [OF assms Some, of "- 1"] by blast
    moreover have "\<exists>w3. SchedulerSwitcher_destroy (Some here) u addr w2 = (Inr (), w3) \<and> parted w3 u n f \<and>
        queues w3 = (queues w2)(here \<mapsto> m_fibers s2 @ [fiber_task f (- 1)])"
      if "executes (w_fibers w2) u n f" "t_scheduler w2 u = Some target" "schedulers w2 here = Some s2" for w2 u n s2
      using switchTo_leaves [OF that(1,3,2), of "- 1"] False by (auto simp: SchedulerSwitcher_destroy_def)
    ultimately show ?thesis
      using Some False by (simp add: SchedulerSwitcher_def Scheduler_GetThis_def seq_def ret_apply)
  qed
qed

definition example_world :: world where
  "example_world = \<lparr>schedulers = [7 \<mapsto> example_scheduler, 8 \<mapsto> example_scheduler], w_fibers = example_fibers,
    t_scheduler = [0 \<mapsto> 7, 1 \<mapsto> 8]\<rparr>"

lemma SchedulerSwitcher_there_and_back_witness:
  "\<exists>w1. SchedulerSwitcher (Some 8) 0 0 example_world = (Inr (Some 7), w1) \<and> queues w1 8 = Some [fiber_task 200 (- 1)] \<and>
    queues w1 7 = Some []"
proof -
  have ex: "executes (w_fibers example_world) 0 100 200"
    using example_fs_inv by (simp add: executes_def example_world_def) (simp add: example_fibers_def main_fiber_def)
  have s: "schedulers example_world 8 = Some example_scheduler"
    by (simp add: example_world_def)
  have here: "t_scheduler example_world 0 = Some 7"
    by (simp add: example_world_def)
  obtain w1 where w1: "SchedulerSwitcher (Some 8) 0 0 example_world = (Inr (Some 7), w1)"
      "queues w1 = (queues example_world)(8 \<mapsto> m_fibers example_scheduler @ [fiber_task 200 (- 1)])"
    using SchedulerSwitcher_there_and_back [OF ex s, of 0, unfolded here] by auto
  have "queues example_world 7 = Some []" "m_fibers example_scheduler = []"
    by (simp_all add: queues_def example_world_def example_scheduler_def)
  then show ?thesis
    using w1 by simp
qed

text \<open>
  When another thread resumes a fiber before the thread it has left gets to \<open>after_fiber\<close>, that marks it
  \<open>HOLD\<close> while it runs; its next yield then fails the assertion.
\<close>

theorem after_fiber_overwrites:
  assumes "fs_inv (fs s)" and "running (fs s) u = Some f"
  shows "state_of (after_fiber w f s) f = HOLD \<and>
    fst (Fiber_YieldToHold u addr (fs (after_fiber w f s))) = Inl (Assertion ''cur->m_state == EXEC'')"
proof -
  obtain fb where fb: "fibers (fs s) f = Some fb" "m_state fb = EXEC"
    using fs_invD(2) [OF assms] by blast
  have "t_fiber (fs s) u = Some f"
    using fs_invD(1) [OF assms(1)] assms(2) by simp
  moreover have "fs (after_fiber w f s) = set_state f HOLD (fs s)"
    using fb by (simp add: after_fiber_def state_of_def goto_def)
  ultimately show ?thesis
    using fb by (simp add: state_of_def set_state_def Fiber_YieldToHold_def yield_mark_def Fiber_GetThis_def seq_def the_fiber_def
        SYLAR_ASSERT_def)
qed

lemma after_fiber_overwrites_witness:
  "fst (Fiber_YieldToHold 0 0 (fs (after_fiber 0 200 (example_scheduler\<lparr>fs := example_fibers\<rparr>)))) =
    Inl (Assertion ''cur->m_state == EXEC'')"
  using after_fiber_overwrites [of "example_scheduler\<lparr>fs := example_fibers\<rparr>" 0 200] example_fs_inv
  by (simp add: example_fibers_def)

end
