(* ===== verification/Fiber_Semaphore.thy ===== *)
theory Fiber_Semaphore
  imports Scheduler
begin

text \<open>
  \<open>FiberSemaphore\<close> of \<open>sylar/mutex.{h,cpp}\<close>: a counting semaphore on which fibers wait without their
  thread. The waiting fibers are in a queue with their schedulers, and a notification hands the
  permit to the oldest by scheduling it.
\<close>

section \<open>State\<close>

text \<open>A waiter is a scheduler and a fiber of one of its threads. The schedulers are named by numbers.\<close>

record fiber_semaphore =
  m_waiters :: "(nat \<times> nat) list"
  m_concurrency :: u64

record sem_world =
  semaphore :: fiber_semaphore
  schedulers :: "nat \<Rightarrow> scheduler"

type_synonym 'a sem_method = "(sem_world, 'a) action"

definition on_scheduler :: "nat \<Rightarrow> 'a sched_method \<Rightarrow> 'a sem_method" where
  "on_scheduler q op w = (let (r, s1) = op (schedulers w q) in (r, w\<lparr>schedulers := (schedulers w)(q := s1)\<rparr>))"

section \<open>Operations\<close>

definition FiberSemaphore :: "u64 \<Rightarrow> fiber_semaphore" where
  "FiberSemaphore initial_concurrency = \<lparr>m_waiters = [], m_concurrency = initial_concurrency\<rparr>"

definition FiberSemaphore_destroy :: "fiber_semaphore \<Rightarrow> fault + unit" where
  "FiberSemaphore_destroy sem = (if m_waiters sem = [] then Inr () else Inl (Assertion ''m_waiters.empty()''))"

text \<open>The scheduler of the calling thread is \<open>here\<close>, and \<open>t\<close> the thread there.\<close>

definition FiberSemaphore_tryWait :: "nat option \<Rightarrow> bool sem_method" where
  "FiberSemaphore_tryWait here =
    seq (SYLAR_ASSERT (here \<noteq> None) ''Scheduler::GetThis()'') (\<lambda>_ w.
    let sem = semaphore w
    in if 0 < m_concurrency sem
       then (Inr True, w\<lparr>semaphore := sem\<lparr>m_concurrency := m_concurrency sem - 1\<rparr>\<rparr>)
       else (Inr False, w))"

text \<open>The locked section of \<open>wait\<close>, which tells whether the fiber has to yield, and all of \<open>wait\<close>.\<close>

definition FiberSemaphore_wait_locked :: "nat option \<Rightarrow> nat \<Rightarrow> nat \<Rightarrow> bool sem_method" where
  "FiberSemaphore_wait_locked here t addr =
    seq (SYLAR_ASSERT (here \<noteq> None) ''Scheduler::GetThis()'') (\<lambda>_ w.
    let sem = semaphore w
    in if 0 < m_concurrency sem
       then (Inr False, w\<lparr>semaphore := sem\<lparr>m_concurrency := m_concurrency sem - 1\<rparr>\<rparr>)
       else seq (on_scheduler (the here) (fiber_op (Fiber_GetThis t addr))) (\<lambda>f w.
         (Inr True, w\<lparr>semaphore := (semaphore w)\<lparr>m_waiters := m_waiters (semaphore w) @ [(the here, f)]\<rparr>\<rparr>)) w)"

definition FiberSemaphore_wait :: "nat option \<Rightarrow> nat \<Rightarrow> nat \<Rightarrow> unit sem_method" where
  "FiberSemaphore_wait here t addr =
    seq (FiberSemaphore_wait_locked here t addr) (\<lambda>must_yield.
    if must_yield then on_scheduler (the here) (fiber_op (Fiber_YieldToHold t addr)) else ret ())"

definition FiberSemaphore_notify :: "sem_world \<Rightarrow> sem_world" where
  "FiberSemaphore_notify w =
    (let sem = semaphore w
     in case m_waiters sem of
          [] \<Rightarrow> w\<lparr>semaphore := sem\<lparr>m_concurrency := m_concurrency sem + 1\<rparr>\<rparr>
        | (q, f) # rest \<Rightarrow>
            w\<lparr>semaphore := sem\<lparr>m_waiters := rest\<rparr>,
              schedulers := (schedulers w)(q := Scheduler_schedule (Some f) None (- 1) (schedulers w q))\<rparr>)"

definition FiberSemaphore_getConcurrency :: "fiber_semaphore \<Rightarrow> u64" where
  "FiberSemaphore_getConcurrency sem = m_concurrency sem"

definition FiberSemaphore_reset :: "fiber_semaphore \<Rightarrow> fiber_semaphore" where
  "FiberSemaphore_reset sem = sem\<lparr>m_concurrency := 0\<rparr>"

section \<open>Runs\<close>

text \<open>
  The locked sections of any threads, one after the other, and what the schedulers do between
  them, with the list of what has happened.
\<close>

datatype sem_event = Passed | Queued "nat \<times> nat" | Refused | Notified

inductive sem_run :: "u64 \<Rightarrow> sem_world \<Rightarrow> sem_event list \<Rightarrow> bool" for initial where
  start: "sem_run initial \<lparr>semaphore = FiberSemaphore initial, schedulers = ss\<rparr> []"
| pass: "sem_run initial w es \<Longrightarrow> FiberSemaphore_wait_locked here t addr w = (Inr False, w') \<Longrightarrow> sem_run initial w' (es @ [Passed])"
| enqueue: "sem_run initial w es \<Longrightarrow> FiberSemaphore_wait_locked here t addr w = (Inr True, w') \<Longrightarrow>
    sem_run initial w' (es @ [Queued (last (m_waiters (semaphore w')))])"
| tryWait: "sem_run initial w es \<Longrightarrow> FiberSemaphore_tryWait here w = (Inr b, w') \<Longrightarrow>
    sem_run initial w' (es @ [if b then Passed else Refused])"
| notify: "sem_run initial w es \<Longrightarrow> sem_run initial (FiberSemaphore_notify w) (es @ [Notified])"
| others: "sem_run initial w es \<Longrightarrow> sem_run initial (w\<lparr>schedulers := ss\<rparr>) es"

text \<open>The number of permits given and not yet asked for; below zero, that many fibers wait.\<close>

fun balance :: "sem_event list \<Rightarrow> int" where
  "balance [] = 0"
| "balance (e # es) = (case e of Passed \<Rightarrow> - 1 | Queued _ \<Rightarrow> - 1 | Refused \<Rightarrow> 0 | Notified \<Rightarrow> 1) + balance es"

definition queued :: "sem_event list \<Rightarrow> (nat \<times> nat) list" where
  "queued es = concat (map (\<lambda>e. case e of Queued x \<Rightarrow> [x] | _ \<Rightarrow> []) es)"

definition notified :: "sem_event list \<Rightarrow> nat" where
  "notified es = length (filter (\<lambda>e. e = Notified) es)"

lemma event_simps [simp]:
  "balance (es @ es') = balance es + balance es'"
  "queued [] = []" "queued (es @ [e]) = queued es @ (case e of Queued x \<Rightarrow> [x] | _ \<Rightarrow> [])"
  "notified [] = 0" "notified (es @ [e]) = notified es + (if e = Notified then 1 else 0)"
  by (induction es) (auto simp: queued_def notified_def)

section \<open>Lemmas\<close>

lemma on_scheduler_keeps: "on_scheduler q op w = (r, w') \<Longrightarrow> semaphore w' = semaphore w"
  by (auto simp: on_scheduler_def Let_def split: prod.splits)

lemma wait_locked_cases:
  assumes "FiberSemaphore_wait_locked here t addr w = (Inr must_yield, w')"
  shows "if 0 < m_concurrency (semaphore w)
    then \<not> must_yield \<and> w' = w\<lparr>semaphore := (semaphore w)\<lparr>m_concurrency := m_concurrency (semaphore w) - 1\<rparr>\<rparr>
    else must_yield \<and> semaphore w' = (semaphore w)\<lparr>m_waiters := m_waiters (semaphore w) @ [last (m_waiters (semaphore w'))]\<rparr>"
  using assms
  by (auto simp: FiberSemaphore_wait_locked_def seq_def SYLAR_ASSERT_def Let_def dest!: on_scheduler_keeps split: prod.splits sum.splits if_splits)

lemma tryWait_cases:
  assumes "FiberSemaphore_tryWait here w = (Inr b, w')"
  shows "b = (0 < m_concurrency (semaphore w)) \<and>
    semaphore w' = (if b then (semaphore w)\<lparr>m_concurrency := m_concurrency (semaphore w) - 1\<rparr> else semaphore w)"
  using assms by (auto simp: FiberSemaphore_tryWait_def seq_def SYLAR_ASSERT_def Let_def split: if_splits)

lemma balance_bound: "balance es \<le> int (notified es)"
  by (induction es) (auto simp: notified_def split: sem_event.split)

text \<open>What the semaphore holds at a balance.\<close>

definition sem_at :: "int \<Rightarrow> (nat \<times> nat) list \<Rightarrow> fiber_semaphore \<Rightarrow> bool" where
  "sem_at v qs sem \<longleftrightarrow> uint (m_concurrency sem) = max v 0 \<and> nat (- v) \<le> length qs \<and>
    m_waiters sem = drop (length qs - nat (- v)) qs"

lemma permit_words:
  fixes c :: u64
  shows "0 < c \<Longrightarrow> uint (c - 1) = uint c - 1" and "uint c + 1 < 2 ^ 64 \<Longrightarrow> uint (c + 1) = uint c + 1"
    and "0 < c \<longleftrightarrow> 0 < uint c"
  using uint_lt2p [of c] by (simp_all add: word_less_def uint_word_ariths mod_pos_pos_trivial)

lemma sem_at_take:
  assumes "sem_at v qs sem" and "0 < m_concurrency sem" and "v' = v - 1"
  shows "sem_at v' qs (sem\<lparr>m_concurrency := m_concurrency sem - 1\<rparr>)"
proof -
  have "0 < v"
    using assms(1,2) unfolding sem_at_def permit_words(3) by linarith
  then show ?thesis
    using assms(1,3) permit_words(1) [OF assms(2)] by (simp add: sem_at_def)
qed

lemma sem_at_enqueue:
  assumes "sem_at v qs sem" and "\<not> 0 < m_concurrency sem" and "v' = v - 1"
  shows "sem_at v' (qs @ [x]) (sem\<lparr>m_waiters := m_waiters sem @ [x]\<rparr>)"
proof -
  have "v \<le> 0"
    using assms(1,2) unfolding sem_at_def permit_words(3) by linarith
  then have "nat (- v') = Suc (nat (- v))"
    using assms(3) by simp
  with \<open>v \<le> 0\<close> show ?thesis
    using assms(1,3) by (simp add: sem_at_def)
qed

lemma sem_at_notify:
  assumes "sem_at v qs (semaphore w)" and "v + 1 < 2 ^ 64" and "v' = v + 1"
  shows "sem_at v' qs (semaphore (FiberSemaphore_notify w))"
proof (cases "m_waiters (semaphore w)")
  case Nil
  then have "0 \<le> v"
    using assms(1) by (auto simp: sem_at_def)
  then show ?thesis
    using assms Nil permit_words(2) [of "m_concurrency (semaphore w)"] by (simp add: sem_at_def FiberSemaphore_notify_def Let_def)
next
  case (Cons x rest)
  then have neg: "v < 0"
    using assms(1) by (cases "v < 0") (auto simp: sem_at_def)
  let ?k = "length qs - nat (- v)"
  have "length qs - nat (- v') = Suc ?k"
    using assms(1,3) neg by (auto simp: sem_at_def)
  moreover have "drop (Suc ?k) qs = rest"
    using assms(1) Cons by (metis sem_at_def drop_Suc list.sel(3) tl_drop)
  moreover have "semaphore (FiberSemaphore_notify w) = (semaphore w)\<lparr>m_waiters := rest\<rparr>"
    using Cons by (cases x) (simp add: FiberSemaphore_notify_def)
  ultimately show ?thesis
    using assms(1,3) neg by (simp add: sem_at_def)
qed

lemma sem_run_at:
  assumes "sem_run initial w es" and "uint initial + int (notified es) < 2 ^ 64"
  shows "sem_at (uint initial + balance es) (queued es) (semaphore w)"
  using assms
proof induction
  case (start ss)
  then show ?case
    by (simp add: sem_at_def FiberSemaphore_def)
next
  case (pass w es here t addr w')
  then have "sem_at (uint initial + balance es) (queued es) (semaphore w)"
    by simp
  from sem_at_take [OF this, where v' = "uint initial + (balance es - 1)"] show ?case
    using wait_locked_cases [OF pass.hyps(2)] by (auto split: if_splits)
next
  case (enqueue w es here t addr w')
  then have "sem_at (uint initial + balance es) (queued es) (semaphore w)"
    by simp
  note at = sem_at_enqueue [OF this, where v' = "uint initial + (balance es - 1)"]
  define x where "x = last (m_waiters (semaphore w'))"
  have "\<not> 0 < m_concurrency (semaphore w)" and "semaphore w' = (semaphore w)\<lparr>m_waiters := m_waiters (semaphore w) @ [x]\<rparr>"
    using wait_locked_cases [OF enqueue.hyps(2)] unfolding x_def by (auto split: if_splits)
  with at [of x] show ?case
    unfolding x_def [symmetric] by simp
next
  case (tryWait w es here b w')
  then have "sem_at (uint initial + balance es) (queued es) (semaphore w)"
    by (simp split: if_splits)
  with sem_at_take [OF this, where v' = "uint initial + (balance es - 1)"] show ?case
    using tryWait_cases [OF tryWait.hyps(2)] by (auto split: if_splits)
next
  case (notify w es)
  then have "sem_at (uint initial + balance es) (queued es) (semaphore w)"
    by simp
  from sem_at_notify [OF this, where v' = "uint initial + (balance es + 1)"] show ?case
    using notify.prems balance_bound [of es] by simp
qed simp

section \<open>Properties\<close>

text \<open>C22: \<open>FiberSemaphore\<close> is a counting semaphore with a fair queue. In every interleaving of \<open>wait\<close>,
  \<open>tryWait\<close> and \<open>notify\<close> by threads of any schedulers, its count is the initial count plus the
  notifications less the waits that have passed or queued, cut off at zero; the fibers waiting are
  as many as that number is below zero, and they are the last of those queued, in their order: no
  fiber waits while a permit is left, and none is passed over. A notification hands its permit to
  the oldest of them, by scheduling it once for any thread of its own scheduler, or else counts
  it.\<close>

theorem FiberSemaphore_fair:
  assumes "sem_run initial w es" and "uint initial + int (notified es) < 2 ^ 64"
  shows "let v = uint initial + balance es; sem = semaphore w; w' = FiberSemaphore_notify w in
    uint (FiberSemaphore_getConcurrency sem) = max v 0 \<and>
    nat (- v) \<le> length (queued es) \<and> m_waiters sem = drop (length (queued es) - nat (- v)) (queued es) \<and>
    (\<forall>q f rest. m_waiters sem = (q, f) # rest \<longrightarrow>
      m_waiters (semaphore w') = rest \<and> m_concurrency (semaphore w') = 0 \<and>
      m_fibers (schedulers w' q) = m_fibers (schedulers w q) @ [\<lparr>task_fiber = Some f, task_cb = None, task_thread = - 1\<rparr>] \<and>
      (\<forall>q'. q' \<noteq> q \<longrightarrow> schedulers w' q' = schedulers w q')) \<and>
    (m_waiters sem = [] \<longrightarrow> schedulers w' = schedulers w)"
proof -
  note at = sem_run_at [OF assms]
  have "m_concurrency (semaphore w) = 0" if "m_waiters (semaphore w) = (q, f) # rest" for q f rest
    using that at by (auto simp: sem_at_def max_def uint_0_iff split: if_splits)
  with at show ?thesis
    unfolding sem_at_def
    by (auto simp: FiberSemaphore_getConcurrency_def FiberSemaphore_notify_def Let_def Scheduler_schedule_def scheduleNoLock_def Scheduler_tickle_def)
qed

lemma GetThis_running: "fs_inv x \<Longrightarrow> running x t = Some f \<Longrightarrow> Fiber_GetThis t addr x = (Inr f, x)"
  by (simp add: Fiber_GetThis_def fs_invD(1))

lemma wait_locked_enqueues:
  assumes "fs_inv (fs (schedulers w q))" and "running (fs (schedulers w q)) t = Some f" and "m_concurrency (semaphore w) = 0"
  shows "FiberSemaphore_wait_locked (Some q) t addr w =
    (Inr True, w\<lparr>semaphore := (semaphore w)\<lparr>m_waiters := m_waiters (semaphore w) @ [(q, f)]\<rparr>\<rparr>)"
  using GetThis_running [OF assms(1,2)] assms(3)
  by (simp add: FiberSemaphore_wait_locked_def method_simps seq_def SYLAR_ASSERT_def on_scheduler_def fiber_op_def Let_def)

lemma FiberSemaphore_fair_witness:
  "\<exists>w. sem_run 0 w [Queued (7, 200)] \<and> m_waiters (semaphore w) = [(7, 200)] \<and>
    m_fibers (schedulers (FiberSemaphore_notify w) 7) = [\<lparr>task_fiber = Some 200, task_cb = None, task_thread = - 1\<rparr>]"
proof -
  let ?w0 = "\<lparr>semaphore = FiberSemaphore 0, schedulers = \<lambda>_. example_scheduler\<rparr>"
  define w where "w = ?w0\<lparr>semaphore := \<lparr>m_waiters = [(7, 200)], m_concurrency = 0\<rparr>\<rparr>"
  have "FiberSemaphore_wait_locked (Some 7) 0 0 ?w0 = (Inr True, w)"
    using example_fs_inv unfolding w_def
    by (subst wait_locked_enqueues [where f = 200]) (simp_all add: example_scheduler_def example_fibers_def FiberSemaphore_def)
  from sem_run.enqueue [OF sem_run.start this] have run: "sem_run 0 w [Queued (7, 200)]"
    by (simp add: w_def)
  have "m_waiters (semaphore w) = [(7, 200)]" "m_fibers (schedulers w 7) = []"
    by (simp_all add: w_def example_scheduler_def)
  with FiberSemaphore_fair [OF run] run show ?thesis
    by (auto simp: Let_def notified_def)
qed

text \<open>A fiber that waits can be resumed before it has stopped. It queues itself in the locked section
  and yields after it; if another thread notifies in between, the fiber is in the task queue of
  its scheduler while it still runs, and once \<open>YieldToHold\<close> has marked it, and before its context is
  saved, a second worker picks it and switches to a stale context.\<close>

theorem FiberSemaphore_wait_race:
  assumes "fs_inv (fs (schedulers w q))" and "running (fs (schedulers w q)) w1 = Some f" and "running (fs (schedulers w q)) w2 = Some g"
    and "t_scheduler_fiber (fs (schedulers w q)) w2 = Some g" and "w1 \<noteq> w2" and "w2 < length (workers (schedulers w q))"
    and "m_fibers (schedulers w q) = []" and "m_concurrency (semaphore w) = 0" and "m_waiters (semaphore w) = []"
  shows "\<exists>w' fs1 s2. FiberSemaphore_wait_locked (Some q) w1 addr w = (Inr True, w') \<and>
    (let s = schedulers (FiberSemaphore_notify w') q
     in yield_mark HOLD w1 addr (fs s) = (Inr f, fs1) \<and> run_pick w2 (s\<lparr>fs := fs1\<rparr>) = (Inr (), s2)) \<and>
    fst (run_dispatch default_stack addr' w2 \<lparr>task_fiber = Some f, task_cb = None, task_thread = - 1\<rparr> True False s2) = Inl Stale_Context"
proof -
  define s where "s = Scheduler_schedule (Some f) None (- 1) (schedulers w q)"
  define w' where "w' = w\<lparr>semaphore := (semaphore w)\<lparr>m_waiters := [(q, f)]\<rparr>\<rparr>"
  have s: "fs s = fs (schedulers w q)" "workers s = workers (schedulers w q)"
      "m_fibers s = [\<lparr>task_fiber = Some f, task_cb = None, task_thread = - 1\<rparr>]"
    using assms(7) by (simp_all add: s_def Scheduler_schedule_def scheduleNoLock_def Scheduler_tickle_def)
  have wait: "FiberSemaphore_wait_locked (Some q) w1 addr w = (Inr True, w')"
    using wait_locked_enqueues [OF assms(1,2,8)] assms(9) by (simp add: w'_def)
  have notify: "schedulers (FiberSemaphore_notify w') q = s"
    by (simp add: w'_def s_def FiberSemaphore_notify_def)
  show ?thesis
    using YieldToHold_race [of s w1 f w2 g "[]" addr default_stack addr'] assms(1-6) wait s unfolding Let_def
    by (intro exI [of _ w']) (auto simp: notify)
qed

lemma FiberSemaphore_wait_race_witness:
  "\<exists>w' s2. FiberSemaphore_wait_locked (Some 7) 0 0
      \<lparr>semaphore = FiberSemaphore 0, schedulers = \<lambda>_. example_scheduler\<lparr>workers := [new_worker 300, new_worker 301]\<rparr>\<rparr> = (Inr True, w') \<and>
    fst (run_dispatch 0 0 1 \<lparr>task_fiber = Some 200, task_cb = None, task_thread = - 1\<rparr> True False s2) = Inl Stale_Context"
proof -
  let ?s = "example_scheduler\<lparr>workers := [new_worker 300, new_worker 301]\<rparr>"
  let ?w = "\<lparr>semaphore = FiberSemaphore 0, schedulers = \<lambda>_. ?s\<rparr>"
  have fs: "fs (schedulers ?w 7) = example_fibers" "workers (schedulers ?w 7) = [new_worker 300, new_worker 301]" "m_fibers (schedulers ?w 7) = []"
    by (simp_all add: example_scheduler_def)
  have "fs_inv (fs (schedulers ?w 7))" "running (fs (schedulers ?w 7)) 0 = Some 200" "running (fs (schedulers ?w 7)) 1 = Some 101"
      "t_scheduler_fiber (fs (schedulers ?w 7)) 1 = Some 101"
    unfolding fs using example_fs_inv by (simp_all add: example_fibers_def)
  from FiberSemaphore_wait_race [OF this, of 0 0 0] show ?thesis
    using fs by (auto simp: FiberSemaphore_def Let_def)
qed

end
