(* ===== verification/Lock.thy ===== *)
theory Lock
  imports Sylar_Prelude "HOL-Library.Multiset"
begin

text \<open>
  \<open>sylar/mutex.{h,cpp}\<close>: the locks, the scoped locks that take and release them, and \<open>Semaphore\<close>. The
  locks of POSIX are arguments, with what POSIX promises of them as the contract \<open>lock_contract\<close>;
  the lock made of a \<open>std::atomic_flag\<close> is modelled whole and meets the same contract.
\<close>

section \<open>Locks\<close>

text \<open>
  A call that takes a lock is a function of the lock's state: \<open>None\<close> is a call that would have to
  wait now. A call that gives it back is undefined (\<open>None\<close>) for a thread that does not hold it.
\<close>

datatype lock_mode = Shared | Exclusive

record 'p pthread_calls =
  pc_init :: 'p
  pc_acquire :: "lock_mode \<Rightarrow> nat \<Rightarrow> 'p \<Rightarrow> 'p option"
  pc_release :: "nat \<Rightarrow> 'p \<Rightarrow> 'p option"

definition Mutex_lock :: "'p pthread_calls \<Rightarrow> nat \<Rightarrow> 'p \<Rightarrow> 'p option" where
  "Mutex_lock c t = pc_acquire c Exclusive t"

definition Mutex_unlock :: "'p pthread_calls \<Rightarrow> nat \<Rightarrow> 'p \<Rightarrow> 'p option" where
  "Mutex_unlock c t = pc_release c t"

definition Spinlock_lock :: "'p pthread_calls \<Rightarrow> nat \<Rightarrow> 'p \<Rightarrow> 'p option" where
  "Spinlock_lock c t = pc_acquire c Exclusive t"

definition Spinlock_unlock :: "'p pthread_calls \<Rightarrow> nat \<Rightarrow> 'p \<Rightarrow> 'p option" where
  "Spinlock_unlock c t = pc_release c t"

definition RWMutex_rdlock :: "'p pthread_calls \<Rightarrow> nat \<Rightarrow> 'p \<Rightarrow> 'p option" where
  "RWMutex_rdlock c t = pc_acquire c Shared t"

definition RWMutex_wrlock :: "'p pthread_calls \<Rightarrow> nat \<Rightarrow> 'p \<Rightarrow> 'p option" where
  "RWMutex_wrlock c t = pc_acquire c Exclusive t"

definition RWMutex_unlock :: "'p pthread_calls \<Rightarrow> nat \<Rightarrow> 'p \<Rightarrow> 'p option" where
  "RWMutex_unlock c t = pc_release c t"

definition NullMutex_lock :: "'p \<Rightarrow> 'p option" where "NullMutex_lock l = Some l"
definition NullMutex_unlock :: "'p \<Rightarrow> 'p option" where "NullMutex_unlock l = Some l"
definition NullRWMutex_rdlock :: "'p \<Rightarrow> 'p option" where "NullRWMutex_rdlock l = Some l"
definition NullRWMutex_wrlock :: "'p \<Rightarrow> 'p option" where "NullRWMutex_wrlock l = Some l"
definition NullRWMutex_unlock :: "'p \<Rightarrow> 'p option" where "NullRWMutex_unlock l = Some l"

subsection \<open>CASLock\<close>

text \<open>
  The state is the atomic flag. \<open>lock\<close> is a loop of \<open>test_and_set\<close>; \<open>env n\<close> is what the other threads
  have done to the flag before its \<open>n\<close>-th turn. The result is the number of failed turns.
\<close>

definition CASLock :: bool where "CASLock = False"

definition test_and_set :: "bool \<Rightarrow> bool \<times> bool" where
  "test_and_set flag = (flag, True)"

partial_function (option) CASLock_lock :: "(nat \<Rightarrow> bool \<Rightarrow> bool) \<Rightarrow> nat \<Rightarrow> bool \<Rightarrow> (nat \<times> bool) option" where
  "CASLock_lock env n flag =
    (let (was_set, flag1) = test_and_set (env n flag)
     in if was_set then CASLock_lock env (Suc n) flag1 else Some (n, flag1))"

definition CASLock_unlock :: "bool \<Rightarrow> bool option" where
  "CASLock_unlock flag = Some False"

text \<open>The turn of the loop that ends it, which is when the lock is taken.\<close>

definition CASLock_turn :: "bool \<Rightarrow> bool option" where
  "CASLock_turn flag = (case test_and_set flag of (was_set, flag1) \<Rightarrow> if was_set then None else Some flag1)"

section \<open>Scoped locks\<close>

text \<open>
  The template is over the calls of the lock; an object is its lock's state and its \<open>m_locked\<close>. The
  read and the write variant differ in the call that takes the lock.
\<close>

definition ScopedLockImpl :: "('l \<Rightarrow> 'l option) \<Rightarrow> 'l \<Rightarrow> ('l \<times> bool) option" where
  "ScopedLockImpl lock l = map_option (\<lambda>l1. (l1, True)) (lock l)"

definition ScopedLockImpl_lock :: "('l \<Rightarrow> 'l option) \<Rightarrow> 'l \<times> bool \<Rightarrow> ('l \<times> bool) option" where
  "ScopedLockImpl_lock lock = (\<lambda>(l, m_locked).
    if \<not> m_locked then map_option (\<lambda>l1. (l1, True)) (lock l) else Some (l, m_locked))"

definition ScopedLockImpl_unlock :: "('l \<Rightarrow> 'l option) \<Rightarrow> 'l \<times> bool \<Rightarrow> ('l \<times> bool) option" where
  "ScopedLockImpl_unlock unlock = (\<lambda>(l, m_locked).
    if m_locked then map_option (\<lambda>l1. (l1, False)) (unlock l) else Some (l, m_locked))"

definition ScopedLockImpl_destroy :: "('l \<Rightarrow> 'l option) \<Rightarrow> 'l \<times> bool \<Rightarrow> 'l option" where
  "ScopedLockImpl_destroy unlock obj = map_option fst (ScopedLockImpl_unlock unlock obj)"

record 'l rw_calls =
  rdlock :: "'l \<Rightarrow> 'l option"
  wrlock :: "'l \<Rightarrow> 'l option"
  rw_unlock :: "'l \<Rightarrow> 'l option"

definition ReadScopedLockImpl :: "'l rw_calls \<Rightarrow> 'l \<Rightarrow> ('l \<times> bool) option" where
  "ReadScopedLockImpl T = ScopedLockImpl (rdlock T)"

definition ReadScopedLockImpl_lock :: "'l rw_calls \<Rightarrow> 'l \<times> bool \<Rightarrow> ('l \<times> bool) option" where
  "ReadScopedLockImpl_lock T = ScopedLockImpl_lock (rdlock T)"

definition ReadScopedLockImpl_unlock :: "'l rw_calls \<Rightarrow> 'l \<times> bool \<Rightarrow> ('l \<times> bool) option" where
  "ReadScopedLockImpl_unlock T = ScopedLockImpl_unlock (rw_unlock T)"

definition WriteScopedLockImpl :: "'l rw_calls \<Rightarrow> 'l \<Rightarrow> ('l \<times> bool) option" where
  "WriteScopedLockImpl T = ScopedLockImpl (wrlock T)"

definition WriteScopedLockImpl_lock :: "'l rw_calls \<Rightarrow> 'l \<times> bool \<Rightarrow> ('l \<times> bool) option" where
  "WriteScopedLockImpl_lock T = ScopedLockImpl_lock (wrlock T)"

definition WriteScopedLockImpl_unlock :: "'l rw_calls \<Rightarrow> 'l \<times> bool \<Rightarrow> ('l \<times> bool) option" where
  "WriteScopedLockImpl_unlock T = ScopedLockImpl_unlock (rw_unlock T)"

section \<open>Threads with scoped locks\<close>

text \<open>
  Any number of threads make, lock, unlock and destroy scoped locks of one lock, each its own, in any
  order. The state is the lock and the objects, each with its thread, its kind and its \<open>m_locked\<close>. A
  thread that holds the lock for writing does not lock it again, which POSIX leaves open.
\<close>

definition scoped_new :: "'l rw_calls \<Rightarrow> lock_mode \<Rightarrow> 'l \<Rightarrow> ('l \<times> bool) option" where
  "scoped_new T md = (case md of Shared \<Rightarrow> ReadScopedLockImpl T | Exclusive \<Rightarrow> WriteScopedLockImpl T)"

definition scoped_lock :: "'l rw_calls \<Rightarrow> lock_mode \<Rightarrow> 'l \<times> bool \<Rightarrow> ('l \<times> bool) option" where
  "scoped_lock T md = (case md of Shared \<Rightarrow> ReadScopedLockImpl_lock T | Exclusive \<Rightarrow> WriteScopedLockImpl_lock T)"

definition scoped_unlock :: "'l rw_calls \<Rightarrow> lock_mode \<Rightarrow> 'l \<times> bool \<Rightarrow> ('l \<times> bool) option" where
  "scoped_unlock T md = (case md of Shared \<Rightarrow> ReadScopedLockImpl_unlock T | Exclusive \<Rightarrow> WriteScopedLockImpl_unlock T)"

type_synonym 'l scoped_state = "'l \<times> (nat \<times> lock_mode \<times> bool) list"

inductive scoped_step :: "(nat \<Rightarrow> 'l rw_calls) \<Rightarrow> 'l scoped_state \<Rightarrow> 'l scoped_state \<Rightarrow> bool" for T where
  construct: "(t, Exclusive, True) \<notin> set os \<Longrightarrow> scoped_new (T t) md l = Some (l', b) \<Longrightarrow>
    scoped_step T (l, os) (l', os @ [(t, md, b)])"
| relock: "(t, Exclusive, True) \<notin> set (os @ os') \<or> b \<Longrightarrow> scoped_lock (T t) md (l, b) = Some (l', b') \<Longrightarrow>
    scoped_step T (l, os @ (t, md, b) # os') (l', os @ (t, md, b') # os')"
| unlock: "scoped_unlock (T t) md (l, b) = Some (l', b') \<Longrightarrow>
    scoped_step T (l, os @ (t, md, b) # os') (l', os @ (t, md, b') # os')"
| destroy: "scoped_unlock (T t) md (l, b) = Some (l', b') \<Longrightarrow> scoped_step T (l, os @ (t, md, b) # os') (l', os @ os')"

text \<open>Who has locked objects, and how.\<close>

definition locked :: "(nat \<times> lock_mode \<times> bool) list \<Rightarrow> (nat \<times> lock_mode) multiset" where
  "locked os = mset (concat (map (\<lambda>(t, md, b). if b then [(t, md)] else []) os))"

lemma locked_simps [simp]:
  "locked [] = {#}" "locked (os @ os') = locked os + locked os'"
  "locked ((t, md, b) # os) = (if b then add_mset (t, md) (locked os) else locked os)"
  by (simp_all add: locked_def)

lemma in_locked: "(t, md) \<in># locked os \<longleftrightarrow> (t, md, True) \<in> set os"
  by (induction os) (auto simp: locked_def split: if_splits)

text \<open>At most one holds a lock, or all hold it for reading.\<close>

definition compatible :: "(nat \<times> lock_mode) multiset \<Rightarrow> bool" where
  "compatible H \<longleftrightarrow> size H \<le> 1 \<or> (\<forall>x \<in># H. snd x = Shared)"

text \<open>The calls that the template uses, for a lock that tells its callers apart.\<close>

definition thread_calls :: "(lock_mode \<Rightarrow> nat \<Rightarrow> 'l \<Rightarrow> 'l option) \<Rightarrow> (nat \<Rightarrow> 'l \<Rightarrow> 'l option) \<Rightarrow> nat \<Rightarrow> 'l rw_calls" where
  "thread_calls acquire release t = \<lparr>rdlock = acquire Shared t, wrlock = acquire Exclusive t, rw_unlock = release t\<rparr>"

section \<open>What a lock promises\<close>

text \<open>
  \<open>holds l H\<close>: in state \<open>l\<close> the lock is held by the threads of \<open>H\<close> in their modes. It starts free; a
  thread takes it only if that is compatible with the others, and waits only if it is held; a
  thread that holds it can give it back.
\<close>

locale lock_contract =
  fixes init :: 'l
    and acquire :: "lock_mode \<Rightarrow> nat \<Rightarrow> 'l \<Rightarrow> 'l option"
    and release :: "nat \<Rightarrow> 'l \<Rightarrow> 'l option"
    and holds :: "'l \<Rightarrow> (nat \<times> lock_mode) multiset \<Rightarrow> bool"
  assumes starts_free: "holds init {#}"
    and acquires: "holds l H \<Longrightarrow> (t, Exclusive) \<notin># H \<Longrightarrow> acquire md t l = Some l' \<Longrightarrow>
      holds l' (add_mset (t, md) H) \<and> (H \<noteq> {#} \<longrightarrow> md = Shared \<and> (\<forall>x \<in># H. snd x = Shared))"
    and releases: "holds l H \<Longrightarrow> (t, md) \<in># H \<Longrightarrow> \<exists>l'. release t l = Some l' \<and> holds l' (H - {#(t, md)#})"
    and free_acquires: "holds l {#} \<Longrightarrow> acquire md t l \<noteq> None"
begin

text \<open>Who holds the lock is who has locked objects.\<close>

definition balanced :: "'l scoped_state \<Rightarrow> bool" where
  "balanced s \<longleftrightarrow> holds (fst s) (locked (snd s)) \<and> compatible (locked (snd s))"

lemma acquire_balanced:
  assumes "holds l H" and "(t, Exclusive) \<notin># H" and "acquire md t l = Some l'" and "compatible H"
  shows "holds l' (add_mset (t, md) H) \<and> compatible (add_mset (t, md) H)"
  using acquires [OF assms(1-3)] by (cases "H = {#}") (auto simp: compatible_def)

lemma release_balanced:
  assumes "holds l (add_mset (t, md) H)" and "compatible (add_mset (t, md) H)" and "release t l = Some l'"
  shows "holds l' H \<and> compatible H"
  using releases [OF assms(1), of t md] assms(2,3) by (auto simp: compatible_def)

lemma new_eq: "scoped_new (thread_calls acquire release t) md l = Some (l', b) \<longleftrightarrow> b \<and> acquire md t l = Some l'"
  by (cases md) (auto simp: scoped_new_def ReadScopedLockImpl_def WriteScopedLockImpl_def ScopedLockImpl_def thread_calls_def)

lemma lock_eq:
  "scoped_lock (thread_calls acquire release t) md (l, b) = Some (l', b') \<longleftrightarrow> b' \<and> (if b then l' = l else acquire md t l = Some l')"
  by (cases md) (auto simp: scoped_lock_def ReadScopedLockImpl_lock_def WriteScopedLockImpl_lock_def ScopedLockImpl_lock_def thread_calls_def)

lemma unlock_eq:
  "scoped_unlock (thread_calls acquire release t) md (l, b) = Some (l', b') \<longleftrightarrow> \<not> b' \<and> (if b then release t l = Some l' else l' = l)"
  by (cases md) (auto simp: scoped_unlock_def ReadScopedLockImpl_unlock_def WriteScopedLockImpl_unlock_def ScopedLockImpl_unlock_def thread_calls_def)

lemma step_balanced:
  assumes "scoped_step (thread_calls acquire release) s s'" and "balanced s"
  shows "balanced s'"
  using assms
proof cases
  case (construct t os md l l' b)
  then show ?thesis
    using assms(2) acquire_balanced [of l "locked os" t md l'] by (simp add: balanced_def new_eq in_locked)
next
  case (relock t os os' b md l l' b')
  then show ?thesis
    using assms(2) acquire_balanced [of l "locked os + locked os'" t md l']
    by (auto simp: balanced_def lock_eq in_locked split: if_splits)
next
  case (unlock t md l b l' b' os os')
  then show ?thesis
    using assms(2) release_balanced [of l t md "locked os + locked os'" l'] by (auto simp: balanced_def unlock_eq split: if_splits)
next
  case (destroy t md l b l' b' os os')
  then show ?thesis
    using assms(2) release_balanced [of l t md "locked os + locked os'" l'] by (auto simp: balanced_def unlock_eq split: if_splits)
qed

text \<open>
  In every run locked objects exclude each other unless all read; every unlock is a valid one; and
  a free lock makes no thread wait.
\<close>

lemma init_balanced: "balanced (init, [])"
  by (simp add: balanced_def starts_free compatible_def)

theorem run_exclusive:
  assumes "(scoped_step (thread_calls acquire release))\<^sup>*\<^sup>* (init, []) (l, os)"
  shows "holds l (locked os)" and "compatible (locked os)"
    and "(t, md, b) \<in> set os \<Longrightarrow> \<exists>l'. scoped_unlock (thread_calls acquire release t) md (l, b) = Some (l', False)"
    and "locked os = {#} \<Longrightarrow> \<exists>l'. scoped_new (thread_calls acquire release t) md l = Some (l', True)"
proof -
  have bal: "balanced (l, os)"
    using assms by (induction rule: rtranclp_induct) (auto simp: init_balanced intro: step_balanced)
  then show "holds l (locked os)" and "compatible (locked os)"
    by (simp_all add: balanced_def)
  show "\<exists>l'. scoped_unlock (thread_calls acquire release t) md (l, b) = Some (l', False)" if "(t, md, b) \<in> set os"
    using bal releases [of l "locked os" t md] that by (cases b) (auto simp: balanced_def unlock_eq in_locked)
  show "\<exists>l'. scoped_new (thread_calls acquire release t) md l = Some (l', True)" if "locked os = {#}"
    using bal free_acquires [of l md t] that by (auto simp: balanced_def new_eq)
qed

end

section \<open>CASLock meets the contract\<close>

interpretation cas: lock_contract CASLock "\<lambda>_ _. CASLock_turn" "\<lambda>_. CASLock_unlock" "\<lambda>flag H. size H = (if flag then 1 else 0)"
proof
  show "size H = (if l then 1 else 0) \<Longrightarrow> (t, md) \<in># H \<Longrightarrow>
      \<exists>l'. CASLock_unlock l = Some l' \<and> size (H - {#(t, md)#}) = (if l' then 1 else 0)" for l H t md
    by (cases l) (auto simp: CASLock_unlock_def size_Diff_singleton)
qed (auto simp: CASLock_def CASLock_turn_def test_and_set_def split: if_splits)

text \<open>The loop of \<open>lock\<close>, unrolled as long as the flag is set.\<close>

lemma CASLock_lock_loops:
  "(\<And>i. i < k \<Longrightarrow> env (n + i) (if i = 0 then flag else True)) \<Longrightarrow>
    CASLock_lock env n flag = CASLock_lock env (n + k) (if k = 0 then flag else True)"
proof (induction k)
  case (Suc k)
  then have "CASLock_lock env n flag = CASLock_lock env (n + k) (if k = 0 then flag else True)"
    by (meson less_Suc_eq)
  moreover have "env (n + k) (if k = 0 then flag else True)"
    using Suc.prems by blast
  ultimately show ?case
    by (subst (asm) (2) CASLock_lock.simps) (simp add: test_and_set_def)
qed simp

lemma CASLock_lock_result:
  assumes "CASLock_lock env n flag = Some y"
  shows "n \<le> fst y \<and> snd y \<and> \<not> env (fst y) (if fst y = n then flag else True)"
proof (rule CASLock_lock.raw_induct [OF _ assms, where P = "\<lambda>env n flag y. n \<le> fst y \<and> snd y \<and> \<not> env (fst y) (if fst y = n then flag else True)"])
  fix loop :: "(nat \<Rightarrow> bool \<Rightarrow> bool) \<Rightarrow> nat \<Rightarrow> bool \<Rightarrow> (nat \<times> bool) option" and env n flag y
  assume loop: "\<And>env n flag y. loop env n flag = Some y \<Longrightarrow> n \<le> fst y \<and> snd y \<and> \<not> env (fst y) (if fst y = n then flag else True)"
    and body: "(let (was_set, flag1) = test_and_set (env n flag) in if was_set then loop env (Suc n) flag1 else Some (n, flag1)) = Some y"
  show "n \<le> fst y \<and> snd y \<and> \<not> env (fst y) (if fst y = n then flag else True)"
  proof (cases "env n flag")
    case True
    with body have "loop env (Suc n) True = Some y"
      by (simp add: test_and_set_def)
    from loop [OF this] show ?thesis
      by (auto split: if_splits)
  next
    case False
    with body show ?thesis
      by (auto simp: test_and_set_def)
  qed
qed

section \<open>Semaphore\<close>

text \<open>
  The calls of POSIX are arguments: what they return, and the state after them; \<open>None\<close> is a call
  that would have to wait now.
\<close>

record 'q sem_calls =
  sem_init :: "u32 \<Rightarrow> int \<times> 'q"
  sem_wait :: "'q \<Rightarrow> (int \<times> 'q) option"
  sem_post :: "'q \<Rightarrow> int \<times> 'q"

definition Semaphore :: "'q sem_calls \<Rightarrow> u32 \<Rightarrow> fault + 'q" where
  "Semaphore c initial =
    (case sem_init c initial of (rt, q) \<Rightarrow> if rt \<noteq> 0 then Inl (Exn (Logic_Error ''sem_init error'')) else Inr q)"

definition Semaphore_wait :: "'q sem_calls \<Rightarrow> 'q \<Rightarrow> ((fault + unit) \<times> 'q) option" where
  "Semaphore_wait c q =
    map_option (\<lambda>(rt, q1). (if rt \<noteq> 0 then Inl (Exn (Logic_Error ''sem_wait error'')) else Inr (), q1)) (sem_wait c q)"

definition Semaphore_notify :: "'q sem_calls \<Rightarrow> ('q, unit) action" where
  "Semaphore_notify c q =
    (case sem_post c q of (rt, q1) \<Rightarrow> (if rt \<noteq> 0 then Inl (Exn (Logic_Error ''sem_post error'')) else Inr (), q1))"

section \<open>Properties\<close>

definition RWMutex_calls :: "'p pthread_calls \<Rightarrow> nat \<Rightarrow> 'p rw_calls" where
  "RWMutex_calls c t = \<lparr>rdlock = RWMutex_rdlock c t, wrlock = RWMutex_wrlock c t, rw_unlock = RWMutex_unlock c t\<rparr>"

definition CASLock_calls :: "nat \<Rightarrow> bool rw_calls" where
  "CASLock_calls t = \<lparr>rdlock = CASLock_turn, wrlock = CASLock_turn, rw_unlock = CASLock_unlock\<rparr>"

lemma calls_eq:
  "RWMutex_calls c = thread_calls (pc_acquire c) (pc_release c)"
  "CASLock_calls = thread_calls (\<lambda>_ _. CASLock_turn) (\<lambda>_. CASLock_unlock)"
  by (simp_all add: fun_eq_iff RWMutex_calls_def CASLock_calls_def thread_calls_def RWMutex_rdlock_def RWMutex_wrlock_def RWMutex_unlock_def)

text \<open>C23: threads that use a lock only through scoped locks of their own exclude each other, in every
  interleaving of making, locking, unlocking and destroying them: for an \<open>RWMutex\<close> over any
  \<open>pthread_rwlock_t\<close> that keeps its contract, two locked objects are both read locks; every unlock
  and every destructor releases a lock that the thread holds, however often it was unlocked before;
  and once no object is locked, no thread waits. The same holds of \<open>CASLock\<close> outright, of which only one
  object is locked at a time.\<close>

theorem ScopedLockImpl_exclusion:
  assumes "lock_contract (pc_init c) (pc_acquire c) (pc_release c) holds"
    and "(scoped_step (RWMutex_calls c))\<^sup>*\<^sup>* (pc_init c, []) (l, os)"
    and "(scoped_step CASLock_calls)\<^sup>*\<^sup>* (CASLock, []) (flag, cs)"
  shows "(size (locked os) > 1 \<longrightarrow> (\<forall>(t, md) \<in># locked os. md = Shared)) \<and>
    (\<forall>(t, md, b) \<in> set os. \<exists>l'. scoped_unlock (RWMutex_calls c t) md (l, b) = Some (l', False)) \<and>
    (locked os = {#} \<longrightarrow> (\<forall>t md. \<exists>l'. scoped_new (RWMutex_calls c t) md l = Some (l', True))) \<and>
    size (locked cs) = (if flag then 1 else 0)"
proof -
  note rw = lock_contract.run_exclusive [OF assms(1) assms(2) [unfolded calls_eq]]
  have "size (locked cs) = (if flag then 1 else 0)"
    using cas.run_exclusive(1) [OF assms(3) [unfolded calls_eq]] .
  then show ?thesis
    using rw(2,3,4) unfolding calls_eq compatible_def by fastforce
qed

text \<open>A lock of POSIX to compute with: the list of those that hold it.\<close>

definition example_pthread :: "(nat \<times> lock_mode) list pthread_calls" where
  "example_pthread = \<lparr>pc_init = [],
    pc_acquire = (\<lambda>md t l. if l = [] \<or> md = Shared \<and> list_all (\<lambda>x. snd x = Shared) l then Some ((t, md) # l) else None),
    pc_release = (\<lambda>t l. if List.find (\<lambda>x. fst x = t) l = None then None else Some (remove1 (the (List.find (\<lambda>x. fst x = t) l)) l))\<rparr>"

lemma example_pthread_contract:
  "lock_contract (pc_init example_pthread) (pc_acquire example_pthread) (pc_release example_pthread)
    (\<lambda>l H. mset l = H \<and> compatible H)"
proof
  fix l H t md assume h: "mset l = H \<and> compatible H" and "(t, md) \<in># H"
  then have "(t, md) \<in> set l"
    by auto
  then obtain x where found: "List.find (\<lambda>y. fst y = t) l = Some x"
    by (cases "List.find (\<lambda>y. fst y = t) l") (auto simp: find_None_iff)
  then have x: "x \<in> set l" "fst x = t"
    by (auto simp: find_Some_iff)
  have "x = (t, md)"
  proof (cases "size H \<le> 1")
    case True
    then show ?thesis
      using h x(1) \<open>(t, md) \<in># H\<close> by (cases l) auto
  next
    case False
    then have "snd x = Shared" "md = Shared"
      using h x(1) \<open>(t, md) \<in># H\<close> by (force simp: compatible_def)+
    then show ?thesis
      using x(2) by (cases x) simp
  qed
  moreover have "size (H - {#(t, md)#}) \<le> size H"
    by (simp add: size_mset_mono)
  moreover have "\<forall>y \<in># H - {#(t, md)#}. y \<in># H"
    by (meson in_diffD)
  ultimately show "\<exists>l'. pc_release example_pthread t l = Some l' \<and> mset l' = H - {#(t, md)#} \<and> compatible (H - {#(t, md)#})"
    using h found unfolding compatible_def example_pthread_def by auto
qed (auto simp: example_pthread_def compatible_def list_all_iff split: if_splits)

lemma ScopedLockImpl_exclusion_witness:
  "\<exists>l. (scoped_step (RWMutex_calls example_pthread))\<^sup>*\<^sup>* (pc_init example_pthread, []) (l, [(1, Shared, True), (2, Shared, True)]) \<and>
    (\<exists>l'. scoped_unlock (RWMutex_calls example_pthread 2) Shared (l, True) = Some (l', False))"
proof -
  let ?T = "RWMutex_calls example_pthread" and ?l = "[(2, Shared), (1, Shared)]"
  have "scoped_step ?T ([], []) ([(1, Shared)], [] @ [(1, Shared, True)])"
    by (rule scoped_step.construct) (simp_all add: scoped_new_def ReadScopedLockImpl_def ScopedLockImpl_def RWMutex_calls_def RWMutex_rdlock_def example_pthread_def)
  moreover have "scoped_step ?T ([(1, Shared)], [(1, Shared, True)]) (?l, [(1, Shared, True)] @ [(2, Shared, True)])"
    by (rule scoped_step.construct) (simp_all add: scoped_new_def ReadScopedLockImpl_def ScopedLockImpl_def RWMutex_calls_def RWMutex_rdlock_def example_pthread_def)
  ultimately have run: "(scoped_step ?T)\<^sup>*\<^sup>* ([], []) (?l, [(1, Shared, True), (2, Shared, True)])"
    by (simp add: converse_rtranclp_into_rtranclp)
  have init: "pc_init example_pthread = []"
    by (simp add: example_pthread_def)
  have "\<exists>l'. scoped_unlock (?T 2) Shared (?l, True) = Some (l', False)"
    using ScopedLockImpl_exclusion [OF example_pthread_contract, unfolded init, OF run rtranclp.rtrancl_refl] by auto
  with run show ?thesis
    unfolding init by blast
qed

text \<open>C24: the loop of \<open>CASLock::lock\<close> ends exactly if the flag is clear at one of its turns, whatever the
  other threads do to the flag between them: it then ends at the first such turn, with the flag
  set, and it spins for ever if they leave the flag set before every turn.\<close>

theorem CASLock_lock_terminates:
  "CASLock_lock env 0 flag =
    (if \<exists>n. \<not> env n (if n = 0 then flag else True) then Some (LEAST n. \<not> env n (if n = 0 then flag else True), True) else None)"
proof (cases "\<exists>n. \<not> env n (if n = 0 then flag else True)")
  case True
  define n where "n = (LEAST n. \<not> env n (if n = 0 then flag else True))"
  have "\<not> env n (if n = 0 then flag else True)"
    unfolding n_def using True by (rule LeastI_ex)
  moreover have "env i (if i = 0 then flag else True)" if "i < n" for i
    using not_less_Least that unfolding n_def by blast
  ultimately have "CASLock_lock env 0 flag = Some (n, True)"
    using CASLock_lock_loops [of n env 0 flag] CASLock_lock.simps [of env n "if n = 0 then flag else True"]
    by (simp add: test_and_set_def)
  with True show ?thesis
    by (simp add: n_def)
next
  case False
  then have "CASLock_lock env 0 flag = None"
    using CASLock_lock_result [of env 0 flag] by (cases "CASLock_lock env 0 flag") auto
  with False show ?thesis
    by simp
qed

end
