(* ===== verification/Thread.thy ===== *)
theory Thread
  imports Lock Text "HOL-Library.Signed_Division"
begin

text \<open>
  \<open>sylar/thread.{h,cpp}\<close> and the clocks and backtraces of \<open>sylar/util.{h,cpp}\<close>. The threads of the
  system are named by numbers, the \<open>Thread\<close> objects by their addresses; the results of the system's
  calls are arguments.
\<close>

section \<open>State\<close>

record 'q thread_object =
  m_id :: int
  m_thread :: nat
  m_cb :: "nat option"
  m_name :: string
  m_semaphore :: 'q

text \<open>The objects, the two variables of each thread, and the name that the system shows for it.\<close>

record 'q threads =
  objects :: "nat \<Rightarrow> 'q thread_object option"
  t_thread :: "nat \<Rightarrow> nat option"
  t_thread_name :: "nat \<Rightarrow> string"
  shown_name :: "nat \<Rightarrow> string"

type_synonym ('q, 'a) thread_method = "('q threads, 'a) action"

text \<open>An access through a pointer to an object, which may be gone.\<close>

definition on_object :: "nat \<Rightarrow> ('q thread_object \<Rightarrow> (fault + 'a) \<times> 'q thread_object) \<Rightarrow> ('q, 'a) thread_method" where
  "on_object p op w =
    (case objects w p of
       None \<Rightarrow> (Inl Null_Deref, w)
     | Some x \<Rightarrow> (case op x of (r, x1) \<Rightarrow> (r, w\<lparr>objects := (objects w)(p \<mapsto> x1)\<rparr>)))"

definition UNKNOW :: string where "UNKNOW = ''UNKNOW''"

section \<open>Operations\<close>

definition Thread_GetThis :: "nat \<Rightarrow> 'q threads \<Rightarrow> nat option" where
  "Thread_GetThis t w = t_thread w t"

definition Thread_GetName :: "nat \<Rightarrow> 'q threads \<Rightarrow> string" where
  "Thread_GetName t w = t_thread_name w t"

definition Thread_SetName :: "nat \<Rightarrow> string \<Rightarrow> ('q, unit) thread_method" where
  "Thread_SetName t name =
    (if name = '''' then ret ()
     else (\<lambda>w. seq (case t_thread w t of None \<Rightarrow> ret () | Some p \<Rightarrow> on_object p (\<lambda>x. (Inr (), x\<lparr>m_name := name\<rparr>)))
       (\<lambda>_ w. (Inr (), w\<lparr>t_thread_name := (t_thread_name w)(t := name)\<rparr>)) w))"

text \<open>
  The constructor at \<open>addr\<close> up to \<open>m_semaphore.wait()\<close>, with what \<open>pthread_create\<close> returns and the
  handle it makes; and the wait, which may have to wait.
\<close>

definition Thread_create :: "'q sem_calls \<Rightarrow> nat \<Rightarrow> nat \<Rightarrow> string \<Rightarrow> int \<Rightarrow> nat \<Rightarrow> ('q, unit) thread_method" where
  "Thread_create c addr cb name rt handle w =
    (case Semaphore c 0 of
       Inl e \<Rightarrow> (Inl e, w)
     | Inr q \<Rightarrow>
         if rt \<noteq> 0 then (Inl (Exn (Logic_Error ''pthread_create error'')), w)
         else (Inr (), w\<lparr>objects := (objects w)(addr \<mapsto>
           \<lparr>m_id = - 1, m_thread = handle, m_cb = Some cb, m_name = (if name = '''' then UNKNOW else name), m_semaphore = q\<rparr>)\<rparr>))"

definition Thread_create_wait :: "'q sem_calls \<Rightarrow> nat \<Rightarrow> 'q threads \<Rightarrow> ((fault + unit) \<times> 'q threads) option" where
  "Thread_create_wait c addr w =
    (case objects w addr of
       None \<Rightarrow> Some (Inl Null_Deref, w)
     | Some x \<Rightarrow> map_option (\<lambda>(r, q). (r, w\<lparr>objects := (objects w)(addr \<mapsto> x\<lparr>m_semaphore := q\<rparr>)\<rparr>)) (Semaphore_wait c (m_semaphore x)))"

text \<open>
  \<open>run\<close> on thread \<open>t\<close>, whose id is \<open>tid\<close>: the part before the notification, which takes the callback,
  and the notification; the callback is called after it.
\<close>

definition Thread_run_setup :: "nat \<Rightarrow> int \<Rightarrow> nat \<Rightarrow> ('q, nat option) thread_method" where
  "Thread_run_setup t tid arg w =
    (case objects w arg of
       None \<Rightarrow> (Inl Null_Deref, w)
     | Some x \<Rightarrow>
         (Inr (m_cb x), w\<lparr>objects := (objects w)(arg \<mapsto> x\<lparr>m_id := tid, m_cb := None\<rparr>),
            t_thread := (t_thread w)(t \<mapsto> arg), t_thread_name := (t_thread_name w)(t := m_name x),
            shown_name := (shown_name w)(t := c_str (take 15 (m_name x)))\<rparr>))"

definition Thread_run_notify :: "'q sem_calls \<Rightarrow> nat \<Rightarrow> ('q, unit) thread_method" where
  "Thread_run_notify c arg =
    on_object arg (\<lambda>x. case Semaphore_notify c (m_semaphore x) of (r, q) \<Rightarrow> (r, x\<lparr>m_semaphore := q\<rparr>))"

text \<open>\<open>rt\<close> is what \<open>pthread_join\<close> returns.\<close>

definition Thread_join :: "int \<Rightarrow> nat \<Rightarrow> ('q, unit) thread_method" where
  "Thread_join rt this =
    on_object this (\<lambda>x.
      if m_thread x \<noteq> 0 then
        if rt \<noteq> 0 then (Inl (Exn (Logic_Error ''pthread_join error'')), x) else (Inr (), x\<lparr>m_thread := 0\<rparr>)
      else (Inr (), x))"

text \<open>The destructor: whether it detaches the thread. The pointer of the thread stays.\<close>

definition Thread_destroy :: "nat \<Rightarrow> ('q, bool) thread_method" where
  "Thread_destroy this w =
    (case objects w this of
       None \<Rightarrow> (Inl Null_Deref, w)
     | Some x \<Rightarrow> (Inr (m_thread x \<noteq> 0), w\<lparr>objects := (objects w)(this := None)\<rparr>))"

section \<open>Clocks and backtraces\<close>

text \<open>\<open>gettimeofday\<close> gives the seconds and the microseconds.\<close>

definition GetCurrentMS :: "s64 \<Rightarrow> s64 \<Rightarrow> u64" where
  "GetCurrentMS tv_sec tv_usec = tv_sec * 1000 + word_of_int (sint tv_usec sdiv 1000)"

definition GetCurrentUS :: "s64 \<Rightarrow> s64 \<Rightarrow> u64" where
  "GetCurrentUS tv_sec tv_usec = tv_sec * 1000 * 1000 + tv_usec"

text \<open>
  \<open>symbols\<close> is what \<open>backtrace_symbols\<close> makes of the frames, if it has the memory. The strings from
  \<open>skip\<close> on are appended; a negative \<open>skip\<close> becomes a large size.
\<close>

definition Backtrace :: "string list option \<Rightarrow> s32 \<Rightarrow> string list \<Rightarrow> string list" where
  "Backtrace symbols skip bt =
    (case symbols of None \<Rightarrow> bt | Some strings \<Rightarrow> bt @ drop (unat (scast skip :: u64)) strings)"

definition BacktraceToString :: "string list option \<Rightarrow> s32 \<Rightarrow> string \<Rightarrow> string" where
  "BacktraceToString symbols skip prefix = concat (map (\<lambda>s. prefix @ s @ [CHR 0x0A]) (Backtrace symbols skip []))"

section \<open>Starting a thread\<close>

text \<open>
  How far the new thread has come, and whether the constructor has returned. The two threads go on
  independently; the constructor goes on once its call of \<open>sem_wait\<close> does not have to wait.
\<close>

datatype run_pc = Created | Set_Up "nat option" | Calling "nat option"

inductive start_step :: "'q sem_calls \<Rightarrow> nat \<Rightarrow> nat \<Rightarrow> int \<Rightarrow> 'q threads \<times> run_pc \<times> bool \<Rightarrow> 'q threads \<times> run_pc \<times> bool \<Rightarrow> bool"
  for c addr t tid where
  setup_run: "Thread_run_setup t tid addr w = (Inr cb, w') \<Longrightarrow> start_step c addr t tid (w, Created, b) (w', Set_Up cb, b)"
| notify: "Thread_run_notify c addr w = (Inr (), w') \<Longrightarrow> start_step c addr t tid (w, Set_Up cb, b) (w', Calling cb, b)"
| return: "Thread_create_wait c addr w = Some (Inr (), w') \<Longrightarrow> start_step c addr t tid (w, r, False) (w', r, True)"

text \<open>What is relied on of the semaphore of POSIX: it counts, and its calls succeed.\<close>

definition sem_laws :: "'q sem_calls \<Rightarrow> ('q \<Rightarrow> nat) \<Rightarrow> bool" where
  "sem_laws c val \<longleftrightarrow> fst (sem_init c 0) = 0 \<and> val (snd (sem_init c 0)) = 0 \<and>
    (\<forall>q. val q < 2 \<longrightarrow> fst (sem_post c q) = 0 \<and> val (snd (sem_post c q)) = val q + 1) \<and>
    (\<forall>q. if val q = 0 then sem_wait c q = None else \<exists>q'. sem_wait c q = Some (0, q') \<and> val q' = val q - 1)"

text \<open>The object while the thread starts.\<close>

definition start_inv :: "('q \<Rightarrow> nat) \<Rightarrow> nat \<Rightarrow> nat \<Rightarrow> int \<Rightarrow> nat \<Rightarrow> string \<Rightarrow> 'q threads \<times> run_pc \<times> bool \<Rightarrow> bool" where
  "start_inv val addr t tid cb name = (\<lambda>(w, r, b).
    \<exists>x. objects w addr = Some x \<and> m_name x = name \<and>
      (case r of
         Created \<Rightarrow> m_cb x = Some cb \<and> \<not> b \<and> val (m_semaphore x) = 0
       | Set_Up cb' \<Rightarrow> \<not> b \<and> val (m_semaphore x) = 0 \<and> cb' = Some cb
       | Calling cb' \<Rightarrow> val (m_semaphore x) = (if b then 0 else 1) \<and> cb' = Some cb) \<and>
      (r \<noteq> Created \<longrightarrow> m_cb x = None \<and> m_id x = tid \<and> t_thread w t = Some addr \<and> t_thread_name w t = name \<and>
        shown_name w t = c_str (take 15 name)))"

lemma sem_laws_post:
  assumes "sem_laws c val" and "val q = 0" and "sem_post c q = (rt, q')"
  shows "rt = 0 \<and> val q' = 1"
proof -
  have "val q < 2 \<longrightarrow> fst (sem_post c q) = 0 \<and> val (snd (sem_post c q)) = val q + 1"
    using assms(1) unfolding sem_laws_def by blast
  with assms(2,3) show ?thesis
    by simp
qed

lemma start_step_inv:
  assumes "start_step c addr t tid s s'" and "sem_laws c val" and "start_inv val addr t tid cb name s"
  shows "start_inv val addr t tid cb name s'"
  using assms(1)
proof cases
  case (setup_run w cb' w' b)
  with assms(3) show ?thesis
    by (auto simp: start_inv_def Thread_run_setup_def)
next
  case (notify w w' cb' b)
  with assms(3) sem_laws_post [OF assms(2)] show ?thesis
    by (auto simp: start_inv_def Thread_run_notify_def on_object_def Semaphore_notify_def split: prod.splits if_splits)
next
  case (return w w' r)
  with assms(3) obtain x where x: "objects w addr = Some x"
    by (auto simp: start_inv_def)
  with return assms(2) have "val (m_semaphore x) \<noteq> 0"
    by (auto simp: Thread_create_wait_def Semaphore_wait_def sem_laws_def split: if_splits)
  moreover from this obtain q where "sem_wait c (m_semaphore x) = Some (0, q)" "val q = val (m_semaphore x) - 1"
    using assms(2) unfolding sem_laws_def by metis
  ultimately show ?thesis
    using x return assms(3)
    by (cases r) (auto simp: start_inv_def Thread_create_wait_def Semaphore_wait_def)
qed

text \<open>C25: the constructor of \<open>Thread\<close> returns only after the new thread has set itself up, in every
  interleaving of the two: by then the object has the thread's id, gives the thread its name, or
  \<open>UNKNOW\<close> for an empty one, has handed over the callback, which the thread then calls once, and is
  what \<open>GetThis\<close> answers there; the system shows the first fifteen characters of the name. Once the
  thread has notified, the constructor does not wait.\<close>

theorem Thread_starts:
  assumes "sem_laws c val" and "Thread_create c addr cb name 0 handle w0 = (Inr (), w1)"
    and "(start_step c addr t tid)\<^sup>*\<^sup>* (w1, Created, False) (w, r, returned)"
  shows "let shown = (if name = '''' then UNKNOW else name)
    in (returned \<longrightarrow> r = Calling (Some cb) \<and> Thread_GetThis t w = Some addr \<and> Thread_GetName t w = shown \<and>
        shown_name w t = c_str (take 15 shown) \<and> (\<exists>x. objects w addr = Some x \<and> m_id x = tid \<and> m_name x = shown \<and> m_cb x = None)) \<and>
      (r = Calling (Some cb) \<and> \<not> returned \<longrightarrow> (\<exists>w'. Thread_create_wait c addr w = Some (Inr (), w'))) \<and>
      (\<forall>cb'. r = Calling cb' \<or> r = Set_Up cb' \<longrightarrow> cb' = Some cb)"
proof -
  define shown where "shown = (if name = '''' then UNKNOW else name)"
  have init: "start_inv val addr t tid cb shown (w1, Created, False)"
    using assms(1,2) by (auto simp: start_inv_def Thread_create_def Semaphore_def sem_laws_def shown_def split: prod.splits sum.splits if_splits)
  have inv: "start_inv val addr t tid cb shown (w, r, returned)"
    using assms(3) by (induction rule: rtranclp_induct) (use init start_step_inv [OF _ assms(1)] in blast)+
  then obtain x where x: "objects w addr = Some x"
    by (auto simp: start_inv_def)
  have "\<exists>w'. Thread_create_wait c addr w = Some (Inr (), w')" if "val (m_semaphore x) = 1"
  proof -
    have "\<exists>q. sem_wait c (m_semaphore x) = Some (0, q)"
      using assms(1) that unfolding sem_laws_def by (metis zero_neq_one)
    with x show ?thesis
      by (auto simp: Thread_create_wait_def Semaphore_wait_def)
  qed
  with inv x show ?thesis
    unfolding Let_def shown_def [symmetric]
    by (cases r) (auto simp: start_inv_def Thread_GetThis_def Thread_GetName_def)
qed

definition example_sem :: "nat sem_calls" where
  "example_sem = \<lparr>sem_init = (\<lambda>n. (0, unat n)), sem_wait = (\<lambda>q. if q = 0 then None else Some (0, q - 1)), sem_post = (\<lambda>q. (0, q + 1))\<rparr>"

lemma Thread_starts_witness:
  "\<exists>w1 w. Thread_create example_sem 50 9 ''worker'' 0 77
      \<lparr>objects = \<lambda>_. None, t_thread = \<lambda>_. None, t_thread_name = \<lambda>_. UNKNOW, shown_name = \<lambda>_. ''''\<rparr> = (Inr (), w1) \<and>
    (start_step example_sem 50 3 1234)\<^sup>*\<^sup>* (w1, Created, False) (w, Calling (Some 9), True) \<and> Thread_GetName 3 w = ''worker''"
proof -
  let ?w0 = "\<lparr>objects = \<lambda>_. None, t_thread = \<lambda>_. None, t_thread_name = \<lambda>_. UNKNOW, shown_name = \<lambda>_. ''''\<rparr> :: nat threads"
  let ?step = "start_step example_sem 50 3 1234"
  obtain w1 where create: "Thread_create example_sem 50 9 ''worker'' 0 77 ?w0 = (Inr (), w1)"
      and w1: "w1 = ?w0\<lparr>objects := [50 \<mapsto> \<lparr>m_id = - 1, m_thread = 77, m_cb = Some 9, m_name = ''worker'', m_semaphore = 0\<rparr>]\<rparr>"
    by (simp add: Thread_create_def Semaphore_def example_sem_def)
  obtain w2 where w2: "Thread_run_setup 3 1234 50 w1 = (Inr (Some 9), w2)" "(case objects w2 50 of Some x \<Rightarrow> m_semaphore x = 0 | None \<Rightarrow> False)"
    by (simp add: Thread_run_setup_def w1)
  obtain w3 where w3: "Thread_run_notify example_sem 50 w2 = (Inr (), w3)" "(case objects w3 50 of Some x \<Rightarrow> m_semaphore x = 1 | None \<Rightarrow> False)"
    using w2(2) by (cases "objects w2 50") (auto simp: Thread_run_notify_def on_object_def Semaphore_notify_def example_sem_def)
  obtain w4 where w4: "Thread_create_wait example_sem 50 w3 = Some (Inr (), w4)"
    using w3(2) by (cases "objects w3 50") (auto simp: Thread_create_wait_def Semaphore_wait_def example_sem_def)
  have run: "?step\<^sup>*\<^sup>* (w1, Created, False) (w4, Calling (Some 9), True)"
    by (meson rtranclp.rtrancl_into_rtrancl rtranclp.rtrancl_refl start_step.setup_run [OF w2(1)] start_step.notify [OF w3(1)] start_step.return [OF w4])
  have "sem_laws example_sem id"
    by (auto simp: sem_laws_def example_sem_def)
  from Thread_starts [OF this create run] have "Thread_GetName 3 w4 = ''worker''"
    by (simp add: Let_def)
  with create run show ?thesis
    by blast
qed

text \<open>
  \<open>SetName\<close> renames the thread and its object. After the object has been destroyed, which detaches a
  thread that still runs, it writes through a pointer to nothing.
\<close>

lemma Thread_SetName_dangling:
  assumes "t_thread w t = Some p" and "objects w p = Some x" and "name \<noteq> ''''"
  shows "\<exists>w'. Thread_SetName t name w = (Inr (), w') \<and> Thread_GetName t w' = name \<and> objects w' p = Some (x\<lparr>m_name := name\<rparr>)"
    and "fst (Thread_SetName t name (snd (Thread_destroy p w))) = Inl Null_Deref"
  using assms by (auto simp: Thread_SetName_def Thread_destroy_def on_object_def seq_def Thread_GetName_def)

text \<open>Joining twice is joining once, and the destructor of a joined thread does not detach it.\<close>

lemma Thread_join_twice:
  assumes "objects w p = Some x"
  shows "\<exists>w'. Thread_join 0 p w = (Inr (), w') \<and> Thread_join rt p w' = (Inr (), w') \<and> fst (Thread_destroy p w') = Inr False"
  using assms by (auto simp: Thread_join_def on_object_def Thread_destroy_def fun_eq_iff)

text \<open>The two clocks agree, as long as the microseconds since the epoch fit 63 bits.\<close>

lemma clocks_agree:
  assumes "0 \<le> sint sec" and "sint sec < 2 ^ 43" and "0 \<le> sint usec" and "sint usec < 1000000"
  shows "uint (GetCurrentMS sec usec) = uint (GetCurrentUS sec usec) div 1000"
proof -
  have sdiv: "a sdiv 1000 = a div 1000" if "0 \<le> a" for a :: int
    using that by (cases "a = 0") (simp_all add: signed_divide_int_def)
  have u: "uint sec = sint sec" "uint usec = sint usec"
    using assms by (simp_all add: uint_sint take_bit_int_eq_self)
  have "uint (GetCurrentMS sec usec) = sint sec * 1000 + sint usec div 1000"
    using assms u by (simp add: GetCurrentMS_def uint_word_ariths uint_word_of_int mod_pos_pos_trivial sdiv)
  moreover have "uint (GetCurrentUS sec usec) = sint sec * 1000000 + sint usec"
    using assms u by (simp add: GetCurrentUS_def uint_word_ariths mod_pos_pos_trivial)
  ultimately show ?thesis
    by simp
qed

end
