(* ===== verification/Hook_Config.thy ===== *)
theory Hook_Config
  imports Hook Config
begin

text \<open>
  The static state of \<open>sylar/hook.cpp\<close>: the original functions, the flag of each thread, and the default
  timeout of \<open>connect\<close>, a static variable that a listener of the configuration variable
  \<open>tcp.connect.timeout\<close> keeps up to date.
\<close>

section \<open>The original functions\<close>

definition hook_names :: "string list" where
  "hook_names = [''sleep'', ''usleep'', ''nanosleep'', ''socket'', ''connect'', ''accept'', ''read'', ''readv'', ''recv'',
    ''recvfrom'', ''recvmsg'', ''write'', ''writev'', ''send'', ''sendto'', ''sendmsg'', ''close'', ''fcntl'', ''ioctl'',
    ''getsockopt'', ''setsockopt'']"

text \<open>
  \<open>is_inited\<close> and the pointers \<open>sleep_f\<close> and so on, under the names of the functions; \<open>dlsym\<close> answers the
  address of the next definition of a name. \<open>is_inited\<close> is read, but never set.
\<close>

type_synonym hook_functions = "bool \<times> (string \<Rightarrow> nat option)"

definition hook_start :: hook_functions where
  "hook_start = (False, \<lambda>_. None)"

definition hook_init :: "(string \<Rightarrow> nat option) \<Rightarrow> hook_functions \<Rightarrow> hook_functions" where
  "hook_init dlsym = (\<lambda>(is_inited, f).
    if is_inited then (is_inited, f)
    else (is_inited, \<lambda>name. if name \<in> set hook_names then dlsym name else f name))"

lemma hook_init_start:
  "snd (hook_init dlsym hook_start) name = (if name \<in> set hook_names then dlsym name else None)"
  by (simp add: hook_init_def hook_start_def)

lemma hook_init_again: "hook_init dlsym (hook_init dlsym fns) = hook_init dlsym fns"
  by (auto simp: hook_init_def split: prod.split)

text \<open>The one call that is passed on as it is; before \<open>hook_init\<close> the pointer is null.\<close>

definition hook_getsockopt :: "(nat \<Rightarrow> 'a \<Rightarrow> int) \<Rightarrow> 'a \<Rightarrow> hook_functions \<Rightarrow> fault + int" where
  "hook_getsockopt call args fns =
    (case snd fns ''getsockopt'' of None \<Rightarrow> Inl Null_Deref | Some getsockopt_f \<Rightarrow> Inr (call getsockopt_f args))"

lemma hook_getsockopt_resolved:
  "hook_getsockopt call args hook_start = Inl Null_Deref"
  "dlsym ''getsockopt'' = Some p \<Longrightarrow> hook_getsockopt call args (hook_init dlsym hook_start) = Inr (call p args)"
  by (simp_all add: hook_getsockopt_def hook_init_start) (simp_all add: hook_start_def hook_names_def)

text \<open>The flags \<open>t_hook_enable\<close> of all threads; \<open>run\<close> sets that of its thread.\<close>

definition is_hook_enable :: "nat \<Rightarrow> (nat \<Rightarrow> bool) \<Rightarrow> bool" where
  "is_hook_enable t t_hook_enable = t_hook_enable t"

definition set_hook_enable :: "nat \<Rightarrow> bool \<Rightarrow> (nat \<Rightarrow> bool) \<Rightarrow> nat \<Rightarrow> bool" where
  "set_hook_enable t flag t_hook_enable = t_hook_enable(t := flag)"

section \<open>State and operations\<close>

record 'v hook_settings =
  hs_config :: "'v config"
  s_connect_timeout :: u64

text \<open>The listener, which is named \<open>cb\<close>, for the calls of listeners that a step adds: \<open>int\<close> to \<open>uint64_t\<close>.\<close>

definition hook_listener :: "('v \<Rightarrow> s32) \<Rightarrow> nat \<Rightarrow> (nat \<times> 'v \<times> 'v) list \<Rightarrow> u64 \<Rightarrow> u64" where
  "hook_listener of_val cb new_calls t =
    foldl (\<lambda>t (cb', old_value, new_value). if cb' = cb then scast (of_val new_value) else t) t new_calls"

text \<open>
  The static initialisation: the variable is looked up with the default of 5000 ms, its value is
  read, and the listener is added. \<open>int_val\<close> and \<open>of_val\<close> convert between \<open>int\<close> and values.
\<close>

definition HookIniter :: "(s32 \<Rightarrow> 'v) \<Rightarrow> ('v \<Rightarrow> s32) \<Rightarrow> nat \<Rightarrow> 'v config \<Rightarrow> fault + nat \<times> 'v hook_settings" where
  "HookIniter int_val of_val cb c =
    (case Config_Lookup ''int'' ''tcp.connect.timeout'' (int_val 5000) ''tcp connect timeout'' c of
       (Inl e, _) \<Rightarrow> Inl e
     | (Inr None, _) \<Rightarrow> Inl Null_Deref
     | (Inr (Some x), c1) \<Rightarrow>
         Inr (x, \<lparr>hs_config = snd (ConfigVar_addListener x cb c1), s_connect_timeout = scast (of_val (cv_val (config_vars c1 x)))\<rparr>))"

text \<open>How \<open>connect\<close> begins.\<close>

definition hook_connect :: "'k syscalls \<Rightarrow> bool \<Rightarrow> int \<Rightarrow> 'v hook_settings \<Rightarrow> ('k fd_manager, io_entry) action" where
  "hook_connect sys hook fd st = connect_entry sys hook fd (s_connect_timeout st)"

section \<open>Runs\<close>

text \<open>
  What the program does with its configuration afterwards: it sets values, loads documents, looks
  variables up, and adds and removes other listeners. The listener of the hooks stays.
\<close>

inductive settings_change :: "nat \<Rightarrow> nat \<Rightarrow> (string \<Rightarrow> string \<Rightarrow> 'v option) \<Rightarrow> yaml_lib \<Rightarrow> 'v config \<Rightarrow> 'v config \<Rightarrow> bool"
  for x cb frm Y where
  lookup: "Config_Lookup ty name d desc c = (r, c') \<Longrightarrow> settings_change x cb frm Y c c'"
| set_value: "settings_change x cb frm Y c (ConfigVar_setValue y v c)"
| parsed: "settings_change x cb frm Y c (snd (ConfigVar_fromString frm y s c))"
| load: "Config_LoadFromYaml Y frm root c = Some c' \<Longrightarrow> settings_change x cb frm Y c c'"
| add: "cb' \<noteq> cb \<Longrightarrow> settings_change x cb frm Y c (snd (ConfigVar_addListener y cb' c))"
| del: "y \<noteq> x \<or> (k, cb) \<notin> set (cv_cbs (config_vars c x)) \<Longrightarrow> settings_change x cb frm Y c (ConfigVar_delListener y k c)"
| clear: "y \<noteq> x \<Longrightarrow> settings_change x cb frm Y c (ConfigVar_clearListener y c)"

inductive settings_run :: "(s32 \<Rightarrow> 'v) \<Rightarrow> ('v \<Rightarrow> s32) \<Rightarrow> nat \<Rightarrow> (string \<Rightarrow> string \<Rightarrow> 'v option) \<Rightarrow> yaml_lib \<Rightarrow> nat \<Rightarrow> 'v hook_settings \<Rightarrow> bool"
  for int_val of_val cb frm Y where
  start: "conf_inv c \<Longrightarrow> (\<forall>y. cb \<notin> snd ` set (cv_cbs (config_vars c y))) \<Longrightarrow> HookIniter int_val of_val cb c = Inr (x, st) \<Longrightarrow>
    settings_run int_val of_val cb frm Y x st"
| change: "settings_run int_val of_val cb frm Y x st \<Longrightarrow> settings_change x cb frm Y (hs_config st) c' \<Longrightarrow>
    settings_run int_val of_val cb frm Y x
      \<lparr>hs_config = c', s_connect_timeout = hook_listener of_val cb (drop (length (calls (hs_config st))) (calls c')) (s_connect_timeout st)\<rparr>"

section \<open>The invariant\<close>

text \<open>The listener is one of the variable, once, and of no other; the static variable has the value.\<close>

definition listens :: "nat \<Rightarrow> nat \<Rightarrow> 'v config \<Rightarrow> bool" where
  "listens x cb c \<longleftrightarrow> conf_inv c \<and> x < next_var c \<and> count_list (map snd (cv_cbs (config_vars c x))) cb = 1 \<and>
    (\<forall>y. y \<noteq> x \<longrightarrow> cb \<notin> set (map snd (cv_cbs (config_vars c y))))"

definition follows :: "('v \<Rightarrow> s32) \<Rightarrow> nat \<Rightarrow> nat \<Rightarrow> 'v config \<Rightarrow> u64 \<Rightarrow> bool" where
  "follows of_val x cb c t \<longleftrightarrow> listens x cb c \<and> t = scast (of_val (cv_val (config_vars c x)))"

text \<open>A step after which it still does, given what the listener made of the calls that were added.\<close>

definition follows_on :: "('v \<Rightarrow> s32) \<Rightarrow> nat \<Rightarrow> nat \<Rightarrow> 'v config \<Rightarrow> 'v config \<Rightarrow> bool" where
  "follows_on of_val x cb c c' \<longleftrightarrow> (\<forall>t. follows of_val x cb c t \<longrightarrow>
    (\<exists>new. calls c' = calls c @ new \<and> follows of_val x cb c' (hook_listener of_val cb new t)))"

lemma follows_on_refl: "follows_on of_val x cb c c"
  by (auto simp: follows_on_def hook_listener_def)

lemma follows_on_trans:
  assumes "follows_on of_val x cb c c1" and "follows_on of_val x cb c1 c2"
  shows "follows_on of_val x cb c c2"
  unfolding follows_on_def
proof (intro allI impI)
  fix t assume "follows of_val x cb c t"
  then obtain new where new: "calls c1 = calls c @ new" "follows of_val x cb c1 (hook_listener of_val cb new t)"
    using assms(1) unfolding follows_on_def by blast
  then obtain new2 where "calls c2 = calls c1 @ new2" "follows of_val x cb c2 (hook_listener of_val cb new2 (hook_listener of_val cb new t))"
    using assms(2) unfolding follows_on_def by blast
  with new(1) show "\<exists>new. calls c2 = calls c @ new \<and> follows of_val x cb c2 (hook_listener of_val cb new t)"
    by (intro exI [of _ "new @ new2"]) (simp add: hook_listener_def)
qed

lemma listener_calls:
  "hook_listener of_val cb (map (\<lambda>(_, cb'). (cb', old, new)) cbs) t =
    (if cb \<in> set (map snd cbs) then scast (of_val new) else t)"
  by (induction cbs arbitrary: t) (auto simp: hook_listener_def)

lemma setValue_follows: "follows_on of_val x cb c (ConfigVar_setValue y v c)"
  unfolding follows_on_def
proof (intro allI impI)
  fix t assume t: "follows of_val x cb c t"
  have inv: "conf_inv (ConfigVar_setValue y v c)" "next_var (ConfigVar_setValue y v c) = next_var c"
    using t same_vars_inv [OF setValue_same(1)] setValue_same(1) [of c y v] by (auto simp: follows_def listens_def same_vars_def)
  let ?new = "if v = cv_val (config_vars c y) then [] else map (\<lambda>(_, cb'). (cb', cv_val (config_vars c y), v)) (cv_cbs (config_vars c y))"
  have "cb \<in> set (map snd (cv_cbs (config_vars c y))) \<longleftrightarrow> y = x"
    using t count_list_0_iff [of "map snd (cv_cbs (config_vars c x))" cb] by (auto simp: follows_def listens_def)
  then have "follows of_val x cb (ConfigVar_setValue y v c) (hook_listener of_val cb ?new t)"
    using t inv listener_calls [of of_val cb "cv_val (config_vars c y)" v "cv_cbs (config_vars c y)" t]
    by (auto simp: follows_def listens_def setValue_sel hook_listener_def)
  then show "\<exists>new. calls (ConfigVar_setValue y v c) = calls c @ new \<and> follows of_val x cb (ConfigVar_setValue y v c) (hook_listener of_val cb new t)"
    by (intro exI [of _ ?new]) (simp add: setValue_sel)
qed

lemma fromString_follows: "follows_on of_val x cb c (snd (ConfigVar_fromString frm y s c))"
  by (auto simp: ConfigVar_fromString_def setValue_follows follows_on_refl split: option.split)

lemma load_follows: "follows_on of_val x cb c (load_nodes Y frm nodes c)"
proof (induction nodes arbitrary: c)
  case Nil
  then show ?case
    by (simp add: follows_on_refl)
next
  case (Cons node nodes)
  obtain k n where node: "node = (k, n)"
    by fastforce
  let ?c1 = "if k = '''' then c else case Config_LookupBase (map tolower k) c of None \<Rightarrow> c | Some var \<Rightarrow> snd (ConfigVar_fromString frm var (yaml_text Y n) c)"
  have "follows_on of_val x cb c ?c1"
    by (auto simp: follows_on_refl fromString_follows split: option.split)
  with Cons.IH [of ?c1] show ?case
    unfolding node load_nodes.simps by (rule follows_on_trans [rotated])
qed

lemma quiet_follows:
  assumes "calls c' = calls c" and "\<And>t. follows of_val x cb c t \<Longrightarrow> follows of_val x cb c' t"
  shows "follows_on of_val x cb c c'"
  using assms by (auto simp: follows_on_def hook_listener_def)

lemma count_filter_keep:
  "(\<And>p. p \<in> set ps \<Longrightarrow> snd p = cb \<Longrightarrow> P p) \<Longrightarrow> count_list (map snd (filter P ps)) cb = count_list (map snd ps) cb"
  by (induction ps) auto

lemma settings_change_follows:
  assumes "settings_change x cb frm Y c c'"
  shows "follows_on of_val x cb c c'"
  using assms
proof cases
  case (lookup ty name d desc r)
  show ?thesis
  proof (rule quiet_follows)
    show "calls c' = calls c"
      using lookup by (auto simp: Config_Lookup_def Let_def split: option.splits if_splits)
    show "follows of_val x cb c' t" if "follows of_val x cb c t" for t
      using lookup that Lookup_inv [OF _ lookup]
      by (auto simp: follows_def listens_def Config_Lookup_def Let_def ConfigVar_def split: option.splits if_splits) force
  qed
next
  case (load root)
  then show ?thesis
    by (auto simp: Config_LoadFromYaml_def load_follows)
next
  case (add cb' y)
  show ?thesis
  proof (rule quiet_follows)
    show "calls c' = calls c"
      by (simp add: add ConfigVar_addListener_def Let_def)
    show "follows of_val x cb c' t" if "follows of_val x cb c t" for t
      using that add same_vars_inv [OF listeners_same(1)] by (auto simp: follows_def listens_def ConfigVar_addListener_def Let_def)
  qed
next
  case (del y k)
  show ?thesis
  proof (rule quiet_follows)
    show "calls c' = calls c"
      by (simp add: del ConfigVar_delListener_def)
    show "follows of_val x cb c' t" if "follows of_val x cb c t" for t
    proof -
      have "count_list (map snd (filter (\<lambda>(k', _). k' \<noteq> k) (cv_cbs (config_vars c x)))) cb = count_list (map snd (cv_cbs (config_vars c x))) cb" if "y = x"
        by (rule count_filter_keep) (use del that in auto)
      with that del same_vars_inv [OF listeners_same(2)] show ?thesis
        unfolding follows_def listens_def by (cases "y = x") (auto simp: ConfigVar_delListener_def)
    qed
  qed
next
  case (clear y)
  show ?thesis
  proof (rule quiet_follows)
    show "calls c' = calls c"
      by (simp add: clear ConfigVar_clearListener_def)
    show "follows of_val x cb c' t" if "follows of_val x cb c t" for t
      using that clear same_vars_inv [OF listeners_same(3)] by (auto simp: follows_def listens_def ConfigVar_clearListener_def)
  qed
qed (simp_all add: setValue_follows fromString_follows)

lemma HookIniter_follows:
  assumes "conf_inv c" and "\<forall>y. cb \<notin> snd ` set (cv_cbs (config_vars c y))" and "HookIniter int_val of_val cb c = Inr (x, st)"
  shows "follows of_val x cb (hs_config st) (s_connect_timeout st)"
proof -
  obtain c1 where look: "Config_Lookup ''int'' ''tcp.connect.timeout'' (int_val 5000) ''tcp connect timeout'' c = (Inr (Some x), c1)"
      and st: "hs_config st = snd (ConfigVar_addListener x cb c1)" "s_connect_timeout st = scast (of_val (cv_val (config_vars c1 x)))"
    using assms(3) by (auto simp: HookIniter_def split: prod.splits sum.splits option.splits)
  have c1: "conf_inv c1" "x < next_var c1"
    using Lookup_inv [OF assms(1) look] look by (auto simp: Config_Lookup_def Let_def conf_inv_def split: option.splits if_splits)
  have none: "cb \<notin> set (map snd (cv_cbs (config_vars c1 y)))" for y
    using assms(2) look by (auto simp: Config_Lookup_def Let_def ConfigVar_def split: option.splits if_splits) force+
  then have "count_list (map snd (cv_cbs (config_vars c1 x))) cb = 0"
    by (simp add: count_list_0_iff)
  with c1 none st same_vars_inv [OF listeners_same(1)] show ?thesis
    by (auto simp: follows_def listens_def ConfigVar_addListener_def Let_def)
qed

lemma settings_run_follows: "settings_run int_val of_val cb frm Y x st \<Longrightarrow> follows of_val x cb (hs_config st) (s_connect_timeout st)"
proof (induction rule: settings_run.induct)
  case (start c x st)
  then show ?case
    by (rule HookIniter_follows)
next
  case (change x st c')
  then show ?case
    using settings_change_follows unfolding follows_on_def by fastforce
qed

section \<open>Properties\<close>



end
