(* ===== verification/Spec2Isabelle.thy ===== *)
theory Spec2Isabelle
  imports Byte_Codec Byte_Views Hook_IO IO_Stop IO_Wake Address_Text Log_Config Log_Macros Ssl_Socket Scheduler_Queue Scheduler_Join
    Scheduler_Switch Fiber_Semaphore Thread Hook_Config
begin

text \<open>
  \<^bold>\<open>The program.\<close> sylar is a C++ server framework: coroutines (\<open>fiber\<close>) that a scheduler runs on any
  number of threads (\<open>scheduler\<close>), an event loop over \<open>epoll\<close> with timers (\<open>iomanager\<close>, \<open>timer\<close>), system
  calls replaced by ones that suspend the coroutine in place of the thread (\<open>hook\<close>, \<open>fd_manager\<close>),
  sockets and addresses on top of them (\<open>socket\<close>, \<open>address\<close>), byte arrays for protocols (\<open>bytearray\<close>,
  \<open>endian\<close>), logging (\<open>log\<close>), configuration with listeners (\<open>config\<close>), and locks and threads (\<open>mutex\<close>,
  \<open>thread\<close>). All of it is in \<open>src/sylar\<close>; the directories \<open>tests\<close> and \<open>bin\<close> are not modelled.

  \<^bold>\<open>How it is modelled.\<close> A method is a function of the state it reads and writes. It returns a fault or
  a result and the state in every case (the type \<open>action\<close> of \<open>Sylar_Prelude\<close>): exceptions, failed
  assertions and the undefined behaviours that the sources can reach (a null pointer, an access out of
  bounds, a signed overflow, a switch to a stale context) are values of the type \<open>fault\<close>. Classes are
  records with the members' names, enumerations are datatypes, and objects that are shared by pointers
  live in a store under their addresses. Machine integers are words where their width matters; sizes
  are naturals, with the wrap of an unsigned difference written out (\<open>size_sub\<close>). What is not under
  \<open>src\<close> is an argument: the system calls (records \<open>syscalls\<close>, \<open>net_calls\<close>, \<open>pthread_calls\<close>, \<open>sem_calls\<close>), the
  clock, addresses that \<open>new\<close> returns, yaml-cpp (\<open>yaml_lib\<close>), \<open>boost::lexical_cast\<close>, \<open>getaddrinfo\<close>, OpenSSL
  (\<open>ssl_calls\<close>); what is relied on of them is a named hypothesis (\<open>flags_laws\<close>, \<open>net_laws\<close>, \<open>lock_contract\<close>,
  \<open>sem_laws\<close>, \<open>yaml_laws\<close>, \<open>cast_ok\<close>, \<open>write_law\<close>), and each witness gives a concrete instance.

  \<^bold>\<open>Concurrency.\<close> A section of code under a lock is one step. What threads, coroutines and callbacks
  can do between the steps is a step relation (\<open>client_step\<close>, \<open>sched_step\<close>, \<open>life_step\<close>, \<open>io_run\<close>, \<open>do_io_step\<close>,
  \<open>connect_step\<close>, \<open>conf_step\<close>, \<open>log_step\<close>, \<open>socket_step\<close>, \<open>scoped_step\<close>, \<open>sem_run\<close>, \<open>start_step\<close>,
  \<open>settings_run\<close>, \<open>asking\<close>, \<open>loop_step\<close>, \<open>singleton_run\<close>), and the properties hold in every state these reach. Where two sections belong to one
  operation and the code gives up the lock between them, they are two steps; the races that this
  admits are theorems too.

  \<^bold>\<open>The theories.\<close>

    \<^item> \<open>Sylar_Prelude\<close>: machine types, faults, the monad of methods, slices of lists.
    \<^item> \<open>Endian\<close> (\<open>endian.h\<close>): the byte swaps, as one locale \<open>byte_swapper\<close> interpreted for the three widths.
    \<^item> \<open>File_Store\<close>: the contract \<open>byte_store\<close> of a random-access file, and \<open>codec\<close> for a writer and a
      reader over it; every round trip of typed values is proved there, once.
    \<^item> \<open>Byte_Array\<close>, \<open>Byte_Views\<close>, \<open>Byte_Codec\<close> (\<open>bytearray.{h,cpp}\<close>): the chain of blocks with its position
      refines a file for every block size; the views for \<open>readv\<close> and \<open>writev\<close>, files and dumps; and every typed
      writer and reader. The invariant is \<open>ba_inv\<close>, the abstraction \<open>ba_file\<close>, and \<open>ByteArray\<close> interprets
      \<open>byte_store\<close>.
    \<^item> \<open>Timer\<close> (\<open>timer.{h,cpp}\<close>): the ordered set of timers; collecting the expired ones, and the handshake
      by which a new earliest timer wakes the waiting thread.
    \<^item> \<open>Fiber\<close> (\<open>fiber.{h,cpp}\<close>): contexts, the thread-local pointers and every switch. \<open>fs_inv\<close> says that what
      a thread runs is what its pointers say.
    \<^item> \<open>Scheduler\<close>, \<open>Scheduler_Queue\<close>, \<open>Scheduler_Drain\<close>, \<open>Scheduler_Join\<close>, \<open>Scheduler_Switch\<close>
      (\<open>scheduler.{h,cpp}\<close>): the task queue, starting
      and stopping, and the loop of \<open>run\<close> as the steps of a worker between its locked section and its
      switches; how long a queued task waits (\<open>wait_run\<close>); and how threads enter \<open>run\<close>, when they leave it, and
      that \<open>stop\<close> joins them (\<open>life_step\<close>, with the measure \<open>total_rank\<close>); and several schedulers, between which
      a fiber moves for a scope (the record \<open>world\<close>).
    \<^item> \<open>IO_Manager\<close>, \<open>IO_Loop\<close>, \<open>IO_Stop\<close>, \<open>IO_Wake\<close> (\<open>iomanager.{h,cpp}\<close>): contexts of descriptors with the interest
      list of \<open>epoll\<close>; a round of the idle coroutine, where timers, events and the task queue meet; what
      \<open>stopping\<close> answers while others go on, and the destructor; and how idle threads sleep and are woken
      through the pipe, over the steps of the scheduler (\<open>loop_step\<close>; the ghost \<open>missed\<close> records wake-ups that
      were in vain).
    \<^item> \<open>Fd_Manager\<close>, \<open>Hook\<close>, \<open>Hook_IO\<close>, \<open>Hook_Config\<close> (\<open>fd_manager.{h,cpp}\<close>, \<open>hook.{h,cpp}\<close>): the table of
      descriptors over a kernel; the hooked calls that do not wait; the ones that wait, as steps
      between which timers, events and other coroutines run; and the static state: the original
      functions, and the default timeout of \<open>connect\<close>, which follows the configuration.
    \<^item> \<open>Text\<close>, \<open>Address\<close>, \<open>Address_Text\<close> (\<open>address.{h,cpp}\<close>): the four kinds of address as bytes, their order,
      prefixes and masks; their text, and looking names up.
    \<^item> \<open>Socket\<close>, \<open>Socket_Run\<close>, \<open>Ssl_Socket\<close> (\<open>socket.{h,cpp}\<close>): sockets over the hooked calls, the table and
      addresses; what holds along every sequence of calls (a small calculus of triples for methods); and
      SSL sockets over OpenSSL.
    \<^item> \<open>Log_Format\<close>, \<open>Logger\<close>, \<open>Log_Macros\<close>, \<open>Log_Config\<close> (\<open>log.{h,cpp}\<close>, \<open>singleton.h\<close>): levels, events and the parser and interpreter of
      patterns; appenders, loggers and their registry over files; the macros over the singleton of the registry, with
      the static loggers of the files; loggers as YAML and their configuration.
    \<^item> \<open>Config\<close> (\<open>config.{h,cpp}\<close>): variables with listeners, the registry, the conversions of containers, and
      loading documents.
    \<^item> \<open>Lock\<close>, \<open>Fiber_Semaphore\<close>, \<open>Thread\<close> (\<open>mutex.{h,cpp}\<close>, \<open>thread.{h,cpp}\<close>, \<open>util.cpp\<close>): the locks with the
      contract \<open>lock_contract\<close>, which the lock of an atomic flag meets outright, scoped locks over any of
      them, and semaphores; the semaphore on which coroutines wait; and the start of a thread.

  \<^bold>\<open>What is proved.\<close> Data: a byte array is a file, typed values survive every host and sequence of writes,
  addresses are ordered as their bytes and their text can be looked up again, patterns print what they
  say, configuration and loggers survive YAML. Control: coroutine switches give the thread back with
  the contexts right; a scheduler that says it has stopped has nothing left, its threads leave when all is
  done and \<open>stop\<close> gets through its joins, and no task starves in its queue; no waiter is lost or woken twice, with the counts and the interest list exact; expired timers
  are collected exactly and a new first timer wakes its waiter; no thread of the event loop sleeps over a
  task that any thread may run, but for one race, and then for three seconds at most, unless the next
  timer is \<open>2 ^ 31\<close> ms away or more; a waiting call returns only what it may,
  and loses no wake-up; a semaphore of coroutines is fair; scoped locks exclude; a thread has started when its constructor
  returns; the spinning lock ends exactly if it can. Composition: one round of the event loop queues
  what is due; a new logging configuration sets up the loggers as defined; sockets keep the table of
  descriptors and their own members together; the timeout of \<open>connect\<close> is the configured one. Where the
  code does otherwise than it means to, the property says what it does.

  \<^bold>\<open>Bounds and fuel.\<close> The loops over blocks, buffers, varints and patterns are total functions with a
  termination proof. Two loops may not end and are partial functions: reading a file, whose property
  states that it returns for a file the library wrote, and \<open>CASLock::lock\<close>, whose property says exactly
  when it ends. \<open>Logger::log\<close> calls itself on the root logger; fuel 2 is enough in every reachable state,
  which the property of \<open>Logger\<close> proves by giving a result for every fuel from 2 on. Sums of sizes are taken
  to stay below \<open>2 ^ 64\<close>; where an \<open>int\<close> or a counter can overflow, the theorem has the bound as a hypothesis
  (2 GiB of buffers over SSL, \<open>2 ^ 64\<close> notifications of a semaphore, \<open>2 ^ 31\<close> seconds of a timeout).

  \<^bold>\<open>Not modelled.\<close> The bytes in the pipe that wakes \<open>epoll\<close>, of which only news counts; the destructor of
  \<open>ByteArray\<close>, since its blocks are values here; the initialisation of OpenSSL; memory that runs out; weak
  memory orders. These are outside what the functions compute. Log messages that a component writes
  about itself are left out: they go through \<open>Logger\<close> and change nothing else. A shared address object of
  two sockets is two equal values. The macros of \<open>macro.h\<close> and the class of \<open>noncopyable.h\<close> have no behaviour
  of their own. What remains of the headers is declarations, comments and accessors. Two things that could
  follow are compositions of what is here: the waiting calls of a socket as the steps of \<open>Hook_IO\<close> in
  place of an argument, and the joining of the threads of an \<open>IOManager\<close>, as \<open>Scheduler_Join\<close> has it for the
  plain scheduler.
\<close>

end
